(* ===== verification/Prelude.thy ===== *)
theory Prelude
  imports Main "HOL-Library.Multiset"
begin

text \<open>
  Shared vocabulary of the development: the 64-bit unsigned integers of the code
  (\<open>addr_t\<close>, \<open>size_t\<close>, \<open>uint64_t\<close>) as natural numbers with their wrap-around written
  out, the exceptions the code throws and the ways in which it can fail at run time, the
  result type of fallible code with its sequencing operator, and the generic lemmas on
  lists and results that the component theories use.
\<close>

named_theorems u64_simps \<open>64-bit arithmetic that does not wrap\<close>
named_theorems res_simps \<open>evaluation of sequenced fallible code\<close>

section \<open>Unsigned 64-bit integers\<close>

type_synonym addr_t = nat
type_synonym size_t = nat

abbreviation W64 :: nat where
  "W64 \<equiv> 18446744073709551616"

definition add64 :: "nat \<Rightarrow> nat \<Rightarrow> nat" where
  "add64 a b = (a + b) mod W64"

definition sub64 :: "nat \<Rightarrow> nat \<Rightarrow> nat" where
  "sub64 a b = (a + (W64 - b mod W64)) mod W64"

definition mul64 :: "nat \<Rightarrow> nat \<Rightarrow> nat" where
  "mul64 a b = (a * b) mod W64"

lemma add64_less [simp]: "add64 a b < W64"
  by (simp add: add64_def)

lemma sub64_less [simp]: "sub64 a b < W64"
  by (simp add: sub64_def)

lemma mul64_less [simp]: "mul64 a b < W64"
  by (simp add: mul64_def)

lemma add64_nowrap [u64_simps]: "a + b < W64 \<Longrightarrow> add64 a b = a + b"
  by (simp add: add64_def)

lemma sub64_nowrap [u64_simps]:
  assumes "b \<le> a" and "a < W64"
  shows "sub64 a b = a - b"
proof -
  have "a + (W64 - b mod W64) = (a - b) + W64"
    using assms by simp
  then have "sub64 a b = (a - b) mod W64"
    by (simp add: sub64_def)
  then show ?thesis
    using assms by simp
qed

lemma mul64_nowrap [u64_simps]: "a * b < W64 \<Longrightarrow> mul64 a b = a * b"
  by (simp add: mul64_def)

lemma sub64_int: "int (sub64 a b) = (int a - int b) mod int W64"
proof -
  have "b mod W64 \<le> W64" by (simp add: less_imp_le)
  then have "int (sub64 a b) = (int a - int b mod int W64 + int W64) mod int W64"
    by (simp add: sub64_def of_nat_mod of_nat_diff algebra_simps)
  then show ?thesis by (simp only: mod_add_self2 mod_diff_right_eq)
qed

text \<open>Decrementing zero wraps to the largest value, as \<open>--\<close> on a \<open>size_t\<close> does.\<close>

lemma sub64_zero_one [simp]: "sub64 0 (Suc 0) = W64 - 1"
  by (simp add: sub64_def)

lemma sub64_self [simp]: "a < W64 \<Longrightarrow> sub64 a a = 0"
  by (simp add: sub64_nowrap)

section \<open>Failures and results\<close>

text \<open>
  The exception classes of \<open>common/exceptions.h\<close> and the standard ones the code throws,
  together with the run-time failures that are not exceptions: a failed \<open>assert\<close>, a null
  pointer dereference, an integer division by zero and an operation whose behaviour the
  language leaves undefined (a shift by the word's width, \<open>__builtin_clzl(0)\<close>, a stale
  pointer), a call of \<open>exit\<close>, a call that does not return because it waits for a lock
  another caller holds (\<open>Blocked\<close>), and a loop that does not end (\<open>Diverges\<close>).
\<close>

datatype exn =
    General_exception
  | API_exception
  | Logic_exception
  | Constructor_exception
  | IO_exception
  | Program_exception
  | Data_exception
  | Protocol_exception
  | Invalid_argument
  | Out_of_range
  | Range_error
  | Bad_alloc
  | Assertion_failed
  | Null_deref
  | Div_by_zero
  | Undefined_behaviour
  | Process_exit
  | Blocked
  | Diverges

type_synonym 'a result = "exn + 'a"

fun bind_res :: "'a result \<Rightarrow> ('a \<Rightarrow> 'b result) \<Rightarrow> 'b result" where
  "bind_res (Inl e) f = Inl e"
| "bind_res (Inr x) f = f x"

lemma bind_res_cong [fundef_cong]:
  "m = m' \<Longrightarrow> (\<And>x. m' = Inr x \<Longrightarrow> f x = f' x) \<Longrightarrow> bind_res m f = bind_res m' f'"
  by (cases m') auto

lemma bind_res_Inr_iff [res_simps]:
  "bind_res m f = Inr y \<longleftrightarrow> (\<exists>x. m = Inr x \<and> f x = Inr y)"
  by (cases m) auto

lemma bind_res_Inl_iff:
  "bind_res m f = Inl e \<longleftrightarrow> m = Inl e \<or> (\<exists>x. m = Inr x \<and> f x = Inl e)"
  by (cases m) auto

lemma bind_res_assoc: "bind_res (bind_res m f) g = bind_res m (\<lambda>x. bind_res (f x) g)"
  by (cases m) auto

text \<open>
  An \<open>assert\<close> is checked in a build with assertions (\<open>dbg\<close>) and does nothing in a build
  without them; \<open>dbg\<close> is an argument of every model whose source asserts.
\<close>

definition assert_res :: "bool \<Rightarrow> bool \<Rightarrow> unit result" where
  "assert_res dbg c = (if dbg \<and> \<not> c then Inl Assertion_failed else Inr ())"

lemma assert_res_True [simp]: "assert_res dbg True = Inr ()"
  by (simp add: assert_res_def)

lemma assert_res_holds [res_simps]: "c \<Longrightarrow> assert_res dbg c = Inr ()"
  by (simp add: assert_res_def)

lemma assert_res_Inr_iff: "assert_res dbg c = Inr u \<longleftrightarrow> (dbg \<longrightarrow> c)"
  by (simp add: assert_res_def)

definition throw_if :: "bool \<Rightarrow> exn \<Rightarrow> unit result" where
  "throw_if c e = (if c then Inl e else Inr ())"

lemma throw_if_False [simp]: "throw_if False e = Inr ()"
  by (simp add: throw_if_def)

lemma throw_if_True [simp]: "throw_if True e = Inl e"
  by (simp add: throw_if_def)

lemma throw_if_Inr_iff [res_simps]: "throw_if c e = Inr u \<longleftrightarrow> \<not> c"
  by (simp add: throw_if_def)

section \<open>Stateful code that can throw\<close>

text \<open>
  A method that updates its object and may throw is a function from the object's state to a
  result and the state it leaves behind. The state is returned next to an exception too, so
  that what a caller finds after catching it is part of the model.
\<close>

type_synonym ('s, 'a) prog = "'s \<Rightarrow> 'a result \<times> 's"

definition ret_p :: "'a \<Rightarrow> ('s, 'a) prog" where
  "ret_p x = (\<lambda>s. (Inr x, s))"

definition throw_p :: "exn \<Rightarrow> ('s, 'a) prog" where
  "throw_p e = (\<lambda>s. (Inl e, s))"

definition lift_p :: "'a result \<Rightarrow> ('s, 'a) prog" where
  "lift_p r = (\<lambda>s. (r, s))"

definition get_p :: "('s \<Rightarrow> 'a) \<Rightarrow> ('s, 'a) prog" where
  "get_p f = (\<lambda>s. (Inr (f s), s))"

definition update_p :: "('s \<Rightarrow> 's) \<Rightarrow> ('s, unit) prog" where
  "update_p f = (\<lambda>s. (Inr (), f s))"

definition bind_p :: "('s, 'a) prog \<Rightarrow> ('a \<Rightarrow> ('s, 'b) prog) \<Rightarrow> ('s, 'b) prog" where
  "bind_p m f = (\<lambda>s. case m s of (Inl e, s') \<Rightarrow> (Inl e, s') | (Inr x, s') \<Rightarrow> f x s')"

definition assert_p :: "bool \<Rightarrow> bool \<Rightarrow> ('s, unit) prog" where
  "assert_p dbg c = lift_p (assert_res dbg c)"

lemma run_prog [simp]:
  "ret_p x s = (Inr x, s)"
  "throw_p e s = (Inl e, s)"
  "lift_p r s = (r, s)"
  "get_p f s = (Inr (f s), s)"
  "update_p g s = (Inr (), g s)"
  "assert_p dbg c s = (assert_res dbg c, s)"
  by (simp_all add: ret_p_def throw_p_def lift_p_def get_p_def update_p_def assert_p_def)

lemma run_bind [simp]:
  "m s = (Inr x, s') \<Longrightarrow> bind_p m f s = f x s'"
  "m s = (Inl e, s') \<Longrightarrow> bind_p m f s = (Inl e, s')"
  by (simp_all add: bind_p_def)

lemma run_bind_prog [simp]:
  "bind_p (ret_p x) f s = f x s"
  "bind_p (throw_p e) f s = (Inl e, s)"
  "bind_p (get_p g) f s = f (g s) s"
  "bind_p (update_p g) f s = f () (g s)"
  by (simp_all add: bind_p_def)

lemma bind_p_split:
  "P (bind_p m f s) \<longleftrightarrow>
     (\<forall>e s'. m s = (Inl e, s') \<longrightarrow> P (Inl e, s')) \<and> (\<forall>x s'. m s = (Inr x, s') \<longrightarrow> P (f x s'))"
  by (auto simp: bind_p_def split: prod.splits sum.splits)

section \<open>Bit lengths\<close>

text \<open>
  The position of the most significant set bit, counted from 1; \<open>__builtin_clzl\<close> on a
  non-zero 64-bit value is 64 minus it.
\<close>

fun bit_length :: "nat \<Rightarrow> nat" where
  "bit_length n = (if n = 0 then 0 else Suc (bit_length (n div 2)))"

declare bit_length.simps [simp del]

definition clzl :: "nat \<Rightarrow> nat" where
  "clzl n = 64 - bit_length n"

lemma bit_length_0 [simp]: "bit_length 0 = 0"
  by (simp add: bit_length.simps)

lemma bit_length_pos: "0 < n \<Longrightarrow> bit_length n = Suc (bit_length (n div 2))"
  by (subst bit_length.simps) simp

lemma bit_length_upper: "n < 2 ^ bit_length n"
proof (induction n rule: bit_length.induct)
  case (1 n)
  show ?case
  proof (cases "n = 0")
    case True
    then show ?thesis by simp
  next
    case False
    with 1 have "n div 2 < 2 ^ bit_length (n div 2)" by simp
    then have "n < 2 * 2 ^ bit_length (n div 2)" by linarith
    with False show ?thesis by (simp add: bit_length_pos)
  qed
qed

lemma bit_length_lower: "0 < n \<Longrightarrow> 2 ^ (bit_length n - 1) \<le> n"
proof (induction n rule: bit_length.induct)
  case (1 n)
  show ?case
  proof (cases "n div 2 = 0")
    case True
    with "1.prems" have "n = 1" by linarith
    then show ?thesis by (simp add: bit_length_pos)
  next
    case False
    with 1 have IH: "2 ^ (bit_length (n div 2) - 1) \<le> n div 2" by simp
    have "bit_length n - 1 = Suc (bit_length (n div 2) - 1)"
      using False "1.prems" bit_length_pos [of "n div 2"] by (simp add: bit_length_pos)
    then have "(2::nat) ^ (bit_length n - 1) = 2 * 2 ^ (bit_length (n div 2) - 1)" by simp
    with IH show ?thesis by linarith
  qed
qed

lemma bit_length_le: "n < 2 ^ k \<Longrightarrow> bit_length n \<le> k"
proof -
  assume lt: "n < 2 ^ k"
  show ?thesis
  proof (cases "n = 0")
    case False
    then have "2 ^ (bit_length n - 1) \<le> n" by (intro bit_length_lower) simp
    with lt have "(2::nat) ^ (bit_length n - 1) < 2 ^ k" by linarith
    then have "bit_length n - 1 < k" by simp
    then show ?thesis by linarith
  qed simp
qed

lemma fsmsb_clzl: "n < W64 \<Longrightarrow> 64 - clzl n = bit_length n"
  using bit_length_le [of n 64] by (simp add: clzl_def)

section \<open>Lists\<close>

lemma sorted_insort_middle:
  fixes x :: "'a::linorder"
  assumes "sorted (xs @ ys)" and "\<forall>y \<in> set xs. y \<le> x" and "\<forall>y \<in> set ys. x \<le> y"
    and "x \<notin> set ys" and "x \<notin> set xs"
  shows "insort x (xs @ ys) = xs @ x # ys"
proof -
  have "sorted (xs @ x # ys)"
    using assms by (auto simp: sorted_append)
  moreover have "mset (insort x (xs @ ys)) = mset (xs @ x # ys)"
    by simp
  ultimately show ?thesis
    using assms(1) by (metis properties_for_sort sorted_insort)
qed

lemma sum_list_map_filter_le:
  fixes f :: "'a \<Rightarrow> nat"
  shows "sum_list (map f (filter P xs)) \<le> sum_list (map f xs)"
  by (induction xs) auto

end
