(* ===== verification/Utils.thy ===== *)
theory Utils
  imports Prelude
begin

unbundle bit_operations_syntax

text \<open>
  The alignment and rounding helpers of \<open>src/lib/common/include/common/utils.h\<close>, used by
  every allocator of the system. Values are 64-bit unsigned integers; an addition wraps, a
  division by a zero alignment fails, and a shift by the word's width is undefined.
\<close>

section \<open>Rounding to an alignment\<close>

definition round_up :: "addr_t \<Rightarrow> nat \<Rightarrow> addr_t result" where
  "round_up p alignment =
     (if alignment = 0 then Inl Div_by_zero
      else let rdown = p div alignment * alignment
           in if rdown = p then Inr p else Inr (add64 rdown alignment))"

definition round_down :: "addr_t \<Rightarrow> nat \<Rightarrow> addr_t result" where
  "round_down p alignment =
     (if alignment = 0 then Inl Div_by_zero else Inr (p div alignment * alignment))"

definition check_aligned :: "nat \<Rightarrow> nat \<Rightarrow> bool result" where
  "check_aligned p alignment =
     (if alignment = 0 then Inl Div_by_zero else Inr (p mod alignment = 0))"

definition assert_aligned :: "bool \<Rightarrow> nat \<Rightarrow> nat \<Rightarrow> unit result" where
  "assert_aligned dbg p alignment =
     (if dbg then bind_res (check_aligned p alignment) (assert_res dbg) else Inr ())"

section \<open>Powers of two\<close>

definition is_power_of_two :: "nat \<Rightarrow> bool" where
  "is_power_of_two x \<longleftrightarrow> x \<noteq> 0 \<and> x AND (x - 1) = 0"

text \<open>\<open>__builtin_ctzl\<close>: the number of trailing zero bits, undefined on zero.\<close>

fun ctzl :: "nat \<Rightarrow> nat" where
  "ctzl n = (if n = 0 \<or> odd n then 0 else Suc (ctzl (n div 2)))"

declare ctzl.simps [simp del]

definition log_base2 :: "nat \<Rightarrow> nat result" where
  "log_base2 val = (if val = 0 then Inl Undefined_behaviour else Inr (ctzl val))"

definition round_up_log2 :: "addr_t \<Rightarrow> addr_t result" where
  "round_up_log2 a =
     (if a = 0 then Inl Undefined_behaviour
      else let fsmsb = 64 - clzl a;
               fsmsb' = (if 2 ^ (fsmsb - 1) = a then fsmsb - 1 else fsmsb)
           in if fsmsb' < 64 then Inr (2 ^ fsmsb') else Inl Undefined_behaviour)"

section \<open>Pages\<close>

definition not64 :: "nat \<Rightarrow> nat" where
  "not64 a = W64 - 1 - a"

definition round_up_superpage :: "addr_t \<Rightarrow> addr_t" where
  "round_up_superpage a =
     (if a AND 0x3fffff = 0 then a else add64 (a AND not64 0x3fffff) (4 * 2 ^ 20))"

definition round_up_page :: "addr_t \<Rightarrow> addr_t" where
  "round_up_page a = (if a AND 0xfff = 0 then a else add64 (a AND not64 0xfff) (4 * 2 ^ 10))"

definition round_down_page :: "addr_t \<Rightarrow> addr_t" where
  "round_down_page a = (if a AND 0xfff = 0 then a else a AND not64 0xfff)"

definition round_down_by_shift :: "addr_t \<Rightarrow> nat \<Rightarrow> addr_t result" where
  "round_down_by_shift a shift =
     (if shift < 64 then Inr (push_bit shift (drop_bit shift a)) else Inl Undefined_behaviour)"

abbreviation (input) CACHE_LINE_SIZE :: nat where "CACHE_LINE_SIZE \<equiv> 64"
abbreviation (input) CACHE_LINE_SHIFT :: nat where "CACHE_LINE_SHIFT \<equiv> 6"

definition round_down_cacheline :: "addr_t \<Rightarrow> addr_t result" where
  "round_down_cacheline a = round_down a CACHE_LINE_SHIFT"

section \<open>Lemmas\<close>

lemma round_up_aligned: "0 < al \<Longrightarrow> p mod al = 0 \<Longrightarrow> round_up p al = Inr p"
  by (auto simp: round_up_def Let_def)

lemma round_up_unaligned:
  assumes "0 < al" "p mod al \<noteq> 0" "p div al * al + al < W64"
  shows "round_up p al = Inr (p + (al - p mod al))"
proof -
  define d where "d = p div al * al"
  have d: "d + p mod al = p" "p mod al < al"
    using assms(1) by (simp_all add: d_def)
  then have "d \<noteq> p" using assms(2) by linarith
  then have "round_up p al = Inr (d + al)"
    using assms(1,3) by (simp add: round_up_def Let_def add64_nowrap flip: d_def)
  also have "d + al = p + (al - p mod al)" using d by linarith
  finally show ?thesis .
qed

lemma check_aligned_pos [simp]: "0 < al \<Longrightarrow> check_aligned p al = Inr (p mod al = 0)"
  by (simp add: check_aligned_def)

lemma assert_aligned_ok: "0 < al \<Longrightarrow> p mod al = 0 \<Longrightarrow> assert_aligned dbg p al = Inr ()"
  by (simp add: assert_aligned_def)

lemma assert_aligned_nodbg [simp]: "assert_aligned False p al = Inr ()"
  by (simp add: assert_aligned_def)

lemma and_low_mask: "(a::nat) AND (2 ^ k - 1) = a mod 2 ^ k"
  by (simp only: take_bit_eq_mod [symmetric] take_bit_eq_mask mask_eq_exp_minus_1)

lemma bit_above_W64:
  assumes "a < W64" "64 \<le> n"
  shows "\<not> bit a n"
proof -
  have "(2::nat) ^ 64 \<le> 2 ^ n"
    using assms(2) by (rule power_increasing) simp
  moreover have "a < 2 ^ 64" using assms(1) by simp
  ultimately have "a < 2 ^ n" by (rule less_le_trans [rotated])
  then show ?thesis by (simp add: bit_iff_odd)
qed

lemma not64_low_mask:
  assumes "k \<le> 64"
  shows "not64 (2 ^ k - 1) = push_bit k (mask (64 - k))"
proof -
  have "(2::nat) ^ 64 = 2 ^ (k + (64 - k))" using assms by simp
  also have "\<dots> = 2 ^ k * 2 ^ (64 - k)" by (rule power_add)
  finally have "W64 = 2 ^ k * 2 ^ (64 - k)" by simp
  moreover have "push_bit k (mask (64 - k)) = 2 ^ k * 2 ^ (64 - k) - (2 ^ k :: nat)"
    by (simp add: push_bit_eq_mult mask_eq_exp_minus_1 diff_mult_distrib2 mult.commute)
  ultimately show ?thesis by (simp add: not64_def)
qed

lemma and_not64_mask:
  assumes "a < W64" "k \<le> 64"
  shows "a AND not64 (2 ^ k - 1) = a div 2 ^ k * 2 ^ k"
proof -
  have "a AND push_bit k (mask (64 - k)) = push_bit k (drop_bit k a)"
  proof (rule bit_eqI)
    fix n
    show "bit (a AND push_bit k (mask (64 - k))) n = bit (push_bit k (drop_bit k a)) n"
      using assms(2) bit_above_W64 [OF assms(1), of n] by (cases "64 \<le> n") (auto simp: bit_simps)
  qed
  then show ?thesis
    by (simp only: not64_low_mask [OF assms(2)] push_bit_eq_mult drop_bit_eq_div)
qed

lemma page_masks:
  "a AND 0xfff = a mod 4096"
  "a AND 0x3fffff = a mod 4194304"
  "a < W64 \<Longrightarrow> a AND not64 0xfff = a div 4096 * 4096"
  "a < W64 \<Longrightarrow> a AND not64 0x3fffff = a div 4194304 * 4194304"
  using and_low_mask [of a 12] and_low_mask [of a 22]
    and_not64_mask [of a 12] and_not64_mask [of a 22] by simp_all

lemma ctzl_power [simp]: "ctzl (2 ^ k) = k"
proof (induction k)
  case 0
  then show ?case by (simp add: ctzl.simps)
next
  case (Suc k)
  then show ?case by (subst ctzl.simps) simp
qed


lemma top_bit_set:
  assumes "2 ^ k \<le> n" "n < 2 * 2 ^ k"
  shows "bit (n::nat) k"
proof -
  have "n div 2 ^ k = 1"
    by (rule div_nat_eqI) (use assms in auto)
  then show ?thesis by (simp add: bit_iff_odd)
qed

lemma bit_length_bracket:
  assumes "0 < n"
  obtains k where "bit_length n = Suc k" "2 ^ k \<le> n" "n < 2 * 2 ^ k"
proof -
  have "bit_length n = Suc (bit_length n - 1)"
    using assms by (simp add: bit_length_pos)
  moreover have "n < 2 * 2 ^ (bit_length n - 1)"
    using bit_length_upper [of n] calculation by (metis power_Suc)
  ultimately show ?thesis
    using that bit_length_lower [OF assms] by blast
qed

lemma power_of_two_and: "(2 ^ k :: nat) AND (2 ^ k - 1) = 0"
  by (simp only: and_low_mask) simp

section \<open>Properties\<close>

text \<open>
  \<open>is_power_of_two\<close> accepts exactly the powers of two, and on those \<open>log_base2\<close>
  returns the exponent.
\<close>

theorem is_power_of_two_exact:
  "is_power_of_two x \<longleftrightarrow> (\<exists>k. x = 2 ^ k \<and> log_base2 x = Inr k)"
proof
  assume x: "is_power_of_two x"
  then have "0 < x" by (simp add: is_power_of_two_def)
  then obtain k where k: "2 ^ k \<le> x" "x < 2 * 2 ^ k"
    by (rule bit_length_bracket)
  have "x = 2 ^ k"
  proof (rule ccontr)
    assume "x \<noteq> 2 ^ k"
    with k have "bit x k" "bit (x - 1) k"
      by (auto intro!: top_bit_set)
    then have "bit (x AND (x - 1)) k" by (simp add: bit_and_iff)
    with x show False by (simp add: is_power_of_two_def)
  qed
  then show "\<exists>k. x = 2 ^ k \<and> log_base2 x = Inr k"
    by (auto simp: log_base2_def)
next
  assume "\<exists>k. x = 2 ^ k \<and> log_base2 x = Inr k"
  then show "is_power_of_two x"
    using power_of_two_and by (auto simp: is_power_of_two_def)
qed

text \<open>
  On every address the page and super-page roundings compute what \<open>round_up\<close> and
  \<open>round_down\<close> compute for alignments of 4 KiB and 4 MiB, wrap-around included.
\<close>

theorem page_rounding_equiv:
  assumes "a < W64"
  shows "round_up a 4096 = Inr (round_up_page a)
    \<and> round_down a 4096 = Inr (round_down_page a)
    \<and> round_up a (4 * 2 ^ 20) = Inr (round_up_superpage a)
    \<and> round_down_by_shift a 12 = round_down a 4096"
proof (intro conjI)
  have aligned: "(m dvd a) = (a div m * m = a)" for m :: nat
    by (metis dvd_div_mult_self dvd_triv_right)
  show "round_up a 4096 = Inr (round_up_page a)"
    using assms aligned [of 4096]
    by (simp add: round_up_def round_up_page_def page_masks mod_eq_0_iff_dvd Let_def)
  show "round_down a 4096 = Inr (round_down_page a)"
    using assms aligned [of 4096]
    by (simp add: round_down_def round_down_page_def page_masks mod_eq_0_iff_dvd)
  show "round_up a (4 * 2 ^ 20) = Inr (round_up_superpage a)"
    using assms aligned [of 4194304]
    by (simp add: round_up_def round_up_superpage_def page_masks mod_eq_0_iff_dvd Let_def)
  show "round_down_by_shift a 12 = round_down a 4096"
    by (simp add: round_down_by_shift_def round_down_def push_bit_eq_mult drop_bit_eq_div)
qed

theorem page_rounding_equiv_witness:
  "(4097::nat) < W64 \<and> round_up 4097 4096 = Inr (round_up_page 4097)"
  using page_rounding_equiv [of 4097] by simp

text \<open>
  for a positive alignment and an address whose next aligned address is representable,
  \<open>round_up\<close> returns the least aligned address that is not below it.
\<close>

theorem round_up_least:
  assumes "0 < al" "p div al * al + al < W64"
  shows "\<exists>q. round_up p al = Inr q \<and> al dvd q \<and> p \<le> q \<and> (\<forall>r. al dvd r \<and> p \<le> r \<longrightarrow> q \<le> r)"
proof (cases "p mod al = 0")
  case True
  then show ?thesis
    using round_up_aligned [OF assms(1) True] by (auto simp: mod_eq_0_iff_dvd)
next
  case False
  let ?q = "p + (al - p mod al)"
  have lt: "p mod al < al" using assms(1) by simp
  have q: "?q = (p div al + 1) * al"
  proof -
    define d where "d = p div al * al"
    have "d + p mod al = p" by (simp add: d_def)
    then have "?q = d + al" using lt by linarith
    then show ?thesis by (simp add: d_def)
  qed
  have "?q \<le> r" if r: "al dvd r" "p \<le> r" for r
  proof -
    from r(1) obtain c where c: "r = c * al" by (metis dvd_def mult.commute)
    have "p div al < c"
    proof (rule ccontr)
      assume "\<not> p div al < c"
      then have "c * al \<le> p div al * al" by simp
      with r(2) c have "p \<le> p div al * al" by linarith
      then have "p mod al = 0" using div_mult_mod_eq [of p al] by linarith
      with False show False ..
    qed
    then have "(p div al + 1) * al \<le> c * al" by (intro mult_le_mono1) simp
    then show ?thesis by (simp only: q c)
  qed
  moreover have "al dvd ?q" by (simp only: q) simp
  ultimately show ?thesis
    using round_up_unaligned [OF assms(1) False assms(2)] by auto
qed

theorem round_up_least_witness:
  "\<exists>q. round_up 100 64 = Inr q \<and> 64 dvd q \<and> 100 \<le> q"
  using round_up_least [of 64 100] by auto

text \<open>
  up to \<open>2 ^ 63\<close>, \<open>round_up_log2\<close> returns the least power of two that is not
  below its argument.
\<close>

theorem round_up_log2_least:
  assumes "0 < a" "a \<le> 2 ^ 63"
  shows "\<exists>k. round_up_log2 a = Inr (2 ^ k) \<and> a \<le> 2 ^ k \<and> (\<forall>j. a \<le> 2 ^ j \<longrightarrow> k \<le> j)"
proof -
  obtain m where m: "bit_length a = Suc m" "2 ^ m \<le> a" "a < 2 * 2 ^ m"
    using assms(1) by (rule bit_length_bracket)
  have f: "64 - clzl a = Suc m"
    using assms(2) m(1) fsmsb_clzl [of a] by simp
  have least: "m \<le> j" if "2 ^ m \<le> (2::nat) ^ j" for j
    using that by simp
  show ?thesis
  proof (cases "2 ^ m = a")
    case True
    then have "m \<le> 63" using assms(2) by (metis one_less_numeral_iff power_increasing_iff semiring_norm(76))
    with True show ?thesis
      using assms(1) f least by (auto simp: round_up_log2_def Let_def)
  next
    case False
    have "Suc m \<le> j" if "a \<le> 2 ^ j" for j
    proof -
      have "(2::nat) ^ m < 2 ^ j" using that False m(2) by linarith
      then show ?thesis by simp
    qed
    moreover from this [of 63] assms(2) have "Suc m < 64" by simp
    ultimately show ?thesis
      using assms(1) f False m(3)
      by (intro exI [of _ "Suc m"]) (auto simp: round_up_log2_def Let_def)
  qed
qed

theorem round_up_log2_least_witness:
  "\<exists>k. round_up_log2 5 = Inr (2 ^ k) \<and> 5 \<le> (2::nat) ^ k"
  using round_up_log2_least [of 5] by auto

text \<open>
  \<open>round_down_cacheline\<close> divides by the shift instead of the line size: there is an
  address whose result is not the start of a cache line.
\<close>

theorem round_down_cacheline_not_line:
  "round_down_cacheline 100 = Inr 96 \<and> \<not> CACHE_LINE_SIZE dvd (96::nat)"
  by (simp add: round_down_cacheline_def round_down_def)

end
