(* ===== verification/Avl_Tree.thy ===== *)
theory Avl_Tree
  imports Prelude
begin

text \<open>
  The balance-factor AVL tree of \<open>src/lib/core/include/core/avl_tree.h\<close>: the node type,
  comparison, the two rotations, \<open>rebalance\<close>, recursive \<open>insert\<close> and \<open>remove\<close>,
  \<open>height\<close>, \<open>validate\<close> and the stack-driven traversal \<open>apply_topdown\<close>. A subtree
  pointer is a value of the tree type (\<open>Null\<close> for \<open>nullptr\<close>); a function that takes
  \<open>AVL_node *& root\<close> and assigns it returns the new subtree. The virtual comparison
  \<open>higher\<close> of the node's superclass is the order of the element type.
\<close>

section \<open>Nodes and comparison\<close>

datatype cmp_t = MIN_CMP | EQ_CMP | MAX_CMP

datatype dir_t = LEFT | RIGHT

datatype 'a avl_node =
    Null
  | Node (left_sub: "'a avl_node") (elem: 'a) (bf: int) (right_sub: "'a avl_node")
  where
    "left_sub Null = Null"
  | "right_sub Null = Null"

abbreviation (input) LEFT_HEAVY :: int where "LEFT_HEAVY \<equiv> -1"
abbreviation (input) RIGHT_HEAVY :: int where "RIGHT_HEAVY \<equiv> 1"
abbreviation (input) HEIGHT_NOCHANGE :: int where "HEIGHT_NOCHANGE \<equiv> 0"
abbreviation (input) HEIGHT_CHANGE :: int where "HEIGHT_CHANGE \<equiv> 1"

fun cmp_int :: "cmp_t \<Rightarrow> int" where
  "cmp_int MIN_CMP = -1"
| "cmp_int EQ_CMP = 0"
| "cmp_int MAX_CMP = 1"

definition LEFT_IMBALANCE :: "int \<Rightarrow> bool" where
  "LEFT_IMBALANCE bal \<longleftrightarrow> bal < LEFT_HEAVY"

definition RIGHT_IMBALANCE :: "int \<Rightarrow> bool" where
  "RIGHT_IMBALANCE bal \<longleftrightarrow> RIGHT_HEAVY < bal"

definition compare :: "'a::linorder \<Rightarrow> 'a \<Rightarrow> cmp_t" where
  "compare this n = (if n < this then MIN_CMP else if this < n then MAX_CMP else EQ_CMP)"

definition compare_cmp :: "'a::linorder avl_node \<Rightarrow> 'a \<Rightarrow> 'a \<Rightarrow> 'a avl_node \<Rightarrow> cmp_t \<Rightarrow> cmp_t" where
  "compare_cmp l this n r cmp =
     (case cmp of
        EQ_CMP \<Rightarrow> compare this n
      | MIN_CMP \<Rightarrow> if l = Null then EQ_CMP else MIN_CMP
      | MAX_CMP \<Rightarrow> if r = Null then EQ_CMP else MAX_CMP)"

section \<open>Rotations and rebalancing\<close>

definition rotate_once :: "'a avl_node \<Rightarrow> dir_t \<Rightarrow> ('a avl_node \<times> int) result" where
  "rotate_once root dir =
     (case root of
        Null \<Rightarrow> Inl Null_deref
      | Node l x b r \<Rightarrow>
          (case dir of
             RIGHT \<Rightarrow>
               (case l of
                  Null \<Rightarrow> Inl Null_deref
                | Node ll y yb lr \<Rightarrow>
                    Inr (Node ll y (yb + 1) (Node lr x (- (yb + 1)) r),
                         if yb = 0 then HEIGHT_NOCHANGE else HEIGHT_CHANGE))
           | LEFT \<Rightarrow>
               (case r of
                  Null \<Rightarrow> Inl Null_deref
                | Node rl y yb rr \<Rightarrow>
                    Inr (Node (Node l x (- (yb - 1)) rl) y (yb - 1) rr,
                         if yb = 0 then HEIGHT_NOCHANGE else HEIGHT_CHANGE))))"

definition rotate_twice :: "'a avl_node \<Rightarrow> dir_t \<Rightarrow> ('a avl_node \<times> int) result" where
  "rotate_twice root dir =
     (case root of
        Null \<Rightarrow> Inl Null_deref
      | Node l x b r \<Rightarrow>
          (case dir of
             RIGHT \<Rightarrow>
               (case l of
                  Null \<Rightarrow> Inl Null_deref
                | Node ll y yb lr \<Rightarrow>
                    (case lr of
                       Null \<Rightarrow> Inl Null_deref
                     | Node a z zb c \<Rightarrow>
                         Inr (Node (Node ll y (- max zb 0) a) z 0 (Node c x (- min zb 0) r),
                              HEIGHT_CHANGE)))
           | LEFT \<Rightarrow>
               (case r of
                  Null \<Rightarrow> Inl Null_deref
                | Node rl y yb rr \<Rightarrow>
                    (case rl of
                       Null \<Rightarrow> Inl Null_deref
                     | Node a z zb c \<Rightarrow>
                         Inr (Node (Node l x (- max zb 0) a) z 0 (Node c y (- min zb 0) rr),
                              HEIGHT_CHANGE)))))"

definition rebalance :: "'a avl_node \<Rightarrow> ('a avl_node \<times> int) result" where
  "rebalance root =
     (case root of
        Null \<Rightarrow> Inl API_exception
      | Node l x b r \<Rightarrow>
          if LEFT_IMBALANCE b then
            (case l of
               Null \<Rightarrow> Inl Logic_exception
             | Node _ _ lb _ \<Rightarrow>
                 if lb = RIGHT_HEAVY then rotate_twice root RIGHT else rotate_once root RIGHT)
          else if RIGHT_IMBALANCE b then
            (case r of
               Null \<Rightarrow> Inl Logic_exception
             | Node _ _ rb _ \<Rightarrow>
                 if rb = LEFT_HEAVY then rotate_twice root LEFT else rotate_once root LEFT)
          else Inr (root, HEIGHT_NOCHANGE))"

section \<open>Insertion and removal\<close>

text \<open>
  The result pairs the new subtree with \<open>change\<close>, the out-parameter that says whether the
  subtree's height changed. A conflicting key throws before anything is written.
\<close>

fun avl_insert :: "'a::linorder \<Rightarrow> 'a avl_node \<Rightarrow> ('a avl_node \<times> int) result" where
  "avl_insert n Null = Inr (Node Null n 0 Null, HEIGHT_CHANGE)"
| "avl_insert n (Node l x b r) =
     (let res = compare x n;
          dir = (if res = MIN_CMP then LEFT else RIGHT)
      in if res \<noteq> EQ_CMP then
           bind_res (avl_insert n (if dir = LEFT then l else r)) (\<lambda>(s, change).
             let increase = cmp_int res * change;
                 b' = b + increase;
                 root = (if dir = LEFT then Node s x b' r else Node l x b' s)
             in if increase \<noteq> 0 \<and> b' \<noteq> 0
                then bind_res (rebalance root) (\<lambda>(t, h). Inr (t, 1 - h))
                else Inr (root, HEIGHT_NOCHANGE))
         else Inl API_exception)"

text \<open>
  \<open>remove\<close> returns the new subtree, \<open>change\<close>, and the node it unlinked (\<open>None\<close> for
  \<open>nullptr\<close>). With \<open>MIN_CMP\<close> it unlinks the least node of the subtree, which is how
  a node with two children is replaced by its successor.
\<close>

definition remove_finish :: "'a avl_node \<Rightarrow> int \<Rightarrow> 'a \<Rightarrow> ('a avl_node \<times> int \<times> 'a option) result" where
  "remove_finish root decrease ret =
     (case root of
        Null \<Rightarrow> Inl Null_deref
      | Node l x b r \<Rightarrow>
          (let b' = b - decrease; root' = Node l x b' r
           in if decrease \<noteq> 0 then
                if b' \<noteq> 0
                then bind_res (rebalance root') (\<lambda>(t, h). Inr (t, h, Some ret))
                else Inr (root', HEIGHT_CHANGE, Some ret)
              else Inr (root', HEIGHT_NOCHANGE, Some ret)))"

fun avl_remove :: "'a::linorder \<Rightarrow> 'a avl_node \<Rightarrow> cmp_t \<Rightarrow> ('a avl_node \<times> int \<times> 'a option) result" where
  "avl_remove n Null cmp = Inr (Null, HEIGHT_NOCHANGE, None)"
| "avl_remove n (Node l x b r) cmp =
     (let res = compare_cmp l x n r cmp;
          dir = (if res = MIN_CMP then LEFT else RIGHT)
      in if res \<noteq> EQ_CMP then
           bind_res (avl_remove n (if dir = LEFT then l else r) cmp) (\<lambda>(s, change, ret).
             case ret of
               None \<Rightarrow> Inl API_exception
             | Some v \<Rightarrow>
                 remove_finish (if dir = LEFT then Node s x b r else Node l x b s)
                   (cmp_int res * change) v)
         else if l = Null \<and> r = Null then Inr (Null, HEIGHT_CHANGE, Some x)
         else if l = Null \<or> r = Null then
           Inr (if r \<noteq> Null then r else l, HEIGHT_CHANGE, Some x)
         else
           bind_res (avl_remove n r MIN_CMP) (\<lambda>(s, decrease, ret).
             case ret of
               None \<Rightarrow> Inl Null_deref
             | Some v \<Rightarrow> remove_finish (Node l v b s) decrease x))"

definition insert_node :: "'a::linorder avl_node \<Rightarrow> 'a \<Rightarrow> 'a avl_node result" where
  "insert_node root n = bind_res (avl_insert n root) (\<lambda>(t, change). Inr t)"

definition remove_node :: "'a::linorder avl_node \<Rightarrow> 'a \<Rightarrow> 'a avl_node result" where
  "remove_node root n = bind_res (avl_remove n root EQ_CMP) (\<lambda>(t, change, ret). Inr t)"

section \<open>Height, validation and traversal\<close>

fun height :: "'a avl_node \<Rightarrow> nat" where
  "height Null = 0"
| "height (Node l x b r) = 1 + max (height l) (height r)"

fun validate :: "'a::linorder avl_node \<Rightarrow> bool" where
  "validate Null = True"
| "validate (Node l x b r) =
     (let diff = int (height r) - int (height l)
      in validate l \<and> validate r
         \<and> \<not> (LEFT_IMBALANCE diff \<or> RIGHT_IMBALANCE diff)
         \<and> diff = b
         \<and> \<not> (l \<noteq> Null \<and> compare (elem l) x = MIN_CMP)
         \<and> \<not> (r \<noteq> Null \<and> compare (elem r) x = MAX_CMP))"

text \<open>
  The explicit stack of the iterative traversals: the head of the list is the back of the
  vector. \<open>push_children\<close> pushes the left child and then the right child when they are not
  null, so the right subtree is visited first.
\<close>

definition push_children :: "'a avl_node \<Rightarrow> 'a avl_node \<Rightarrow> 'a avl_node list \<Rightarrow> 'a avl_node list" where
  "push_children l r st =
     (let st1 = (if l \<noteq> Null then l # st else st)
      in if r \<noteq> Null then r # st1 else st1)"

function topdown_loop :: "'a avl_node list \<Rightarrow> 'a list result" where
  "topdown_loop [] = Inr []"
| "topdown_loop (Null # st) = Inl Null_deref"
| "topdown_loop (Node l x b r # st) =
     bind_res (topdown_loop (push_children l r st)) (\<lambda>xs. Inr (x # xs))"
  by pat_completeness auto
termination
  by (relation "measure (\<lambda>st. sum_list (map size st))")
    (auto simp: push_children_def Let_def)

definition apply_topdown :: "'a avl_node \<Rightarrow> 'a list result" where
  "apply_topdown root = topdown_loop [root]"

definition is_empty :: "'a avl_node \<Rightarrow> bool" where
  "is_empty root \<longleftrightarrow> root = Null"

section \<open>Invariant\<close>

fun inorder :: "'a avl_node \<Rightarrow> 'a list" where
  "inorder Null = []"
| "inorder (Node l x b r) = inorder l @ x # inorder r"

abbreviation avl_keys :: "'a avl_node \<Rightarrow> 'a set" where
  "avl_keys t \<equiv> set (inorder t)"

fun balanced :: "'a avl_node \<Rightarrow> bool" where
  "balanced Null = True"
| "balanced (Node l x b r) \<longleftrightarrow>
     b = int (height r) - int (height l) \<and> -1 \<le> b \<and> b \<le> 1 \<and> balanced l \<and> balanced r"

definition avl_inv :: "'a::linorder avl_node \<Rightarrow> bool" where
  "avl_inv t \<longleftrightarrow> balanced t \<and> sorted_wrt (<) (inorder t)"

section \<open>Correctness of rebalancing\<close>

lemma height_0_iff [simp]: "height t = 0 \<longleftrightarrow> t = Null"
  by (cases t) auto

lemma inorder_Nil_iff [simp]: "inorder t = [] \<longleftrightarrow> t = Null"
  by (cases t) auto

lemma rebalance_left:
  assumes "balanced l" "balanced r" "height l = height r + 2"
  shows "\<exists>t hc. rebalance (Node l x (-2) r) = Inr (t, hc) \<and> balanced t
           \<and> inorder t = inorder l @ x # inorder r \<and> (hc = 0 \<or> hc = 1)
           \<and> int (height t) + hc = int (height l) + 1"
proof (cases l)
  case Null
  with assms show ?thesis by simp
next
  case l: (Node ll y yb lr)
  show ?thesis
  proof (cases "yb = RIGHT_HEAVY")
    case True
    with assms l obtain a z zb c where lr: "lr = Node a z zb c"
      by (cases lr) auto
    have "rebalance (Node l x (-2) r) =
        Inr (Node (Node ll y (- max zb 0) a) z 0 (Node c x (- min zb 0) r), 1)"
      using True l lr by (simp add: rebalance_def rotate_twice_def LEFT_IMBALANCE_def)
    with assms True l lr show ?thesis by (auto simp: max_def min_def split: if_splits)
  next
    case False
    have "rebalance (Node l x (-2) r) =
        Inr (Node ll y (yb + 1) (Node lr x (- (yb + 1)) r), if yb = 0 then 0 else 1)"
      using False l by (simp add: rebalance_def rotate_once_def LEFT_IMBALANCE_def)
    with assms False l show ?thesis by (auto simp: max_def split: if_splits)
  qed
qed

lemma rebalance_right:
  assumes "balanced l" "balanced r" "height r = height l + 2"
  shows "\<exists>t hc. rebalance (Node l x 2 r) = Inr (t, hc) \<and> balanced t
           \<and> inorder t = inorder l @ x # inorder r \<and> (hc = 0 \<or> hc = 1)
           \<and> int (height t) + hc = int (height r) + 1"
proof (cases r)
  case Null
  with assms show ?thesis by simp
next
  case r: (Node rl y yb rr)
  show ?thesis
  proof (cases "yb = LEFT_HEAVY")
    case True
    with assms r obtain a z zb c where rl: "rl = Node a z zb c"
      by (cases rl) auto
    have "rebalance (Node l x 2 r) =
        Inr (Node (Node l x (- max zb 0) a) z 0 (Node c y (- min zb 0) rr), 1)"
      using True r rl
      by (simp add: rebalance_def rotate_twice_def LEFT_IMBALANCE_def RIGHT_IMBALANCE_def)
    with assms True r rl show ?thesis by (auto simp: max_def min_def split: if_splits)
  next
    case False
    have "rebalance (Node l x 2 r) =
        Inr (Node (Node l x (- (yb - 1)) rl) y (yb - 1) rr, if yb = 0 then 0 else 1)"
      using False r
      by (simp add: rebalance_def rotate_once_def LEFT_IMBALANCE_def RIGHT_IMBALANCE_def)
    with assms False r show ?thesis by (auto simp: max_def split: if_splits)
  qed
qed

lemma rebalance_correct:
  assumes "balanced l" "balanced r" "b = int (height r) - int (height l)" "-2 \<le> b" "b \<le> 2"
  shows "\<exists>t hc. rebalance (Node l x b r) = Inr (t, hc) \<and> balanced t
           \<and> inorder t = inorder l @ x # inorder r \<and> (hc = 0 \<or> hc = 1)
           \<and> int (height t) + hc = int (height (Node l x b r))"
proof -
  consider (left) "b = -2" | (right) "b = 2" | (ok) "-1 \<le> b" "b \<le> 1"
    using assms(4,5) by linarith
  then show ?thesis
  proof cases
    case left
    with assms(3) have "height l = height r + 2" by simp
    from rebalance_left [OF assms(1,2) this, of x] left show ?thesis
      using \<open>height l = height r + 2\<close> by auto
  next
    case right
    with assms(3) have "height r = height l + 2" by simp
    from rebalance_right [OF assms(1,2) this, of x] right show ?thesis
      using \<open>height r = height l + 2\<close> by auto
  next
    case ok
    then show ?thesis
      using assms by (auto simp: rebalance_def LEFT_IMBALANCE_def RIGHT_IMBALANCE_def)
  qed
qed


section \<open>Correctness of insertion\<close>

lemma compare_simps [simp]:
  "compare x n = MIN_CMP \<longleftrightarrow> n < x"
  "compare x n = MAX_CMP \<longleftrightarrow> x < n"
  "compare x n = EQ_CMP \<longleftrightarrow> x = n"
  by (auto simp: compare_def)

lemma avl_insert_correct:
  assumes "balanced t" "sorted_wrt (<) (inorder t)" "n \<notin> avl_keys t"
  shows "\<exists>t' c. avl_insert n t = Inr (t', c) \<and> balanced t' \<and> (c = 0 \<or> c = 1)
           \<and> int (height t') = int (height t) + c
           \<and> sorted_wrt (<) (inorder t') \<and> avl_keys t' = {n} \<union> avl_keys t"
  using assms
proof (induction t)
  case Null
  then show ?case by simp
next
  case (Node l x b r)
  note sorted = Node.prems(2) [simplified, simplified sorted_wrt_append, simplified]
  show ?case
  proof (cases "n < x")
    case True
    have "balanced l" "sorted_wrt (<) (inorder l)" "n \<notin> avl_keys l"
      using Node.prems sorted by auto
    from Node.IH(1) [OF this] obtain s c where s: "avl_insert n l = Inr (s, c)" "balanced s"
      "c = 0 \<or> c = 1" "int (height s) = int (height l) + c"
      "sorted_wrt (<) (inorder s)" "avl_keys s = {n} \<union> avl_keys l" by blast
    have reb: "\<exists>t hc. rebalance (Node s x (b - c) r) = Inr (t, hc) \<and> balanced t
           \<and> inorder t = inorder s @ x # inorder r \<and> (hc = 0 \<or> hc = 1)
           \<and> int (height t) + hc = int (height (Node s x (b - c) r))"
      by (rule rebalance_correct) (use Node.prems s in auto)
    have "sorted_wrt (<) (inorder s @ x # inorder r)"
      using sorted s(5,6) True by (auto simp: sorted_wrt_append)
    then show ?thesis
      using Node.prems s reb True by (auto simp: compare_def Let_def)
  next
    case False
    with Node.prems have "x < n" by auto
    have "balanced r" "sorted_wrt (<) (inorder r)" "n \<notin> avl_keys r"
      using Node.prems sorted by auto
    from Node.IH(2) [OF this] obtain s c where s: "avl_insert n r = Inr (s, c)" "balanced s"
      "c = 0 \<or> c = 1" "int (height s) = int (height r) + c"
      "sorted_wrt (<) (inorder s)" "avl_keys s = {n} \<union> avl_keys r" by blast
    have reb: "\<exists>t hc. rebalance (Node l x (b + c) s) = Inr (t, hc) \<and> balanced t
           \<and> inorder t = inorder l @ x # inorder s \<and> (hc = 0 \<or> hc = 1)
           \<and> int (height t) + hc = int (height (Node l x (b + c) s))"
      by (rule rebalance_correct) (use Node.prems s in auto)
    have "sorted_wrt (<) (inorder l @ x # inorder s)"
      using sorted s(5,6) \<open>x < n\<close> by (auto simp: sorted_wrt_append)
    then show ?thesis
      using Node.prems s reb \<open>x < n\<close> by (auto simp: compare_def Let_def)
  qed
qed

lemma avl_insert_conflict:
  assumes "sorted_wrt (<) (inorder t)" "n \<in> avl_keys t"
  shows "avl_insert n t = Inl API_exception"
  using assms
proof (induction t)
  case Null
  then show ?case by simp
next
  case (Node l x b r)
  then show ?case by (auto simp: sorted_wrt_append compare_def Let_def)
qed

section \<open>Correctness of removal\<close>

lemma remove_finish_correct:
  assumes "balanced l" "balanced r" "-1 \<le> b" "b \<le> 1"
    and "b - d = int (height r) - int (height l)" and "d = -1 \<or> d = 0 \<or> d = 1"
  shows "\<exists>t c. remove_finish (Node l x b r) d v = Inr (t, c, Some v) \<and> balanced t
           \<and> inorder t = inorder l @ x # inorder r \<and> (c = 0 \<or> c = 1)
           \<and> height t + nat c = 1 + max (height l + nat (- d)) (height r + nat d)"
proof -
  have reb: "\<exists>t hc. rebalance (Node l x (b - d) r) = Inr (t, hc) \<and> balanced t
           \<and> inorder t = inorder l @ x # inorder r \<and> (hc = 0 \<or> hc = 1)
           \<and> int (height t) + hc = int (height (Node l x (b - d) r))"
    by (rule rebalance_correct) (use assms in auto)
  consider (stay) "d = 0" | (even) "d \<noteq> 0" "b - d = 0" | (tilt) "d \<noteq> 0" "b - d \<noteq> 0"
    by blast
  then show ?thesis
  proof cases
    case stay
    with assms show ?thesis by (simp add: remove_finish_def)
  next
    case even
    with assms show ?thesis by (auto simp: remove_finish_def)
  next
    case tilt
    from reb obtain t hc where t: "rebalance (Node l x (b - d) r) = Inr (t, hc)" "balanced t"
      "inorder t = inorder l @ x # inorder r" "hc = 0 \<or> hc = 1"
      "int (height t) + hc = int (height (Node l x (b - d) r))" by blast
    have "height t + nat hc = 1 + max (height l + nat (- d)) (height r + nat d)"
      using t(4,5) assms tilt by (auto simp: max_def split: if_splits)
    with t tilt show ?thesis by (auto simp: remove_finish_def Let_def)
  qed
qed

lemma avl_remove_min_correct:
  assumes "balanced t" "t \<noteq> Null"
  shows "\<exists>t' c v. avl_remove n t MIN_CMP = Inr (t', c, Some v) \<and> balanced t'
           \<and> (c = 0 \<or> c = 1) \<and> height t' + nat c = height t \<and> inorder t = v # inorder t'"
  using assms
proof (induction t)
  case Null
  then show ?case by simp
next
  case (Node l x b r)
  show ?case
  proof (cases "l = Null")
    case True
    with Node.prems show ?thesis by (auto simp: compare_cmp_def Let_def)
  next
    case False
    from Node.prems have "balanced l" by simp
    from Node.IH(1) [OF this False] obtain s c v where s:
      "avl_remove n l MIN_CMP = Inr (s, c, Some v)" "balanced s" "c = 0 \<or> c = 1"
      "height s + nat c = height l" "inorder l = v # inorder s" by blast
    have "\<exists>t c'. remove_finish (Node s x b r) (- c) v = Inr (t, c', Some v) \<and> balanced t
           \<and> inorder t = inorder s @ x # inorder r \<and> (c' = 0 \<or> c' = 1)
           \<and> height t + nat c' = 1 + max (height s + nat (- (- c))) (height r + nat (- c))"
      by (rule remove_finish_correct) (use Node.prems(1) s(2-4) in auto)
    then obtain t c' where t: "remove_finish (Node s x b r) (- c) v = Inr (t, c', Some v)"
      "balanced t" "inorder t = inorder s @ x # inorder r" "c' = 0 \<or> c' = 1"
      "height t + nat c' = 1 + max (height s + nat c) (height r + nat (- c))" by auto
    have "avl_remove n (Node l x b r) MIN_CMP = Inr (t, c', Some v)"
      using s(1) t(1) False by (simp add: compare_cmp_def)
    moreover have "height t + nat c' = height (Node l x b r)"
      using t(5) s(3,4) by auto
    moreover have "inorder (Node l x b r) = v # inorder t"
      using t(3) s(5) by simp
    ultimately show ?thesis using t(2,4) by blast
  qed
qed

lemma avl_remove_correct:
  assumes "balanced t" "sorted_wrt (<) (inorder t)" "n \<in> avl_keys t"
  shows "\<exists>t' c. avl_remove n t EQ_CMP = Inr (t', c, Some n) \<and> balanced t' \<and> (c = 0 \<or> c = 1)
           \<and> height t' + nat c = height t
           \<and> sorted_wrt (<) (inorder t') \<and> avl_keys t' = avl_keys t - {n}"
  using assms
proof (induction t)
  case Null
  then show ?case by simp
next
  case (Node l x b r)
  note sorted = Node.prems(2) [simplified, simplified sorted_wrt_append, simplified]
  consider (lt) "n < x" | (gt) "x < n" | (eq) "n = x" by fastforce
  then show ?case
  proof cases
    case lt
    have "balanced l" "sorted_wrt (<) (inorder l)" "n \<in> avl_keys l"
      using Node.prems sorted lt by auto
    from Node.IH(1) [OF this] obtain s c where s: "avl_remove n l EQ_CMP = Inr (s, c, Some n)"
      "balanced s" "c = 0 \<or> c = 1" "height s + nat c = height l"
      "sorted_wrt (<) (inorder s)" "avl_keys s = avl_keys l - {n}" by blast
    have fin: "\<exists>t c'. remove_finish (Node s x b r) (- c) n = Inr (t, c', Some n) \<and> balanced t
           \<and> inorder t = inorder s @ x # inorder r \<and> (c' = 0 \<or> c' = 1)
           \<and> height t + nat c' = 1 + max (height s + nat (- (- c))) (height r + nat (- c))"
      by (rule remove_finish_correct) (use Node.prems(1) s(2-4) in auto)
    have "sorted_wrt (<) (inorder s @ x # inorder r)"
      using sorted s(5,6) lt by (auto simp: sorted_wrt_append)
    from fin obtain t c' where t: "remove_finish (Node s x b r) (- c) n = Inr (t, c', Some n)"
      "balanced t" "inorder t = inorder s @ x # inorder r" "c' = 0 \<or> c' = 1"
      "height t + nat c' = 1 + max (height s + nat c) (height r + nat (- c))" by auto
    have "avl_remove n (Node l x b r) EQ_CMP = Inr (t, c', Some n)"
      using s(1) t(1) lt by (simp add: compare_cmp_def compare_def)
    moreover have "height t + nat c' = height (Node l x b r)"
      using t(5) s(3,4) by auto
    moreover have "avl_keys t = avl_keys (Node l x b r) - {n}"
      using t(3) s(6) lt sorted by auto
    ultimately show ?thesis
      using t(2,3,4) \<open>sorted_wrt (<) (inorder s @ x # inorder r)\<close> by metis
  next
    case gt
    have "balanced r" "sorted_wrt (<) (inorder r)" "n \<in> avl_keys r"
      using Node.prems sorted gt by auto
    from Node.IH(2) [OF this] obtain s c where s: "avl_remove n r EQ_CMP = Inr (s, c, Some n)"
      "balanced s" "c = 0 \<or> c = 1" "height s + nat c = height r"
      "sorted_wrt (<) (inorder s)" "avl_keys s = avl_keys r - {n}" by blast
    have fin: "\<exists>t c'. remove_finish (Node l x b s) c n = Inr (t, c', Some n) \<and> balanced t
           \<and> inorder t = inorder l @ x # inorder s \<and> (c' = 0 \<or> c' = 1)
           \<and> height t + nat c' = 1 + max (height l + nat (- c)) (height s + nat c)"
      by (rule remove_finish_correct) (use Node.prems(1) s(2-4) in auto)
    have "sorted_wrt (<) (inorder l @ x # inorder s)"
      using sorted s(5,6) gt by (auto simp: sorted_wrt_append)
    from fin obtain t c' where t: "remove_finish (Node l x b s) c n = Inr (t, c', Some n)"
      "balanced t" "inorder t = inorder l @ x # inorder s" "c' = 0 \<or> c' = 1"
      "height t + nat c' = 1 + max (height l + nat (- c)) (height s + nat c)" by auto
    have "avl_remove n (Node l x b r) EQ_CMP = Inr (t, c', Some n)"
      using s(1) t(1) gt by (auto simp: compare_cmp_def compare_def)
    moreover have "height t + nat c' = height (Node l x b r)"
      using t(5) s(3,4) by auto
    moreover have "avl_keys t = avl_keys (Node l x b r) - {n}"
      using t(3) s(6) gt sorted by auto
    ultimately show ?thesis
      using t(2,3,4) \<open>sorted_wrt (<) (inorder l @ x # inorder s)\<close> by metis
  next
    case eq
    show ?thesis
    proof (cases "l = Null \<or> r = Null")
      case True
      with eq Node.prems sorted show ?thesis
        by (auto simp: compare_cmp_def compare_def Let_def)
    next
      case False
      from Node.prems have "balanced r" by simp
      from avl_remove_min_correct [OF this, of n] False obtain s c v where s:
        "avl_remove n r MIN_CMP = Inr (s, c, Some v)" "balanced s" "c = 0 \<or> c = 1"
        "height s + nat c = height r" "inorder r = v # inorder s" by blast
      have fin: "\<exists>t c'. remove_finish (Node l v b s) c x = Inr (t, c', Some x) \<and> balanced t
           \<and> inorder t = inorder l @ v # inorder s \<and> (c' = 0 \<or> c' = 1)
           \<and> height t + nat c' = 1 + max (height l + nat (- c)) (height s + nat c)"
        by (rule remove_finish_correct) (use Node.prems(1) s(2-4) in auto)
      have so: "sorted_wrt (<) (inorder l @ v # inorder s)"
        "set (inorder l @ v # inorder s) = avl_keys (Node l x b r) - {n}"
        using sorted s(5) eq by (auto simp: sorted_wrt_append)
      from fin obtain t c' where t: "remove_finish (Node l v b s) c x = Inr (t, c', Some x)"
        "balanced t" "inorder t = inorder l @ v # inorder s" "c' = 0 \<or> c' = 1"
        "height t + nat c' = 1 + max (height l + nat (- c)) (height s + nat c)" by auto
      have "avl_remove n (Node l x b r) EQ_CMP = Inr (t, c', Some n)"
        using s(1) t(1) eq False by (simp add: compare_cmp_def compare_def)
      moreover have "height t + nat c' = height (Node l x b r)"
        using t(5) s(3,4) by auto
      ultimately show ?thesis
        using t(2,3,4) so by metis
    qed
  qed
qed

lemma avl_remove_absent:
  assumes "sorted_wrt (<) (inorder t)" "n \<notin> avl_keys t" "t \<noteq> Null"
  shows "avl_remove n t EQ_CMP = Inl API_exception"
  using assms
proof (induction t)
  case Null
  then show ?case by simp
next
  case (Node l x b r)
  have IH: "avl_remove n s EQ_CMP = Inl API_exception \<or> s = Null" if "s = l \<or> s = r" for s
    using that Node by (auto simp: sorted_wrt_append)
  show ?case
    using IH [of l] IH [of r] Node.prems(2)
    by (auto simp: compare_cmp_def compare_def Let_def)
qed


section \<open>Operations on well-formed trees\<close>

lemma avl_inv_Null [simp]: "avl_inv Null"
  by (simp add: avl_inv_def)

lemma insert_node_inv:
  assumes "avl_inv t" "n \<notin> avl_keys t"
  obtains t' where "insert_node t n = Inr t'" "avl_inv t'" "avl_keys t' = {n} \<union> avl_keys t"
  using avl_insert_correct [of t n] assms by (auto simp: insert_node_def avl_inv_def)

lemma insert_node_conflict:
  "avl_inv t \<Longrightarrow> n \<in> avl_keys t \<Longrightarrow> insert_node t n = Inl API_exception"
  by (simp add: insert_node_def avl_inv_def avl_insert_conflict)

lemma remove_node_inv:
  assumes "avl_inv t" "n \<in> avl_keys t"
  obtains t' where "remove_node t n = Inr t'" "avl_inv t'" "avl_keys t' = avl_keys t - {n}"
  using avl_remove_correct [of t n] assms by (auto simp: remove_node_def avl_inv_def)

lemma strict_sorted_inorder:
  "avl_inv t \<Longrightarrow> inorder t = sorted_list_of_set (avl_keys t)"
  by (metis avl_inv_def sorted_list_of_set.idem_if_sorted_distinct strict_sorted_iff)

text \<open>
  \<open>validate\<close> checks exactly the balance part of the invariant, and the order only between a
  node and its children, so a well-formed tree always validates.
\<close>

lemma validate_balanced: "validate t \<Longrightarrow> balanced t"
  by (induction t) (auto simp: Let_def LEFT_IMBALANCE_def RIGHT_IMBALANCE_def)

lemma elem_in_keys: "t \<noteq> Null \<Longrightarrow> elem t \<in> avl_keys t"
  by (cases t) auto

lemma avl_inv_validate: "avl_inv t \<Longrightarrow> validate t"
proof (induction t)
  case Null
  then show ?case by simp
next
  case (Node l x b r)
  have "avl_inv l" "avl_inv r"
    using Node.prems by (auto simp: avl_inv_def sorted_wrt_append)
  moreover have "l \<noteq> Null \<Longrightarrow> elem l < x" "r \<noteq> Null \<Longrightarrow> x < elem r"
    using Node.prems elem_in_keys [of l] elem_in_keys [of r]
    by (auto simp: avl_inv_def sorted_wrt_append)
  ultimately show ?case
    using Node by (auto simp: Let_def avl_inv_def LEFT_IMBALANCE_def RIGHT_IMBALANCE_def)
qed

text \<open>The height of a balanced tree is logarithmic in its number of nodes.\<close>

lemma length_inorder_Node [simp]:
  "length (inorder (Node l x b r)) = Suc (length (inorder l) + length (inorder r))"
  by simp

lemma balanced_height_bound: "balanced t \<Longrightarrow> 2 ^ (height t div 2) \<le> length (inorder t) + 1"
proof (induction "height t" arbitrary: t rule: less_induct)
  case less
  show ?case
  proof (cases t)
    case Null
    then show ?thesis by simp
  next
    case (Node l x b r)
    show ?thesis
    proof (cases "height t = 1")
      case True
      then show ?thesis by simp
    next
      case False
      let ?h = "height t"
      have bal: "balanced l" "balanced r" using less.prems Node by auto
      have h: "?h - 2 \<le> height l" "?h - 2 \<le> height r" "height l < ?h" "height r < ?h" "2 \<le> ?h"
        using less.prems Node False by (auto simp: max_def split: if_splits)
      have half: "(2::nat) ^ (?h div 2) = 2 * 2 ^ ((?h - 2) div 2)"
      proof -
        have "?h div 2 = Suc ((?h - 2) div 2)" using h(5) by presburger
        then show ?thesis by simp
      qed
      have "(2::nat) ^ ((?h - 2) div 2) \<le> 2 ^ (height l div 2)"
        using h by (auto intro!: power_increasing div_le_mono)
      also note less.hyps [OF h(3) bal(1)]
      finally have L: "2 ^ ((?h - 2) div 2) \<le> length (inorder l) + 1" .
      have "(2::nat) ^ ((?h - 2) div 2) \<le> 2 ^ (height r div 2)"
        using h by (auto intro!: power_increasing div_le_mono)
      also note less.hyps [OF h(4) bal(2)]
      finally have R: "2 ^ ((?h - 2) div 2) \<le> length (inorder r) + 1" .
      have "length (inorder t) + 1 = (length (inorder l) + 1) + (length (inorder r) + 1)"
        using Node by simp
      with L R half show ?thesis by linarith
    qed
  qed
qed

text \<open>The stack traversal visits every node exactly once.\<close>

lemma topdown_loop_visits:
  "Null \<notin> set st \<Longrightarrow>
    \<exists>xs. topdown_loop st = Inr xs \<and> mset xs = sum_list (map (\<lambda>t. mset (inorder t)) st)"
proof (induction st rule: topdown_loop.induct)
  case (3 l x b r st)
  have "Null \<notin> set (push_children l r st)"
    using "3.prems" by (auto simp: push_children_def Let_def)
  from "3.IH" [OF this] obtain xs where xs: "topdown_loop (push_children l r st) = Inr xs"
    "mset xs = sum_list (map (\<lambda>t. mset (inorder t)) (push_children l r st))" by blast
  have "sum_list (map (\<lambda>t. mset (inorder t)) (push_children l r st))
      = mset (inorder l) + mset (inorder r) + sum_list (map (\<lambda>t. mset (inorder t)) st)"
    by (auto simp: push_children_def Let_def)
  with xs show ?case by simp
qed auto

section \<open>The interface used by the allocator\<close>

text \<open>
  What a client of the tree relies on: inserting a new key and removing a present one succeed
  and change the key set by exactly that key, a duplicate insertion is refused.
\<close>

locale node_set =
  fixes ins :: "'t \<Rightarrow> 'a \<Rightarrow> 't result"
    and rem :: "'t \<Rightarrow> 'a \<Rightarrow> 't result"
    and members :: "'t \<Rightarrow> 'a set"
    and wf :: "'t \<Rightarrow> bool"
  assumes ins_new: "wf t \<Longrightarrow> n \<notin> members t \<Longrightarrow>
      \<exists>t'. ins t n = Inr t' \<and> wf t' \<and> members t' = {n} \<union> members t"
    and ins_dup: "wf t \<Longrightarrow> n \<in> members t \<Longrightarrow> ins t n = Inl API_exception"
    and rem_present: "wf t \<Longrightarrow> n \<in> members t \<Longrightarrow>
      \<exists>t'. rem t n = Inr t' \<and> wf t' \<and> members t' = members t - {n}"
begin

lemma ins_newE:
  assumes "wf t" "n \<notin> members t"
  obtains t' where "ins t n = Inr t'" "wf t'" "members t' = {n} \<union> members t"
  using ins_new [OF assms] by blast

lemma rem_presentE:
  assumes "wf t" "n \<in> members t"
  obtains t' where "rem t n = Inr t'" "wf t'" "members t' = members t - {n}"
  using rem_present [OF assms] by blast

lemma ins_then_rem:
  assumes "wf t" "n \<notin> members t"
  shows "\<exists>t1 t2. ins t n = Inr t1 \<and> rem t1 n = Inr t2 \<and> wf t2 \<and> members t2 = members t"
proof -
  from assms obtain t1 where t1: "ins t n = Inr t1" "wf t1" "members t1 = {n} \<union> members t"
    by (rule ins_newE)
  have "n \<in> members t1" using t1(3) by simp
  with t1(2) obtain t2 where t2: "rem t1 n = Inr t2" "wf t2" "members t2 = members t1 - {n}"
    by (rule rem_presentE)
  with t1 assms(2) show ?thesis by auto
qed

lemma ins_two:
  assumes "wf t" "n \<notin> members t" "m \<notin> members t" "n \<noteq> m"
  shows "\<exists>t1 t2. ins t n = Inr t1 \<and> ins t1 m = Inr t2 \<and> wf t2
           \<and> members t2 = {n, m} \<union> members t"
proof -
  from assms(1,2) obtain t1 where t1: "ins t n = Inr t1" "wf t1" "members t1 = {n} \<union> members t"
    by (rule ins_newE)
  have "m \<notin> members t1" using t1(3) assms(3,4) by auto
  with t1(2) obtain t2 where "ins t1 m = Inr t2" "wf t2" "members t2 = {m} \<union> members t1"
    by (rule ins_newE)
  with t1 show ?thesis by auto
qed

end

interpretation avl: node_set insert_node remove_node avl_keys avl_inv
  by unfold_locales (blast intro: insert_node_conflict elim: insert_node_inv remove_node_inv)+

section \<open>Properties\<close>

text \<open>
  C38: inserting into a well-formed tree keeps it balanced and ordered and adds exactly the new
  key; a key that is already there is refused and nothing is written.
\<close>

theorem avl_insert_node_spec:
  assumes "avl_inv t"
  shows "if n \<in> avl_keys t then insert_node t n = Inl API_exception
    else \<exists>t'. insert_node t n = Inr t' \<and> avl_inv t' \<and> validate t'
           \<and> inorder t' = sorted_list_of_set ({n} \<union> avl_keys t)"
proof (cases "n \<in> avl_keys t")
  case True
  with assms show ?thesis by (simp add: avl.ins_dup)
next
  case False
  from assms False obtain t' where "insert_node t n = Inr t'" "avl_inv t'"
    "avl_keys t' = {n} \<union> avl_keys t" by (rule avl.ins_newE)
  with False show ?thesis
    using avl_inv_validate [of t'] strict_sorted_inorder [of t'] by auto
qed

theorem avl_insert_node_spec_witness:
  "\<exists>t'. insert_node (Node (Node Null 1 0 Null) (2::nat) (-1) Null) 0 = Inr t' \<and> avl_inv t'"
  using avl_insert_node_spec [of "Node (Node Null 1 0 Null) (2::nat) (-1) Null" 0]
  by (auto simp: avl_inv_def)

text \<open>
  C39: removing a key from a well-formed tree keeps it balanced and ordered and removes exactly
  that key, whichever of the leaf, one-child and successor cases applies.
\<close>

theorem avl_remove_node_spec:
  assumes "avl_inv t" "n \<in> avl_keys t"
  shows "\<exists>t'. remove_node t n = Inr t' \<and> avl_inv t' \<and> validate t'
           \<and> inorder t' = sorted_list_of_set (avl_keys t - {n})"
proof -
  from assms obtain t' where "remove_node t n = Inr t'" "avl_inv t'"
    "avl_keys t' = avl_keys t - {n}" by (rule avl.rem_presentE)
  then show ?thesis
    using avl_inv_validate [of t'] strict_sorted_inorder [of t'] by auto
qed

theorem avl_remove_node_spec_witness:
  "\<exists>t'. remove_node (Node (Node Null 1 0 Null) (2::nat) 0 (Node Null 5 0 Null)) 2 = Inr t'
        \<and> avl_inv t'"
  using avl_remove_node_spec [of "Node (Node Null 1 0 Null) (2::nat) 0 (Node Null 5 0 Null)" 2]
  by (auto simp: avl_inv_def)

text \<open>
  A tree that \<open>validate\<close> accepts has a height at most logarithmic in its number of
  nodes.
\<close>

theorem validate_height_logarithmic:
  assumes "validate t"
  shows "2 ^ (height t div 2) \<le> length (inorder t) + 1"
  using assms by (intro balanced_height_bound validate_balanced)

theorem validate_height_logarithmic_witness:
  "2 ^ (height (Node Null (3::nat) 1 (Node Null 4 0 Null)) div 2) \<le> (3::nat)"
  using validate_height_logarithmic [of "Node Null (3::nat) 1 (Node Null 4 0 Null)"]
  by (simp add: LEFT_IMBALANCE_def RIGHT_IMBALANCE_def compare_def)



end
