(* ===== verification/Avl_Alloc.thy ===== *)
theory Avl_Alloc
  imports Avl_Tree Utils
begin

text \<open>
  The AVL range allocator of \<open>src/lib/core/include/core/avl_malloc.h\<close> and the two heaps
  built on it, \<open>Arena_allocator\<close> and \<open>Region_allocator\<close>, with the bounded stack of
  \<open>src/lib/common/include/common/stack.h\<close> that its searches use.

  A \<open>Memory_region\<close> writes its \<open>_addr\<close> once, in its constructor, and the tree refuses a
  second node with the same address, so a pointer to a live region is represented by that
  address: the tree holds addresses, \<open>ra_nodes\<close> is the memory of the live regions, and
  \<open>_next\<close>, \<open>_prev\<close> are optional addresses. \<open>ra_slab\<close> is the number of region nodes the
  metadata slab (\<open>Slab::CRuntime\<close>, that is \<open>malloc\<close>) still hands out before it returns
  null. \<open>dbg\<close> says whether the build has assertions.
\<close>

section \<open>The bounded stack\<close>

definition STACK_SIZE :: nat where
  "STACK_SIZE = 10000000"

definition fs_push :: "'a \<Rightarrow> 'a list \<Rightarrow> 'a list result" where
  "fs_push val st = (if length st = STACK_SIZE then Inl General_exception else Inr (val # st))"

definition fs_pop :: "'a list \<Rightarrow> ('a \<times> 'a list) result" where
  "fs_pop st = (case st of [] \<Rightarrow> Inl General_exception | x # st' \<Rightarrow> Inr (x, st'))"

definition fs_push_nonnull :: "'a avl_node \<Rightarrow> 'a avl_node list \<Rightarrow> 'a avl_node list result" where
  "fs_push_nonnull t st = (if t \<noteq> Null then fs_push t st else Inr st)"

section \<open>Regions and searches\<close>

record mem_region =
  mr_addr :: addr_t
  mr_size :: size_t
  mr_free :: bool
  mr_next :: "addr_t option"
  mr_prev :: "addr_t option"

type_synonym nodes = "addr_t \<rightharpoonup> mem_region"

definition new_region :: "addr_t \<Rightarrow> size_t \<Rightarrow> mem_region" where
  "new_region addr sz =
     \<lparr>mr_addr = addr, mr_size = sz, mr_free = True, mr_next = None, mr_prev = None\<rparr>"

definition mr_contains :: "mem_region \<Rightarrow> addr_t \<Rightarrow> bool" where
  "mr_contains m addr \<longleftrightarrow> mr_addr m \<le> addr \<and> addr < add64 (mr_addr m) (mr_size m)"

text \<open>The searches walk the tree with an explicit stack and ignore its order.\<close>

function dfs_vector :: "('a \<Rightarrow> bool) \<Rightarrow> 'a avl_node list \<Rightarrow> 'a option result" where
  "dfs_vector P [] = Inr None"
| "dfs_vector P (Null # st) = Inl Null_deref"
| "dfs_vector P (Node l x b r # st) =
     (if P x then Inr (Some x) else dfs_vector P (push_children l r st))"
  by pat_completeness auto
termination
  by (relation "measure (\<lambda>(P, st). sum_list (map size st))")
    (auto simp: push_children_def Let_def)

function dfs_fixed :: "('a \<Rightarrow> bool) \<Rightarrow> 'a avl_node list \<Rightarrow> 'a option result" where
  "dfs_fixed P [] = Inr None"
| "dfs_fixed P (Null # st) = Inl Null_deref"
| "dfs_fixed P (Node l x b r # st) =
     (if P x then Inr (Some x)
      else bind_res (fs_push_nonnull l st) (\<lambda>st1.
           bind_res (fs_push_nonnull r st1) (\<lambda>st2. dfs_fixed P st2)))"
  by pat_completeness auto
termination
  by (relation "measure (\<lambda>(P, st). sum_list (map size st))")
    (auto simp: fs_push_nonnull_def fs_push_def split: if_splits)

definition find_region :: "nodes \<Rightarrow> addr_t avl_node \<Rightarrow> addr_t \<Rightarrow> addr_t option result" where
  "find_region ns node addr =
     (if node = Null then Inr None
      else dfs_vector (\<lambda>a. case ns a of None \<Rightarrow> False | Some m \<Rightarrow> mr_addr m = addr) [node])"

definition fits :: "nodes \<Rightarrow> size_t \<Rightarrow> size_t \<Rightarrow> addr_t \<Rightarrow> bool" where
  "fits ns sz alignment a =
     (case ns a of
        None \<Rightarrow> False
      | Some m \<Rightarrow> sz \<le> mr_size m \<and> mr_free m
          \<and> (if 0 < alignment then mr_addr m mod alignment = 0 else True))"

definition find_free_region ::
  "nodes \<Rightarrow> addr_t avl_node \<Rightarrow> size_t \<Rightarrow> size_t \<Rightarrow> addr_t option result" where
  "find_free_region ns node sz alignment =
     (if node = Null then Inr None else dfs_fixed (fits ns sz alignment) [node])"

definition find_containing_region ::
  "nodes \<Rightarrow> addr_t avl_node \<Rightarrow> addr_t \<Rightarrow> addr_t option result" where
  "find_containing_region ns node addr =
     (if node = Null then Inr None
      else dfs_fixed (\<lambda>a. case ns a of None \<Rightarrow> False | Some m \<Rightarrow> mr_contains m addr) [node])"

section \<open>The range allocator\<close>

record range_alloc =
  ra_tree :: "addr_t avl_node"
  ra_nodes :: nodes
  ra_slab :: nat

definition slab_alloc_p :: "(range_alloc, bool) prog" where
  "slab_alloc_p = (\<lambda>s. if ra_slab s = 0 then (Inr False, s)
                        else (Inr True, s\<lparr>ra_slab := ra_slab s - 1\<rparr>))"

definition deref_p :: "addr_t \<Rightarrow> (range_alloc, mem_region) prog" where
  "deref_p a = (\<lambda>s. (case ra_nodes s a of None \<Rightarrow> Inl Null_deref | Some m \<Rightarrow> Inr m, s))"

definition upd_node :: "addr_t \<Rightarrow> (mem_region \<Rightarrow> mem_region) \<Rightarrow> nodes \<Rightarrow> nodes" where
  "upd_node a f ns = ns(a := map_option f (ns a))"

definition set_prev_opt :: "addr_t option \<Rightarrow> addr_t \<Rightarrow> nodes \<Rightarrow> nodes" where
  "set_prev_opt nx p ns =
     (case nx of None \<Rightarrow> ns | Some q \<Rightarrow> upd_node q (mr_prev_update (\<lambda>_. Some p)) ns)"

definition write_p :: "(nodes \<Rightarrow> nodes) \<Rightarrow> (range_alloc, unit) prog" where
  "write_p f = update_p (\<lambda>s. s\<lparr>ra_nodes := f (ra_nodes s)\<rparr>)"

definition insert_region_p :: "mem_region \<Rightarrow> (range_alloc, unit) prog" where
  "insert_region_p m = (\<lambda>s.
     case insert_node (ra_tree s) (mr_addr m) of
       Inl e \<Rightarrow> (Inl e, s)
     | Inr t \<Rightarrow> (Inr (), s\<lparr>ra_tree := t, ra_nodes := (ra_nodes s)(mr_addr m \<mapsto> m)\<rparr>))"

definition release_region_p :: "addr_t \<Rightarrow> (range_alloc, unit) prog" where
  "release_region_p a = (\<lambda>s.
     case remove_node (ra_tree s) a of
       Inl e \<Rightarrow> (Inl e, s)
     | Inr t \<Rightarrow> (Inr (), s\<lparr>ra_tree := t, ra_nodes := (ra_nodes s)(a := None),
                          ra_slab := ra_slab s + 1\<rparr>))"

definition range_alloc_new :: "bool \<Rightarrow> nat \<Rightarrow> addr_t \<Rightarrow> size_t \<Rightarrow> range_alloc result" where
  "range_alloc_new dbg slab start sz =
     bind_res (assert_res dbg (0 < sz)) (\<lambda>_.
       if slab = 0 then Inl Null_deref
       else if slab = 1 then Inl General_exception
       else bind_res (insert_node Null start) (\<lambda>t.
         Inr \<lparr>ra_tree = t, ra_nodes = [start \<mapsto> new_region start sz], ra_slab = slab - 2\<rparr>))"

text \<open>The regions in the order in which \<open>apply\<close> passes them to its functor.\<close>

definition ra_apply :: "range_alloc \<Rightarrow> mem_region list result" where
  "ra_apply s =
     bind_res (apply_topdown (ra_tree s)) (\<lambda>as.
       Inr (List.map_filter (ra_nodes s) as))"

definition sum_free :: "mem_region list \<Rightarrow> size_t" where
  "sum_free ms = foldl (\<lambda>total m. if mr_free m then add64 total (mr_size m) else total) 0 ms"

definition get_free :: "range_alloc \<Rightarrow> size_t result" where
  "get_free s = bind_res (ra_apply s) (\<lambda>ms. Inr (sum_free ms))"

definition alloc_split :: "bool \<Rightarrow> size_t \<Rightarrow> size_t \<Rightarrow> (range_alloc, addr_t) prog" where
  "alloc_split dbg sz alignment =
     bind_p (assert_p dbg (0 < alignment)) (\<lambda>_.
     bind_p (\<lambda>s. (find_free_region (ra_nodes s) (ra_tree s) (add64 sz alignment) 8, s)) (\<lambda>found.
       case found of
         None \<Rightarrow> bind_p (\<lambda>s. (get_free s, s)) (\<lambda>_. throw_p General_exception)
       | Some region \<Rightarrow>
           bind_p (deref_p region) (\<lambda>m.
           bind_p (assert_p dbg (mr_free m)) (\<lambda>_.
           bind_p (lift_p (round_up (mr_addr m) alignment)) (\<lambda>up.
             let left_split_size = sub64 up (mr_addr m);
                 center_split_base = add64 (mr_addr m) left_split_size;
                 center_split_size = sz;
                 right_split_base = add64 center_split_base center_split_size;
                 right_split_size = sub64 (sub64 (mr_size m) left_split_size) center_split_size;
                 center_node = (new_region center_split_base center_split_size)
                   \<lparr>mr_prev := Some region, mr_free := False, mr_next := Some right_split_base\<rparr>;
                 right_node = (new_region right_split_base right_split_size)
                   \<lparr>mr_prev := Some center_split_base, mr_next := mr_next m\<rparr>
             in bind_p (assert_p dbg (0 < right_split_size)) (\<lambda>_.
                bind_p (assert_p dbg (0 < left_split_size)) (\<lambda>_.
                bind_p (assert_p dbg (0 < center_split_size)) (\<lambda>_.
                bind_p slab_alloc_p (\<lambda>p. if \<not> p then throw_p General_exception else
                bind_p slab_alloc_p (\<lambda>q. if \<not> q then throw_p General_exception else
                bind_p (write_p (upd_node region (\<lambda>m. m\<lparr>mr_size := left_split_size,
                                                       mr_next := Some center_split_base\<rparr>))) (\<lambda>_.
                bind_p (write_p (set_prev_opt (mr_next m) right_split_base)) (\<lambda>_.
                bind_p (insert_region_p center_node) (\<lambda>_.
                bind_p (insert_region_p right_node) (\<lambda>_.
                bind_p (lift_p (if 0 < alignment
                                then assert_aligned dbg center_split_base alignment
                                else Inr ())) (\<lambda>_.
                ret_p center_split_base)))))))))))))))"

definition alloc_fit :: "bool \<Rightarrow> addr_t \<Rightarrow> size_t \<Rightarrow> size_t \<Rightarrow> (range_alloc, addr_t) prog" where
  "alloc_fit dbg region sz alignment =
     bind_p (deref_p region) (\<lambda>m.
     bind_p (assert_p dbg (sz \<le> mr_size m)) (\<lambda>_.
     bind_p (lift_p (assert_aligned dbg (mr_addr m) alignment)) (\<lambda>_.
       if mr_size m = sz then
         bind_p (write_p (upd_node region (\<lambda>m. m\<lparr>mr_free := False\<rparr>))) (\<lambda>_. ret_p region)
       else
         bind_p slab_alloc_p (\<lambda>p. if \<not> p then throw_p General_exception else
           let left_over = (new_region (add64 (mr_addr m) sz) (sub64 (mr_size m) sz))
                 \<lparr>mr_prev := Some region, mr_next := mr_next m\<rparr>
           in bind_p (write_p (upd_node region (\<lambda>m. m\<lparr>mr_size := sz, mr_free := False,
                                                     mr_next := Some (mr_addr left_over)\<rparr>))) (\<lambda>_.
              bind_p (write_p (set_prev_opt (mr_next m) (mr_addr left_over))) (\<lambda>_.
              bind_p (insert_region_p left_over) (\<lambda>_. ret_p region)))))))"

definition ra_alloc :: "bool \<Rightarrow> size_t \<Rightarrow> size_t \<Rightarrow> (range_alloc, addr_t) prog" where
  "ra_alloc dbg sz alignment =
     bind_p (\<lambda>s. (find_free_region (ra_nodes s) (ra_tree s) sz alignment, s)) (\<lambda>found.
       case found of
         None \<Rightarrow> alloc_split dbg sz alignment
       | Some region \<Rightarrow> alloc_fit dbg region sz alignment)"

fun leftmost :: "'a avl_node \<Rightarrow> 'a option" where
  "leftmost Null = None"
| "leftmost (Node l x b r) = (if l = Null then Some x else leftmost l)"

fun rightmost :: "'a avl_node \<Rightarrow> 'a option" where
  "rightmost Null = None"
| "rightmost (Node l x b r) = (if r = Null then Some x else rightmost r)"

definition leftmost_region :: "range_alloc \<Rightarrow> addr_t result" where
  "leftmost_region s = (case leftmost (ra_tree s) of None \<Rightarrow> Inl Logic_exception | Some a \<Rightarrow> Inr a)"

definition rightmost_region :: "range_alloc \<Rightarrow> addr_t result" where
  "rightmost_region s = (case rightmost (ra_tree s) of None \<Rightarrow> Inl Null_deref | Some a \<Rightarrow> Inr a)"

definition ra_base :: "range_alloc \<Rightarrow> addr_t result" where
  "ra_base s = leftmost_region s"

definition alloc_at_middle :: "addr_t \<Rightarrow> addr_t \<Rightarrow> (range_alloc, addr_t) prog" where
  "alloc_at_middle region addr =
     bind_p (deref_p region) (\<lambda>m.
       if mr_addr m \<noteq> addr then
         bind_p slab_alloc_p (\<lambda>p. if \<not> p then throw_p Null_deref else
           let left_size = sub64 addr (mr_addr m);
               middle = (new_region addr (sub64 (mr_size m) left_size))
                 \<lparr>mr_next := mr_next m, mr_prev := Some region\<rparr>
           in bind_p (write_p (upd_node region (\<lambda>m. m\<lparr>mr_size := left_size, mr_next := Some addr\<rparr>))) (\<lambda>_.
              bind_p (insert_region_p middle) (\<lambda>_. ret_p addr)))
       else ret_p region)"

definition ra_alloc_at :: "bool \<Rightarrow> addr_t \<Rightarrow> size_t \<Rightarrow> (range_alloc, addr_t) prog" where
  "ra_alloc_at dbg addr sz =
     bind_p (\<lambda>s. (find_containing_region (ra_nodes s) (ra_tree s) addr, s)) (\<lambda>found.
       case found of
         None \<Rightarrow> throw_p API_exception
       | Some region \<Rightarrow>
           bind_p (deref_p region) (\<lambda>m.
             if mr_size m < sz then throw_p Logic_exception
             else
               bind_p (assert_p dbg (mr_free m)) (\<lambda>_.
               bind_p (assert_p dbg (mr_addr m \<noteq> addr \<longrightarrow> mr_addr m < addr)) (\<lambda>_.
               bind_p (alloc_at_middle region addr) (\<lambda>middle.
               bind_p (write_p (upd_node middle (\<lambda>m. m\<lparr>mr_free := False\<rparr>))) (\<lambda>_.
               bind_p (deref_p middle) (\<lambda>mm.
                 if sz < mr_size mm then
                   bind_p slab_alloc_p (\<lambda>p. if \<not> p then throw_p General_exception else
                     let right_size = sub64 (mr_size mm) sz;
                         right = (new_region (add64 (mr_addr mm) sz) right_size)
                           \<lparr>mr_next := mr_next mm, mr_prev := Some middle\<rparr>
                     in bind_p (write_p (upd_node middle (\<lambda>m. m\<lparr>mr_next := Some (mr_addr right),
                                                               mr_size := sz\<rparr>))) (\<lambda>_.
                        bind_p (insert_region_p right) (\<lambda>_. ret_p middle)))
                 else ret_p middle)))))))"

definition ra_find :: "range_alloc \<Rightarrow> addr_t \<Rightarrow> addr_t option result" where
  "ra_find s addr = find_region (ra_nodes s) (ra_tree s) addr"

definition ra_add_new_region :: "bool \<Rightarrow> addr_t \<Rightarrow> size_t \<Rightarrow> (range_alloc, unit) prog" where
  "ra_add_new_region dbg addr sz =
     bind_p (assert_p dbg (0 < addr)) (\<lambda>_.
     bind_p (assert_p dbg (0 < sz)) (\<lambda>_.
     bind_p slab_alloc_p (\<lambda>p. if \<not> p then throw_p General_exception
       else insert_region_p (new_region addr sz))))"

text \<open>
  \<open>merge_p a b\<close> is the coalescing step shared by both sides of \<open>free\<close>: \<open>a\<close> swallows its
  successor \<open>b\<close>, and \<open>b\<close> is unlinked, removed from the tree and given back to the slab.
\<close>

definition merge_p :: "addr_t \<Rightarrow> addr_t \<Rightarrow> (range_alloc, unit) prog" where
  "merge_p a b =
     bind_p (deref_p b) (\<lambda>mb.
     bind_p (write_p (upd_node a (\<lambda>m. m\<lparr>mr_size := add64 (mr_size m) (mr_size mb),
                                          mr_next := mr_next mb\<rparr>))) (\<lambda>_.
     bind_p (write_p (set_prev_opt (mr_next mb) a)) (\<lambda>_.
     release_region_p b)))"

definition right_coalesce :: "addr_t \<Rightarrow> (range_alloc, unit) prog" where
  "right_coalesce region =
     bind_p (deref_p region) (\<lambda>m.
       case mr_next m of
         None \<Rightarrow> ret_p ()
       | Some right \<Rightarrow>
           bind_p (deref_p right) (\<lambda>mr. if mr_free mr then merge_p region right else ret_p ()))"

definition left_coalesce :: "addr_t \<Rightarrow> (range_alloc, unit) prog" where
  "left_coalesce region =
     bind_p (deref_p region) (\<lambda>m.
       case mr_prev m of
         None \<Rightarrow> ret_p ()
       | Some left \<Rightarrow>
           bind_p (deref_p left) (\<lambda>ml. if mr_free ml then merge_p left region else ret_p ()))"

definition ra_free :: "addr_t \<Rightarrow> (range_alloc, size_t) prog" where
  "ra_free addr =
     bind_p (\<lambda>s. (ra_find s addr, s)) (\<lambda>found.
       case found of
         None \<Rightarrow> ret_p (W64 - 1)
       | Some region \<Rightarrow>
           bind_p (deref_p region) (\<lambda>m.
           bind_p (write_p (upd_node region (\<lambda>m. m\<lparr>mr_free := True\<rparr>))) (\<lambda>_.
           bind_p (right_coalesce region) (\<lambda>_.
           bind_p (left_coalesce region) (\<lambda>_.
           ret_p (mr_size m))))))"

section \<open>Arena and region allocators\<close>

definition arena_new :: "bool \<Rightarrow> nat \<Rightarrow> addr_t \<Rightarrow> size_t \<Rightarrow> range_alloc result" where
  "arena_new dbg slab region region_size =
     bind_res (range_alloc_new dbg slab region region_size) (\<lambda>s.
       if region = 0 then Inl Constructor_exception
       else if region_size = 0 then Inl Constructor_exception
       else Inr s)"

definition arena_alloc :: "bool \<Rightarrow> size_t \<Rightarrow> int \<Rightarrow> size_t \<Rightarrow> (range_alloc, addr_t) prog" where
  "arena_alloc dbg sz numa_node alignment = (\<lambda>s.
     let sz' = (if sz = 0 then 1 else sz)
     in case ra_alloc dbg sz' 0 s of
          (Inl General_exception, s') \<Rightarrow> (Inl Process_exit, s')
        | r \<Rightarrow> r)"

definition arena_free :: "bool \<Rightarrow> addr_t \<Rightarrow> (range_alloc, size_t) prog" where
  "arena_free dbg ptr = bind_p (assert_p dbg (ptr \<noteq> 0)) (\<lambda>_. ra_free ptr)"

definition arena_get_size :: "bool \<Rightarrow> range_alloc \<Rightarrow> addr_t \<Rightarrow> size_t result" where
  "arena_get_size dbg s ptr =
     bind_res (assert_res dbg (ptr \<noteq> 0)) (\<lambda>_.
     bind_res (ra_find s ptr) (\<lambda>found.
       case found of
         None \<Rightarrow> Inr (W64 - 1)
       | Some a \<Rightarrow> (case ra_nodes s a of None \<Rightarrow> Inl Null_deref | Some m \<Rightarrow> Inr (mr_size m))))"

definition arena_free_space :: "range_alloc \<Rightarrow> size_t result" where
  "arena_free_space s = bind_res (ra_apply s) (\<lambda>ms. Inr (sum_free ms))"

definition arena_add_new_region :: "bool \<Rightarrow> addr_t \<Rightarrow> size_t \<Rightarrow> (range_alloc, unit) prog" where
  "arena_add_new_region dbg vaddr sz = ra_add_new_region dbg vaddr sz"

definition used_zone_limit :: "range_alloc \<Rightarrow> size_t result" where
  "used_zone_limit s =
     bind_res (rightmost_region s) (\<lambda>r.
       case ra_nodes s r of
         None \<Rightarrow> Inl Null_deref
       | Some m \<Rightarrow>
           bind_res (ra_base s) (\<lambda>base.
             if mr_free m then Inr (sub64 (mr_addr m) base)
             else Inr (sub64 (add64 (mr_addr m) (mr_size m)) base)))"

definition region_allocator_new :: "bool \<Rightarrow> nat \<Rightarrow> addr_t \<Rightarrow> size_t \<Rightarrow> range_alloc result" where
  "region_allocator_new dbg slab region region_size =
     bind_res (range_alloc_new dbg slab region region_size) (\<lambda>s.
       if region_size = 0 then Inl Constructor_exception else Inr s)"

definition region_allocator_alloc :: "bool \<Rightarrow> size_t \<Rightarrow> size_t \<Rightarrow> (range_alloc, addr_t) prog" where
  "region_allocator_alloc dbg sz alignment =
     ra_alloc dbg (if sz = 0 then 1 else sz) 0"

definition region_allocator_alloc_at :: "bool \<Rightarrow> addr_t \<Rightarrow> size_t \<Rightarrow> (range_alloc, int) prog" where
  "region_allocator_alloc_at dbg region region_size =
     bind_p (ra_alloc_at dbg region region_size) (\<lambda>_. ret_p 0)"

definition region_allocator_contains :: "range_alloc \<Rightarrow> addr_t \<Rightarrow> addr_t option result" where
  "region_allocator_contains s region = ra_find s region"

definition region_allocator_free :: "addr_t \<Rightarrow> (range_alloc, unit) prog" where
  "region_allocator_free addr = bind_p (ra_free addr) (\<lambda>_. ret_p ())"

end
