(* ===== verification/Avl_Alloc_Inv.thy ===== *)
theory Avl_Alloc_Inv
  imports Avl_Alloc
begin

text \<open>
  The invariant of the AVL range allocator and the abstract operations on its regions that the
  allocator's steps implement: splitting a region in two, merging a region with its successor,
  and marking a region free or used. Each is shown to keep the regions well-formed and to
  leave the set of managed bytes unchanged.
\<close>

section \<open>Well-formed regions\<close>

definition wf_nodes :: "nodes \<Rightarrow> bool" where
  "wf_nodes ns \<longleftrightarrow>
     (\<forall>a m. ns a = Some m \<longrightarrow> mr_addr m = a \<and> 0 < mr_size m \<and> a + mr_size m < W64) \<and>
     (\<forall>a m b. ns a = Some m \<and> mr_next m = Some b \<longrightarrow>
        b = a + mr_size m \<and> (\<exists>m'. ns b = Some m' \<and> mr_prev m' = Some a)) \<and>
     (\<forall>a m b. ns a = Some m \<and> mr_prev m = Some b \<longrightarrow>
        (\<exists>m'. ns b = Some m' \<and> mr_next m' = Some a)) \<and>
     (\<forall>a b m m'. ns a = Some m \<and> ns b = Some m' \<and> a < b \<longrightarrow> a + mr_size m \<le> b)"

definition no_adjacent_free :: "nodes \<Rightarrow> bool" where
  "no_adjacent_free ns \<longleftrightarrow>
     (\<forall>a m b m'. ns a = Some m \<and> mr_next m = Some b \<and> ns b = Some m' \<longrightarrow>
        \<not> (mr_free m \<and> mr_free m'))"

definition managed :: "nodes \<Rightarrow> addr_t set" where
  "managed ns = {x. \<exists>a m. ns a = Some m \<and> a \<le> x \<and> x < a + mr_size m}"

definition free_bytes :: "nodes \<Rightarrow> addr_t set" where
  "free_bytes ns = {x. \<exists>a m. ns a = Some m \<and> mr_free m \<and> a \<le> x \<and> x < a + mr_size m}"

definition used :: "nodes \<Rightarrow> (addr_t \<times> size_t) set" where
  "used ns = {(a, n). \<exists>m. ns a = Some m \<and> \<not> mr_free m \<and> n = mr_size m}"

definition ra_inv0 :: "range_alloc \<Rightarrow> bool" where
  "ra_inv0 s \<longleftrightarrow> avl_inv (ra_tree s) \<and> ra_tree s \<noteq> Null
     \<and> avl_keys (ra_tree s) = dom (ra_nodes s) \<and> wf_nodes (ra_nodes s)"

definition ra_inv :: "range_alloc \<Rightarrow> bool" where
  "ra_inv s \<longleftrightarrow> ra_inv0 s \<and> no_adjacent_free (ra_nodes s)"

lemma wf_nodesD:
  assumes "wf_nodes ns" "ns a = Some m"
  shows "mr_addr m = a" "0 < mr_size m" "a + mr_size m < W64"
    "mr_next m = Some b \<Longrightarrow> b = a + mr_size m"
    "mr_next m = Some b \<Longrightarrow> \<exists>m'. ns b = Some m' \<and> mr_prev m' = Some a"
    "mr_prev m = Some b \<Longrightarrow> \<exists>m'. ns b = Some m' \<and> mr_next m' = Some a"
    "ns b = Some m' \<Longrightarrow> a < b \<Longrightarrow> a + mr_size m \<le> b"
  using assms unfolding wf_nodes_def by blast+

lemma wf_nodesI:
  assumes "\<And>a m. ns a = Some m \<Longrightarrow> mr_addr m = a \<and> 0 < mr_size m \<and> a + mr_size m < W64"
    and "\<And>a m b. ns a = Some m \<Longrightarrow> mr_next m = Some b \<Longrightarrow> b = a + mr_size m"
    and "\<And>a m b. ns a = Some m \<Longrightarrow> mr_next m = Some b \<Longrightarrow> \<exists>m'. ns b = Some m' \<and> mr_prev m' = Some a"
    and "\<And>a m b. ns a = Some m \<Longrightarrow> mr_prev m = Some b \<Longrightarrow> \<exists>m'. ns b = Some m' \<and> mr_next m' = Some a"
    and "\<And>a b m m'. ns a = Some m \<Longrightarrow> ns b = Some m' \<Longrightarrow> a < b \<Longrightarrow> a + mr_size m \<le> b"
  shows "wf_nodes ns"
  using assms unfolding wf_nodes_def by meson

section \<open>Field updates\<close>

lemma upd_node_apply: "upd_node a f ns c = (if c = a then map_option f (ns c) else ns c)"
  by (simp add: upd_node_def)

lemma set_prev_opt_apply:
  "set_prev_opt nx p ns c =
     (if nx = Some c then map_option (mr_prev_update (\<lambda>_. Some p)) (ns c) else ns c)"
  by (auto simp: set_prev_opt_def upd_node_def split: option.splits)

lemma dom_upd_node [simp]: "dom (upd_node a f ns) = dom ns"
  by (auto simp: upd_node_def dom_def)

lemma dom_set_prev_opt [simp]: "dom (set_prev_opt nx p ns) = dom ns"
  by (auto simp: set_prev_opt_def split: option.splits)

lemmas node_apply = upd_node_apply set_prev_opt_apply

section \<open>Marking a region\<close>

definition mark :: "addr_t \<Rightarrow> bool \<Rightarrow> nodes \<Rightarrow> nodes" where
  "mark a v ns = upd_node a (\<lambda>m. m\<lparr>mr_free := v\<rparr>) ns"

lemma mark_SomeD:
  assumes "mark a v ns c = Some k"
  shows "\<exists>k0. ns c = Some k0 \<and> mr_addr k0 = mr_addr k \<and> mr_size k0 = mr_size k
           \<and> mr_next k0 = mr_next k \<and> mr_prev k0 = mr_prev k"
  using assms by (auto simp: mark_def upd_node_apply split: if_splits)

lemma mark_SomeI:
  assumes "ns c = Some k"
  shows "\<exists>k'. mark a v ns c = Some k' \<and> mr_size k' = mr_size k
           \<and> mr_next k' = mr_next k \<and> mr_prev k' = mr_prev k"
  using assms by (auto simp: mark_def upd_node_apply)

lemma wf_mark:
  assumes "wf_nodes ns"
  shows "wf_nodes (mark a v ns)"
proof (rule wf_nodesI)
  note D = wf_nodesD [OF assms]
  fix c k assume k: "mark a v ns c = Some k"
  from mark_SomeD [OF this] obtain k0 where k0: "ns c = Some k0" "mr_addr k0 = mr_addr k"
    "mr_size k0 = mr_size k" "mr_next k0 = mr_next k" "mr_prev k0 = mr_prev k" by blast
  show "mr_addr k = c \<and> 0 < mr_size k \<and> c + mr_size k < W64"
    using D(1-3) [OF k0(1)] k0 by simp
  show "b = c + mr_size k" if "mr_next k = Some b" for b
    using D(4) [OF k0(1)] k0 that by simp
  show "\<exists>m'. mark a v ns b = Some m' \<and> mr_prev m' = Some c" if "mr_next k = Some b" for b
    using D(5) [OF k0(1)] k0(4) that mark_SomeI by metis
  show "\<exists>m'. mark a v ns b = Some m' \<and> mr_next m' = Some c" if "mr_prev k = Some b" for b
    using D(6) [OF k0(1)] k0(5) that mark_SomeI by metis
  show "c + mr_size k \<le> b" if "mark a v ns b = Some m'" "c < b" for b m'
    using mark_SomeD [OF that(1)] D(7) [OF k0(1)] k0(3) that(2) by metis
qed

lemma dom_mark [simp]: "dom (mark a v ns) = dom ns"
  by (simp add: mark_def)

lemma managed_mark [simp]: "managed (mark a v ns) = managed ns"
  by (fastforce simp: managed_def mark_def upd_node_apply split: if_splits)

section \<open>Splitting a region\<close>

definition split_node :: "addr_t \<Rightarrow> size_t \<Rightarrow> nodes \<Rightarrow> nodes" where
  "split_node a off ns =
     (case ns a of
        None \<Rightarrow> ns
      | Some m \<Rightarrow>
          (set_prev_opt (mr_next m) (a + off)
             (ns(a \<mapsto> m\<lparr>mr_size := off, mr_next := Some (a + off)\<rparr>)))
          (a + off \<mapsto> \<lparr>mr_addr = a + off, mr_size = mr_size m - off, mr_free = mr_free m,
                      mr_next = mr_next m, mr_prev = Some a\<rparr>))"

lemma split_node_apply:
  assumes "wf_nodes ns" "ns a = Some m" "0 < off" "off < mr_size m"
  shows "split_node a off ns c =
     (if c = a + off then Some \<lparr>mr_addr = a + off, mr_size = mr_size m - off, mr_free = mr_free m,
                                mr_next = mr_next m, mr_prev = Some a\<rparr>
      else if c = a then Some (m\<lparr>mr_size := off, mr_next := Some (a + off)\<rparr>)
      else if mr_next m = Some c then map_option (mr_prev_update (\<lambda>_. Some (a + off))) (ns c)
      else ns c)"
  using assms wf_nodesD(4) [OF assms(1,2), of a]
  by (auto simp: split_node_def set_prev_opt_apply)

lemma split_point_fresh:
  assumes "wf_nodes ns" "ns a = Some m" "0 < off" "off < mr_size m"
  shows "ns (a + off) = None"
proof (rule ccontr)
  assume "ns (a + off) \<noteq> None"
  then obtain m' where "ns (a + off) = Some m'" by blast
  with wf_nodesD(7) [OF assms(1,2), of "a + off" m'] assms(3,4) show False by simp
qed

lemma dom_split_node:
  assumes "wf_nodes ns" "ns a = Some m" "0 < off" "off < mr_size m"
  shows "dom (split_node a off ns) = insert (a + off) (dom ns)"
  using assms(2) by (auto simp: split_node_def)

lemma split_node_next:
  assumes wf: "wf_nodes ns" and a: "ns a = Some m" and off: "0 < off" "off < mr_size m"
    and k: "split_node a off ns c = Some k" "mr_next k = Some b"
  shows "b = c + mr_size k" "\<exists>m'. split_node a off ns b = Some m' \<and> mr_prev m' = Some c"
proof -
  note S = split_node_apply [OF wf a off]
  consider (new) "c = a + off" | (old) "c = a" | (other) "c \<noteq> a + off" "c \<noteq> a" by blast
  then have "b = c + mr_size k \<and> (\<exists>m'. split_node a off ns b = Some m' \<and> mr_prev m' = Some c)"
  proof cases
    case new
    with k have n: "mr_next m = Some b" "mr_size k = mr_size m - off" by (auto simp: S)
    from wf_nodesD(4,5) [OF wf a n(1)] obtain m' where "b = a + mr_size m" "ns b = Some m'" by blast
    with new n off show ?thesis by (auto simp: S)
  next
    case old
    with k off show ?thesis by (auto simp: S)
  next
    case other
    with k obtain k0 where k0: "ns c = Some k0" "mr_next k0 = Some b" "mr_size k0 = mr_size k"
      by (auto simp: S split: if_splits)
    from wf_nodesD(4,5) [OF wf k0(1,2)] obtain m' where m': "b = c + mr_size k0" "ns b = Some m'"
      "mr_prev m' = Some c" by blast
    have "b \<noteq> a + off" using split_point_fresh [OF wf a off] m'(2) by auto
    moreover have "mr_next m \<noteq> Some b"
    proof
      assume "mr_next m = Some b"
      from wf_nodesD(5) [OF wf a this] m' have "c = a" by auto
      with other show False by simp
    qed
    ultimately show ?thesis using m' k0 a by (auto simp: S)
  qed
  then show "b = c + mr_size k" "\<exists>m'. split_node a off ns b = Some m' \<and> mr_prev m' = Some c"
    by blast+
qed

lemma split_node_prev:
  assumes wf: "wf_nodes ns" and a: "ns a = Some m" and off: "0 < off" "off < mr_size m"
    and k: "split_node a off ns c = Some k" "mr_prev k = Some b"
  shows "\<exists>m'. split_node a off ns b = Some m' \<and> mr_next m' = Some c"
proof -
  note S = split_node_apply [OF wf a off]
  consider (new) "c = a + off" | (nxt) "c \<noteq> a + off" "c \<noteq> a" "mr_next m = Some c"
    | (other) "c \<noteq> a + off" "c = a \<or> mr_next m \<noteq> Some c" by blast
  then show ?thesis
  proof cases
    case new
    with k off show ?thesis by (auto simp: S)
  next
    case nxt
    with k off show ?thesis by (auto simp: S)
  next
    case other
    with k a obtain k0 where k0: "ns c = Some k0" "mr_prev k0 = Some b"
      by (auto simp: S split: if_splits)
    from wf_nodesD(6) [OF wf k0] obtain m' where m': "ns b = Some m'" "mr_next m' = Some c" by blast
    have "b \<noteq> a + off" using split_point_fresh [OF wf a off] m'(1) by auto
    moreover have "b \<noteq> a"
    proof
      assume "b = a"
      with m' a have "mr_next m = Some c" by simp
      with other wf_nodesD(2,4) [OF wf a] show False by auto
    qed
    ultimately show ?thesis using m' by (auto simp: S)
  qed
qed

lemma split_node_disjoint:
  assumes wf: "wf_nodes ns" and a: "ns a = Some m" and off: "0 < off" "off < mr_size m"
    and k: "split_node a off ns c = Some k" "split_node a off ns d = Some k'" "c < d"
  shows "c + mr_size k \<le> d"
proof -
  note S = split_node_apply [OF wf a off]
  have old: "\<exists>k0. ns e = Some k0 \<and> mr_size k0 = mr_size j"
    if "split_node a off ns e = Some j" "e \<noteq> a + off" "e \<noteq> a" for e j
    using that by (auto simp: S split: if_splits)
  consider (ca) "c = a" | (cn) "c = a + off" | (co) "c \<noteq> a" "c \<noteq> a + off" by blast
  then show ?thesis
  proof cases
    case ca
    show ?thesis
    proof (cases "d = a + off")
      case False
      with ca k(3) old [OF k(2)] obtain k0 where "ns d = Some k0" by auto
      from wf_nodesD(7) [OF wf a this] ca k(1,3) off show ?thesis by (auto simp: S)
    qed (use ca k(1) off in \<open>auto simp: S\<close>)
  next
    case cn
    with k(3) old [OF k(2)] obtain k0 where "ns d = Some k0" by auto
    from wf_nodesD(7) [OF wf a this] cn k(1,3) off show ?thesis by (auto simp: S)
  next
    case co
    with old [OF k(1)] obtain k0 where k0: "ns c = Some k0" "mr_size k0 = mr_size k" by auto
    have "\<exists>k1. ns (if d = a + off then a else d) = Some k1"
      using k(2) a old [OF k(2)] by auto
    then obtain k1 where k1: "ns (if d = a + off then a else d) = Some k1" by blast
    show ?thesis
    proof (cases "d = a + off \<and> a < c")
      case True
      from wf_nodesD(7) [OF wf a k0(1)] True k(3) off show ?thesis by simp
    next
      case False
      with co k(3) have "c < (if d = a + off then a else d)" by auto
      from wf_nodesD(7) [OF wf k0(1) k1 this] k0(2) show ?thesis by (simp split: if_splits)
    qed
  qed
qed

lemma wf_split_node:
  assumes "wf_nodes ns" "ns a = Some m" "0 < off" "off < mr_size m"
  shows "wf_nodes (split_node a off ns)"
proof -
  note S = split_node_apply [OF assms]
  have one: "mr_addr k = c \<and> 0 < mr_size k \<and> c + mr_size k < W64"
    if k: "split_node a off ns c = Some k" for c k
  proof (cases "c = a \<or> c = a + off")
    case True
    with k show ?thesis using wf_nodesD(1,3) [OF assms(1,2)] assms(3,4) by (auto simp: S)
  next
    case False
    with k obtain k0 where "ns c = Some k0" "mr_addr k = mr_addr k0" "mr_size k = mr_size k0"
      by (auto simp: S split: if_splits)
    with wf_nodesD(1-3) [OF assms(1)] show ?thesis by auto
  qed
  show ?thesis
    by (rule wf_nodesI;
        (rule one | rule split_node_next [OF assms] | rule split_node_prev [OF assms]
          | rule split_node_disjoint [OF assms]); assumption)
qed

lemma region_of_split:
  assumes "wf_nodes ns" "ns a = Some m" "0 < off" "off < mr_size m"
  shows "(\<exists>c k. split_node a off ns c = Some k \<and> P (mr_free k) \<and> c \<le> x \<and> x < c + mr_size k) \<longleftrightarrow>
         (\<exists>c k. ns c = Some k \<and> P (mr_free k) \<and> c \<le> x \<and> x < c + mr_size k)" (is "?L = ?R")
proof
  note S = split_node_apply [OF assms]
  assume ?L
  then obtain c k where k: "split_node a off ns c = Some k" "P (mr_free k)" "c \<le> x" "x < c + mr_size k"
    by blast
  show ?R
  proof (cases "c = a \<or> c = a + off")
    case True
    with k assms show ?thesis by (intro exI [of _ a]) (auto simp: S)
  next
    case False
    with k show ?thesis by (intro exI [of _ c]) (auto simp: S split: if_splits)
  qed
next
  note S = split_node_apply [OF assms]
  assume ?R
  then obtain c k where k: "ns c = Some k" "P (mr_free k)" "c \<le> x" "x < c + mr_size k" by blast
  show ?L
  proof (cases "c = a")
    case True
    show ?thesis
    proof (cases "x < a + off")
      case True
      with k \<open>c = a\<close> assms show ?thesis by (intro exI [of _ a]) (auto simp: S)
    next
      case False
      with k \<open>c = a\<close> assms show ?thesis by (intro exI [of _ "a + off"]) (auto simp: S)
    qed
  next
    case False
    have "c \<noteq> a + off" using split_point_fresh [OF assms] k(1) by auto
    with False k show ?thesis by (intro exI [of _ c]) (auto simp: S)
  qed
qed

lemma managed_split_node:
  assumes "wf_nodes ns" "ns a = Some m" "0 < off" "off < mr_size m"
  shows "managed (split_node a off ns) = managed ns"
  using region_of_split [OF assms, of "\<lambda>_. True"] by (simp add: managed_def)

lemma free_bytes_split_node:
  assumes "wf_nodes ns" "ns a = Some m" "0 < off" "off < mr_size m"
  shows "free_bytes (split_node a off ns) = free_bytes ns"
  using region_of_split [OF assms, of "\<lambda>f. f"] by (simp add: free_bytes_def)

lemma used_split_node:
  assumes "wf_nodes ns" "ns a = Some m" "0 < off" "off < mr_size m" "mr_free m"
  shows "used (split_node a off ns) = used ns"
proof -
  note S = split_node_apply [OF assms(1-4)]
  have fresh: "ns (a + off) = None" by (rule split_point_fresh [OF assms(1-4)])
  have "(\<exists>k. split_node a off ns c = Some k \<and> \<not> mr_free k \<and> n = mr_size k) \<longleftrightarrow>
        (\<exists>k. ns c = Some k \<and> \<not> mr_free k \<and> n = mr_size k)" for c n
    using assms(2,5) fresh by (auto simp: S)
  then show ?thesis by (simp add: used_def)
qed

section \<open>Merging a region with its successor\<close>

definition merge_node :: "addr_t \<Rightarrow> addr_t \<Rightarrow> nodes \<Rightarrow> nodes" where
  "merge_node a b ns =
     (case ns b of
        None \<Rightarrow> ns
      | Some mb \<Rightarrow>
          (set_prev_opt (mr_next mb) a
             (upd_node a (\<lambda>m. m\<lparr>mr_size := mr_size m + mr_size mb, mr_next := mr_next mb\<rparr>) ns))
          (b := None))"

lemma merge_node_apply:
  assumes wf: "wf_nodes ns" and a: "ns a = Some ma" "mr_next ma = Some b" and b: "ns b = Some mb"
  shows "merge_node a b ns c =
     (if c = b then None
      else if c = a then Some (ma\<lparr>mr_size := mr_size ma + mr_size mb, mr_next := mr_next mb\<rparr>)
      else if mr_next mb = Some c then map_option (mr_prev_update (\<lambda>_. Some a)) (ns c)
      else ns c)"
proof -
  have "b = a + mr_size ma" "0 < mr_size ma" using wf_nodesD(2,4) [OF wf a(1)] a(2) by auto
  moreover have "mr_next mb \<noteq> Some a"
    using wf_nodesD(4) [OF wf b, of a] calculation by auto
  ultimately show ?thesis using a b by (auto simp: merge_node_def node_apply)
qed

lemma dom_merge_node: "ns b = Some mb \<Longrightarrow> dom (merge_node a b ns) = dom ns - {b}"
  by (simp add: merge_node_def)

lemma wf_merge_node:
  assumes wf: "wf_nodes ns" and a: "ns a = Some ma" "mr_next ma = Some b" and b: "ns b = Some mb"
  shows "wf_nodes (merge_node a b ns)"
proof -
  note M = merge_node_apply [OF assms]
  note A = wf_nodesD [OF wf a(1)]
  note B = wf_nodesD [OF wf b]
  have ab: "b = a + mr_size ma" "a \<noteq> b" using A(2,4) a(2) by auto
  have pull: "\<exists>k0. ns c = Some k0 \<and> mr_addr k0 = mr_addr k \<and> mr_size k0 = mr_size k
        \<and> mr_next k0 = mr_next k \<and> (mr_next mb \<noteq> Some c \<longrightarrow> mr_prev k0 = mr_prev k)"
    if "merge_node a b ns c = Some k" "c \<noteq> a" for c k
    using that by (auto simp: M split: if_splits)
  have prev_b: "mr_prev mb = Some a" using A(5) a(2) b by auto
  have Ma: "k = ma\<lparr>mr_size := mr_size ma + mr_size mb, mr_next := mr_next mb\<rparr>"
    if "merge_node a b ns a = Some k" for k
    using that ab(2) by (simp add: M)
  show ?thesis
  proof (rule wf_nodesI)
    fix c k assume k: "merge_node a b ns c = Some k"
    show "mr_addr k = c \<and> 0 < mr_size k \<and> c + mr_size k < W64"
    proof (cases "c = a")
      case True
      with k Ma [of k] ab(1) A(1-3) B(3) show ?thesis by simp
    next
      case False
      from pull [OF k this] wf_nodesD(1-3) [OF wf] show ?thesis by metis
    qed
  next
    fix c k d assume k: "merge_node a b ns c = Some k" "mr_next k = Some d"
    show "d = c + mr_size k"
    proof (cases "c = a")
      case True
      with k Ma [of k] ab(1) B(4) show ?thesis by simp
    next
      case False
      from pull [OF k(1) this] k(2) wf_nodesD(4) [OF wf] show ?thesis by metis
    qed
    show "\<exists>m'. merge_node a b ns d = Some m' \<and> mr_prev m' = Some c"
    proof (cases "c = a")
      case True
      with k Ma [of k] have n: "mr_next mb = Some d" by simp
      from B(4,5) [OF n] obtain m' where "d = b + mr_size mb" "ns d = Some m'" by blast
      with True n ab B(2) A(2) have "d \<noteq> b" "d \<noteq> a" by auto
      with True n \<open>ns d = Some m'\<close> show ?thesis by (auto simp: M)
    next
      case False
      from pull [OF k(1) this] k(2) obtain k0 where k0: "ns c = Some k0" "mr_next k0 = Some d" by auto
      from wf_nodesD(5) [OF wf k0] obtain m' where m': "ns d = Some m'" "mr_prev m' = Some c" by blast
      have "c \<noteq> b" using k(1) by (auto simp: M)
      moreover have "d \<noteq> b" using m' b prev_b False by auto
      moreover have "mr_next mb \<noteq> Some d"
        using B(5) [of d] m' \<open>c \<noteq> b\<close> by auto
      ultimately show ?thesis using m' a(1) by (auto simp: M)
    qed
  next
    fix c k d assume k: "merge_node a b ns c = Some k" "mr_prev k = Some d"
    show "\<exists>m'. merge_node a b ns d = Some m' \<and> mr_next m' = Some c"
    proof (cases "c \<noteq> a \<and> mr_next mb = Some c")
      case True
      with k ab(2) show ?thesis by (auto simp: M split: if_splits)
    next
      case False
      then obtain k0 where k0: "ns c = Some k0" "mr_prev k0 = Some d" "c \<noteq> b"
        using k a(1) pull [OF k(1)] by (cases "c = a") (auto simp: M split: if_splits)
      from wf_nodesD(6) [OF wf k0(1,2)] obtain m' where m': "ns d = Some m'" "mr_next m' = Some c"
        by blast
      have "d \<noteq> b"
      proof
        assume "d = b"
        with m' b have "mr_next mb = Some c" by simp
        with False B(4) [of c] ab B(2) A(2) show False by auto
      qed
      moreover have "d \<noteq> a" using m' a k0(3) by auto
      ultimately show ?thesis using m' by (auto simp: M)
    qed
  next
    fix c d k k' assume k: "merge_node a b ns c = Some k" "merge_node a b ns d = Some k'" "c < d"
    have d: "d \<noteq> b" "c \<noteq> b" "\<exists>k1. ns d = Some k1"
      using k a(1) by (auto simp: M split: if_splits)
    then obtain k1 where k1: "ns d = Some k1" by blast
    show "c + mr_size k \<le> d"
    proof (cases "c = a")
      case True
      have "a + mr_size ma \<le> d" using A(7) [OF k1] k(3) True by simp
      with d ab have "b < d" by auto
      from B(7) [OF k1 this] True k(1) Ma [of k] ab(1) show ?thesis by simp
    next
      case False
      from pull [OF k(1) this] obtain k0 where "ns c = Some k0" "mr_size k0 = mr_size k" by auto
      with wf_nodesD(7) [OF wf _ k1 k(3)] show ?thesis by metis
    qed
  qed
qed

lemma region_of_merge:
  assumes wf: "wf_nodes ns" and a: "ns a = Some ma" "mr_next ma = Some b" and b: "ns b = Some mb"
    and eqv: "P (mr_free mb) = P (mr_free ma)"
  shows "(\<exists>c k. merge_node a b ns c = Some k \<and> P (mr_free k) \<and> c \<le> x \<and> x < c + mr_size k) \<longleftrightarrow>
         (\<exists>c k. ns c = Some k \<and> P (mr_free k) \<and> c \<le> x \<and> x < c + mr_size k)" (is "?L = ?R")
proof
  note M = merge_node_apply [OF wf a b]
  have ab: "b = a + mr_size ma" "a \<noteq> b" using wf_nodesD(2,4) [OF wf a(1)] a(2) by auto
  assume ?L
  then obtain c k where k: "merge_node a b ns c = Some k" "P (mr_free k)" "c \<le> x" "x < c + mr_size k"
    by blast
  show ?R
  proof (cases "c = a")
    case True
    with k(1) ab(2) have k': "mr_free k = mr_free ma" "mr_size k = mr_size ma + mr_size mb"
      by (auto simp: M)
    show ?thesis
    proof (cases "x < b")
      case True
      with k k' \<open>c = a\<close> ab a show ?thesis by (intro exI [of _ a]) auto
    next
      case False
      with k k' \<open>c = a\<close> ab b eqv show ?thesis by (intro exI [of _ b]) auto
    qed
  next
    case False
    with k show ?thesis by (intro exI [of _ c]) (auto simp: M split: if_splits)
  qed
next
  note M = merge_node_apply [OF wf a b]
  have ab: "b = a + mr_size ma" "a \<noteq> b" using wf_nodesD(2,4) [OF wf a(1)] a(2) by auto
  assume ?R
  then obtain c k where k: "ns c = Some k" "P (mr_free k)" "c \<le> x" "x < c + mr_size k" by blast
  show ?L
  proof (cases "c = a \<or> c = b")
    case True
    have "merge_node a b ns a =
        Some (ma\<lparr>mr_size := mr_size ma + mr_size mb, mr_next := mr_next mb\<rparr>)"
      using ab(2) by (simp add: M)
    moreover have "P (mr_free ma)" "a \<le> x" "x < a + (mr_size ma + mr_size mb)"
      using True k ab(1) a b eqv by auto
    ultimately show ?thesis by force
  next
    case False
    with k show ?thesis by (intro exI [of _ c]) (auto simp: M)
  qed
qed

lemma managed_merge_node:
  assumes "wf_nodes ns" "ns a = Some ma" "mr_next ma = Some b" "ns b = Some mb"
  shows "managed (merge_node a b ns) = managed ns"
  using region_of_merge [OF assms, of "\<lambda>_. True"] by (simp add: managed_def)

lemma used_merge_node:
  assumes "wf_nodes ns" "ns a = Some ma" "mr_next ma = Some b" "ns b = Some mb"
    and "mr_free ma" "mr_free mb"
  shows "used (merge_node a b ns) = used ns"
proof -
  note M = merge_node_apply [OF assms(1-4)]
  have "(\<exists>k. merge_node a b ns c = Some k \<and> \<not> mr_free k \<and> n = mr_size k) \<longleftrightarrow>
        (\<exists>k. ns c = Some k \<and> \<not> mr_free k \<and> n = mr_size k)" for c n
    using assms(2-6) by (auto simp: M)
  then show ?thesis by (simp add: used_def)
qed

end
