(* ===== verification/Heap_Interface.thy ===== *)
theory Heap_Interface
  imports Prelude
begin

text \<open>
  The contract of an allocator of address ranges, as the clients of
  \<open>core/avl_malloc.h\<close> rely on it: a request that succeeds returns a range inside the managed
  space that overlaps no live range, a request that fails changes no live range, and a
  release removes exactly the range that starts at its argument. What follows from the
  contract for a whole history of calls is proved once here.
\<close>

datatype 'r heap_op = Op_alloc 'r | Op_free addr_t

definition heap_step ::
    "('r \<Rightarrow> ('s, addr_t) prog) \<Rightarrow> (addr_t \<Rightarrow> ('s, size_t) prog) \<Rightarrow> 'r heap_op \<Rightarrow> 's \<Rightarrow> 's" where
  "heap_step alloc free op s =
     (case op of Op_alloc r \<Rightarrow> snd (alloc r s) | Op_free a \<Rightarrow> snd (free a s))"

definition heap_run ::
    "('r \<Rightarrow> ('s, addr_t) prog) \<Rightarrow> (addr_t \<Rightarrow> ('s, size_t) prog) \<Rightarrow> 'r heap_op list \<Rightarrow> 's \<Rightarrow> 's" where
  "heap_run alloc free ops s = fold (heap_step alloc free) ops s"

definition ops_ok :: "('r \<Rightarrow> bool) \<Rightarrow> 'r heap_op list \<Rightarrow> bool" where
  "ops_ok ok ops \<longleftrightarrow> (\<forall>op \<in> set ops. case op of Op_alloc r \<Rightarrow> ok r | Op_free a \<Rightarrow> True)"

definition ranges_disjoint :: "(addr_t \<times> size_t) set \<Rightarrow> bool" where
  "ranges_disjoint L \<longleftrightarrow>
     (\<forall>(a, n) \<in> L. \<forall>(b, k) \<in> L. (a, n) \<noteq> (b, k) \<longrightarrow> {a ..< a + n} \<inter> {b ..< b + k} = {})"

lemma ranges_disjoint_subset: "ranges_disjoint L \<Longrightarrow> L' \<subseteq> L \<Longrightarrow> ranges_disjoint L'"
  unfolding ranges_disjoint_def by blast

lemma ranges_disjoint_insert:
  assumes "ranges_disjoint L" "\<forall>(b, k) \<in> L. {a ..< a + n} \<inter> {b ..< b + k} = {}"
  shows "ranges_disjoint ({(a, n)} \<union> L)"
  using assms unfolding ranges_disjoint_def by (auto 4 3)

locale range_heap =
  fixes alloc :: "'r \<Rightarrow> ('s, addr_t) prog"
    and free :: "addr_t \<Rightarrow> ('s, size_t) prog"
    and ok :: "'r \<Rightarrow> bool"
    and req_size :: "'r \<Rightarrow> size_t"
    and inv :: "'s \<Rightarrow> bool"
    and live :: "'s \<Rightarrow> (addr_t \<times> size_t) set"
    and room :: "'s \<Rightarrow> addr_t set"
  assumes alloc_some: "inv s \<Longrightarrow> ok r \<Longrightarrow> alloc r s = (Inr a, s') \<Longrightarrow>
        inv s' \<and> room s' = room s \<and> live s' = {(a, req_size r)} \<union> live s \<and>
        {a ..< a + req_size r} \<subseteq> room s \<and>
        (\<forall>(b, k) \<in> live s. {a ..< a + req_size r} \<inter> {b ..< b + k} = {})"
    and alloc_none: "inv s \<Longrightarrow> ok r \<Longrightarrow> alloc r s = (Inl e, s') \<Longrightarrow>
        inv s' \<and> room s' = room s \<and> live s' = live s"
    and free_law: "inv s \<Longrightarrow> \<exists>n s'. free a s = (Inr n, s') \<and> inv s' \<and> room s' = room s \<and>
        live s' = {(b, k) \<in> live s. b \<noteq> a} \<and> ((\<exists>k. (a, k) \<in> live s) \<longrightarrow> (a, n) \<in> live s)"
    and live_disjoint: "inv s \<Longrightarrow> ranges_disjoint (live s)"
    and live_room: "inv s \<Longrightarrow> (a, k) \<in> live s \<Longrightarrow> {a ..< a + k} \<subseteq> room s"
    and live_fun: "inv s \<Longrightarrow> (a, k) \<in> live s \<Longrightarrow> (a, k') \<in> live s \<Longrightarrow> k = k'"
begin

lemma step_keeps:
  assumes "inv s" "case op of Op_alloc r \<Rightarrow> ok r | Op_free a \<Rightarrow> True"
  shows "inv (heap_step alloc free op s) \<and> room (heap_step alloc free op s) = room s"
proof (cases op)
  case (Op_alloc r)
  obtain q s' where q: "alloc r s = (q, s')" by force
  with Op_alloc assms alloc_some [OF assms(1)] alloc_none [OF assms(1)] show ?thesis
    by (cases q) (auto simp: heap_step_def)
next
  case (Op_free a)
  with free_law [OF assms(1), of a] show ?thesis by (auto simp: heap_step_def)
qed

lemma run_keeps:
  "inv s \<Longrightarrow> ops_ok ok ops \<Longrightarrow> inv (heap_run alloc free ops s) \<and> room (heap_run alloc free ops s) = room s"
proof (induction ops arbitrary: s)
  case (Cons op ops)
  have "case op of Op_alloc r \<Rightarrow> ok r | Op_free a \<Rightarrow> True" "ops_ok ok ops"
    using Cons.prems(2) by (auto simp: ops_ok_def)
  with step_keeps [OF Cons.prems(1)] Cons.IH show ?case by (simp add: heap_run_def)
qed (simp add: heap_run_def)

lemma run_disjoint:
  assumes "inv s" "ops_ok ok ops"
  shows "ranges_disjoint (live (heap_run alloc free ops s)) \<and>
         (\<forall>(a, k) \<in> live (heap_run alloc free ops s). {a ..< a + k} \<subseteq> room s)"
proof -
  let ?s = "heap_run alloc free ops s"
  have k: "inv ?s" "room ?s = room s" using run_keeps [OF assms] by simp_all
  have "\<forall>(a, k) \<in> live ?s. {a ..< a + k} \<subseteq> room s"
    using live_room [OF k(1)] k(2) by (intro ballI) (simp add: case_prod_unfold)
  with live_disjoint [OF k(1)] show ?thesis ..
qed

lemma alloc_then_free:
  assumes "inv s" "ok r" "alloc r s = (Inr a, s1)" "0 < req_size r"
  obtains s2 where "free a s1 = (Inr (req_size r), s2)" "inv s2" "live s2 = live s" "room s2 = room s"
proof -
  from alloc_some [OF assms(1-3)] have A: "inv s1" "room s1 = room s"
      "live s1 = {(a, req_size r)} \<union> live s"
      "\<forall>(b, k) \<in> live s. {a ..< a + req_size r} \<inter> {b ..< b + k} = {}" by blast+
  from free_law [OF A(1), of a] obtain n s2 where F: "free a s1 = (Inr n, s2)" "inv s2" "room s2 = room s1"
      "live s2 = {(b, k) \<in> live s1. b \<noteq> a}" "(\<exists>k. (a, k) \<in> live s1) \<longrightarrow> (a, n) \<in> live s1"
    by blast
  have uniq: "k = req_size r" if "(a, k) \<in> live s1" for k
    using live_fun [OF A(1) that, of "req_size r"] A(3) by simp
  have n: "n = req_size r" using F(5) A(3) by (intro uniq) blast
  have "(a, k) \<notin> live s" for k
  proof
    assume k: "(a, k) \<in> live s"
    then have "k = req_size r" using A(3) by (intro uniq) blast
    with k A(4) assms(4) show False by force
  qed
  then have "live s2 = live s" unfolding F(4) A(3) by auto
  with F(1,2,3) A(2) n that show ?thesis by simp
qed

end

end
