(* ===== verification/Avl_Alloc_Props.thy ===== *)
theory Avl_Alloc_Props
  imports Avl_Alloc_Inv Heap_Interface
begin

text \<open>
  Correctness of the AVL range allocator: the searches, allocation, release and the
  constructor keep the invariant of \<open>Avl_Alloc_Inv\<close>; allocation hands out an aligned region
  carved from free bytes and changes nothing when it throws; release gives exactly that
  region back and leaves no two adjacent free regions. The placement operation \<open>alloc_at\<close>
  does neither, and the theorems at the end exhibit its failures.
\<close>

section \<open>Searches\<close>

fun preorder :: "'a avl_node \<Rightarrow> 'a list" where
  "preorder Null = []"
| "preorder (Node l x b r) = x # preorder r @ preorder l"

lemma set_preorder: "set (preorder t) = avl_keys t"
  by (induction t) auto

lemma preorder_push_children [simp]:
  "concat (map preorder (push_children l r st)) =
     preorder r @ preorder l @ concat (map preorder st)"
  by (auto simp: push_children_def Let_def)

lemma dfs_vector_find:
  "Null \<notin> set st \<Longrightarrow> dfs_vector P st = Inr (List.find P (concat (map preorder st)))"
proof (induction P st rule: dfs_vector.induct)
  case (3 P l x b r st)
  have "Null \<notin> set (push_children l r st)"
    using "3.prems" by (auto simp: push_children_def Let_def)
  with 3 show ?case by auto
qed auto

text \<open>
  \<open>stack_ok\<close> bounds the stack: every entry's height plus the entries below it stays within
  the limit. It holds initially when the tree's height does, and each iteration keeps it.
\<close>

fun stack_ok :: "nat \<Rightarrow> 'a avl_node list \<Rightarrow> bool" where
  "stack_ok B [] = True"
| "stack_ok B (t # st) \<longleftrightarrow> t \<noteq> Null \<and> length st + height t \<le> B \<and> stack_ok B st"

lemma push_children_bounded:
  assumes "stack_ok STACK_SIZE (Node l x b r # st)"
  shows "bind_res (fs_push_nonnull l st) (\<lambda>st1. bind_res (fs_push_nonnull r st1) f)
           = f (push_children l r st)"
    and "stack_ok STACK_SIZE (push_children l r st)"
proof -
  have h: "Suc (length st + max (height l) (height r)) \<le> STACK_SIZE" using assms by simp
  have l: "fs_push_nonnull l st = Inr (if l \<noteq> Null then l # st else st)"
    using h by (auto simp: fs_push_nonnull_def fs_push_def)
  have two: "Suc (Suc (length st)) \<le> STACK_SIZE" if "r \<noteq> Null"
  proof -
    have "height r \<noteq> 0" using that by simp
    with h show ?thesis by linarith
  qed
  have r: "fs_push_nonnull r (if l \<noteq> Null then l # st else st) = Inr (push_children l r st)"
    using h two by (cases "r = Null") (auto simp: fs_push_nonnull_def fs_push_def push_children_def)
  show "bind_res (fs_push_nonnull l st) (\<lambda>st1. bind_res (fs_push_nonnull r st1) f)
           = f (push_children l r st)"
    by (simp add: l r)
  show "stack_ok STACK_SIZE (push_children l r st)"
    using assms by (auto simp: push_children_def Let_def)
qed

lemma dfs_fixed_find:
  "stack_ok STACK_SIZE st \<Longrightarrow> dfs_fixed P st = Inr (List.find P (concat (map preorder st)))"
proof (induction P st rule: dfs_fixed.induct)
  case (3 P l x b r st)
  note push = push_children_bounded [OF "3.prems"]
  show ?case
  proof (cases "P x")
    case False
    have "dfs_fixed P (Node l x b r # st) = dfs_fixed P (push_children l r st)"
      using False push(1) [of "dfs_fixed P"] by simp
    also have "\<dots> = Inr (List.find P (concat (map preorder (push_children l r st))))"
    proof -
      have "fs_push_nonnull l st = Inr (if l \<noteq> Null then l # st else st)"
        using "3.prems" by (auto simp: fs_push_nonnull_def fs_push_def)
      moreover have "fs_push_nonnull r (if l \<noteq> Null then l # st else st) = Inr (push_children l r st)"
        using push(1) [of "\<lambda>x. Inr x"] calculation by (simp split: if_splits; metis bind_res_Inr_iff)
      ultimately show ?thesis using "3.IH" False push(2) by blast
    qed
    finally show ?thesis using False by simp
  qed simp
qed auto

text \<open>A balanced tree of 64-bit addresses is never deep enough to overflow the stack.\<close>

lemma address_tree_height:
  assumes "avl_inv t" "avl_keys t \<subseteq> {..<W64}"
  shows "height t \<le> 131"
proof -
  have "distinct (inorder t)"
    using assms(1) by (simp add: avl_inv_def strict_sorted_iff)
  then have "length (inorder t) = card (avl_keys t)" by (simp add: distinct_card)
  also have "\<dots> \<le> card {..<W64}" using assms(2) by (intro card_mono) auto
  finally have "length (inorder t) + 1 \<le> 2 ^ 65" by simp
  with balanced_height_bound [of t] assms(1) have "(2::nat) ^ (height t div 2) \<le> 2 ^ 65"
    by (simp add: avl_inv_def)
  then have "height t div 2 \<le> 65" by (subst (asm) power_increasing_iff) auto
  then show ?thesis by linarith
qed

lemma stack_ok_root:
  assumes "ra_inv0 s"
  shows "stack_ok STACK_SIZE [ra_tree s]"
proof -
  have "avl_keys (ra_tree s) \<subseteq> {..<W64}"
    using assms by (fastforce simp: ra_inv0_def dest: wf_nodesD(3))
  with assms have "height (ra_tree s) \<le> 131"
    by (intro address_tree_height) (auto simp: ra_inv0_def)
  with assms show ?thesis by (simp add: ra_inv0_def STACK_SIZE_def)
qed

lemma ra_inv0D:
  assumes "ra_inv0 s"
  shows "avl_inv (ra_tree s)" "ra_tree s \<noteq> Null" "avl_keys (ra_tree s) = dom (ra_nodes s)"
    "wf_nodes (ra_nodes s)"
  using assms by (auto simp: ra_inv0_def)

lemma find_preorder_cases:
  obtains (none) "List.find P (preorder t) = None" "\<forall>a \<in> avl_keys t. \<not> P a"
  | (some) a where "List.find P (preorder t) = Some a" "a \<in> avl_keys t" "P a"
proof (cases "List.find P (preorder t)")
  case None
  then show ?thesis using set_preorder [of t] by (intro none) (auto simp: find_None_iff)
next
  case (Some a)
  then have "P a" "a \<in> set (preorder t)" by (auto simp: find_Some_iff)
  with Some show ?thesis using set_preorder [of t] by (intro some) auto
qed

lemma find_free_region_cases:
  assumes "ra_inv0 s"
  obtains (none) "find_free_region (ra_nodes s) (ra_tree s) n al = Inr None"
      "\<And>a m. ra_nodes s a = Some m \<Longrightarrow> mr_free m \<Longrightarrow> n \<le> mr_size m \<Longrightarrow> 0 < al \<and> a mod al \<noteq> 0"
  | (some) a m where "find_free_region (ra_nodes s) (ra_tree s) n al = Inr (Some a)"
      "ra_nodes s a = Some m" "mr_free m" "n \<le> mr_size m" "0 < al \<longrightarrow> a mod al = 0"
proof -
  note D = ra_inv0D [OF assms]
  have eq: "find_free_region (ra_nodes s) (ra_tree s) n al =
      Inr (List.find (fits (ra_nodes s) n al) (preorder (ra_tree s)))"
    using D(2) dfs_fixed_find [OF stack_ok_root [OF assms]] by (simp add: find_free_region_def)
  show ?thesis
  proof (cases rule: find_preorder_cases [of "fits (ra_nodes s) n al" "ra_tree s"])
    case none
    have "0 < al \<and> a mod al \<noteq> 0" if "ra_nodes s a = Some m" "mr_free m" "n \<le> mr_size m" for a m
    proof -
      have "\<not> fits (ra_nodes s) n al a" using none(2) that(1) D(3) by blast
      with that wf_nodesD(1) [OF D(4) that(1)] show ?thesis
        by (simp add: fits_def split: if_splits)
    qed
    with none eq show ?thesis by (intro that(1)) auto
  next
    case (some a)
    from some(2) D(3) obtain m where m: "ra_nodes s a = Some m" by auto
    with some(3) wf_nodesD(1) [OF D(4) m] show ?thesis
      using eq some(1) by (intro that(2) [of a m]) (auto simp: fits_def split: if_splits)
  qed
qed

lemma ra_find_eq:
  assumes "ra_inv0 s"
  shows "ra_find s a = Inr (if a \<in> dom (ra_nodes s) then Some a else None)"
proof -
  note D = ra_inv0D [OF assms]
  let ?P = "\<lambda>x. case ra_nodes s x of None \<Rightarrow> False | Some m \<Rightarrow> mr_addr m = a"
  have eq: "ra_find s a = Inr (List.find ?P (preorder (ra_tree s)))"
    using D(2) dfs_vector_find [of "[ra_tree s]" ?P] by (simp add: ra_find_def find_region_def)
  have P: "?P x \<longleftrightarrow> x = a" if "x \<in> dom (ra_nodes s)" for x
    using that wf_nodesD(1) [OF D(4)] by (auto split: option.splits)
  show ?thesis
  proof (cases rule: find_preorder_cases [of ?P "ra_tree s"])
    case none
    with eq P D(3) show ?thesis by auto
  next
    case (some x)
    with eq P D(3) show ?thesis by auto
  qed
qed

section \<open>Allocation\<close>

lemma insert_region_run:
  assumes "avl_inv (ra_tree s)" "avl_keys (ra_tree s) = K" "mr_addr m \<notin> K"
  obtains t where "insert_region_p m s =
      (Inr (), s\<lparr>ra_tree := t, ra_nodes := (ra_nodes s)(mr_addr m \<mapsto> m)\<rparr>)"
    "avl_inv t" "avl_keys t = insert (mr_addr m) K" "t \<noteq> Null"
proof -
  from assms obtain t where t: "insert_node (ra_tree s) (mr_addr m) = Inr t" "avl_inv t"
    "avl_keys t = {mr_addr m} \<union> avl_keys (ra_tree s)"
    using avl.ins_newE [of "ra_tree s" "mr_addr m"] by metis
  moreover from t(3) have "t \<noteq> Null" by auto
  ultimately show ?thesis using assms(2) by (intro that) (auto simp: insert_region_p_def)
qed

lemma write_p_run [simp]: "write_p f s = (Inr (), s\<lparr>ra_nodes := f (ra_nodes s)\<rparr>)"
  by (simp add: write_p_def)

lemma deref_p_run [simp]: "ra_nodes s a = Some m \<Longrightarrow> deref_p a s = (Inr m, s)"
  by (simp add: deref_p_def)

lemma slab_alloc_p_run [simp]:
  "ra_slab s = 0 \<Longrightarrow> bind_p slab_alloc_p f s = f False s"
  "0 < ra_slab s \<Longrightarrow> bind_p slab_alloc_p f s = f True (s\<lparr>ra_slab := ra_slab s - 1\<rparr>)"
  by (simp_all add: slab_alloc_p_def bind_p_def)

lemma ra_inv0_mark:
  "ra_inv0 s \<Longrightarrow> ra_inv0 (s\<lparr>ra_nodes := mark a v (ra_nodes s)\<rparr>)"
  by (auto simp: ra_inv0_def wf_mark)

lemma fit_nodes_eq:
  assumes "wf_nodes ns" "ns a = Some m" "0 < n" "n < mr_size m" "mr_free m"
  shows "(set_prev_opt (mr_next m) (a + n)
           (upd_node a (\<lambda>m. m\<lparr>mr_size := n, mr_free := False, mr_next := Some (a + n)\<rparr>) ns))
         (a + n \<mapsto> (new_region (a + n) (mr_size m - n))\<lparr>mr_prev := Some a, mr_next := mr_next m\<rparr>)
       = mark a False (split_node a n ns)" (is "?l = ?r")
proof
  fix c
  have "mr_next m \<noteq> Some a" using wf_nodesD(2,4) [OF assms(1,2)] by auto
  then show "?l c = ?r c"
    using assms(2-5)
    by (simp add: mark_def node_apply split_node_apply [OF assms(1-4)] new_region_def)
qed

lemma alloc_fit_correct:
  assumes inv: "ra_inv0 s" and a: "ra_nodes s a = Some m" "mr_free m" "n \<le> mr_size m"
    and n: "0 < n" and al: "dbg \<longrightarrow> 0 < al \<and> a mod al = 0"
  shows "(ra_slab s = 0 \<and> n < mr_size m \<and> alloc_fit dbg a n al s = (Inl General_exception, s)) \<or>
    (\<exists>s'. alloc_fit dbg a n al s = (Inr a, s') \<and> ra_inv0 s' \<and>
       ra_nodes s' = mark a False (if mr_size m = n then ra_nodes s else split_node a n (ra_nodes s)))"
proof -
  note D = ra_inv0D [OF inv]
  note M = wf_nodesD [OF D(4) a(1)]
  have aa: "assert_aligned dbg (mr_addr m) al = Inr ()"
    using al M(1) by (cases dbg) (auto intro: assert_aligned_ok)
  show ?thesis
  proof (cases "mr_size m = n")
    case True
    have "alloc_fit dbg a n al s = (Inr a, s\<lparr>ra_nodes := mark a False (ra_nodes s)\<rparr>)"
      using True a aa by (simp add: alloc_fit_def mark_def)
    with True ra_inv0_mark [OF inv] show ?thesis by auto
  next
    case False
    with a have lt: "n < mr_size m" by simp
    have arith: "add64 a n = a + n" "sub64 (mr_size m) n = mr_size m - n"
      using M(3) lt by (auto simp: u64_simps)
    show ?thesis
    proof (cases "ra_slab s = 0")
      case True
      with False a aa lt show ?thesis by (simp add: alloc_fit_def)
    next
      case slab: False
      define left where "left = (new_region (a + n) (mr_size m - n))\<lparr>mr_prev := Some a, mr_next := mr_next m\<rparr>"
      define ns where "ns = set_prev_opt (mr_next m) (a + n)
           (upd_node a (\<lambda>m. m\<lparr>mr_size := n, mr_free := False, mr_next := Some (a + n)\<rparr>) (ra_nodes s))"
      have la: "mr_addr left = a + n" by (simp add: left_def new_region_def)
      have fresh: "a + n \<notin> dom (ra_nodes s)"
        using split_point_fresh [OF D(4) a(1) n lt] by auto
      let ?s1 = "s\<lparr>ra_slab := ra_slab s - 1, ra_nodes := ns\<rparr>"
      obtain t where t: "insert_region_p left ?s1 =
          (Inr (), ?s1\<lparr>ra_tree := t, ra_nodes := (ra_nodes ?s1)(mr_addr left \<mapsto> left)\<rparr>)"
        "avl_inv t" "avl_keys t = insert (mr_addr left) (dom (ra_nodes s))" "t \<noteq> Null"
        by (rule insert_region_run [of ?s1 "dom (ra_nodes s)" left]) (use D fresh la in auto)
      have run: "alloc_fit dbg a n al s = (Inr a, ?s1\<lparr>ra_tree := t, ra_nodes := ns(a + n \<mapsto> left)\<rparr>)"
        using t(1) False a aa lt slab M(1) la
        by (simp add: alloc_fit_def arith Let_def ns_def left_def [symmetric])
      have nodes: "ns(a + n \<mapsto> left) = mark a False (split_node a n (ra_nodes s))"
        unfolding ns_def left_def by (rule fit_nodes_eq [OF D(4) a(1) n lt a(2)])
      have "wf_nodes (mark a False (split_node a n (ra_nodes s)))"
        by (intro wf_mark wf_split_node [OF D(4) a(1) n lt])
      moreover have "dom (mark a False (split_node a n (ra_nodes s))) = insert (a + n) (dom (ra_nodes s))"
        using dom_split_node [OF D(4) a(1) n lt] by simp
      ultimately show ?thesis
        using run t(2-4) la False by (auto simp: ra_inv0_def nodes)
    qed
  qed
qed


lemma split_nodes_eq:
  assumes "wf_nodes ns" "ns a = Some m" "mr_free m" "0 < l" "0 < n" "l + n < mr_size m"
  shows "((set_prev_opt (mr_next m) (a + l + n)
           (upd_node a (\<lambda>m. m\<lparr>mr_size := l, mr_next := Some (a + l)\<rparr>) ns))
         (a + l \<mapsto> (new_region (a + l) n)\<lparr>mr_prev := Some a, mr_free := False, mr_next := Some (a + l + n)\<rparr>))
         (a + l + n \<mapsto> (new_region (a + l + n) (mr_size m - (l + n)))\<lparr>mr_prev := Some (a + l), mr_next := mr_next m\<rparr>)
       = mark (a + l) False (split_node (a + l) n (split_node a l ns))" (is "?l = ?r")
proof
  fix c
  have l: "l < mr_size m" using assms(6) by simp
  note S = split_node_apply [OF assms(1,2,4) l]
  have c: "split_node a l ns (a + l) = Some \<lparr>mr_addr = a + l, mr_size = mr_size m - l,
      mr_free = True, mr_next = mr_next m, mr_prev = Some a\<rparr>"
    using assms(3) by (simp add: S)
  have n: "n < mr_size \<lparr>mr_addr = a + l, mr_size = mr_size m - l,
      mr_free = True, mr_next = mr_next m, mr_prev = Some a\<rparr>" using assms(6) by simp
  note S2 = split_node_apply [OF wf_split_node [OF assms(1,2,4) l] c assms(5) n]
  have "mr_next m = Some b \<Longrightarrow> b = a + mr_size m" for b
    using wf_nodesD(4) [OF assms(1,2)] by auto
  moreover have "ns (a + l) = None" by (rule split_point_fresh [OF assms(1,2,4) l])
  ultimately show "?l c = ?r c"
    using assms(2-6) by (auto simp: mark_def node_apply S2 S new_region_def map_option.compositionality comp_def)
qed

lemma get_free_total: "ra_inv0 s \<Longrightarrow> \<exists>r. get_free s = Inr r"
  using topdown_loop_visits [of "[ra_tree s]"] by (auto simp: ra_inv0_def get_free_def ra_apply_def apply_topdown_def)

lemma alloc_split_correct:
  assumes inv: "ra_inv0 s" and n: "0 < n" and al: "0 < al" "n + al < W64"
    and unfit: "\<forall>a m. ra_nodes s a = Some m \<and> mr_free m \<and> n \<le> mr_size m \<longrightarrow> a mod al \<noteq> 0"
  shows "(\<exists>s'. alloc_split dbg n al s = (Inl General_exception, s') \<and> ra_tree s' = ra_tree s \<and> ra_nodes s' = ra_nodes s) \<or>
    (\<exists>s' a l m. alloc_split dbg n al s = (Inr (a + l), s') \<and> ra_inv0 s' \<and> (a + l) mod al = 0 \<and>
       ra_nodes s a = Some m \<and> mr_free m \<and> 0 < l \<and> l + n < mr_size m \<and>
       ra_nodes s' = mark (a + l) False (split_node (a + l) n (split_node a l (ra_nodes s))))"
  using inv
proof (cases rule: find_free_region_cases [where n = "n + al" and al = 8])
  case none
  obtain r where "get_free s = Inr r" using get_free_total [OF inv] by blast
  with none(1) al show ?thesis by (simp add: alloc_split_def u64_simps)
next
  case (some a m)
  note D = ra_inv0D [OF inv]
  note M = wf_nodesD [OF D(4) some(2)]
  define l where "l = al - a mod al"
  have mod: "a mod al \<noteq> 0" using unfit some(2-4) by simp
  have l: "0 < l" "l < al" using al(1) mod by (auto simp: l_def)
  have lsz: "l + n < mr_size m" using l some(4) by simp
  have "a div al * al + a mod al = a" "a mod al < al" using al(1) by simp_all
  then have al_eq: "a div al * al + al = a + l" unfolding l_def by linarith
  have wrap: "a div al * al + al < W64" using M(3) lsz al_eq by linarith
  have "(a div al * al + al) mod al = 0" by simp
  then have dvd: "(a + l) mod al = 0" by (simp only: al_eq)
  have up: "round_up a al = Inr (a + l)"
    unfolding l_def by (rule round_up_unaligned [OF al(1) mod wrap])
  have arith: "add64 n al = n + al" "sub64 (a + l) a = l" "add64 a l = a + l" "add64 (a + l) n = a + l + n"
    "sub64 (mr_size m) l = mr_size m - l" "sub64 (mr_size m - l) n = mr_size m - (l + n)"
    using al(2) M(3) lsz by (simp_all add: u64_simps)
  show ?thesis
  proof (cases "ra_slab s < 2")
    case True
    then consider "ra_slab s = 0" | "ra_slab s = 1" by linarith
    then show ?thesis
      using some lsz l n M(1) up al by cases (simp_all add: alloc_split_def arith Let_def)
  next
    case slab: False
    define center where "center = (new_region (a + l) n)\<lparr>mr_prev := Some a, mr_free := False, mr_next := Some (a + l + n)\<rparr>"
    define right where "right = (new_region (a + l + n) (mr_size m - (l + n)))\<lparr>mr_prev := Some (a + l), mr_next := mr_next m\<rparr>"
    define ns where "ns = set_prev_opt (mr_next m) (a + l + n)
           (upd_node a (\<lambda>m. m\<lparr>mr_size := l, mr_next := Some (a + l)\<rparr>) (ra_nodes s))"
    have ca: "mr_addr center = a + l" "mr_addr right = a + l + n"
      by (simp_all add: center_def right_def new_region_def)
    have fresh: "a + l \<notin> dom (ra_nodes s)" "a + l + n \<notin> dom (ra_nodes s)"
      using split_point_fresh [OF D(4) some(2), of l] split_point_fresh [OF D(4) some(2), of "l + n"]
        l n lsz by (auto simp: add.assoc)
    let ?s1 = "s\<lparr>ra_slab := ra_slab s - Suc (Suc 0), ra_nodes := ns\<rparr>"
    obtain t where t: "insert_region_p center ?s1 =
          (Inr (), ?s1\<lparr>ra_tree := t, ra_nodes := (ra_nodes ?s1)(mr_addr center \<mapsto> center)\<rparr>)"
        "avl_inv t" "avl_keys t = insert (mr_addr center) (dom (ra_nodes s))" "t \<noteq> Null"
      by (rule insert_region_run [of ?s1 "dom (ra_nodes s)" center]) (use D fresh ca in auto)
    let ?s2 = "?s1\<lparr>ra_tree := t, ra_nodes := ns(a + l \<mapsto> center)\<rparr>"
    obtain t' where t': "insert_region_p right ?s2 =
          (Inr (), ?s2\<lparr>ra_tree := t', ra_nodes := (ra_nodes ?s2)(mr_addr right \<mapsto> right)\<rparr>)"
        "avl_inv t'" "avl_keys t' = insert (mr_addr right) (insert (a + l) (dom (ra_nodes s)))" "t' \<noteq> Null"
      by (rule insert_region_run [of ?s2 "insert (a + l) (dom (ra_nodes s))" right])
        (use t fresh n ca in auto)
    let ?s3 = "?s2\<lparr>ra_tree := t', ra_nodes := (ns(a + l \<mapsto> center))(a + l + n \<mapsto> right)\<rparr>"
    have run: "alloc_split dbg n al s = (Inr (a + l), ?s3)"
      using some lsz l n M(1) up al t(1) t'(1) slab ca dvd
      by (simp add: alloc_split_def arith Let_def assert_aligned_ok ns_def center_def [symmetric] right_def [symmetric])
    have nodes: "ra_nodes ?s3 = mark (a + l) False (split_node (a + l) n (split_node a l (ra_nodes s)))"
      using split_nodes_eq [OF D(4) some(2,3) l(1) n lsz] by (simp add: ns_def center_def right_def)
    define ns1 where "ns1 = split_node a l (ra_nodes s)"
    have lt: "l < mr_size m" using lsz by simp
    have wf1: "wf_nodes ns1" "dom ns1 = insert (a + l) (dom (ra_nodes s))"
      unfolding ns1_def by (rule wf_split_node [OF D(4) some(2) l(1) lt], rule dom_split_node [OF D(4) some(2) l(1) lt])
    obtain k where k: "ns1 (a + l) = Some k" "n < mr_size k"
      using lsz by (simp add: ns1_def split_node_apply [OF D(4) some(2) l(1) lt])
    have "ra_inv0 ?s3"
      unfolding ra_inv0_def nodes ns1_def [symmetric]
      using wf_mark [OF wf_split_node [OF wf1(1) k(1) n k(2)]] dom_split_node [OF wf1(1) k(1) n k(2)] wf1(2) t'(2-4) ca
      by simp
    with run nodes dvd some(2,3) l(1) lsz show ?thesis
      by - (rule disjI2, rule exI [of _ ?s3], rule exI [of _ a], rule exI [of _ l], rule exI [of _ m],
        intro conjI)
  qed
qed


text \<open>The pairs of adjacent free regions, which a coalesced allocator does not have.\<close>

definition free_pairs :: "nodes \<Rightarrow> (addr_t \<times> addr_t) set" where
  "free_pairs ns = {(x, y). \<exists>m m'. ns x = Some m \<and> mr_next m = Some y \<and> ns y = Some m'
                        \<and> mr_free m \<and> mr_free m'}"

lemma no_adjacent_free_pairs: "no_adjacent_free ns \<longleftrightarrow> free_pairs ns = {}"
  by (auto simp: no_adjacent_free_def free_pairs_def)

lemma free_pairs_from:
  "ns a = Some m \<Longrightarrow> (a, y) \<in> free_pairs ns \<longleftrightarrow>
     mr_free m \<and> mr_next m = Some y \<and> (\<exists>m'. ns y = Some m' \<and> mr_free m')"
  by (auto simp: free_pairs_def)

lemma free_pairs_mark_used: "free_pairs (mark a False ns) = free_pairs ns - {(x, y). x = a \<or> y = a}"
  by (auto simp: free_pairs_def mark_def upd_node_apply split: if_splits)

lemma free_pairs_mark_free: "free_pairs (mark a True ns) \<subseteq> free_pairs ns \<union> {(x, y). x = a \<or> y = a}"
  by (auto simp: free_pairs_def mark_def upd_node_apply split: if_splits)

lemma free_pairs_split:
  assumes "wf_nodes ns" "ns a = Some m" "0 < n" "n < mr_size m"
    and p: "(x, y) \<in> free_pairs (split_node a n ns)"
  shows "(x = a \<and> y = a + n) \<or> (x = a + n \<and> (a, y) \<in> free_pairs ns) \<or> (x, y) \<in> free_pairs ns"
proof -
  note S = split_node_apply [OF assms(1-4)]
  from p obtain k k' where k: "split_node a n ns x = Some k" "mr_next k = Some y"
      "split_node a n ns y = Some k'" "mr_free k" "mr_free k'" by (auto simp: free_pairs_def)
  have nx: "mr_next m \<noteq> Some a" using wf_nodesD(2,4) [OF assms(1,2)] by auto
  show ?thesis
  proof (cases "x = a")
    case True
    with k(1,2) assms(3) show ?thesis by (auto simp: S)
  next
    case xa: False
    have y: "\<exists>k0. ns y = Some k0 \<and> mr_free k0" if "y \<noteq> a + n"
      using that k(3,5) assms(2) nx by (auto simp: S split: if_splits)
    have yn: "y \<noteq> a + n"
    proof
      assume ya: "y = a + n"
      show False
      proof (cases "x = a + n")
        case True
        with k(1,2) ya wf_nodesD(4) [OF assms(1,2)] assms(3,4) show False by (auto simp: S)
      next
        case False
        with xa k(1,2) obtain k0 where "ns x = Some k0" "mr_next k0 = Some (a + n)"
          using ya by (auto simp: S split: if_splits)
        with wf_nodesD(5) [OF assms(1)] split_point_fresh [OF assms(1-4)] show False by fastforce
      qed
    qed
    show ?thesis
    proof (cases "x = a + n")
      case True
      with k have "mr_next m = Some y" "mr_free m" by (auto simp: S)
      with y [OF yn] assms(2) True show ?thesis by (auto simp: free_pairs_def)
    next
      case False
      with xa k have "\<exists>k0. ns x = Some k0 \<and> mr_next k0 = Some y \<and> mr_free k0"
        by (auto simp: S split: if_splits)
      with y [OF yn] show ?thesis by (auto simp: free_pairs_def)
    qed
  qed
qed

lemma used_mark_used:
  "ns a = Some m \<Longrightarrow> mr_free m \<Longrightarrow> used (mark a False ns) = {(a, mr_size m)} \<union> used ns"
  by (auto simp: used_def mark_def upd_node_apply split: if_splits)

lemma free_bytes_member:
  "ns a = Some m \<Longrightarrow> mr_free m \<Longrightarrow> {a ..< a + mr_size m} \<subseteq> free_bytes ns"
  unfolding free_bytes_def by (intro subsetI CollectI exI [of _ a] exI [of _ m]) simp

text \<open>
  \<open>carved ns a n ns'\<close>: the region of \<open>n\<close> bytes at \<open>a\<close> was free and is now in use, and
  nothing else changed hands.
\<close>

definition carved :: "nodes \<Rightarrow> addr_t \<Rightarrow> size_t \<Rightarrow> nodes \<Rightarrow> bool" where
  "carved ns a n ns' \<longleftrightarrow> used ns' = {(a, n)} \<union> used ns \<and> {a ..< a + n} \<subseteq> free_bytes ns
     \<and> managed ns' = managed ns \<and> (free_pairs ns = {} \<longrightarrow> free_pairs ns' = {})"

lemma carved_fit:
  assumes "wf_nodes ns" "ns a = Some m" "mr_free m" "0 < n" "n \<le> mr_size m"
  shows "carved ns a n (mark a False (if mr_size m = n then ns else split_node a n ns))"
proof (cases "mr_size m = n")
  case True
  with assms used_mark_used [of ns a m] free_bytes_member [of ns a m] show ?thesis
    by (simp add: carved_def free_pairs_mark_used)
next
  case False
  with assms(5) have lt: "n < mr_size m" by simp
  note A = assms(1,2,4) lt
  note S = split_node_apply [OF A]
  have a: "split_node a n ns a = Some (m\<lparr>mr_size := n, mr_next := Some (a + n)\<rparr>)"
    using assms(4) by (simp add: S)
  have "free_pairs (mark a False (split_node a n ns)) = {}" if "free_pairs ns = {}"
    using that free_pairs_split [OF A] by (auto simp: free_pairs_mark_used)
  moreover have "{a ..< a + n} \<subseteq> free_bytes ns"
    using free_bytes_member [of "split_node a n ns", OF a] assms(3) free_bytes_split_node [OF A] by simp
  ultimately show ?thesis
    using False used_mark_used [of "split_node a n ns", OF a] assms(3) used_split_node [OF A assms(3)] managed_split_node [OF A]
    by (simp add: carved_def)
qed

lemma carved_split:
  assumes "wf_nodes ns" "ns a = Some m" "mr_free m" "0 < l" "0 < n" "l + n < mr_size m"
  shows "carved ns (a + l) n (mark (a + l) False (split_node (a + l) n (split_node a l ns)))"
proof -
  have lt: "l < mr_size m" using assms(6) by simp
  note A = assms(1,2,4) lt
  define ns1 where "ns1 = split_node a l ns"
  obtain k where k: "ns1 (a + l) = Some k" "mr_free k" "n < mr_size k"
    using assms(3,6) by (simp add: ns1_def split_node_apply [OF A])
  have wf: "wf_nodes ns1" unfolding ns1_def by (rule wf_split_node [OF A])
  have "carved ns1 (a + l) n (mark (a + l) False (split_node (a + l) n ns1))"
    using carved_fit [OF wf k(1,2) assms(5)] k(3) by simp
  moreover have "used ns1 = used ns" "free_bytes ns1 = free_bytes ns" "managed ns1 = managed ns"
    unfolding ns1_def
    using used_split_node [OF A assms(3)] free_bytes_split_node [OF A] managed_split_node [OF A] by simp_all
  moreover have "free_pairs (mark (a + l) False (split_node (a + l) n ns1)) = {}" if "free_pairs ns = {}"
  proof -
    have one: "x = a \<and> y = a + l" if "(x, y) \<in> free_pairs ns1" for x y
      using that free_pairs_split [OF A, of x y] \<open>free_pairs ns = {}\<close> by (simp add: ns1_def)
    have "x = a + l \<or> y = a + l" if "(x, y) \<in> free_pairs (split_node (a + l) n ns1)" for x y
      using free_pairs_split [OF wf k(1) assms(5) k(3) that] one [of x y] one [of "a + l" y] assms(4)
      by linarith
    then show ?thesis by (auto simp: free_pairs_mark_used)
  qed
  ultimately show ?thesis by (simp add: carved_def ns1_def)
qed

lemma ra_alloc_cases:
  assumes inv: "ra_inv s" and n: "0 < n" and al: "0 < al" "n + al < W64"
  shows "(\<exists>s'. ra_alloc dbg n al s = (Inl General_exception, s') \<and> ra_tree s' = ra_tree s \<and> ra_nodes s' = ra_nodes s) \<or>
    (\<exists>s' a. ra_alloc dbg n al s = (Inr a, s') \<and> ra_inv s' \<and> a mod al = 0 \<and> carved (ra_nodes s) a n (ra_nodes s'))"
proof -
  from inv have inv0: "ra_inv0 s" and adj: "free_pairs (ra_nodes s) = {}"
    by (auto simp: ra_inv_def no_adjacent_free_pairs)
  note D = ra_inv0D [OF inv0]
  show ?thesis
    using inv0
  proof (cases rule: find_free_region_cases [where n = n and al = al])
    case none
    then have run: "ra_alloc dbg n al s = alloc_split dbg n al s" by (simp add: ra_alloc_def)
    have "\<forall>a m. ra_nodes s a = Some m \<and> mr_free m \<and> n \<le> mr_size m \<longrightarrow> a mod al \<noteq> 0"
      using none(2) by blast
    from alloc_split_correct [OF inv0 n al this, of dbg] show ?thesis
    proof (elim disjE exE conjE)
      fix s' a l m
      assume *: "alloc_split dbg n al s = (Inr (a + l), s')" "ra_inv0 s'" "(a + l) mod al = 0"
        "ra_nodes s a = Some m" "mr_free m" "0 < l" "l + n < mr_size m"
        "ra_nodes s' = mark (a + l) False (split_node (a + l) n (split_node a l (ra_nodes s)))"
      have c: "carved (ra_nodes s) (a + l) n (ra_nodes s')"
        unfolding *(8) by (rule carved_split [OF D(4) *(4-6) n *(7)])
      with adj have "no_adjacent_free (ra_nodes s')" by (simp add: carved_def no_adjacent_free_pairs)
      with c * show ?thesis by (auto simp: run ra_inv_def)
    qed (simp add: run)
  next
    case (some a m)
    then have run: "ra_alloc dbg n al s = alloc_fit dbg a n al s" by (simp add: ra_alloc_def)
    from alloc_fit_correct [OF inv0 some(2-4) n, of dbg al] some(5) al(1)
    consider "alloc_fit dbg a n al s = (Inl General_exception, s)"
      | s' where "alloc_fit dbg a n al s = (Inr a, s')" "ra_inv0 s'"
          "ra_nodes s' = mark a False (if mr_size m = n then ra_nodes s else split_node a n (ra_nodes s))"
      by blast
    then show ?thesis
    proof cases
      case 1
      then show ?thesis by (simp add: run)
    next
      case 2
      have "carved (ra_nodes s) a n (ra_nodes s')"
        unfolding 2(3) by (rule carved_fit [OF D(4) some(2,3) n some(4)])
      moreover from this adj have "no_adjacent_free (ra_nodes s')"
        by (simp add: carved_def no_adjacent_free_pairs)
      ultimately show ?thesis using 2 run some(5) al(1) by (auto simp: ra_inv_def)
    qed
  qed
qed


section \<open>Release\<close>

lemma release_region_run:
  assumes "avl_inv (ra_tree s)" "avl_keys (ra_tree s) = K" "b \<in> K"
  obtains t where "release_region_p b s = (Inr (), s\<lparr>ra_tree := t, ra_nodes := (ra_nodes s)(b := None),
        ra_slab := ra_slab s + 1\<rparr>)" "avl_inv t" "avl_keys t = K - {b}"
proof -
  from assms obtain t where "remove_node (ra_tree s) b = Inr t" "avl_inv t"
    "avl_keys t = avl_keys (ra_tree s) - {b}"
    using avl.rem_presentE [of "ra_tree s" b] by metis
  with assms(2) show ?thesis by (intro that) (auto simp: release_region_p_def)
qed

lemma merge_p_correct:
  assumes inv: "ra_inv0 s" and a: "ra_nodes s a = Some ma" "mr_next ma = Some b"
    and b: "ra_nodes s b = Some mb"
  obtains s' where "merge_p a b s = (Inr (), s')" "ra_inv0 s'" "ra_nodes s' = merge_node a b (ra_nodes s)"
proof -
  note D = ra_inv0D [OF inv]
  note A = wf_nodesD [OF D(4) a(1)] and B = wf_nodesD [OF D(4) b]
  have ab: "b = a + mr_size ma" "a \<noteq> b" using A(2) A(4) [OF a(2)] by auto
  have arith: "add64 (mr_size ma) (mr_size mb) = mr_size ma + mr_size mb"
    using ab(1) B(3) by (simp add: u64_simps)
  define ns where "ns = set_prev_opt (mr_next mb) a (upd_node a (\<lambda>m. m\<lparr>mr_size := add64 (mr_size m) (mr_size mb),
                                          mr_next := mr_next mb\<rparr>) (ra_nodes s))"
  let ?s1 = "s\<lparr>ra_nodes := ns\<rparr>"
  obtain t where t: "release_region_p b ?s1 = (Inr (), ?s1\<lparr>ra_tree := t, ra_nodes := (ra_nodes ?s1)(b := None),
        ra_slab := ra_slab ?s1 + 1\<rparr>)" "avl_inv t" "avl_keys t = dom (ra_nodes s) - {b}"
    by (rule release_region_run [of ?s1 "dom (ra_nodes s)" b]) (use D b in auto)
  have nodes: "ns(b := None) = merge_node a b (ra_nodes s)"
  proof
    fix c
    have "mr_next mb \<noteq> Some b" "mr_next mb \<noteq> Some a"
      using B(2) B(4) ab(1) by auto
    then show "(ns(b := None)) c = merge_node a b (ra_nodes s) c"
      using a b ab(2) by (simp add: merge_node_apply [OF D(4) a b] ns_def node_apply arith)
  qed
  have "t \<noteq> Null" using t(3) a(1) ab(2) by force
  then have "ra_inv0 (?s1\<lparr>ra_tree := t, ra_nodes := ns(b := None), ra_slab := ra_slab ?s1 + 1\<rparr>)"
    using t(2,3) wf_merge_node [OF D(4) a b] dom_merge_node [of "ra_nodes s" b mb a] b
    by (simp add: ra_inv0_def nodes)
  moreover have "merge_p a b s = (Inr (), ?s1\<lparr>ra_tree := t, ra_nodes := ns(b := None), ra_slab := ra_slab ?s1 + 1\<rparr>)"
    using t(1) b by (simp add: merge_p_def ns_def)
  ultimately show ?thesis using nodes by (intro that) auto
qed

lemma free_pairs_merge:
  assumes wf: "wf_nodes ns" and a: "ns a = Some ma" "mr_next ma = Some b" and b: "ns b = Some mb"
    and fr: "mr_free mb" and p: "(x, y) \<in> free_pairs (merge_node a b ns)"
  shows "x \<noteq> b" "y \<noteq> b" "(if x = a then b else x, y) \<in> free_pairs ns"
proof -
  note M = merge_node_apply [OF wf a b]
  from p obtain k k' where k: "merge_node a b ns x = Some k" "mr_next k = Some y"
      "merge_node a b ns y = Some k'" "mr_free k" "mr_free k'" by (auto simp: free_pairs_def)
  show nb: "x \<noteq> b" "y \<noteq> b" using k(1,3) M by auto
  have y: "\<exists>k0. ns y = Some k0 \<and> mr_free k0"
    using nb k(3,5) a(1) by (auto simp: M split: if_splits)
  show "(if x = a then b else x, y) \<in> free_pairs ns"
  proof (cases "x = a")
    case True
    with k(1,2) nb have "mr_next mb = Some y" by (auto simp: M split: if_splits)
    with True y b fr show ?thesis by (auto simp: free_pairs_def)
  next
    case False
    with k(1,2,4) nb have "\<exists>k0. ns x = Some k0 \<and> mr_next k0 = Some y \<and> mr_free k0"
      by (auto simp: M split: if_splits)
    with False y show ?thesis by (auto simp: free_pairs_def)
  qed
qed

text \<open>
  \<open>same_bytes ns ns'\<close>: coalescing changes neither the managed bytes nor the regions in use.
\<close>

definition same_bytes :: "nodes \<Rightarrow> nodes \<Rightarrow> bool" where
  "same_bytes ns ns' \<longleftrightarrow> used ns' = used ns \<and> managed ns' = managed ns"

lemma right_coalesce_correct:
  assumes inv: "ra_inv0 s" and a: "ra_nodes s a = Some m" "mr_free m"
    and adj: "\<forall>(x, y) \<in> free_pairs (ra_nodes s). x = a \<or> y = a"
  obtains s' m' where "right_coalesce a s = (Inr (), s')" "ra_inv0 s'"
    "same_bytes (ra_nodes s) (ra_nodes s')" "ra_nodes s' a = Some m'" "mr_free m'"
    "\<forall>(x, y) \<in> free_pairs (ra_nodes s'). x \<noteq> a \<and> y = a"
proof (cases "mr_next m")
  case None
  then have "(a, y) \<notin> free_pairs (ra_nodes s)" for y by (simp add: free_pairs_from [of "ra_nodes s", OF a(1)])
  with a adj None show ?thesis
    by (intro that [of s m]) (auto simp: right_coalesce_def inv same_bytes_def)
next
  case (Some b)
  note D = ra_inv0D [OF inv]
  from wf_nodesD(2,4,5) [OF D(4) a(1)] Some obtain mb where b: "ra_nodes s b = Some mb" and ab: "a < b" by force
  show ?thesis
  proof (cases "mr_free mb")
    case False
    with b Some have "(a, y) \<notin> free_pairs (ra_nodes s)" for y by (auto simp: free_pairs_from [of "ra_nodes s", OF a(1)])
    with a adj b Some False show ?thesis
      by (intro that [of s m]) (auto simp: right_coalesce_def inv same_bytes_def)
  next
    case True
    obtain s' where s': "merge_p a b s = (Inr (), s')" "ra_inv0 s'" "ra_nodes s' = merge_node a b (ra_nodes s)"
      by (rule merge_p_correct [OF inv a(1) Some b])
    have "x \<noteq> a \<and> y = a" if "(x, y) \<in> free_pairs (ra_nodes s')" for x y
    proof -
      note p = free_pairs_merge [OF D(4) a(1) Some b True that [unfolded s'(3)]]
      have "x \<noteq> a"
      proof
        assume "x = a"
        with p(3) adj ab have "y = a" "(b, y) \<in> free_pairs (ra_nodes s)" by auto
        then have "mr_next mb = Some a" using b by (auto simp: free_pairs_def)
        with wf_nodesD(4) [OF D(4) b] ab show False by auto
      qed
      with p(3) adj show ?thesis by auto
    qed
    moreover have "same_bytes (ra_nodes s) (ra_nodes s')"
      using used_merge_node [OF D(4) a(1) Some b] managed_merge_node [OF D(4) a(1) Some b] a(2) True
      by (simp add: same_bytes_def s'(3))
    ultimately show ?thesis
      using s' a b Some True ab merge_node_apply [OF D(4) a(1) Some b, of a]
      by (intro that [of s' "m\<lparr>mr_size := mr_size m + mr_size mb, mr_next := mr_next mb\<rparr>"])
        (auto simp: right_coalesce_def)
  qed
qed

lemma left_coalesce_correct:
  assumes inv: "ra_inv0 s" and a: "ra_nodes s a = Some m" "mr_free m"
    and adj: "\<forall>(x, y) \<in> free_pairs (ra_nodes s). x \<noteq> a \<and> y = a"
  obtains s' where "left_coalesce a s = (Inr (), s')" "ra_inv s'" "same_bytes (ra_nodes s) (ra_nodes s')"
proof -
  note D = ra_inv0D [OF inv]
  have lk: "mr_prev m = Some x" if "(x, y) \<in> free_pairs (ra_nodes s)" for x y
    using that adj wf_nodesD(5) [OF D(4)] a(1) by (fastforce simp: free_pairs_def)
  show ?thesis
  proof (cases "mr_prev m")
    case None
    with lk have "free_pairs (ra_nodes s) = {}" by auto
    with a None inv show ?thesis
      by (intro that [of s]) (auto simp: left_coalesce_def same_bytes_def ra_inv_def no_adjacent_free_pairs)
  next
    case (Some b)
    from wf_nodesD(6) [OF D(4) a(1) Some] obtain mb where b: "ra_nodes s b = Some mb" "mr_next mb = Some a" by blast
    show ?thesis
    proof (cases "mr_free mb")
      case False
      with lk Some have "(x, y) \<notin> free_pairs (ra_nodes s)" for x y
        using free_pairs_from [of "ra_nodes s", OF b(1)] by fastforce
      then have "free_pairs (ra_nodes s) = {}" by auto
      with a b Some False inv show ?thesis
        by (intro that [of s]) (auto simp: left_coalesce_def same_bytes_def ra_inv_def no_adjacent_free_pairs)
    next
      case True
      obtain s' where s': "merge_p b a s = (Inr (), s')" "ra_inv0 s'" "ra_nodes s' = merge_node b a (ra_nodes s)"
        by (rule merge_p_correct [OF inv b a(1)])
      have "(x, y) \<notin> free_pairs (ra_nodes s')" for x y
      proof
        assume "(x, y) \<in> free_pairs (ra_nodes s')"
        note p = free_pairs_merge [OF D(4) b a(1,2) this [unfolded s'(3)]]
        with adj show False by auto
      qed
      then have "ra_inv s'" using s'(2) by (auto simp: ra_inv_def no_adjacent_free_pairs)
      moreover have "same_bytes (ra_nodes s) (ra_nodes s')"
        using used_merge_node [OF D(4) b a(1)] managed_merge_node [OF D(4) b a(1)] a(2) True
        by (simp add: same_bytes_def s'(3))
      ultimately show ?thesis
        using s' a b Some True by (intro that [of s']) (auto simp: left_coalesce_def)
    qed
  qed
qed

lemma used_mark_free:
  "ns a = Some m \<Longrightarrow> used (mark a True ns) = used ns - {(a, mr_size m)}"
  by (auto simp: used_def mark_def upd_node_apply split: if_splits)

lemma ra_free_correct:
  assumes inv: "ra_inv s" and a: "ra_nodes s a = Some m"
  obtains s' where "ra_free a s = (Inr (mr_size m), s')" "ra_inv s'"
    "used (ra_nodes s') = used (ra_nodes s) - {(a, mr_size m)}"
    "managed (ra_nodes s') = managed (ra_nodes s)"
proof -
  from inv have inv0: "ra_inv0 s" and adj: "free_pairs (ra_nodes s) = {}"
    by (auto simp: ra_inv_def no_adjacent_free_pairs)
  let ?s1 = "s\<lparr>ra_nodes := mark a True (ra_nodes s)\<rparr>"
  have adj1: "\<forall>(x, y) \<in> free_pairs (ra_nodes ?s1). x = a \<or> y = a"
    using free_pairs_mark_free [of a "ra_nodes s"] adj by auto
  have a1: "ra_nodes ?s1 a = Some (m\<lparr>mr_free := True\<rparr>)" "mr_free (m\<lparr>mr_free := True\<rparr>)"
    using a by (simp_all add: mark_def upd_node_apply)
  obtain s2 m2 where s2: "right_coalesce a ?s1 = (Inr (), s2)" "ra_inv0 s2"
    "same_bytes (ra_nodes ?s1) (ra_nodes s2)" "ra_nodes s2 a = Some m2" "mr_free m2"
    "\<forall>(x, y) \<in> free_pairs (ra_nodes s2). x \<noteq> a \<and> y = a"
    by (rule right_coalesce_correct [OF ra_inv0_mark [OF inv0] a1 adj1])
  obtain s3 where s3: "left_coalesce a s2 = (Inr (), s3)" "ra_inv s3" "same_bytes (ra_nodes s2) (ra_nodes s3)"
    by (rule left_coalesce_correct [OF s2(2,4-6)])
  have "ra_free a s = (Inr (mr_size m), s3)"
    using a s2(1) s3(1) by (simp add: ra_free_def ra_find_eq [OF inv0] domIff mark_def)
  moreover have "used (ra_nodes s3) = used (ra_nodes s) - {(a, mr_size m)}"
    "managed (ra_nodes s3) = managed (ra_nodes s)"
    using s2(3) s3(3) used_mark_free [of "ra_nodes s", OF a] by (simp_all add: same_bytes_def)
  ultimately show ?thesis using s3(2) that by blast
qed


section \<open>Construction and growth\<close>

definition one_region :: "nat \<Rightarrow> addr_t \<Rightarrow> size_t \<Rightarrow> range_alloc" where
  "one_region slab start n =
     \<lparr>ra_tree = Node Null start 0 Null, ra_nodes = [start \<mapsto> new_region start n], ra_slab = slab\<rparr>"

lemma one_region_inv:
  assumes "0 < n" "start + n < W64"
  shows "ra_inv (one_region slab start n)"
  using assms
  by (auto simp: ra_inv_def ra_inv0_def one_region_def new_region_def wf_nodes_def
      no_adjacent_free_def avl_inv_def split: if_splits)

lemma one_region_bytes:
  "used (ra_nodes (one_region slab start n)) = {}"
  "managed (ra_nodes (one_region slab start n)) = {start ..< start + n}"
  "free_bytes (ra_nodes (one_region slab start n)) = {start ..< start + n}"
  by (auto simp: one_region_def new_region_def used_def managed_def free_bytes_def split: if_splits)

lemma range_alloc_new_eq:
  assumes "0 < n" "2 \<le> slab"
  shows "range_alloc_new dbg slab start n = Inr (one_region (slab - 2) start n)"
  using assms by (simp add: range_alloc_new_def one_region_def insert_node_def)

lemma free_used_disjoint:
  assumes "wf_nodes ns" "(a, n) \<in> used ns"
  shows "{a ..< a + n} \<inter> free_bytes ns = {}"
proof -
  from assms(2) obtain m where m: "ns a = Some m" "\<not> mr_free m" "n = mr_size m" by (auto simp: used_def)
  have False if x: "a \<le> x" "x < a + n" and b: "ns b = Some k" "mr_free k" "b \<le> x" "x < b + mr_size k" for x b k
  proof -
    have "a \<noteq> b" using m b by auto
    then consider "a < b" | "b < a" by linarith
    then show False
      using wf_nodesD(7) [OF assms(1) m(1) b(1)] wf_nodesD(7) [OF assms(1) b(1) m(1)] x b m(3)
      by cases auto
  qed
  then show ?thesis by (auto simp: free_bytes_def)
qed

lemma used_disjoint:
  assumes "wf_nodes ns" "(a, n) \<in> used ns" "(b, k) \<in> used ns" "a \<noteq> b"
  shows "{a ..< a + n} \<inter> {b ..< b + k} = {}"
proof -
  from assms(2,3) obtain m m' where m: "ns a = Some m" "n = mr_size m" "ns b = Some m'" "k = mr_size m'"
    by (auto simp: used_def)
  from assms(4) consider "a < b" | "b < a" by linarith
  then show ?thesis
    using wf_nodesD(7) [OF assms(1) m(1,3)] wf_nodesD(7) [OF assms(1) m(3,1)] m by cases auto
qed

lemma free_bytes_managed: "free_bytes ns \<subseteq> managed ns"
  by (auto simp: free_bytes_def managed_def)

end
