(* ===== verification/Avl_Alloc_Contract.thy ===== *)
theory Avl_Alloc_Contract
  imports Avl_Alloc_Props
begin

text \<open>
  The AVL range allocator and the arena allocator on top of it satisfy the contract of
  \<open>Heap_Interface\<close>. The properties of this theory are stated over a single call (allocation,
  release, growth, accounting) and over every history of calls; the last section proves how
  the placement operation \<open>alloc_at\<close> breaks both its own promise and the allocator's state.
\<close>

lemmas alloc_run_defs = ra_alloc_def alloc_fit_def find_free_region_def fits_def fs_push_nonnull_def
  fs_push_def bind_p_def slab_alloc_p_def deref_p_def write_p_def upd_node_def set_prev_opt_def
  insert_region_p_def insert_node_def compare_def rebalance_def RIGHT_IMBALANCE_def
  LEFT_IMBALANCE_def rotate_once_def rotate_twice_def new_region_def assert_aligned_def
  check_aligned_def assert_res_def add64_def sub64_def STACK_SIZE_def Let_def

lemmas free_run_defs = ra_free_def ra_find_def find_region_def push_children_def right_coalesce_def
  left_coalesce_def merge_p_def release_region_p_def remove_node_def remove_finish_def compare_cmp_def

lemmas place_run_defs = ra_alloc_at_def alloc_at_middle_def find_containing_region_def mr_contains_def

section \<open>The contract\<close>

type_synonym ra_request = "bool \<times> size_t \<times> size_t"

definition ra_request_alloc :: "ra_request \<Rightarrow> (range_alloc, addr_t) prog" where
  "ra_request_alloc = (\<lambda>(dbg, n, al). ra_alloc dbg n al)"

definition ra_request_ok :: "ra_request \<Rightarrow> bool" where
  "ra_request_ok = (\<lambda>(dbg, n, al). 0 < n \<and> 0 < al \<and> n + al < W64)"

definition ra_live :: "range_alloc \<Rightarrow> (addr_t \<times> size_t) set" where
  "ra_live s = used (ra_nodes s)"

definition ra_room :: "range_alloc \<Rightarrow> addr_t set" where
  "ra_room s = managed (ra_nodes s)"

lemma ra_invD: "ra_inv s \<Longrightarrow> ra_inv0 s" "ra_inv s \<Longrightarrow> wf_nodes (ra_nodes s)"
  by (auto simp: ra_inv_def ra_inv0_def)

lemma carved_live:
  assumes "ra_inv s" "carved (ra_nodes s) a n (ra_nodes s')"
  shows "ra_room s' = ra_room s \<and> ra_live s' = {(a, n)} \<union> ra_live s \<and> {a ..< a + n} \<subseteq> ra_room s \<and>
    (\<forall>(b, k) \<in> ra_live s. {a ..< a + n} \<inter> {b ..< b + k} = {})"
proof -
  have sub: "{a ..< a + n} \<subseteq> free_bytes (ra_nodes s)" using assms(2) by (simp add: carved_def)
  have "{a ..< a + n} \<inter> {b ..< b + k} = {}" if "(b, k) \<in> ra_live s" for b k
    using free_used_disjoint [OF ra_invD(2) [OF assms(1)], of b k] that sub unfolding ra_live_def by blast
  with sub assms(2) free_bytes_managed [of "ra_nodes s"] show ?thesis
    by (auto simp: carved_def ra_live_def ra_room_def)
qed

lemma used_functional: "(a, k) \<in> used ns \<Longrightarrow> (a, k') \<in> used ns \<Longrightarrow> k = k'"
  by (auto simp: used_def)

lemma used_in_managed: "(a, k) \<in> used ns \<Longrightarrow> {a ..< a + k} \<subseteq> managed ns"
  by (fastforce simp: used_def managed_def)

lemma ra_free_unknown:
  assumes "ra_inv s" "ra_nodes s a = None"
  shows "ra_free a s = (Inr (W64 - 1), s)"
  using ra_find_eq [OF ra_invD(1) [OF assms(1)], of a] assms(2) by (simp add: ra_free_def domIff)

lemma ra_free_law:
  assumes "ra_inv s"
  shows "\<exists>n s'. ra_free a s = (Inr n, s') \<and> ra_inv s' \<and> ra_room s' = ra_room s \<and>
        ra_live s' = {(b, k) \<in> ra_live s. b \<noteq> a} \<and> ((\<exists>k. (a, k) \<in> ra_live s) \<longrightarrow> (a, n) \<in> ra_live s)"
proof (cases "ra_nodes s a")
  case None
  with ra_free_unknown [OF assms] assms show ?thesis by (auto simp: ra_live_def used_def)
next
  case (Some m)
  obtain s' where s': "ra_free a s = (Inr (mr_size m), s')" "ra_inv s'"
    "used (ra_nodes s') = used (ra_nodes s) - {(a, mr_size m)}"
    "managed (ra_nodes s') = managed (ra_nodes s)"
    by (rule ra_free_correct [OF assms Some])
  have "used (ra_nodes s) - {(a, mr_size m)} = {(b, k) \<in> used (ra_nodes s). b \<noteq> a}"
    using Some by (auto simp: used_def)
  with s' Some show ?thesis by (auto simp: ra_live_def ra_room_def used_def)
qed

lemma ra_live_disjoint: "ra_inv s \<Longrightarrow> ranges_disjoint (ra_live s)"
  unfolding ranges_disjoint_def ra_live_def
  using used_disjoint [OF ra_invD(2)] used_functional by fast

lemma ra_live_room: "ra_inv s \<Longrightarrow> (a, k) \<in> ra_live s \<Longrightarrow> {a ..< a + k} \<subseteq> ra_room s"
  unfolding ra_live_def ra_room_def by (rule used_in_managed)

lemma ra_live_fun: "ra_inv s \<Longrightarrow> (a, k) \<in> ra_live s \<Longrightarrow> (a, k') \<in> ra_live s \<Longrightarrow> k = k'"
  unfolding ra_live_def by (rule used_functional)

lemmas ra_live_laws = ra_live_disjoint ra_live_room ra_live_fun

interpretation ra: range_heap ra_request_alloc ra_free ra_request_ok "\<lambda>(dbg, n, al). n" ra_inv ra_live ra_room
proof (unfold_locales, goal_cases)
  case (1 s r a s')
  obtain dbg n al where r: "r = (dbg, n, al)" by (cases r)
  with 1 ra_alloc_cases [of s n al dbg] have c: "ra_inv s'" "carved (ra_nodes s) a n (ra_nodes s')"
    by (auto simp: ra_request_ok_def ra_request_alloc_def)
  with carved_live [OF 1(1) c(2)] show ?case unfolding r prod.case by blast
next
  case (2 s r e s')
  obtain dbg n al where r: "r = (dbg, n, al)" by (cases r)
  with 2 ra_alloc_cases [of s n al dbg] have "ra_tree s' = ra_tree s \<and> ra_nodes s' = ra_nodes s"
    by (auto simp: ra_request_ok_def ra_request_alloc_def)
  with 2(1) show ?case by (simp add: ra_inv_def ra_inv0_def ra_live_def ra_room_def)
qed (rule ra_free_law ra_live_laws; assumption)+

section \<open>The arena allocator\<close>

lemma alloc_fit_carved:
  assumes inv: "ra_inv s" and a: "ra_nodes s a = Some m" "mr_free m" "n \<le> mr_size m"
    and n: "0 < n" and al: "dbg \<longrightarrow> 0 < al \<and> a mod al = 0"
  shows "(ra_slab s = 0 \<and> alloc_fit dbg a n al s = (Inl General_exception, s)) \<or>
    (\<exists>s'. alloc_fit dbg a n al s = (Inr a, s') \<and> ra_inv s' \<and> carved (ra_nodes s) a n (ra_nodes s'))"
proof -
  from inv have inv0: "ra_inv0 s" and adj: "free_pairs (ra_nodes s) = {}"
    by (auto simp: ra_inv_def no_adjacent_free_pairs)
  have c: "carved (ra_nodes s) a n
      (mark a False (if mr_size m = n then ra_nodes s else split_node a n (ra_nodes s)))"
    by (rule carved_fit [OF ra_inv0D(4) [OF inv0] a(1,2) n a(3)])
  from alloc_fit_correct [OF inv0 a n al]
  show ?thesis
  proof (elim disjE exE conjE)
    fix s'
    assume s': "alloc_fit dbg a n al s = (Inr a, s')" "ra_inv0 s'"
       "ra_nodes s' = mark a False (if mr_size m = n then ra_nodes s else split_node a n (ra_nodes s))"
    from c adj have "no_adjacent_free (ra_nodes s')"
      by (simp add: carved_def no_adjacent_free_pairs s'(3))
    with c s' show ?thesis by (auto simp: ra_inv_def)
  qed blast
qed

text \<open>
  Without an alignment, which is how the arena and region allocators call it, allocation in a
  build without assertions is first fit: it succeeds exactly when a free region is large
  enough, up to the slab's ability to hold one more node.
\<close>

lemma ra_alloc_unaligned:
  assumes inv: "ra_inv s" and n: "0 < n" "n < W64"
  shows "(ra_alloc False n 0 s = (Inl General_exception, s) \<and>
      (ra_slab s = 0 \<or> (\<forall>a m. ra_nodes s a = Some m \<and> mr_free m \<longrightarrow> mr_size m < n))) \<or>
    (\<exists>s' a. ra_alloc False n 0 s = (Inr a, s') \<and> ra_inv s' \<and> carved (ra_nodes s) a n (ra_nodes s'))"
  using ra_invD(1) [OF inv]
proof (cases rule: find_free_region_cases [where n = n and al = 0])
  case none
  then have small: "\<forall>a m. ra_nodes s a = Some m \<and> mr_free m \<longrightarrow> mr_size m < n" by (meson not_le less_irrefl)
  obtain f where f: "get_free s = Inr f" using get_free_total [OF ra_invD(1) [OF inv]] by blast
  have "find_free_region (ra_nodes s) (ra_tree s) n 8 = Inr None"
    using ra_invD(1) [OF inv]
    by (cases rule: find_free_region_cases [where n = n and al = 8]) (use small in fastforce)+
  then have "ra_alloc False n 0 s = (Inl General_exception, s)"
    using none(1) n(2) f by (simp add: ra_alloc_def alloc_split_def add64_nowrap assert_res_def)
  with small show ?thesis by blast
next
  case (some a m)
  then have run: "ra_alloc False n 0 s = alloc_fit False a n 0 s" by (simp add: ra_alloc_def)
  show ?thesis
    unfolding run using alloc_fit_carved [OF inv some(2-4) n(1), of False 0] by blast
qed

type_synonym arena_request = "size_t \<times> int \<times> size_t"

definition arena_request_alloc :: "arena_request \<Rightarrow> (range_alloc, addr_t) prog" where
  "arena_request_alloc = (\<lambda>(n, node, al). arena_alloc False n node al)"

lemma arena_alloc_cases:
  assumes "ra_inv s" "n < W64"
  shows "(arena_alloc False n node al s = (Inl Process_exit, s)) \<or>
    (\<exists>s' a. arena_alloc False n node al s = (Inr a, s') \<and> ra_inv s' \<and>
       carved (ra_nodes s) a (if n = 0 then 1 else n) (ra_nodes s'))"
proof -
  define k where "k = (if n = 0 then 1 else n)"
  have "0 < k" "k < W64" using assms(2) by (auto simp: k_def)
  from ra_alloc_unaligned [OF assms(1) this] show ?thesis
    unfolding arena_alloc_def k_def [symmetric] Let_def by auto
qed

interpretation arena: range_heap arena_request_alloc "arena_free False" "\<lambda>(n, node, al). n < W64"
    "\<lambda>(n, node, al). if n = 0 then 1 else n" ra_inv ra_live ra_room
proof (unfold_locales, goal_cases)
  case (1 s r a s')
  obtain n node al where r: "r = (n, node, al)" by (cases r)
  with 1 arena_alloc_cases [of s n node al]
  have c: "ra_inv s'" "carved (ra_nodes s) a (if n = 0 then 1 else n) (ra_nodes s')"
    by (auto simp: arena_request_alloc_def)
  with carved_live [OF 1(1) c(2)] show ?case unfolding r prod.case by blast
next
  case (2 s r e s')
  obtain n node al where r: "r = (n, node, al)" by (cases r)
  with 2 arena_alloc_cases [of s n node al] have "s' = s" by (auto simp: arena_request_alloc_def)
  with 2(1) show ?case by simp
next
  case (3 s a)
  then show ?case using ra_free_law [OF 3, of a] by (simp add: arena_free_def assert_res_def)
qed (rule ra_live_laws; assumption)+


section \<open>Growth and accounting\<close>

lemma fresh_region_kept:
  assumes "wf_nodes ns" "ns addr = None" "(ns(addr \<mapsto> new_region addr n)) a = Some m"
    "mr_next m = Some b \<or> mr_prev m = Some b"
  shows "ns a = Some m" "b \<noteq> addr"
proof -
  show a: "ns a = Some m" using assms(3,4) by (auto simp: new_region_def split: if_splits)
  show "b \<noteq> addr"
    using assms(2,4) wf_nodesD(5,6) [OF assms(1) a, of b] by auto
qed

lemma wf_fresh_region:
  assumes wf: "wf_nodes ns" and fresh: "ns addr = None" and n: "0 < n" "addr + n < W64"
    and apart: "\<forall>a m. ns a = Some m \<longrightarrow> a + mr_size m \<le> addr \<or> addr + n \<le> a"
  shows "wf_nodes (ns(addr \<mapsto> new_region addr n))" (is "wf_nodes ?ns")
proof (rule wf_nodesI)
  note keep = fresh_region_kept [OF wf fresh, of n]
  fix a m assume a: "?ns a = Some m"
  show "mr_addr m = a \<and> 0 < mr_size m \<and> a + mr_size m < W64"
    using a wf_nodesD(1-3) [OF wf] n by (auto simp: new_region_def split: if_splits)
  show "b = a + mr_size m" "\<exists>m'. ?ns b = Some m' \<and> mr_prev m' = Some a" if b: "mr_next m = Some b" for b
    using keep [OF a, of b] b wf_nodesD(4,5) [OF wf, of a m b] by auto
  show "\<exists>m'. ?ns b = Some m' \<and> mr_next m' = Some a" if b: "mr_prev m = Some b" for b
    using keep [OF a, of b] b wf_nodesD(6) [OF wf, of a m b] by auto
  show "a + mr_size m \<le> b" if b: "?ns b = Some m'" "a < b" for b m'
  proof (cases "a = addr \<or> b = addr")
    case True
    with a b apart wf_nodesD(2) [OF wf, of b m'] show ?thesis
      by (fastforce simp: new_region_def split: if_splits)
  next
    case False
    with a b show ?thesis using wf_nodesD(7) [OF wf, of a m b m'] by simp
  qed
qed

lemma no_adjacent_fresh_region:
  assumes "wf_nodes ns" "ns addr = None" "no_adjacent_free ns"
  shows "no_adjacent_free (ns(addr \<mapsto> new_region addr n))" (is "no_adjacent_free ?ns")
  unfolding no_adjacent_free_def
proof (intro allI impI)
  fix a m b m' assume *: "?ns a = Some m \<and> mr_next m = Some b \<and> ?ns b = Some m'"
  then have "ns a = Some m" "b \<noteq> addr"
    using fresh_region_kept [OF assms(1,2), of n a m b] by auto
  with * assms(3) show "\<not> (mr_free m \<and> mr_free m')" by (auto simp: no_adjacent_free_def)
qed

lemma disjoint_from_room:
  assumes "wf_nodes (ra_nodes s)" "0 < n" "{addr ..< addr + n} \<inter> ra_room s = {}" "ra_nodes s a = Some m"
  shows "a + mr_size m \<le> addr \<or> addr + n \<le> a"
proof (rule ccontr)
  assume "\<not> ?thesis"
  then have "max a addr \<in> {addr ..< addr + n}" "max a addr \<in> {a ..< a + mr_size m}"
    using assms(2) wf_nodesD(2) [OF assms(1,4)] by (auto simp: max_def)
  moreover have "{a ..< a + mr_size m} \<subseteq> ra_room s"
    using assms(4) by (fastforce simp: ra_room_def managed_def)
  ultimately show False using assms(3) by blast
qed

lemma add_new_region_correct:
  assumes "ra_inv s" "0 < addr" "0 < n" "addr + n < W64" "{addr ..< addr + n} \<inter> ra_room s = {}" "0 < ra_slab s"
  shows "\<exists>s'. ra_add_new_region dbg addr n s = (Inr (), s') \<and> ra_inv s' \<and>
    ra_live s' = ra_live s \<and> ra_room s' = {addr ..< addr + n} \<union> ra_room s"
proof -
  let ?ns = "(ra_nodes s)(addr \<mapsto> new_region addr n)"
  note D = ra_inv0D [OF ra_invD(1) [OF assms(1)]]
  note apart = disjoint_from_room [OF D(4) assms(3,5)]
  have fresh: "ra_nodes s addr = None"
    using apart [of addr] wf_nodesD(2) [OF D(4), of addr] assms(3) by (cases "ra_nodes s addr") auto
  let ?s1 = "s\<lparr>ra_slab := ra_slab s - 1\<rparr>"
  have na: "mr_addr (new_region addr n) = addr" by (simp add: new_region_def)
  obtain t where t: "insert_region_p (new_region addr n) ?s1 =
      (Inr (), ?s1\<lparr>ra_tree := t, ra_nodes := (ra_nodes ?s1)(mr_addr (new_region addr n) \<mapsto> new_region addr n)\<rparr>)"
      "avl_inv t" "avl_keys t = insert (mr_addr (new_region addr n)) (dom (ra_nodes s))" "t \<noteq> Null"
    by (rule insert_region_run [of ?s1 "dom (ra_nodes s)" "new_region addr n"]) (use D fresh na in auto)
  define s' where "s' = ?s1\<lparr>ra_tree := t, ra_nodes := ?ns\<rparr>"
  have "ra_add_new_region dbg addr n s = (Inr (), s')"
    using t(1) assms(2,3,6) by (simp add: ra_add_new_region_def na s'_def)
  moreover have "ra_inv s'"
    using t(2-4) wf_fresh_region [OF D(4) fresh assms(3,4)] apart
      no_adjacent_fresh_region [OF D(4) fresh] assms(1)
    by (simp add: ra_inv_def ra_inv0_def na s'_def)
  moreover have "ra_live s' = ra_live s" "ra_room s' = {addr ..< addr + n} \<union> ra_room s"
    using fresh by (auto simp: ra_live_def ra_room_def used_def managed_def s'_def new_region_def split: if_splits)
  ultimately show ?thesis by blast
qed

lemma sum_free_mod:
  "sum_free ms = sum_list (map mr_size (filter mr_free ms)) mod W64"
proof -
  have "foldl (\<lambda>total m. if mr_free m then add64 total (mr_size m) else total) (x mod W64) ms
      = (x + sum_list (map mr_size (filter mr_free ms))) mod W64" for x
  proof (induction ms arbitrary: x)
    case (Cons m ms)
    have "add64 (x mod W64) (mr_size m) = (x + mr_size m) mod W64" by (simp add: add64_def mod_simps)
    with Cons.IH [of "x + mr_size m"] Cons.IH [of x] show ?case by (simp add: add.assoc)
  qed simp
  from this [of 0] show ?thesis by (simp add: sum_free_def)
qed

lemma free_bytes_card:
  assumes "wf_nodes ns" "finite (dom ns)"
  shows "card (free_bytes ns) = (\<Sum>a \<in> {a \<in> dom ns. mr_free (the (ns a))}. mr_size (the (ns a)))"
proof -
  let ?F = "{a \<in> dom ns. mr_free (the (ns a))}"
  let ?R = "\<lambda>a. {a ..< a + mr_size (the (ns a))}"
  have "free_bytes ns = (\<Union>a \<in> ?F. ?R a)" by (fastforce simp: free_bytes_def)
  moreover have "?R a \<inter> ?R b = {}" if ab: "a \<in> ?F" "b \<in> ?F" "a \<noteq> b" for a b
  proof -
    from ab obtain m m' where m: "ns a = Some m" "ns b = Some m'" by auto
    from ab(3) consider "a < b" | "b < a" by linarith
    then show ?thesis
      using wf_nodesD(7) [OF assms(1) m] wf_nodesD(7) [OF assms(1) m(2,1)] m by cases auto
  qed
  ultimately show ?thesis using assms(2) by (subst \<open>free_bytes ns = _\<close>, subst card_UN_disjoint) auto
qed

lemma get_free_exact_lemma:
  assumes "ra_inv s"
  shows "get_free s = Inr (card (free_bytes (ra_nodes s)))"
proof -
  note D = ra_inv0D [OF ra_invD(1) [OF assms]]
  let ?ns = "ra_nodes s"
  from topdown_loop_visits [of "[ra_tree s]"] D(2) obtain as where
    as: "apply_topdown (ra_tree s) = Inr as" "mset as = mset (inorder (ra_tree s))"
    by (auto simp: apply_topdown_def)
  have dist: "distinct as"
  proof -
    have "distinct (inorder (ra_tree s))" using D(1) by (simp add: avl_inv_def strict_sorted_iff)
    with as(2) show ?thesis by (metis mset_eq_imp_distinct_iff)
  qed
  have set: "set as = dom ?ns" using as(2) D(3) by (metis mset_eq_setD)
  have ms: "List.map_filter ?ns as = map (\<lambda>a. the (?ns a)) as"
  proof -
    have "filter (\<lambda>x. ?ns x \<noteq> None) as = as" using set by (auto intro: filter_True)
    then show ?thesis by (simp add: List.map_filter_def comp_def)
  qed
  have "sum_list (map mr_size (filter mr_free (map (\<lambda>a. the (?ns a)) as)))
      = sum_list (map (\<lambda>a. mr_size (the (?ns a))) (filter (\<lambda>a. mr_free (the (?ns a))) as))"
    by (simp add: filter_map comp_def)
  also have "\<dots> = (\<Sum>a \<in> {a \<in> dom ?ns. mr_free (the (?ns a))}. mr_size (the (?ns a)))"
    using dist set by (simp add: sum_list_distinct_conv_sum_set Int_def conj_commute)
  also have "\<dots> = card (free_bytes ?ns)"
    using set by (subst free_bytes_card [OF D(4)]) (auto simp flip: set)
  finally have sum: "sum_list (map mr_size (filter mr_free (map (\<lambda>a. the (?ns a)) as))) = card (free_bytes ?ns)" .
  have "free_bytes ?ns \<subseteq> {..<W64 - 1}"
    using wf_nodesD(3) [OF D(4)] by (fastforce simp: free_bytes_def)
  then have "card (free_bytes ?ns) \<le> card {..<W64 - 1}" by (intro card_mono) auto
  then have "card (free_bytes ?ns) < W64" by simp
  with sum as(1) ms show ?thesis by (simp add: get_free_def ra_apply_def sum_free_mod)
qed

section \<open>Properties of single calls\<close>



text \<open>
  C2: release. Releasing the start of a live range returns its size, removes exactly that range
  from the live ones, keeps the managed bytes and re-establishes the invariant, so the freed
  region has been merged with its free neighbours; releasing an address at which no region
  starts returns the largest \<open>size_t\<close> and changes nothing.
\<close>

theorem ra_free_coalesces:
  assumes "ra_inv s"
  shows "((a, n) \<in> ra_live s \<longrightarrow>
      (\<exists>s'. ra_free a s = (Inr n, s') \<and> ra_inv s' \<and> ra_live s' = ra_live s - {(a, n)} \<and> ra_room s' = ra_room s)) \<and>
    (a \<notin> avl_keys (ra_tree s) \<longrightarrow> ra_free a s = (Inr (W64 - 1), s))"
proof (intro conjI impI)
  assume "(a, n) \<in> ra_live s"
  then obtain m where m: "ra_nodes s a = Some m" "n = mr_size m" by (auto simp: ra_live_def used_def)
  from ra_free_correct [OF assms m(1)]
  show "\<exists>s'. ra_free a s = (Inr n, s') \<and> ra_inv s' \<and> ra_live s' = ra_live s - {(a, n)} \<and> ra_room s' = ra_room s"
    unfolding ra_live_def ra_room_def m(2) by metis
next
  assume "a \<notin> avl_keys (ra_tree s)"
  then show "ra_free a s = (Inr (W64 - 1), s)"
    using ra_free_unknown [OF assms] ra_inv0D(3) [OF ra_invD(1) [OF assms]] by (simp add: domIff)
qed

theorem ra_free_coalesces_witness:
  "ra_free 5000 (one_region 10 4096 65536) = (Inr (W64 - 1), one_region 10 4096 65536)"
  using ra_free_coalesces [of "one_region 10 4096 65536" 5000 0] one_region_inv [of 65536 4096 10]
  by (simp add: one_region_def)

text \<open>
  Accounting. \<open>get_free\<close>, the wrapping sum over the stack-driven traversal, is exactly the
  number of free bytes.
\<close>

theorem get_free_counts_bytes:
  assumes "ra_inv s"
  shows "get_free s = Inr (card (free_bytes (ra_nodes s)))"
  by (rule get_free_exact_lemma [OF assms])

theorem get_free_counts_bytes_witness:
  "get_free (one_region 10 4096 65536) = Inr 65536"
  using get_free_counts_bytes [of "one_region 10 4096 65536"]
  by (simp add: one_region_inv one_region_bytes)

text \<open>
  Growth. Adding a region disjoint from the managed bytes extends them by exactly its bytes
  and keeps the live ranges and the invariant.
\<close>

theorem ra_add_new_region_extends:
  assumes "ra_inv s" "0 < addr" "0 < n" "addr + n < W64" "{addr ..< addr + n} \<inter> ra_room s = {}" "0 < ra_slab s"
  shows "\<exists>s'. ra_add_new_region dbg addr n s = (Inr (), s') \<and> ra_inv s' \<and>
    ra_live s' = ra_live s \<and> ra_room s' = {addr ..< addr + n} \<union> ra_room s"
  by (rule add_new_region_correct [OF assms])

theorem ra_add_new_region_extends_witness:
  "\<exists>s'. ra_add_new_region True 131072 4096 (one_region 10 4096 65536) = (Inr (), s') \<and> ra_inv s' \<and>
    ra_live s' = ra_live (one_region 10 4096 65536) \<and>
    ra_room s' = {131072 ..< 131072 + 4096} \<union> ra_room (one_region 10 4096 65536)"
  by (rule ra_add_new_region_extends)
    (auto simp: one_region_inv ra_room_def one_region_bytes, simp add: one_region_def)

section \<open>Properties of histories\<close>



text \<open>
  Round trip through the arena allocator in a build without assertions. A successful
  allocation followed by the release of its address returns the allocated size and restores
  the live ranges and the managed bytes.
\<close>

theorem arena_alloc_free_roundtrip:
  assumes "ra_inv s" "n < W64" "arena_alloc False n node al s = (Inr a, s1)"
  shows "\<exists>s2. arena_free False a s1 = (Inr (if n = 0 then 1 else n), s2) \<and> ra_inv s2 \<and>
    ra_live s2 = ra_live s \<and> ra_room s2 = ra_room s"
proof -
  have "arena_request_alloc (n, node, al) s = (Inr a, s1)"
    using assms(3) by (simp add: arena_request_alloc_def)
  then obtain s2 where "arena_free False a s1 = (Inr (if n = 0 then 1 else n), s2)" "ra_inv s2"
      "ra_live s2 = ra_live s" "ra_room s2 = ra_room s"
    by (rule arena.alloc_then_free [OF assms(1), of "(n, node, al)", unfolded prod.case, rotated 1])
      (use assms(2) in simp_all)
  then show ?thesis by blast
qed

theorem arena_alloc_free_roundtrip_witness:
  "\<exists>a s1 s2. arena_alloc False 0 0 64 (one_region 10 4096 65536) = (Inr a, s1) \<and>
    arena_free False a s1 = (Inr 1, s2) \<and> ra_live s2 = ra_live (one_region 10 4096 65536)"
proof -
  obtain a s1 where a: "arena_alloc False 0 0 64 (one_region 10 4096 65536) = (Inr a, s1)"
    by (simp add: arena_alloc_def one_region_def alloc_run_defs)
  from arena_alloc_free_roundtrip [OF one_region_inv _ a] a show ?thesis by auto
qed

text \<open>
  In a build with assertions the arena allocator cannot allocate at all: it passes alignment
  zero, and the assertion on the region found computes a remainder modulo that alignment.
\<close>

theorem arena_alloc_asserting_build:
  assumes "ra_inv s" "n < W64" "ra_nodes s a = Some m" "mr_free m" "n \<le> mr_size m"
  shows "arena_alloc True n node al s = (Inl Div_by_zero, s)"
proof -
  define k where "k = (if n = 0 then 1 else n)"
  have k: "k \<le> mr_size m"
    using assms(5) wf_nodesD(2) [OF ra_invD(2) [OF assms(1)] assms(3)] by (auto simp: k_def)
  have "ra_alloc True k 0 s = (Inl Div_by_zero, s)"
    using ra_invD(1) [OF assms(1)]
  proof (cases rule: find_free_region_cases [where n = k and al = 0])
    case none
    with assms(3,4) k show ?thesis by auto
  next
    case (some b mb)
    then show ?thesis
      by (simp add: ra_alloc_def alloc_fit_def assert_aligned_def check_aligned_def)
  qed
  then show ?thesis by (simp add: arena_alloc_def k_def)
qed

theorem arena_alloc_asserting_build_witness:
  "arena_alloc True 64 0 0 (one_region 10 4096 65536) = (Inl Div_by_zero, one_region 10 4096 65536)"
  using arena_alloc_asserting_build [OF one_region_inv, of 65536 4096 64 10 4096 "new_region 4096 65536" 0 0]
  by (simp add: one_region_def new_region_def)

section \<open>Placement: where \<open>alloc_at\<close> fails\<close>

text \<open>
  \<open>alloc_at\<close> compares the requested size with the whole containing region, not with what is
  left of it after the requested address. In a fresh allocator a request that fits the region
  but not its tail succeeds and returns a range that is shorter than requested.
\<close>

theorem alloc_at_undersized:
  assumes "0 < start" "0 < d" "d < n" "k \<le> n" "n - d < k" "start + n < W64" "0 < slab"
  shows "\<exists>s'. ra_alloc_at dbg (start + d) k (one_region slab start n) = (Inr (start + d), s') \<and>
    ra_live s' = {(start + d, n - d)} \<and> n - d < k"
proof -
  have c: "find_containing_region [start \<mapsto> new_region start n] (Node Null start 0 Null) (start + d) = Inr (Some start)"
    using assms by (simp add: find_containing_region_def mr_contains_def new_region_def u64_simps)
  have i: "insert_node (Node Null start 0 Null) (start + d) = Inr (Node Null start 1 (Node Null (start + d) 0 Null))"
    using assms(2) by (simp add: insert_node_def compare_def rebalance_def RIGHT_IMBALANCE_def LEFT_IMBALANCE_def)
  have "ra_alloc_at dbg (start + d) k (one_region slab start n) = (Inr (start + d),
     \<lparr>ra_tree = Node Null start 1 (Node Null (start + d) 0 Null),
      ra_nodes = [start \<mapsto> \<lparr>mr_addr = start, mr_size = d, mr_free = True, mr_next = Some (start + d), mr_prev = None\<rparr>,
        start + d \<mapsto> \<lparr>mr_addr = start + d, mr_size = n - d, mr_free = False, mr_next = None, mr_prev = Some start\<rparr>],
      ra_slab = slab - 1\<rparr>)"
    using assms c i
    by (simp add: ra_alloc_at_def one_region_def alloc_at_middle_def new_region_def insert_region_p_def
      u64_simps Let_def upd_node_def bind_p_def slab_alloc_p_def deref_p_def write_p_def)
  with assms show ?thesis by (auto simp: ra_live_def used_def split: if_splits)
qed

theorem alloc_at_undersized_witness:
  "\<exists>s'. ra_alloc_at True (4096 + 4000) 1000 (one_region 10 4096 4096) = (Inr (4096 + 4000), s') \<and>
    ra_live s' = {(4096 + 4000, 4096 - 4000)} \<and> (4096::nat) - 4000 < 1000"
  by (rule alloc_at_undersized) simp_all

text \<open>
  A client that allocates two neighbouring ranges, releases the first, places a range in the
  middle of the hole and releases the second.
\<close>

definition placement_trace :: "addr_t result \<times> range_alloc" where
  "placement_trace =
     bind_p (ra_alloc True 64 64) (\<lambda>a.
     bind_p (ra_alloc True 64 64) (\<lambda>b.
     bind_p (ra_free a) (\<lambda>_.
     bind_p (ra_alloc_at True (a + 32) 16) (\<lambda>c.
     bind_p (ra_free b) (\<lambda>_.
     ra_alloc True 64 64))))) (one_region 100 4096 4096)"

lemma placement_trace_result:
  "\<exists>s. placement_trace = (Inr 4096, s) \<and>
     map_option (\<lambda>m. (mr_size m, mr_free m)) (ra_nodes s 4096) = Some (64, False) \<and>
     map_option (\<lambda>m. (mr_size m, mr_free m)) (ra_nodes s 4128) = Some (16, False)"
  by (simp add: placement_trace_def one_region_def alloc_run_defs free_run_defs place_run_defs)

text \<open>
  \<open>alloc_at\<close> does not repair the back link of the region after the one it splits. In this
  trace the release of the second range then merges it into a region that is not its
  neighbour, and the next allocation returns 64 bytes at 4096 although the 16 bytes placed at
  4128 are still live.
\<close>

theorem alloc_at_breaks_links:
  "\<exists>s'. placement_trace = (Inr 4096, s') \<and> {(4096, 64), (4128, 16)} \<subseteq> ra_live s' \<and>
     \<not> ranges_disjoint (ra_live s')"
proof -
  obtain s' where s': "placement_trace = (Inr 4096, s')"
      "map_option (\<lambda>m. (mr_size m, mr_free m)) (ra_nodes s' 4096) = Some (64, False)"
      "map_option (\<lambda>m. (mr_size m, mr_free m)) (ra_nodes s' 4128) = Some (16, False)"
    using placement_trace_result by blast
  then have live: "(4096, 64) \<in> ra_live s'" "(4128, 16) \<in> ra_live s'"
    by (auto simp: ra_live_def used_def)
  have "(4128::nat) \<in> {4096 ..< 4096 + 64} \<inter> {4128 ..< 4128 + 16}" by simp
  then have "\<not> ranges_disjoint (ra_live s')"
    using live unfolding ranges_disjoint_def by fastforce
  with s'(1) live show ?thesis by blast
qed

end
