(* ===== verification/Interval_Tree.thy ===== *)
theory Interval_Tree
  imports Prelude
begin

text \<open>
  The interval tree of \<open>common/interval_tree.h\<close>: construction from a vector of intervals and
  the three queries. A null child pointer is \<open>Nil_tree\<close>. \<open>std::sort\<close> leaves the order of
  intervals with equal starts open, so the sorting function is an argument \<open>srt\<close> of the
  construction; \<open>sorts_by_start\<close> says what the library promises of it, and every result is
  stated up to the order of the intervals.
\<close>

section \<open>Intervals and trees\<close>

datatype 'v interval = Interval (istart: nat) (istop: nat) (ivalue: 'v)

datatype 'v interval_tree =
    Nil_tree
  | Tree (intervals: "'v interval list") (itleft: "'v interval_tree") (itright: "'v interval_tree") (center: nat)

definition sorts_by_start :: "('v interval list \<Rightarrow> 'v interval list) \<Rightarrow> bool" where
  "sorts_by_start srt \<longleftrightarrow> (\<forall>xs. mset (srt xs) = mset xs \<and> sorted (map istart (srt xs)))"

section \<open>Construction\<close>

text \<open>
  One pass of the loop that distributes the intervals around the centre. A leaf is left
  without a centre by the code; its value is irrelevant because both children are null.
\<close>

definition goes_left :: "nat \<Rightarrow> 'v interval \<Rightarrow> bool" where
  "goes_left c i \<longleftrightarrow> istop i < c"

definition goes_right :: "nat \<Rightarrow> 'v interval \<Rightarrow> bool" where
  "goes_right c i \<longleftrightarrow> \<not> istop i < c \<and> c < istart i"

function interval_tree_new ::
  "('v interval list \<Rightarrow> 'v interval list) \<Rightarrow> 'v interval list \<Rightarrow> nat \<Rightarrow> nat \<Rightarrow> nat \<Rightarrow> nat \<Rightarrow> nat
   \<Rightarrow> 'v interval_tree result" where
  "interval_tree_new srt ivals depth minbucket leftextent rightextent maxbucket =
     (let depth1 = sub64 depth 1 in
      if depth1 = 0 \<or> (length ivals < minbucket \<and> length ivals < maxbucket) then
        Inr (Tree (srt ivals) Nil_tree Nil_tree 0)
      else
        let fresh = (leftextent = 0 \<and> rightextent = 0);
            ivals1 = (if fresh then srt ivals else ivals)
        in if ivals1 = [] then Inl (if fresh then Undefined_behaviour else Out_of_range)
           else
             let leftp = (if fresh then istart (hd ivals1) else leftextent);
                 rightp = (if fresh then Max (istop ` set ivals1) else rightextent);
                 centerp = istart (ivals1 ! (length ivals1 div 2));
                 lefts = filter (goes_left centerp) ivals1;
                 rights = filter (goes_right centerp) ivals1;
                 mids = filter (\<lambda>i. \<not> goes_left centerp i \<and> \<not> goes_right centerp i) ivals1
             in bind_res (if lefts = [] then Inr Nil_tree
                          else interval_tree_new srt lefts depth1 minbucket leftp centerp 512) (\<lambda>l.
                bind_res (if rights = [] then Inr Nil_tree
                          else interval_tree_new srt rights depth1 minbucket centerp rightp 512) (\<lambda>r.
                Inr (Tree mids l r centerp))))"
  by pat_completeness auto
termination
proof (relation "measure (\<lambda>(srt, ivals, depth, _). if depth = 0 then W64 else depth)", goal_cases)
  have less: "(if sub64 d 1 = 0 then W64 else sub64 d 1) < (if d = 0 then W64 else d)"
    if "sub64 d 1 \<noteq> 0" for d :: nat
  proof (cases "d = 0")
    case False
    then obtain e where e: "d = Suc e" using not0_implies_Suc by blast
    have "d + (W64 - 1) = e + W64" by (simp add: e)
    then have "sub64 d 1 = e mod W64" by (simp add: sub64_def e)
    then have "sub64 d 1 \<le> e" by simp
    then show ?thesis using that e by auto
  qed auto
  { case 2 then show ?case using less by auto }
  { case 3 then show ?case using less by auto }
qed auto

declare interval_tree_new.simps [simp del]

section \<open>Queries\<close>

definition scan_front :: "nat \<Rightarrow> 'v interval list \<Rightarrow> bool" where
  "scan_front stop ivs \<longleftrightarrow> ivs \<noteq> [] \<and> \<not> stop < istart (hd ivs)"

text \<open>
  The two range queries run the same walk with different tests on an interval; \<open>collect\<close> is
  that walk, appending to the vector the caller passes.
\<close>

fun collect ::
  "('v interval \<Rightarrow> bool) \<Rightarrow> nat \<Rightarrow> nat \<Rightarrow> 'v interval_tree \<Rightarrow> 'v interval list \<Rightarrow> 'v interval list" where
  "collect P start stop Nil_tree out = out"
| "collect P start stop (Tree ivs l r c) out =
     (let out1 = (if scan_front stop ivs then out @ filter P ivs else out);
          out2 = (if l \<noteq> Nil_tree \<and> start \<le> c then collect P start stop l out1 else out1)
      in if r \<noteq> Nil_tree \<and> c \<le> stop then collect P start stop r out2 else out2)"

definition find_overlapping :: "nat \<Rightarrow> nat \<Rightarrow> 'v interval_tree \<Rightarrow> 'v interval list \<Rightarrow> 'v interval list" where
  "find_overlapping start stop = collect (\<lambda>i. start \<le> istop i \<and> istart i \<le> stop) start stop"

definition find_contained :: "nat \<Rightarrow> nat \<Rightarrow> 'v interval_tree \<Rightarrow> 'v interval list \<Rightarrow> 'v interval list" where
  "find_contained start stop = collect (\<lambda>i. start \<le> istart i \<and> istop i \<le> stop) start stop"

fun find_point :: "nat \<Rightarrow> 'v interval_tree \<Rightarrow> 'v interval option" where
  "find_point point Nil_tree = None"
| "find_point point (Tree ivs l r c) =
     (case (if scan_front point ivs
            then List.find (\<lambda>i. istart i \<le> point \<and> point \<le> istop i) ivs else None) of
        Some i \<Rightarrow> Some i
      | None \<Rightarrow>
          if l \<noteq> Nil_tree \<and> point \<le> c then find_point point l
          else if r \<noteq> Nil_tree \<and> c \<le> point then find_point point r
          else None)"

definition earliest_time :: "'v interval_tree \<Rightarrow> nat result" where
  "earliest_time t =
     (case t of Tree ivs l r c \<Rightarrow> if ivs = [] then Inl Undefined_behaviour else Inr (istart (hd ivs))
              | Nil_tree \<Rightarrow> Inl Null_deref)"

definition latest_time :: "'v interval_tree \<Rightarrow> nat result" where
  "latest_time t =
     (case t of Tree ivs l r c \<Rightarrow> if ivs = [] then Inl Undefined_behaviour else Inr (istop (last ivs))
              | Nil_tree \<Rightarrow> Inl Null_deref)"

section \<open>The invariant\<close>

fun elements :: "'v interval_tree \<Rightarrow> 'v interval multiset" where
  "elements Nil_tree = {#}"
| "elements (Tree ivs l r c) = mset ivs + elements l + elements r"

fun itree_inv :: "'v interval_tree \<Rightarrow> bool" where
  "itree_inv Nil_tree = True"
| "itree_inv (Tree ivs l r c) \<longleftrightarrow>
     sorted (map istart ivs) \<and> (\<forall>i \<in># elements l. istop i < c) \<and> (\<forall>i \<in># elements r. c < istart i)
     \<and> itree_inv l \<and> itree_inv r"

lemma sorted_front:
  "sorted (map istart ivs) \<Longrightarrow> i \<in> set ivs \<Longrightarrow> istart (hd ivs) \<le> istart i"
  by (cases ivs) auto

lemma scan_front_filter:
  assumes "sorted (map istart ivs)" "\<And>i. i \<in> set ivs \<Longrightarrow> P i \<Longrightarrow> istart i \<le> stop"
  shows "(if scan_front stop ivs then out @ filter P ivs else out) = out @ filter P ivs"
proof (cases "scan_front stop ivs")
  case False
  have "\<not> P i" if "i \<in> set ivs" for i
  proof
    assume "P i"
    with assms(2) that have "istart i \<le> stop" by blast
    with sorted_front [OF assms(1) that] that False show False by (auto simp: scan_front_def)
  qed
  with False show ?thesis by (simp add: filter_empty_conv)
qed simp

lemma filter_mset_none: "(\<And>x. x \<in># M \<Longrightarrow> \<not> P x) \<Longrightarrow> filter_mset P M = {#}"
  by (induction M) auto

lemma collect_exact:
  assumes "itree_inv t" "\<And>i. i \<in># elements t \<Longrightarrow> P i \<Longrightarrow> start \<le> istop i \<and> istart i \<le> stop"
  shows "mset (collect P start stop t out) = mset out + filter_mset P (elements t)"
  using assms
proof (induction P start stop t out rule: collect.induct)
  case (2 P start stop ivs l r c out)
  define out1 where "out1 = out @ filter P ivs"
  define out2 where "out2 = (if l \<noteq> Nil_tree \<and> start \<le> c then collect P start stop l out1 else out1)"
  have inv: "sorted (map istart ivs)" "itree_inv l" "itree_inv r" using "2.prems"(1) by simp_all
  have range: "start \<le> istop i \<and> istart i \<le> stop"
    if "i \<in> set ivs \<or> i \<in># elements l \<or> i \<in># elements r" "P i" for i
    using "2.prems"(2) [of i] that by auto
  have out1: "(if scan_front stop ivs then out @ filter P ivs else out) = out1"
    unfolding out1_def by (rule scan_front_filter [OF inv(1)]) (use range in blast)
  have L: "mset out2 = mset out1 + filter_mset P (elements l)"
  proof (cases "l \<noteq> Nil_tree \<and> start \<le> c")
    case True
    with "2.IH"(1) [OF out1 [symmetric] True inv(2)] range show ?thesis by (simp add: out2_def)
  next
    case False
    have "filter_mset P (elements l) = {#}"
      using False "2.prems"(1) range by (intro filter_mset_none) fastforce
    with False show ?thesis by (auto simp: out2_def)
  qed
  have R: "mset (if r \<noteq> Nil_tree \<and> c \<le> stop then collect P start stop r out2 else out2)
      = mset out2 + filter_mset P (elements r)"
  proof (cases "r \<noteq> Nil_tree \<and> c \<le> stop")
    case True
    with "2.IH"(2) [OF out1 [symmetric] out2_def True inv(3)] range show ?thesis by simp
  next
    case False
    have "filter_mset P (elements r) = {#}"
      using False "2.prems"(1) range by (intro filter_mset_none) fastforce
    with False show ?thesis by auto
  qed
  have "collect P start stop (Tree ivs l r c) out =
      (if r \<noteq> Nil_tree \<and> c \<le> stop then collect P start stop r out2 else out2)"
    unfolding collect.simps Let_def out1 out2_def ..
  with L R show ?case by (simp add: out1_def)
qed simp

lemma find_point_correct:
  assumes "itree_inv t"
  shows "case find_point p t of
      None \<Rightarrow> \<forall>i \<in># elements t. \<not> (istart i \<le> p \<and> p \<le> istop i)
    | Some i \<Rightarrow> i \<in># elements t \<and> istart i \<le> p \<and> p \<le> istop i"
  using assms
proof (induction p t rule: find_point.induct)
  case (2 p ivs l r c)
  let ?P = "\<lambda>i. istart i \<le> p \<and> p \<le> istop i"
  have inv: "sorted (map istart ivs)" "itree_inv l" "itree_inv r"
    "\<forall>i \<in># elements l. istop i < c" "\<forall>i \<in># elements r. c < istart i" using "2.prems" by simp_all
  let ?here = "if scan_front p ivs then List.find ?P ivs else None"
  show ?case
  proof (cases ?here)
    case (Some i)
    then have "i \<in> set ivs" "?P i" by (auto simp: find_Some_iff split: if_splits)
    with Some show ?thesis by simp
  next
    case None
    have here: "\<not> ?P i" if "i \<in> set ivs" for i
    proof (cases "scan_front p ivs")
      case True
      with None that show ?thesis by (auto simp: find_None_iff)
    next
      case False
      with sorted_front [OF inv(1) that] that show ?thesis by (auto simp: scan_front_def)
    qed
    have fp: "find_point p (Tree ivs l r c) = (if l \<noteq> Nil_tree \<and> p \<le> c then find_point p l
          else if r \<noteq> Nil_tree \<and> c \<le> p then find_point p r else None)"
      using None by simp
    consider (left) "l \<noteq> Nil_tree" "p \<le> c" | (right) "r \<noteq> Nil_tree" "c \<le> p" "\<not> (l \<noteq> Nil_tree \<and> p \<le> c)"
      | (stop) "\<not> (l \<noteq> Nil_tree \<and> p \<le> c)" "\<not> (r \<noteq> Nil_tree \<and> c \<le> p)" by blast
    then show ?thesis
    proof cases
      case left
      have "\<not> ?P i" if "i \<in># elements r" for i using left(2) inv(5) that by fastforce
      with left here "2.IH"(1) [OF None conjI [OF left] inv(2)] show ?thesis
        unfolding fp by (auto split: option.splits)
    next
      case right
      have "\<not> ?P i" if "i \<in># elements l" for i using right(2) inv(4) that by fastforce
      with right here "2.IH"(2) [OF None right(3) conjI [OF right(1,2)] inv(3)] show ?thesis
        unfolding fp by (auto split: option.splits)
    next
      case stop
      have "\<not> ?P i" if "i \<in># elements l + elements r" for i
        using stop inv(4,5) that by (cases "l = Nil_tree"; cases "r = Nil_tree") fastforce+
      with stop here show ?thesis unfolding fp by auto
    qed
  qed
qed simp

lemma mset_three_way:
  "mset (filter (\<lambda>i. \<not> P i \<and> \<not> (\<not> P i \<and> Q i)) xs) + mset (filter P xs) + mset (filter (\<lambda>i. \<not> P i \<and> Q i) xs) = mset xs"
  by (induction xs) auto

lemma sorted_starts_filter: "sorted (map istart xs) \<Longrightarrow> sorted (map istart (filter P xs))"
  by (induction xs) auto

lemma interval_tree_new_correct:
  assumes "sorts_by_start srt" "ivals \<noteq> [] \<or> (0 < minbucket \<and> 0 < maxbucket)"
    "(leftextent = 0 \<and> rightextent = 0) \<or> sorted (map istart ivals)"
  shows "\<exists>t. interval_tree_new srt ivals depth minbucket leftextent rightextent maxbucket = Inr t \<and>
    elements t = mset ivals \<and> itree_inv t"
  using assms
proof (induction srt ivals depth minbucket leftextent rightextent maxbucket rule: interval_tree_new.induct)
  case (1 srt ivals depth minbucket leftextent rightextent maxbucket)
  define leaf where "leaf \<longleftrightarrow> sub64 depth 1 = 0 \<or> (length ivals < minbucket \<and> length ivals < maxbucket)"
  have srt: "mset (srt xs) = mset xs" "sorted (map istart (srt xs))" for xs
    using "1.prems"(1) by (auto simp: sorts_by_start_def)
  show ?case
  proof (cases leaf)
    case True
    then show ?thesis
      using srt by (subst interval_tree_new.simps) (simp add: leaf_def Let_def)
  next
    case False
    define fresh where "fresh \<longleftrightarrow> leftextent = 0 \<and> rightextent = 0"
    define vs where "vs = (if fresh then srt ivals else ivals)"
    have vs: "mset vs = mset ivals" "sorted (map istart vs)"
      using srt "1.prems"(3) by (auto simp: vs_def fresh_def)
    have ne: "vs \<noteq> []"
      using vs(1) "1.prems"(2) False by (auto simp: leaf_def)
    define c where "c = istart (vs ! (length vs div 2))"
    define lp where "lp = (if fresh then istart (hd vs) else leftextent)"
    define rp where "rp = (if fresh then Max (istop ` set vs) else rightextent)"
    define ls where "ls = filter (goes_left c) vs"
    define rs where "rs = filter (goes_right c) vs"
    let ?L = "if ls = [] then Inr Nil_tree else interval_tree_new srt ls (sub64 depth 1) minbucket lp c 512"
    let ?R = "if rs = [] then Inr Nil_tree else interval_tree_new srt rs (sub64 depth 1) minbucket c rp 512"
    note IH_facts = refl False [unfolded leaf_def] refl vs_def [unfolded fresh_def] ne
      lp_def [unfolded fresh_def] rp_def [unfolded fresh_def] c_def ls_def rs_def refl
    have "\<exists>l. ?L = Inr l \<and> elements l = mset ls \<and> itree_inv l"
      using "1.IH"(1) [OF IH_facts _ "1.prems"(1)] sorted_starts_filter [OF vs(2), of "goes_left c"]
      by (cases "ls = []") (simp_all add: ls_def [symmetric])
    then obtain l where l: "?L = Inr l" "elements l = mset ls" "itree_inv l" by blast
    have "\<exists>r. ?R = Inr r \<and> elements r = mset rs \<and> itree_inv r"
      using "1.IH"(2) [OF IH_facts l(1) _ "1.prems"(1)] sorted_starts_filter [OF vs(2), of "goes_right c"]
      by (cases "rs = []") (simp_all add: rs_def [symmetric])
    with l obtain l r where lr: "?L = Inr l" "elements l = mset ls" "itree_inv l"
      "?R = Inr r" "elements r = mset rs" "itree_inv r" by blast
    have "interval_tree_new srt ivals depth minbucket leftextent rightextent maxbucket =
        Inr (Tree (filter (\<lambda>i. \<not> goes_left c i \<and> \<not> goes_right c i) vs) l r c)"
      unfolding interval_tree_new.simps [of srt ivals] Let_def leaf_def [symmetric] fresh_def [symmetric]
        vs_def [symmetric] c_def [symmetric] lp_def [symmetric] rp_def [symmetric] ls_def [symmetric] rs_def [symmetric]
      by (simp only: False ne lr(1,4) if_False bind_res.simps)
    moreover have "mset (filter (\<lambda>i. \<not> goes_left c i \<and> \<not> goes_right c i) vs) + mset ls + mset rs = mset vs"
      using mset_three_way [of "goes_left c" "\<lambda>i. c < istart i" vs]
      by (simp add: ls_def rs_def goes_left_def goes_right_def)
    moreover have "itree_inv (Tree (filter (\<lambda>i. \<not> goes_left c i \<and> \<not> goes_right c i) vs) l r c)"
      using lr sorted_starts_filter [OF vs(2)] by (auto simp: ls_def rs_def goes_left_def goes_right_def)
    ultimately show ?thesis using lr(2,5) vs(1) by simp
  qed
qed


section \<open>Properties\<close>

lemma sort_key_sorts: "sorts_by_start (sort_key istart)"
  by (simp add: sorts_by_start_def)

text \<open>
  C24: overlap queries. The tree built from a non-empty vector, whatever the depth and bucket
  limits and whichever order the sort leaves equal starts in, answers \<open>find_overlapping\<close> with
  exactly the intervals of the vector that overlap the query, each as often as it occurs,
  appended to the caller's vector.
\<close>

theorem interval_tree_overlapping_exact:
  assumes "sorts_by_start srt" "ivals \<noteq> []"
  shows "\<exists>t. interval_tree_new srt ivals depth minbucket 0 0 maxbucket = Inr t \<and>
    mset (find_overlapping start stop t out) =
      mset out + mset (filter (\<lambda>i. start \<le> istop i \<and> istart i \<le> stop) ivals)"
proof -
  from interval_tree_new_correct [OF assms(1) disjI1 [OF assms(2)] disjI1, of 0 0 depth minbucket maxbucket]
  obtain t where t: "interval_tree_new srt ivals depth minbucket 0 0 maxbucket = Inr t"
    "elements t = mset ivals" "itree_inv t" by blast
  with collect_exact [OF t(3), of "\<lambda>i. start \<le> istop i \<and> istart i \<le> stop" start stop out]
  show ?thesis by (simp add: find_overlapping_def)
qed

theorem interval_tree_overlapping_exact_witness:
  "\<exists>t. interval_tree_new (sort_key istart) [Interval 5 9 ''b'', Interval 1 3 ''a'', Interval 2 7 ''c''] 16 1 0 0 512 = Inr t \<and>
    mset (find_overlapping 4 5 t []) = mset [Interval 5 9 ''b'', Interval 2 7 ''c'']"
  using interval_tree_overlapping_exact [OF sort_key_sorts,
      of "[Interval 5 9 ''b'', Interval 1 3 ''a'', Interval 2 7 ''c'']" 16 1 512 4 5 "[]"]
  by simp

text \<open>
  Point and containment queries. On the same trees \<open>find_point\<close> returns an interval of the
  vector that contains the point if there is one and reports failure otherwise, and
  \<open>find_contained\<close> returns exactly the intervals inside the query when every interval has its
  start no later than its stop.
\<close>

theorem interval_tree_point_contained_exact:
  assumes "sorts_by_start srt" "ivals \<noteq> []" "list_all (\<lambda>i. istart i \<le> istop i) ivals"
  shows "\<exists>t. interval_tree_new srt ivals depth minbucket 0 0 maxbucket = Inr t \<and>
    (case find_point p t of
       None \<Rightarrow> filter (\<lambda>i. istart i \<le> p \<and> p \<le> istop i) ivals = []
     | Some i \<Rightarrow> i \<in> set (filter (\<lambda>i. istart i \<le> p \<and> p \<le> istop i) ivals)) \<and>
    mset (find_contained start stop t out) =
      mset out + mset (filter (\<lambda>i. start \<le> istart i \<and> istop i \<le> stop) ivals)"
proof -
  from interval_tree_new_correct [OF assms(1) disjI1 [OF assms(2)] disjI1, of 0 0 depth minbucket maxbucket]
  obtain t where t: "interval_tree_new srt ivals depth minbucket 0 0 maxbucket = Inr t"
    "elements t = mset ivals" "itree_inv t" by blast
  have "mset (find_contained start stop t out) =
      mset out + filter_mset (\<lambda>i. start \<le> istart i \<and> istop i \<le> stop) (elements t)"
    unfolding find_contained_def
    by (rule collect_exact [OF t(3)]) (use t(2) assms(3) in \<open>fastforce simp: list_all_iff\<close>)
  moreover have "case find_point p t of
       None \<Rightarrow> filter (\<lambda>i. istart i \<le> p \<and> p \<le> istop i) ivals = []
     | Some i \<Rightarrow> i \<in> set (filter (\<lambda>i. istart i \<le> p \<and> p \<le> istop i) ivals)"
    using find_point_correct [OF t(3), of p] t(2)
    by (auto simp: filter_empty_conv split: option.splits)
  ultimately show ?thesis using t(1,2) by auto
qed

theorem interval_tree_point_contained_exact_witness:
  "\<exists>t. interval_tree_new (sort_key istart) [Interval 5 9 ''b'', Interval 1 3 ''a'', Interval 2 7 ''c''] 16 1 0 0 512 = Inr t \<and>
    mset (find_contained 1 7 t []) = mset [Interval 1 3 ''a'', Interval 2 7 ''c'']"
  using interval_tree_point_contained_exact [OF sort_key_sorts,
      of "[Interval 5 9 ''b'', Interval 1 3 ''a'', Interval 2 7 ''c'']" 16 1 512 4 1 7 "[]"]
  by auto

end
