(* ===== verification/Page_Bitmap.thy ===== *)
theory Page_Bitmap
  imports Prelude
begin

text \<open>
  The dirty-page bitmaps of \<open>core/page_bitmap.h\<close>. The kernel module behind \<open>/dev/xms\<close> fills a
  byte buffer with one bit per page; \<open>parse_bitmap_individual\<close> lists the addresses of the set
  bits, \<open>parse_bitmap\<close> compacts them into ranges. Both shift each 64-bit word (and each
  remaining byte) to the right bit by bit and leave a word as soon as it has become zero. The
  buffer is a list of bytes and the kernel's answer a function \<open>getbitmap\<close> of the region.
\<close>

abbreviation W32 :: nat where
  "W32 \<equiv> 4294967296"

abbreviation (input) PAGE_SIZE :: nat where
  "PAGE_SIZE \<equiv> 4096"

definition add32 :: "nat \<Rightarrow> nat \<Rightarrow> nat" where
  "add32 a b = (a + b) mod W32"

section \<open>Scanning words\<close>

fun le_word :: "nat list \<Rightarrow> nat" where
  "le_word [] = 0"
| "le_word (b # bs) = b + 256 * le_word bs"

text \<open>
  The loop over the bits of one word of \<open>nbits\<close> bits: \<open>f\<close> is what the loop body does with the
  lowest bit and the current bit number.
\<close>

function scan_bits :: "(bool \<Rightarrow> nat \<Rightarrow> 's \<Rightarrow> 's) \<Rightarrow> nat \<Rightarrow> nat \<Rightarrow> nat \<Rightarrow> nat \<times> 's \<Rightarrow> nat \<times> 's" where
  "scan_bits f nbits i w (curr_bit, s) =
     (if nbits \<le> i then (curr_bit, s)
      else let s1 = f (odd w) curr_bit s;
               w1 = w div 2;
               curr_bit1 = add32 curr_bit 1
           in if w1 = 0 then (add32 curr_bit1 (nbits - 1 - i), s1)
              else scan_bits f nbits (Suc i) w1 (curr_bit1, s1))"
  by pat_completeness auto
termination
  by (relation "measure (\<lambda>(f, nbits, i, w, st). nbits - i)") auto

declare scan_bits.simps [simp del]

definition scan_buffer :: "(bool \<Rightarrow> nat \<Rightarrow> 's \<Rightarrow> 's) \<Rightarrow> nat list \<Rightarrow> 's \<Rightarrow> 's" where
  "scan_buffer f data s =
     (let qwords = length data div 8;
          st1 = fold (\<lambda>k. scan_bits f 64 0 (le_word (take 8 (drop (8 * k) data)))) [0..<qwords] (0, s);
          st2 = fold (\<lambda>b. scan_bits f 8 0 b) (drop (8 * qwords) data) st1
      in snd st2)"

section \<open>The two parsers\<close>

definition parse_bitmap_individual :: "bool \<Rightarrow> addr_t \<Rightarrow> nat list \<Rightarrow> addr_t list result" where
  "parse_bitmap_individual dbg base data =
     bind_res (assert_res dbg (0 < length data)) (\<lambda>_.
     bind_res (assert_res dbg (base mod PAGE_SIZE = 0)) (\<lambda>_.
     Inr (scan_buffer (\<lambda>b curr_bit dirty.
            if b then dirty @ [add64 base (mul64 curr_bit PAGE_SIZE)] else dirty) data [])))"

text \<open>
  The state of the compacting loop: the current segment (its base is zero when there is none)
  and the ranges pushed so far.
\<close>

record segment =
  segment_base :: addr_t
  segment_len :: nat
  range_map :: "(addr_t \<times> nat) list"

definition segment_bit :: "addr_t \<Rightarrow> bool \<Rightarrow> nat \<Rightarrow> segment \<Rightarrow> segment" where
  "segment_bit base b curr_bit s =
     (if b then
        if segment_base s = 0
        then s\<lparr>segment_base := add64 base (mul64 curr_bit PAGE_SIZE), segment_len := 1\<rparr>
        else s\<lparr>segment_len := add32 (segment_len s) 1\<rparr>
      else
        if segment_base s \<noteq> 0
        then s\<lparr>range_map := range_map s @ [(segment_base s, segment_len s)],
               segment_len := 0, segment_base := 0\<rparr>
        else s)"

definition parse_bitmap :: "bool \<Rightarrow> addr_t \<Rightarrow> nat list \<Rightarrow> (addr_t \<times> nat) list result" where
  "parse_bitmap dbg base data =
     bind_res (assert_res dbg (0 < length data)) (\<lambda>_.
     bind_res (assert_res dbg (base mod PAGE_SIZE = 0)) (\<lambda>_.
       let s = scan_buffer (segment_bit base) data \<lparr>segment_base = 0, segment_len = 0, range_map = []\<rparr>
       in Inr (if segment_base s \<noteq> 0 then range_map s @ [(segment_base s, segment_len s)]
               else range_map s)))"

definition bitmap_size :: "size_t \<Rightarrow> size_t" where
  "bitmap_size data_len = data_len div 8 + (if data_len mod 8 \<noteq> 0 then 1 else 0)"

definition get_process_dirty_pages ::
  "bool \<Rightarrow> (addr_t \<Rightarrow> size_t \<Rightarrow> size_t \<Rightarrow> nat list) \<Rightarrow> addr_t \<Rightarrow> size_t \<Rightarrow> addr_t list result" where
  "get_process_dirty_pages dbg getbitmap region region_size =
     parse_bitmap_individual dbg region
       (getbitmap region region_size (bitmap_size region_size + 8))"

definition get_process_dirty_pages_compacted ::
  "bool \<Rightarrow> (addr_t \<Rightarrow> size_t \<Rightarrow> size_t \<Rightarrow> nat list) \<Rightarrow> addr_t \<Rightarrow> size_t \<Rightarrow> (addr_t \<times> nat) list result" where
  "get_process_dirty_pages_compacted dbg getbitmap region region_size =
     parse_bitmap dbg region (getbitmap region region_size (bitmap_size region_size))"

section \<open>The bits of a buffer\<close>

definition page_bit :: "nat list \<Rightarrow> nat \<Rightarrow> bool" where
  "page_bit data k \<longleftrightarrow> odd (data ! (k div 8) div 2 ^ (k mod 8))"

lemma le_word_less: "list_all (\<lambda>b. b < 256) bs \<Longrightarrow> le_word bs < 2 ^ (8 * length bs)"
proof (induction bs)
  case (Cons b bs)
  then have "le_word bs + 1 \<le> 2 ^ (8 * length bs)" "b < 256" by simp_all
  then have "b + 256 * le_word bs < 256 * 2 ^ (8 * length bs)" by linarith
  then show ?case by (simp add: power_add)
qed simp

lemma le_word_bit:
  "list_all (\<lambda>b. b < 256) bs \<Longrightarrow> k < 8 * length bs \<Longrightarrow>
     odd (le_word bs div 2 ^ k) \<longleftrightarrow> odd (bs ! (k div 8) div 2 ^ (k mod 8))"
proof (induction bs arbitrary: k)
  case (Cons b bs)
  have b: "b < 256" using Cons.prems by simp
  show ?case
  proof (cases "k < 8")
    case True
    then have "(2::nat) ^ (8 - k) * 2 ^ k = 256"
      by (simp flip: power_add)
    then have "b + 256 * le_word bs = b + (2 ^ (8 - k) * le_word bs) * 2 ^ k"
      by (metis mult.assoc mult.commute)
    moreover have "(b + y * 2 ^ k) div 2 ^ k = y + b div 2 ^ k" for y :: nat
      by (rule div_mult_self1) simp
    ultimately have "(b + 256 * le_word bs) div 2 ^ k = 2 ^ (8 - k) * le_word bs + b div 2 ^ k"
      by (simp only:)
    moreover have "even ((2::nat) ^ (8 - k) * le_word bs)" using True by simp
    ultimately show ?thesis using True by simp
  next
    case False
    then obtain j where j: "k = 8 + j" using le_Suc_ex not_less by blast
    have "(b + 256 * le_word bs) div 256 = le_word bs" using b by simp
    then have "(b + 256 * le_word bs) div 2 ^ k = le_word bs div 2 ^ j"
      by (simp add: j power_add div_mult2_eq)
    moreover have "j < 8 * length bs" "(8 + j) div 8 = Suc (j div 8)" "(8 + j) mod 8 = j mod 8"
      using Cons.prems(2) j by simp_all
    ultimately show ?thesis using Cons.IH [of j] Cons.prems(1) by (simp add: j)
  qed
qed simp


text \<open>
  When a clear bit changes nothing, leaving a word early is invisible: the loop is the plain
  walk over all its bits.
\<close>

lemma add32_nowrap: "a + b < W32 \<Longrightarrow> add32 a b = a + b"
  by (simp add: add32_def)

lemma fold_clear_bits:
  assumes "\<And>c s. f False c s = s" "\<And>k. k \<in> set ks \<Longrightarrow> \<not> P k"
  shows "fold (\<lambda>k. f (P k) (g k)) ks s = s"
  using assms(2) by (induction ks) (auto simp: assms(1))

lemma scan_bits_all:
  assumes idle: "\<And>c s. f False c s = s" and "i < nbits" "c + (nbits - i) < W32"
  shows "scan_bits f nbits i w (c, s) =
    (c + (nbits - i), fold (\<lambda>k. f (odd (w div 2 ^ k)) (c + k)) [0..<nbits - i] s)"
  using assms
proof (induction f nbits i w "(c, s)" arbitrary: c s rule: scan_bits.induct)
  case (1 f nbits i w c s)
  note idle = "1.prems"(1)
  have c: "add32 c 1 = c + 1" using "1.prems"(2,3) by (intro add32_nowrap) simp
  obtain n where n: "nbits - i = Suc n" using "1.prems"(2) by (metis Suc_diff_Suc)
  have split: "fold (\<lambda>k. f (odd (w div 2 ^ k)) (c + k)) [0..<nbits - i] s =
      fold (\<lambda>k. f (odd (w div 2 div 2 ^ k)) (c + 1 + k)) [0..<n] (f (odd w) c s)"
  proof -
    have "[0..<nbits - i] = 0 # map Suc [0..<n]" unfolding n map_Suc_upt by (rule upt_conv_Cons) simp
    then show ?thesis by (simp add: fold_map comp_def div_mult2_eq)
  qed
  show ?case
  proof (cases "w div 2 = 0")
    case True
    have "fold (\<lambda>k. f (odd (w div 2 div 2 ^ k)) (c + 1 + k)) [0..<n] (f (odd w) c s) = f (odd w) c s"
      by (rule fold_clear_bits) (simp_all add: True idle)
    moreover have "add32 (c + 1) (nbits - 1 - i) = c + (nbits - i)"
      using "1.prems" n by (subst add32_nowrap) auto
    ultimately show ?thesis
      using "1.prems"(2) True split c by (subst scan_bits.simps) (simp add: Let_def)
  next
    case False
    have step: "scan_bits f nbits i w (c, s) = scan_bits f nbits (Suc i) (w div 2) (c + 1, f (odd w) c s)"
      using "1.prems"(2) False c by (subst scan_bits.simps) (simp add: Let_def)
    show ?thesis
    proof (cases "Suc i < nbits")
      case True
      have "scan_bits f nbits (Suc i) (w div 2) (c + 1, f (odd w) c s) =
          (c + 1 + (nbits - Suc i),
           fold (\<lambda>k. f (odd (w div 2 div 2 ^ k)) (c + 1 + k)) [0..<nbits - Suc i] (f (odd w) c s))"
        using "1.hyps" [of "f (odd w) c s" "w div 2" "c + 1"] "1.prems" False True c by simp
      moreover have "n = nbits - Suc i" using n by simp
      ultimately show ?thesis using step split n by simp
    next
      case False
      then have "nbits = Suc i" using "1.prems"(2) by simp
      then show ?thesis using step split n by (simp add: scan_bits.simps [of f "Suc i" "Suc i"])
    qed
  qed
qed


lemma page_bit_offset: "page_bit data (8 * m + k) \<longleftrightarrow> odd (data ! (m + k div 8) div 2 ^ (k mod 8))"
  by (simp add: page_bit_def)

lemma word_page_bits:
  assumes "list_all (\<lambda>b. b < 256) data" "8 * q + 8 \<le> length data" "k < 64"
  shows "odd (le_word (take 8 (drop (8 * q) data)) div 2 ^ k) \<longleftrightarrow> page_bit data (64 * q + k)"
proof -
  let ?bs = "take 8 (drop (8 * q) data)"
  have "list_all (\<lambda>b. b < 256) ?bs"
    using assms(1) by (auto simp: list_all_iff dest: in_set_takeD in_set_dropD)
  moreover have len: "length ?bs = 8" using assms(2) by simp
  ultimately have "odd (le_word ?bs div 2 ^ k) \<longleftrightarrow> odd (?bs ! (k div 8) div 2 ^ (k mod 8))"
    using assms(3) by (intro le_word_bit) auto
  moreover have "?bs ! (k div 8) = data ! (8 * q + k div 8)"
    using assms(2,3) by simp
  ultimately show ?thesis using page_bit_offset [of data "8 * q" k] by simp
qed

lemma upt_split: "[0..<m + n] = [0..<m] @ map (\<lambda>k. m + k) [0..<n]"
  by (induction n) auto

lemma fold_page_bits_append:
  "fold (\<lambda>k. f (page_bit data k) k) [0..<m + n] s =
     fold (\<lambda>k. f (page_bit data (m + k)) (m + k)) [0..<n] (fold (\<lambda>k. f (page_bit data k) k) [0..<m] s)"
  by (simp add: upt_split fold_map comp_def)

lemma scan_qwords:
  assumes "\<And>c s. f False c s = s" "list_all (\<lambda>b. b < 256) data" "8 * q \<le> length data" "64 * q < W32"
  shows "fold (\<lambda>k. scan_bits f 64 0 (le_word (take 8 (drop (8 * k) data)))) [0..<q] (0, s) =
    (64 * q, fold (\<lambda>k. f (page_bit data k) k) [0..<64 * q] s)"
  using assms(3,4)
proof (induction q)
  case (Suc q)
  let ?w = "le_word (take 8 (drop (8 * q) data))"
  let ?s = "fold (\<lambda>k. f (page_bit data k) k) [0..<64 * q] s"
  have "scan_bits f 64 0 ?w (64 * q, ?s) =
      (64 * q + 64, fold (\<lambda>k. f (odd (?w div 2 ^ k)) (64 * q + k)) [0..<64] ?s)"
    using scan_bits_all [of f 0 64 "64 * q" ?w ?s] assms(1) Suc.prems by simp
  also have "fold (\<lambda>k. f (odd (?w div 2 ^ k)) (64 * q + k)) [0..<64] ?s
      = fold (\<lambda>k. f (page_bit data (64 * q + k)) (64 * q + k)) [0..<64] ?s"
    using word_page_bits [OF assms(2), of q] Suc.prems by (intro fold_cong) simp_all
  also have "\<dots> = fold (\<lambda>k. f (page_bit data k) k) [0..<64 * Suc q] s"
    using fold_page_bits_append [of f data "64 * q" 64 s] by (simp add: add.commute)
  finally show ?case using Suc by simp
qed simp

lemma scan_bytes:
  assumes "\<And>c s. f False c s = s" "list_all (\<lambda>b. b < 256) data" "8 * length data < W32" "m + r \<le> length data"
  shows "fold (\<lambda>b. scan_bits f 8 0 b) (take r (drop m data)) (8 * m, s0) =
    (8 * (m + r), fold (\<lambda>k. f (page_bit data (8 * m + k)) (8 * m + k)) [0..<8 * r] s0)"
  using assms(4)
proof (induction r)
  case (Suc r)
  let ?b = "data ! (m + r)"
  let ?s = "fold (\<lambda>k. f (page_bit data (8 * m + k)) (8 * m + k)) [0..<8 * r] s0"
  have take: "take (Suc r) (drop m data) = take r (drop m data) @ [?b]"
    using Suc.prems by (simp add: take_Suc_conv_app_nth)
  have "scan_bits f 8 0 ?b (8 * (m + r), ?s) =
      (8 * (m + r) + 8, fold (\<lambda>k. f (odd (?b div 2 ^ k)) (8 * (m + r) + k)) [0..<8] ?s)"
    using scan_bits_all [of f 0 8 "8 * (m + r)" ?b ?s] assms(1,3) Suc.prems by simp
  also have "fold (\<lambda>k. f (odd (?b div 2 ^ k)) (8 * (m + r) + k)) [0..<8] ?s
      = fold (\<lambda>k. f (page_bit data (8 * m + (8 * r + k))) (8 * m + (8 * r + k))) [0..<8] ?s"
  proof -
    have "8 * m + (8 * r + k) = 8 * (m + r) + k" for k by simp
    then show ?thesis by (intro fold_cong) (simp_all only: page_bit_offset, auto)
  qed
  also have "\<dots> = fold (\<lambda>k. f (page_bit data (8 * m + k)) (8 * m + k)) [0..<8 * Suc r] s0"
  proof -
    have "[0..<8 * Suc r] = [0..<8 * r] @ map (\<lambda>k. 8 * r + k) [0..<8]"
      using upt_split [of "8 * r" 8] by (simp only: mult_Suc_right add.commute)
    then show ?thesis by (simp only: fold_append fold_map comp_def)
  qed
  finally show ?case using Suc take by simp
qed simp

lemma scan_buffer_all:
  assumes "\<And>c s. f False c s = s" "list_all (\<lambda>b. b < 256) data" "8 * length data < W32"
  shows "scan_buffer f data s = fold (\<lambda>k. f (page_bit data k) k) [0..<8 * length data] s"
proof -
  let ?q = "length data div 8"
  have len: "8 * ?q + length data mod 8 = length data" by simp
  have "fold (\<lambda>k. scan_bits f 64 0 (le_word (take 8 (drop (8 * k) data)))) [0..<?q] (0, s) =
    (64 * ?q, fold (\<lambda>k. f (page_bit data k) k) [0..<64 * ?q] s)"
    using assms by (intro scan_qwords) auto
  moreover have "fold (\<lambda>b. scan_bits f 8 0 b) (drop (8 * ?q) data) (8 * (8 * ?q), s1) =
    (8 * length data, fold (\<lambda>k. f (page_bit data (8 * (8 * ?q) + k)) (8 * (8 * ?q) + k)) [0..<8 * (length data mod 8)] s1)" for s1
    using scan_bytes [of f data, OF assms, of "8 * ?q" "length data mod 8" s1] len by simp
  moreover have "8 * length data = 64 * ?q + 8 * (length data mod 8)" using len by linarith
  ultimately show ?thesis
    using fold_page_bits_append [of f data "64 * ?q" "8 * (length data mod 8)" s]
    by (simp add: scan_buffer_def Let_def)
qed


section \<open>Properties\<close>

lemma fold_collect:
  "fold (\<lambda>k out. if P k then out @ [g k] else out) ks out = out @ map g (filter P ks)"
  by (induction ks arbitrary: out) auto

lemma individual_eq:
  assumes "data \<noteq> []" "list_all (\<lambda>b. b < 256) data" "base mod 4096 = 0"
    "8 * length data < W32" "base + 8 * length data * 4096 < W64"
  shows "parse_bitmap_individual dbg base data =
    Inr (map (\<lambda>k. base + k * 4096) (filter (page_bit data) [0..<8 * length data]))"
proof -
  let ?f = "\<lambda>b c out. if b then out @ [add64 base (mul64 c 4096)] else out"
  have "scan_buffer ?f data [] = fold (\<lambda>k. ?f (page_bit data k) k) [0..<8 * length data] []"
    by (rule scan_buffer_all [OF _ assms(2,4)]) simp
  also have "\<dots> = map (\<lambda>k. add64 base (mul64 k 4096)) (filter (page_bit data) [0..<8 * length data])"
    using fold_collect [of "page_bit data" "\<lambda>k. add64 base (mul64 k 4096)"] by simp
  also have "\<dots> = map (\<lambda>k. base + k * 4096) (filter (page_bit data) [0..<8 * length data])"
    using assms(4,5) by (intro map_cong) (auto simp: u64_simps)
  finally show ?thesis using assms(1,3) by (simp add: parse_bitmap_individual_def)
qed

text \<open>
  C25: for a buffer that describes fewer than \<open>2 ^ 32\<close> pages inside the address space,
  \<open>get_process_dirty_pages\<close> returns the addresses of exactly the pages whose bits the kernel
  set, in ascending order; the early exit from a word loses none.
\<close>

theorem dirty_pages_exact:
  assumes "getbitmap region n (bitmap_size n + 8) = data" "data \<noteq> []" "list_all (\<lambda>b. b < 256) data"
    "region mod 4096 = 0" "8 * length data < W32" "region + 8 * length data * 4096 < W64"
  shows "get_process_dirty_pages dbg getbitmap region n =
    Inr (map (\<lambda>k. region + k * 4096) (filter (page_bit data) [0..<8 * length data]))"
  unfolding get_process_dirty_pages_def assms(1) by (rule individual_eq [OF assms(2-)])

theorem dirty_pages_exact_witness:
  "get_process_dirty_pages True (\<lambda>r n sz. [5, 128]) 8192 65536 =
    Inr (map (\<lambda>k. 8192 + k * 4096) (filter (page_bit [5, 128]) [0..<8 * length [5, 128::nat]]))"
  by (rule dirty_pages_exact) simp_all

text \<open>
  C31: the compacted list merges pages that are not neighbours. When a word's last set bit has
  been shifted out the loop leaves the word without closing the open segment, so a set bit at
  the start of the next word extends it: with only pages 0 and 64 dirty the result is one
  range of two pages, and page 64 is lost.
\<close>

theorem dirty_pages_compacted_wrong:
  assumes "region \<noteq> 0" "region mod 4096 = 0" "region + 128 * 4096 < W64"
    "getbitmap region n (bitmap_size n) = [1,0,0,0,0,0,0,0, 1,0,0,0,0,0,0,0]"
  shows "get_process_dirty_pages_compacted dbg getbitmap region n = Inr [(region, 2)] \<and>
    parse_bitmap_individual dbg region (getbitmap region n (bitmap_size n)) = Inr [region, region + 64 * 4096]"
proof
  show "get_process_dirty_pages_compacted dbg getbitmap region n = Inr [(region, 2)]"
    using assms
    by (simp add: get_process_dirty_pages_compacted_def parse_bitmap_def scan_buffer_def Let_def
        scan_bits.simps segment_bit_def add32_def upt_rec mul64_def add64_def)
  show "parse_bitmap_individual dbg region (getbitmap region n (bitmap_size n)) = Inr [region, region + 64 * 4096]"
    unfolding assms(4) using assms(1-3)
    by (simp add: parse_bitmap_individual_def scan_buffer_def Let_def
        scan_bits.simps add32_def upt_rec mul64_def add64_def)
qed

theorem dirty_pages_compacted_wrong_witness:
  "get_process_dirty_pages_compacted True (\<lambda>r n sz. [1,0,0,0,0,0,0,0, 1,0,0,0,0,0,0,0]) 4096 524288 = Inr [(4096, 2)]"
  using dirty_pages_compacted_wrong [of 4096 "\<lambda>r n sz. [1,0,0,0,0,0,0,0, 1,0,0,0,0,0,0,0]" 524288 True] by simp

end
