(* ===== verification/Lf_Bitmap.thy ===== *)
theory Lf_Bitmap
  imports Prelude "HOL-Library.Word"
begin

unbundle bit_operations_syntax

text \<open>
  The relocatable lock-free bitmap of \<open>core/rlf_bitmap.h\<close>: 64-bit words in which a set bit is
  a free slot. The word at which a search starts is drawn at random; the draw is an argument
  \<open>r\<close>. \<open>lf_allocate\<close> and \<open>lf_free\<close> are the operations run by one thread, whose
  compare-and-swaps always succeed. The step function of the last section interleaves several
  threads at the granularity of the loads and compare-and-swaps of the code.
\<close>

section \<open>Words\<close>

definition ffsll :: "64 word \<Rightarrow> nat" where
  "ffsll w = (case filter (bit w) [0..<64] of [] \<Rightarrow> 0 | n # _ \<Rightarrow> Suc n)"

definition popcountll :: "64 word \<Rightarrow> nat" where
  "popcountll w = length (filter (bit w) [0..<64])"

definition clear_bit :: "nat \<Rightarrow> 64 word \<Rightarrow> 64 word" where
  "clear_bit n w = w AND NOT (push_bit n 1)"

definition put_bit :: "nat \<Rightarrow> 64 word \<Rightarrow> 64 word" where
  "put_bit n w = w OR push_bit n 1"

lemma bit_clear_bit: "bit (clear_bit n w) k \<longleftrightarrow> bit w k \<and> k \<noteq> n"
  by (auto simp: clear_bit_def bit_simps dest: bit_imp_le_length)

lemma bit_put_bit: "n < 64 \<Longrightarrow> bit (put_bit n w) k \<longleftrightarrow> bit w k \<or> k = n"
  by (auto simp: put_bit_def bit_simps)

lemma ffsll_zero: "ffsll w = 0 \<longleftrightarrow> w = 0"
proof
  assume "ffsll w = 0"
  then have "filter (bit w) [0..<64] = []" by (auto simp: ffsll_def split: list.splits)
  then have "\<not> bit w n" if "n < 64" for n using that by (auto simp: filter_empty_conv)
  then show "w = 0" by (auto intro!: bit_word_eqI)
qed (simp add: ffsll_def)

lemma ffsll_Suc:
  assumes "ffsll w = Suc n"
  shows "n < 64" "bit w n" "\<And>k. k < n \<Longrightarrow> \<not> bit w k"
proof -
  from assms obtain ns where ns: "filter (bit w) [0..<64] = n # ns" by (auto simp: ffsll_def split: list.splits)
  then have "n \<in> set (filter (bit w) [0..<64])" by simp
  then show "n < 64" "bit w n" by simp_all
  fix k assume "k < n"
  show "\<not> bit w k"
  proof
    assume "bit w k"
    with \<open>k < n\<close> \<open>n < 64\<close> have "k \<in> set (filter (bit w) [0..<64])" by simp
    moreover have "sorted (filter (bit w) [0..<64])" by (simp add: sorted_wrt_filter)
    ultimately show False using ns \<open>k < n\<close> by auto
  qed
qed

section \<open>The bitmap\<close>

abbreviation (input) MAGIC :: nat where
  "MAGIC \<equiv> 0x10101010"

abbreviation (input) LF_HEADER :: nat where
  "LF_HEADER \<equiv> 16"

record lf_bitmap =
  lf_magic :: nat
  lf_n_elements :: nat
  lf_n_qwords :: nat
  lf_words :: "64 word list"

text \<open>
  The constructor over \<open>memory_size\<close> bytes; \<open>old\<close> is what the memory holds, taken over when
  \<open>init\<close> is false (the member initialiser has then already stored the new element count).
\<close>

definition lf_new :: "size_t \<Rightarrow> nat \<Rightarrow> bool \<Rightarrow> lf_bitmap \<Rightarrow> lf_bitmap result" where
  "lf_new memory_size n_elements init old =
     (if n_elements mod 64 \<noteq> 0 then Inl API_exception
      else if memory_size < LF_HEADER + n_elements div 8 then Inl API_exception
      else if init then
        Inr \<lparr>lf_magic = MAGIC, lf_n_elements = n_elements mod 2 ^ 32,
             lf_n_qwords = (n_elements mod 2 ^ 32 + 63) div 64,
             lf_words = replicate ((memory_size - LF_HEADER) div 8) (- 1)\<rparr>
      else if lf_magic old \<noteq> MAGIC then Inl API_exception
      else Inr (old\<lparr>lf_n_elements := n_elements mod 2 ^ 32\<rparr>))"

definition required_memory_size :: "nat \<Rightarrow> size_t" where
  "required_memory_size n_elements = LF_HEADER + 8 * ((n_elements + 63) div 64)"

section \<open>Operations of one thread\<close>

text \<open>The two loops of \<open>allocate\<close> over the words from one index up to another.\<close>

function scan_words :: "64 word list \<Rightarrow> nat \<Rightarrow> nat \<Rightarrow> (nat \<times> nat) option" where
  "scan_words ws cur until =
     (if until \<le> cur then None
      else if ws ! cur = 0 then scan_words ws (Suc cur) until
      else Some (cur, ffsll (ws ! cur) - 1))"
  by pat_completeness auto
termination
  by (relation "measure (\<lambda>(ws, cur, until). until - cur)") auto

declare scan_words.simps [simp del]

definition lf_allocate :: "bool \<Rightarrow> nat \<Rightarrow> (lf_bitmap, nat) prog" where
  "lf_allocate dbg r =
     bind_p (get_p lf_n_qwords) (\<lambda>nq.
     bind_p (assert_p dbg (0 < nq)) (\<lambda>_.
     if nq = 0 then throw_p Div_by_zero
     else
       let qword = r mod nq in
       bind_p (get_p lf_words) (\<lambda>ws.
         case (case scan_words ws qword nq of
                 Some x \<Rightarrow> Some x
               | None \<Rightarrow> scan_words ws 0 qword) of
           None \<Rightarrow> throw_p API_exception
         | Some (q, off) \<Rightarrow>
             bind_p (update_p (\<lambda>s. s\<lparr>lf_words := (lf_words s)[q := clear_bit off (lf_words s ! q)]\<rparr>)) (\<lambda>_.
             ret_p (q * 64 + off)))))"

definition lf_free :: "nat \<Rightarrow> (lf_bitmap, unit) prog" where
  "lf_free slot =
     bind_p (get_p lf_words) (\<lambda>ws.
       let q = slot div 64; off = slot mod 64 in
       if length ws \<le> q then throw_p Undefined_behaviour
       else if bit (ws ! q) off then throw_p API_exception
       else update_p (\<lambda>s. s\<lparr>lf_words := (lf_words s)[q := put_bit off (lf_words s ! q)]\<rparr>))"

definition unsafe_free_count :: "lf_bitmap \<Rightarrow> nat" where
  "unsafe_free_count s = sum_list (map popcountll (take (lf_n_qwords s) (lf_words s)))"

section \<open>The set of free slots\<close>

definition lf_free_slots :: "lf_bitmap \<Rightarrow> nat set" where
  "lf_free_slots s = {n. n < 64 * lf_n_qwords s \<and> bit (lf_words s ! (n div 64)) (n mod 64)}"

definition lf_inv :: "lf_bitmap \<Rightarrow> bool" where
  "lf_inv s \<longleftrightarrow> 0 < lf_n_qwords s \<and> lf_n_qwords s \<le> length (lf_words s)"

lemma scan_words_None:
  "scan_words ws cur until = None \<Longrightarrow> cur \<le> k \<Longrightarrow> k < until \<Longrightarrow> ws ! k = 0"
proof (induction ws cur until rule: scan_words.induct)
  case (1 ws cur until)
  have ne: "\<not> until \<le> cur" using "1.prems"(2,3) by simp
  have z: "ws ! cur = 0" using "1.prems"(1) ne by (subst (asm) scan_words.simps) (auto split: if_splits)
  have rest: "scan_words ws (Suc cur) until = None"
    using "1.prems"(1) ne z by (subst (asm) scan_words.simps) simp
  show ?case
  proof (cases "k = cur")
    case False
    then show ?thesis using "1.IH" [OF ne z rest] "1.prems"(2,3) by simp
  qed (simp add: z)
qed

lemma scan_words_Some:
  "scan_words ws cur until = Some (q, off) \<Longrightarrow> cur \<le> q \<and> q < until \<and> off < 64 \<and> bit (ws ! q) off"
proof (induction ws cur until rule: scan_words.induct)
  case (1 ws cur until)
  have ne: "\<not> until \<le> cur" using "1.prems" by (subst (asm) scan_words.simps) (auto split: if_splits)
  show ?case
  proof (cases "ws ! cur = 0")
    case True
    have "scan_words ws (Suc cur) until = Some (q, off)"
      using "1.prems" ne True by (subst (asm) scan_words.simps) simp
    from "1.IH" [OF ne True this] show ?thesis by simp
  next
    case False
    then obtain n where n: "ffsll (ws ! cur) = Suc n" using ffsll_zero not0_implies_Suc by blast
    have "q = cur" "off = n"
      using "1.prems" ne False n by (subst (asm) scan_words.simps; simp)+
    with ffsll_Suc [OF n] ne show ?thesis by simp
  qed
qed


lemma lf_free_slots_iff:
  "off < 64 \<Longrightarrow> q * 64 + off \<in> lf_free_slots s \<longleftrightarrow> q < lf_n_qwords s \<and> bit (lf_words s ! q) off"
  by (auto simp: lf_free_slots_def)

lemma slot_parts: "n = (n div 64) * 64 + n mod (64::nat)"
  by simp

lemma lf_update_slots:
  assumes "lf_inv s" "q < lf_n_qwords s" "off < 64"
    and w: "\<And>k. k < 64 \<Longrightarrow> bit w k \<longleftrightarrow> (if k = off then v else bit (lf_words s ! q) k)"
  shows "lf_free_slots (s\<lparr>lf_words := (lf_words s)[q := w]\<rparr>) =
    (if v then insert (q * 64 + off) (lf_free_slots s) else lf_free_slots s - {q * 64 + off})"
proof (rule set_eqI)
  fix n :: nat
  define p k where "p = n div 64" and "k = n mod 64"
  have n: "n = p * 64 + k" "k < 64" by (simp_all add: p_def k_def)
  have eq: "n = q * 64 + off \<longleftrightarrow> p = q \<and> k = off"
    using assms(3) by (auto simp: p_def k_def)
  have "q < length (lf_words s)" using assms(1,2) by (simp add: lf_inv_def)
  then have "n \<in> lf_free_slots (s\<lparr>lf_words := (lf_words s)[q := w]\<rparr>) \<longleftrightarrow>
      p < lf_n_qwords s \<and> (if p = q then (if k = off then v else bit (lf_words s ! q) k) else bit (lf_words s ! p) k)"
    using lf_free_slots_iff [OF n(2), of p] w [OF n(2)] by (auto simp: n(1) [symmetric] nth_list_update)
  moreover have "n \<in> lf_free_slots s \<longleftrightarrow> p < lf_n_qwords s \<and> bit (lf_words s ! p) k"
    using lf_free_slots_iff [OF n(2), of p s] by (simp add: n(1) [symmetric])
  ultimately show "n \<in> lf_free_slots (s\<lparr>lf_words := (lf_words s)[q := w]\<rparr>) \<longleftrightarrow>
      n \<in> (if v then insert (q * 64 + off) (lf_free_slots s) else lf_free_slots s - {q * 64 + off})"
    using eq assms(2) by auto
qed

lemma lf_allocate_cases:
  assumes "lf_inv s"
  shows "(lf_allocate dbg r s = (Inl API_exception, s) \<and> lf_free_slots s = {}) \<or>
    (\<exists>n s'. lf_allocate dbg r s = (Inr n, s') \<and> n \<in> lf_free_slots s \<and> lf_inv s' \<and>
       lf_n_qwords s' = lf_n_qwords s \<and> lf_free_slots s' = lf_free_slots s - {n})"
proof -
  let ?nq = "lf_n_qwords s" and ?ws = "lf_words s"
  have nq: "0 < ?nq" using assms by (simp add: lf_inv_def)
  define q0 where "q0 = r mod ?nq"
  have q0: "q0 < ?nq" using nq by (simp add: q0_def)
  define found where "found = (case scan_words ?ws q0 ?nq of Some x \<Rightarrow> Some x | None \<Rightarrow> scan_words ?ws 0 q0)"
  show ?thesis
  proof (cases found)
    case None
    then have "scan_words ?ws q0 ?nq = None" "scan_words ?ws 0 q0 = None"
      by (auto simp: found_def split: option.splits)
    then have "?ws ! q = 0" if "q < ?nq" for q
      using scan_words_None [of ?ws q0 ?nq q] scan_words_None [of ?ws 0 q0 q] that by (cases "q < q0") auto
    then have "lf_free_slots s = {}" by (auto simp: lf_free_slots_def)
    moreover have "lf_allocate dbg r s = (Inl API_exception, s)"
      using None nq by (simp add: lf_allocate_def Let_def q0_def [symmetric] found_def [symmetric])
    ultimately show ?thesis by blast
  next
    case (Some x)
    obtain q off where x: "x = (q, off)" by (cases x)
    have f: "q < ?nq" "off < 64" "bit (?ws ! q) off"
      using Some x q0 scan_words_Some [of ?ws q0 ?nq q off] scan_words_Some [of ?ws 0 q0 q off]
      by (auto simp: found_def split: option.splits)
    let ?s = "s\<lparr>lf_words := ?ws[q := clear_bit off (?ws ! q)]\<rparr>"
    have run: "lf_allocate dbg r s = (Inr (q * 64 + off), ?s)"
      using Some x nq by (simp add: lf_allocate_def Let_def q0_def [symmetric] found_def [symmetric])
    have "lf_free_slots ?s = lf_free_slots s - {q * 64 + off}"
      using lf_update_slots [OF assms f(1,2), of "clear_bit off (?ws ! q)" False]
      by (auto simp: bit_clear_bit)
    moreover have "lf_inv ?s" using assms by (simp add: lf_inv_def)
    ultimately show ?thesis
      using run f lf_free_slots_iff [OF f(2), of q s] by (intro disjI2) fastforce
  qed
qed

lemma lf_free_cases:
  assumes "lf_inv s" "n < 64 * lf_n_qwords s"
  shows "if n \<in> lf_free_slots s then lf_free n s = (Inl API_exception, s)
    else \<exists>s'. lf_free n s = (Inr (), s') \<and> lf_inv s' \<and> lf_n_qwords s' = lf_n_qwords s \<and>
      lf_free_slots s' = insert n (lf_free_slots s)"
proof -
  define q off where "q = n div 64" and "off = n mod 64"
  have n: "n = q * 64 + off" "off < 64" by (simp_all add: q_def off_def)
  have q: "q < lf_n_qwords s" "\<not> length (lf_words s) \<le> q"
    using assms n by (auto simp: lf_inv_def)
  have mem: "n \<in> lf_free_slots s \<longleftrightarrow> bit (lf_words s ! q) off"
    using lf_free_slots_iff [OF n(2), of q s] q by (simp add: n(1))
  let ?s = "s\<lparr>lf_words := (lf_words s)[q := put_bit off (lf_words s ! q)]\<rparr>"
  have "lf_free_slots ?s = insert n (lf_free_slots s)"
    using lf_update_slots [OF assms(1) q(1) n(2), of "put_bit off (lf_words s ! q)" True] n(2)
    by (auto simp: bit_put_bit n(1))
  moreover have "lf_inv ?s" using assms by (simp add: lf_inv_def)
  ultimately show ?thesis
    using q mem by (auto simp: lf_free_def Let_def q_def [symmetric] off_def [symmetric])
qed

lemma popcountll_card: "popcountll w = card {k. k < 64 \<and> bit w k}"
proof -
  have "popcountll w = card (set (filter (bit w) [0..<64]))"
    unfolding popcountll_def by (rule distinct_card [symmetric]) simp
  then show ?thesis by (auto intro: arg_cong [where f = card])
qed

lemma unsafe_free_count_card:
  assumes "lf_inv s"
  shows "unsafe_free_count s = card (lf_free_slots s)"
proof -
  let ?B = "\<lambda>q. {k. k < 64 \<and> bit (lf_words s ! q) k}"
  have "lf_free_slots s = (\<Union>q \<in> {..<lf_n_qwords s}. (\<lambda>k. q * 64 + k) ` ?B q)"
  proof (intro set_eqI iffI)
    fix n assume "n \<in> lf_free_slots s"
    then have "n div 64 < lf_n_qwords s" "n mod 64 \<in> ?B (n div 64)" by (auto simp: lf_free_slots_def)
    then show "n \<in> (\<Union>q \<in> {..<lf_n_qwords s}. (\<lambda>k. q * 64 + k) ` ?B q)"
      using slot_parts [of n] by blast
  qed (auto simp: lf_free_slots_iff)
  also have "card \<dots> = (\<Sum>q<lf_n_qwords s. card ((\<lambda>k. q * 64 + k) ` ?B q))"
    by (rule card_UN_disjoint) auto
  also have "\<dots> = (\<Sum>q<lf_n_qwords s. popcountll (lf_words s ! q))"
    by (simp add: card_image popcountll_card)
  also have "\<dots> = unsafe_free_count s"
    using assms by (simp add: unsafe_free_count_def lf_inv_def sum_list_sum_nth min_absorb2 atLeast0LessThan)
  finally show ?thesis by simp
qed

section \<open>Interleaved threads\<close>

text \<open>
  The program points of \<open>allocate\<close> between two accesses to shared memory. \<open>pass\<close> tells the
  first loop (from the drawn word to the end) from the second (from zero to the drawn word).
  The loop's test of the word, the load from which \<open>__builtin_ffsll\<close> computes the offset, the
  load of \<open>old_qword\<close> and the compare-and-swap are separate accesses.
\<close>

datatype lf_pc =
    Loop nat bool nat
  | Find nat bool nat
  | Load nat bool nat nat
  | Cas nat bool nat nat "64 word"
  | Returned nat
  | Full

fun lf_step_pc :: "nat \<Rightarrow> 64 word list \<Rightarrow> lf_pc \<Rightarrow> lf_pc \<times> 64 word list" where
  "lf_step_pc nq ws (Loop q0 pass cur) =
     (if cur = (if pass then q0 else nq) then (if pass then Full else Loop q0 True 0, ws)
      else (if ws ! cur = 0 then Loop q0 pass (Suc cur) else Find q0 pass cur, ws))"
| "lf_step_pc nq ws (Find q0 pass cur) =
     (case ffsll (ws ! cur) of 0 \<Rightarrow> Loop q0 pass cur | Suc off \<Rightarrow> Load q0 pass cur off, ws)"
| "lf_step_pc nq ws (Load q0 pass cur off) = (Cas q0 pass cur off (ws ! cur), ws)"
| "lf_step_pc nq ws (Cas q0 pass cur off old) =
     (if ws ! cur = old then (Returned (cur * 64 + off), ws[cur := clear_bit off old])
      else (Loop q0 pass cur, ws))"
| "lf_step_pc nq ws (Returned n) = (Returned n, ws)"
| "lf_step_pc nq ws Full = (Full, ws)"

definition lf_step :: "nat \<Rightarrow> nat \<Rightarrow> lf_pc list \<times> 64 word list \<Rightarrow> lf_pc list \<times> 64 word list" where
  "lf_step nq t st =
     (let (pc', ws') = lf_step_pc nq (snd st) (fst st ! t) in ((fst st)[t := pc'], ws'))"

text \<open>
  C23: one thread. On a bitmap in its invariant \<open>allocate\<close> returns a free slot and takes exactly
  that slot, wherever the search starts, and throws only when no slot is free; \<open>free\<close> of a slot
  in use gives exactly it back, and of a free slot throws without any change.
\<close>

theorem lf_bitmap_sequential:
  assumes "lf_inv s"
  shows "(case lf_allocate dbg r s of
      (Inr n, s') \<Rightarrow> n \<in> lf_free_slots s \<and> lf_inv s' \<and> lf_free_slots s' = lf_free_slots s - {n} \<and>
        unsafe_free_count s = Suc (unsafe_free_count s')
    | (Inl e, s') \<Rightarrow> e = API_exception \<and> s' = s \<and> lf_free_slots s = {}) \<and>
    (n < 64 * lf_n_qwords s \<longrightarrow>
      (if n \<in> lf_free_slots s then lf_free n s = (Inl API_exception, s)
       else \<exists>s'. lf_free n s = (Inr (), s') \<and> lf_inv s' \<and> lf_free_slots s' = insert n (lf_free_slots s)))"
proof
  have fin: "finite (lf_free_slots s)" by (simp add: lf_free_slots_def)
  show "case lf_allocate dbg r s of
      (Inr n, s') \<Rightarrow> n \<in> lf_free_slots s \<and> lf_inv s' \<and> lf_free_slots s' = lf_free_slots s - {n} \<and>
        unsafe_free_count s = Suc (unsafe_free_count s')
    | (Inl e, s') \<Rightarrow> e = API_exception \<and> s' = s \<and> lf_free_slots s = {}"
  proof -
    have count: "unsafe_free_count s = Suc (unsafe_free_count s')"
      if "n \<in> lf_free_slots s" "lf_inv s'" "lf_free_slots s' = lf_free_slots s - {n}" for n s'
      using that card_Suc_Diff1 [OF fin that(1)]
      by (simp add: unsafe_free_count_card [OF assms] unsafe_free_count_card [OF that(2)])
    from lf_allocate_cases [OF assms, of dbg r] show ?thesis
    proof (elim disjE exE conjE)
      fix n s'
      assume "lf_allocate dbg r s = (Inr n, s')" "n \<in> lf_free_slots s" "lf_inv s'"
        "lf_free_slots s' = lf_free_slots s - {n}"
      with count show ?thesis by simp
    qed simp
  qed
qed (use lf_free_cases [OF assms, of n] in \<open>auto split: if_splits\<close>)

theorem lf_bitmap_sequential_witness:
  "\<exists>s'. lf_allocate True 7 \<lparr>lf_magic = MAGIC, lf_n_elements = 64, lf_n_qwords = 1, lf_words = [1]\<rparr> = (Inr 0, s') \<and>
     lf_free_slots s' = {}"
proof -
  let ?s = "\<lparr>lf_magic = MAGIC, lf_n_elements = 64, lf_n_qwords = 1, lf_words = [1]\<rparr>"
  have inv: "lf_inv ?s" by (simp add: lf_inv_def)
  have "lf_free_slots ?s = {0}" by (auto simp: lf_free_slots_def bit_simps)
  with lf_bitmap_sequential [OF inv, of True 7 0] show ?thesis
    by (auto split: prod.splits sum.splits)
qed

text \<open>
  C30: two threads. The offset comes from an earlier load than \<open>old_qword\<close>; when another thread
  takes that slot in between, the compare-and-swap exchanges the word with itself and
  succeeds. For every word with a free slot this schedule makes both threads return the same
  slot.
\<close>

theorem lf_bitmap_double_allocation:
  assumes "w \<noteq> 0"
  shows "\<exists>off. bit w off \<and>
    fst (fold (lf_step 1) [0, 0, 1, 1, 1, 1, 0, 0] ([Loop 0 False 0, Loop 0 False 0], [w]))
      = [Returned off, Returned off]"
proof -
  obtain off where off: "ffsll w = Suc off" using assms ffsll_zero not0_implies_Suc by blast
  with assms ffsll_Suc(2) [OF off] show ?thesis by (simp add: lf_step_def)
qed

theorem lf_bitmap_double_allocation_witness:
  "\<exists>off. fst (fold (lf_step 1) [0, 0, 1, 1, 1, 1, 0, 0] ([Loop 0 False 0, Loop 0 False 0], [- 1]))
      = [Returned off, Returned off]"
  using lf_bitmap_double_allocation [of "- 1"] by auto

end
