(* ===== verification/Slab.thy ===== *)
theory Slab
  imports Prelude
begin

text \<open>
  The serialisable slab allocator of \<open>core/slab.h\<close> (\<open>Slab::Allocator\<close>). What lives in the
  region is the record \<open>slab_mem\<close>: the 64-byte header and the \<open>used\<close> flag in front of every
  element. The vector of free slots is volatile and rebuilt from the flags when the allocator
  is opened on an initialised region. An element is identified with its index in the slot
  array; \<open>val_addr\<close> is the address the caller sees, one byte (the packed header) after the
  element's start.
\<close>

section \<open>State\<close>

abbreviation (input) SLAB_HEADER :: nat where
  "SLAB_HEADER \<equiv> 64"

abbreviation (input) MIN_ELEMENTS :: nat where
  "MIN_ELEMENTS \<equiv> 128"

record slab_mem =
  hd_magic :: bool
  hd_region_size :: size_t
  hd_slots :: nat
  hd_max_slots :: nat
  hd_slot_size :: size_t
  elem_used :: "nat \<Rightarrow> bool"

record slab =
  sl_region :: addr_t
  sl_esize :: size_t
  sl_mem :: slab_mem
  sl_free :: "nat list"
  sl_reconstructed :: bool

definition elem_addr :: "slab \<Rightarrow> nat \<Rightarrow> addr_t" where
  "elem_addr s i = sl_region s + SLAB_HEADER + i * sl_esize s"

definition val_addr :: "slab \<Rightarrow> nat \<Rightarrow> addr_t" where
  "val_addr s i = elem_addr s i + 1"

section \<open>Construction\<close>

text \<open>
  Opening: with the magic in place and \<open>as_new\<close> false the free list is rebuilt in slot order.
  Otherwise the header is written; the flags of the slot array are left as they are, because
  the code clears \<open>max_slots\<close> elements after it has zeroed that field.
\<close>

definition slab_open :: "addr_t \<Rightarrow> size_t \<Rightarrow> slab_mem \<Rightarrow> slab" where
  "slab_open region esize mem =
     \<lparr>sl_region = region, sl_esize = esize, sl_mem = mem,
      sl_free = filter (\<lambda>i. \<not> elem_used mem i) [0..<hd_slots mem], sl_reconstructed = True\<rparr>"

definition slab_format :: "size_t \<Rightarrow> size_t \<Rightarrow> slab_mem \<Rightarrow> slab_mem" where
  "slab_format region_size esize mem =
     \<lparr>hd_magic = True, hd_region_size = region_size, hd_slots = 0,
      hd_max_slots = sub64 region_size SLAB_HEADER div esize, hd_slot_size = esize,
      elem_used = elem_used mem\<rparr>"

definition slab_new :: "bool \<Rightarrow> addr_t \<Rightarrow> size_t \<Rightarrow> size_t \<Rightarrow> bool \<Rightarrow> slab_mem \<Rightarrow> slab result" where
  "slab_new dbg region region_size esize as_new mem =
     bind_res (assert_res dbg (region \<noteq> 0)) (\<lambda>_.
     if hd_magic mem \<and> \<not> as_new then Inr (slab_open region esize mem)
     else
       let mem' = slab_format region_size esize mem in
       bind_res (assert_res dbg (0 < hd_max_slots mem')) (\<lambda>_.
       bind_res (throw_if (hd_max_slots mem' < MIN_ELEMENTS) Constructor_exception) (\<lambda>_.
       Inr \<lparr>sl_region = region, sl_esize = esize, sl_mem = mem', sl_free = [], sl_reconstructed = False\<rparr>)))"

definition determine_size :: "bool \<Rightarrow> size_t \<Rightarrow> nat \<Rightarrow> size_t result" where
  "determine_size dbg esize num_slots =
     bind_res (assert_res dbg (0 < num_slots)) (\<lambda>_.
     Inr (add64 SLAB_HEADER (mul64 esize (add64 num_slots 1))))"

section \<open>Operations\<close>

definition set_used :: "nat \<Rightarrow> bool \<Rightarrow> slab \<Rightarrow> slab" where
  "set_used i b s = s\<lparr>sl_mem := (sl_mem s)\<lparr>elem_used := (elem_used (sl_mem s))(i := b)\<rparr>\<rparr>"

definition slab_alloc :: "bool \<Rightarrow> (slab, addr_t) prog" where
  "slab_alloc dbg =
     bind_p (\<lambda>s. (assert_res dbg (0 < hd_max_slots (sl_mem s)), s)) (\<lambda>_.
     bind_p (get_p sl_free) (\<lambda>fr.
       if 0 < length fr then
         let i = last fr in
         bind_p (\<lambda>s. (assert_res dbg (\<not> elem_used (sl_mem s) i), s)) (\<lambda>_.
         bind_p (update_p (set_used i True)) (\<lambda>_.
         bind_p (update_p (\<lambda>s. s\<lparr>sl_free := butlast (sl_free s)\<rparr>)) (\<lambda>_.
         get_p (\<lambda>s. val_addr s i))))
       else
         bind_p (get_p (\<lambda>s. hd_slots (sl_mem s))) (\<lambda>i.
         bind_p (\<lambda>s. (throw_if (hd_max_slots (sl_mem s) \<le> i) API_exception, s)) (\<lambda>_.
         bind_p (update_p (set_used i True)) (\<lambda>_.
         bind_p (update_p (\<lambda>s. s\<lparr>sl_mem := (sl_mem s)\<lparr>hd_slots := i + 1\<rparr>\<rparr>)) (\<lambda>_.
         get_p (\<lambda>s. val_addr s i)))))))"

text \<open>
  \<open>free\<close> checks the pointer only against the region's bounds. A pointer that is not the value
  of an element makes it write a flag bit into the middle of some element.
\<close>

definition slab_free :: "addr_t \<Rightarrow> (slab, size_t) prog" where
  "slab_free pval = (\<lambda>s.
     if pval < sl_region s \<or> sl_region s + hd_region_size (sl_mem s) < pval then (Inr (W64 - 1), s)
     else
       let off = pval - 1 - (sl_region s + SLAB_HEADER) in
       if pval < sl_region s + SLAB_HEADER + 1 \<or> off mod sl_esize s \<noteq> 0 then (Inl Undefined_behaviour, s)
       else
         let i = off div sl_esize s;
             s1 = set_used i False s
         in (Inr (sl_esize s), s1\<lparr>sl_free := sl_free s1 @ [i]\<rparr>))"

definition num_slots :: "slab \<Rightarrow> nat" where
  "num_slots s = hd_max_slots (sl_mem s)"

definition used_slots :: "slab \<Rightarrow> nat" where
  "used_slots s = length (filter (elem_used (sl_mem s)) [0..<hd_slots (sl_mem s)])"

definition free_slots :: "slab \<Rightarrow> nat" where
  "free_slots s = length (sl_free s)"

definition slab_apply :: "slab \<Rightarrow> (addr_t \<times> size_t \<times> bool) list" where
  "slab_apply s = map (\<lambda>i. (val_addr s i, hd_slot_size (sl_mem s), elem_used (sl_mem s) i))
                      [0..<hd_slots (sl_mem s)]"

definition get_first_element :: "slab \<Rightarrow> addr_t" where
  "get_first_element s = val_addr s 0"

definition get_memory_limits :: "slab \<Rightarrow> addr_t \<times> addr_t" where
  "get_memory_limits s = (sl_region s, elem_addr s (hd_slots (sl_mem s)))"

section \<open>Invariant\<close>

definition slab_live :: "slab \<Rightarrow> nat set" where
  "slab_live s = {i. i < hd_slots (sl_mem s) \<and> elem_used (sl_mem s) i}"

definition slab_inv :: "slab \<Rightarrow> bool" where
  "slab_inv s \<longleftrightarrow>
     hd_magic (sl_mem s) \<and> sl_region s \<noteq> 0 \<and> hd_slots (sl_mem s) \<le> hd_max_slots (sl_mem s) \<and> 0 < hd_max_slots (sl_mem s) \<and> 0 < sl_esize s \<and>
     SLAB_HEADER + hd_max_slots (sl_mem s) * sl_esize s \<le> hd_region_size (sl_mem s) \<and>
     distinct (sl_free s) \<and> set (sl_free s) = {i. i < hd_slots (sl_mem s) \<and> \<not> elem_used (sl_mem s) i}"

lemma slab_new_fresh_inv:
  assumes "0 < esize" "SLAB_HEADER + MIN_ELEMENTS * esize \<le> region_size" "region_size < W64"
    "region \<noteq> 0" "as_new \<or> \<not> hd_magic mem"
  shows "\<exists>s. slab_new dbg region region_size esize as_new mem = Inr s \<and> slab_inv s \<and> slab_live s = {} \<and>
    num_slots s = (region_size - SLAB_HEADER) div esize"
proof -
  let ?max = "(region_size - SLAB_HEADER) div esize"
  have sub: "sub64 region_size SLAB_HEADER = region_size - SLAB_HEADER"
    using assms(2,3) by (intro sub64_nowrap) auto
  have "MIN_ELEMENTS * esize div esize \<le> ?max"
    using assms(2) by (intro div_le_mono) simp
  then have max: "MIN_ELEMENTS \<le> ?max" using assms(1) by simp
  have "?max * esize \<le> region_size - SLAB_HEADER" by (simp add: div_times_less_eq_dividend)
  then have "SLAB_HEADER + ?max * esize \<le> region_size" using assms(2) by linarith
  with max assms sub show ?thesis
    by (auto simp: slab_new_def slab_format_def Let_def slab_inv_def slab_live_def num_slots_def throw_if_def)
qed

text \<open>Reopening a region keeps exactly the elements that were in use.\<close>

lemma slab_open_inv:
  assumes "slab_inv s"
  shows "slab_inv (slab_open (sl_region s) (sl_esize s) (sl_mem s)) \<and>
    slab_live (slab_open (sl_region s) (sl_esize s) (sl_mem s)) = slab_live s"
  using assms by (auto simp: slab_inv_def slab_open_def slab_live_def)

lemma last_removed:
  assumes "distinct xs" "xs \<noteq> []"
  shows "set (butlast xs) = set xs - {last xs}" "distinct (butlast xs)" "last xs \<in> set xs"
proof -
  have xs: "xs = butlast xs @ [last xs]" using assms(2) by simp
  with assms(1) have "last xs \<notin> set (butlast xs)" by (metis distinct_append disjoint_iff list.set_intros(1))
  then show "set (butlast xs) = set xs - {last xs}" by (subst (2) xs) auto
  show "distinct (butlast xs)" "last xs \<in> set xs" using assms by (simp_all add: distinct_butlast)
qed

lemma slab_alloc_cases:
  assumes "slab_inv s"
  shows "(slab_alloc dbg s = (Inl API_exception, s) \<and> slab_live s = {..<num_slots s}) \<or>
    (\<exists>i s'. slab_alloc dbg s = (Inr (val_addr s i), s') \<and> i < num_slots s \<and> i \<notin> slab_live s \<and>
       slab_inv s' \<and> slab_live s' = insert i (slab_live s) \<and> sl_region s' = sl_region s \<and> sl_esize s' = sl_esize s)"
proof (cases "sl_free s = []")
  case True
  let ?n = "hd_slots (sl_mem s)"
  have all: "slab_live s = {..<?n}" using assms True by (auto simp: slab_inv_def slab_live_def)
  show ?thesis
  proof (cases "hd_max_slots (sl_mem s) \<le> ?n")
    case full: True
    then have "slab_alloc dbg s = (Inl API_exception, s)"
      using True assms by (simp add: slab_alloc_def slab_inv_def assert_res_holds bind_p_def)
    with full assms all show ?thesis by (auto simp: slab_inv_def num_slots_def)
  next
    case False
    define s' where "s' = (set_used ?n True s)\<lparr>sl_mem := (sl_mem (set_used ?n True s))\<lparr>hd_slots := ?n + 1\<rparr>\<rparr>"
    have "slab_alloc dbg s = (Inr (val_addr s ?n), s')"
      using True False assms
      by (simp add: slab_alloc_def slab_inv_def assert_res_holds bind_p_def s'_def val_addr_def elem_addr_def set_used_def)
    moreover have "slab_inv s'" "slab_live s' = insert ?n (slab_live s)"
      using assms False True by (auto simp: s'_def set_used_def slab_inv_def slab_live_def less_Suc_eq)
    ultimately show ?thesis
      using False by (intro disjI2 exI [of _ ?n] exI [of _ s'])
        (auto simp: s'_def set_used_def num_slots_def slab_live_def)
  qed
next
  case False
  define i where "i = last (sl_free s)"
  note L = last_removed [OF _ False]
  have d: "distinct (sl_free s)" using assms by (simp add: slab_inv_def)
  have i: "i < hd_slots (sl_mem s)" "\<not> elem_used (sl_mem s) i"
    using L(3) [OF d] assms by (auto simp: slab_inv_def i_def)
  define s' where "s' = (set_used i True s)\<lparr>sl_free := butlast (sl_free s)\<rparr>"
  have "slab_alloc dbg s = (Inr (val_addr s i), s')"
    using False assms i
    by (simp add: slab_alloc_def slab_inv_def assert_res_holds bind_p_def s'_def val_addr_def elem_addr_def
        set_used_def i_def [symmetric] Let_def)
  moreover have "slab_inv s'" "slab_live s' = insert i (slab_live s)"
    using assms i L(1,2) [OF d] by (auto simp: s'_def set_used_def slab_inv_def slab_live_def i_def [symmetric])
  ultimately show ?thesis
    using i assms by (intro disjI2 exI [of _ i] exI [of _ s'])
      (auto simp: s'_def set_used_def num_slots_def slab_live_def slab_inv_def)
qed

lemma slab_free_live:
  assumes "slab_inv s" "i \<in> slab_live s"
  shows "\<exists>s'. slab_free (val_addr s i) s = (Inr (sl_esize s), s') \<and> slab_inv s' \<and>
    slab_live s' = slab_live s - {i} \<and> sl_region s' = sl_region s \<and> sl_esize s' = sl_esize s"
proof -
  have i: "i < hd_slots (sl_mem s)" "elem_used (sl_mem s) i" using assms(2) by (auto simp: slab_live_def)
  have max: "Suc i \<le> hd_max_slots (sl_mem s)" "0 < sl_esize s"
    "SLAB_HEADER + hd_max_slots (sl_mem s) * sl_esize s \<le> hd_region_size (sl_mem s)"
    using assms(1) i by (auto simp: slab_inv_def)
  have "Suc i * sl_esize s \<le> hd_max_slots (sl_mem s) * sl_esize s" using max(1) by (rule mult_le_mono1)
  then have bnd: "\<not> (sl_region s + hd_region_size (sl_mem s) < val_addr s i)"
    using max by (simp add: val_addr_def elem_addr_def)
  define s' where "s' = (set_used i False s)\<lparr>sl_free := sl_free s @ [i]\<rparr>"
  have "slab_free (val_addr s i) s = (Inr (sl_esize s), s')"
    using bnd max(2) by (simp add: slab_free_def Let_def val_addr_def elem_addr_def s'_def set_used_def)
  moreover have "slab_inv s'" "slab_live s' = slab_live s - {i}"
    using assms(1) i by (auto simp: s'_def set_used_def slab_inv_def slab_live_def)
  ultimately show ?thesis by (intro exI [of _ s']) (auto simp: s'_def set_used_def)
qed


section \<open>Properties\<close>

text \<open>
  In a well-formed slab \<open>alloc\<close> returns the address of an element that was not in use and
  marks exactly it, and throws only when every slot is in use; \<open>free\<close> of an element in use
  returns the element size and releases exactly it. Both keep the slab well-formed.
\<close>

theorem slab_alloc_free_correct:
  assumes "slab_inv s"
  shows "(case slab_alloc dbg s of
      (Inr a, s') \<Rightarrow> \<exists>i < num_slots s. a = val_addr s i \<and> i \<notin> slab_live s \<and> slab_inv s' \<and>
        slab_live s' = insert i (slab_live s)
    | (Inl e, s') \<Rightarrow> e = API_exception \<and> s' = s \<and> slab_live s = {..<num_slots s}) \<and>
    (\<forall>i \<in> slab_live s. \<exists>s'. slab_free (val_addr s i) s = (Inr (sl_esize s), s') \<and> slab_inv s' \<and>
      slab_live s' = slab_live s - {i})"
proof
  show "case slab_alloc dbg s of
      (Inr a, s') \<Rightarrow> \<exists>i < num_slots s. a = val_addr s i \<and> i \<notin> slab_live s \<and> slab_inv s' \<and>
        slab_live s' = insert i (slab_live s)
    | (Inl e, s') \<Rightarrow> e = API_exception \<and> s' = s \<and> slab_live s = {..<num_slots s}"
    using slab_alloc_cases [OF assms, of dbg]
  proof (elim disjE exE conjE)
    fix i s'
    assume "slab_alloc dbg s = (Inr (val_addr s i), s')" "i < num_slots s" "i \<notin> slab_live s" "slab_inv s'"
      "slab_live s' = insert i (slab_live s)"
    then show ?thesis unfolding \<open>slab_alloc dbg s = _\<close> prod.case sum.case by blast
  qed simp
  show "\<forall>i \<in> slab_live s. \<exists>s'. slab_free (val_addr s i) s = (Inr (sl_esize s), s') \<and> slab_inv s' \<and>
      slab_live s' = slab_live s - {i}"
    using slab_free_live [OF assms] by blast
qed

definition demo_slab :: slab where
  "demo_slab = \<lparr>sl_region = 4096, sl_esize = 9,
     sl_mem = \<lparr>hd_magic = True, hd_region_size = 2000, hd_slots = 2, hd_max_slots = 200, hd_slot_size = 9,
               elem_used = (\<lambda>i. i = 0)\<rparr>,
     sl_free = [1], sl_reconstructed = False\<rparr>"

lemma demo_slab_inv: "slab_inv demo_slab" "slab_live demo_slab = {0}"
  by (auto simp: demo_slab_def slab_inv_def slab_live_def)

theorem slab_alloc_free_correct_witness:
  "\<exists>s'. slab_free (val_addr demo_slab 0) demo_slab = (Inr 9, s') \<and> slab_live s' = {}"
proof -
  have "\<exists>s'. slab_free (val_addr demo_slab 0) demo_slab = (Inr (sl_esize demo_slab), s') \<and> slab_inv s' \<and>
      slab_live s' = slab_live demo_slab - {0}"
    using slab_alloc_free_correct [OF demo_slab_inv(1), of True] demo_slab_inv(2) by blast
  moreover have "sl_esize demo_slab = 9" by (simp add: demo_slab_def)
  ultimately show ?thesis using demo_slab_inv(2) by auto
qed

text \<open>
  The life of a slab: it is formatted, elements are allocated and elements in use released,
  and at any moment the volatile part may be lost and the region opened again.
\<close>

inductive slab_reach :: "bool \<Rightarrow> slab \<Rightarrow> bool" for dbg where
  fresh: "slab_new dbg region region_size esize as_new mem = Inr s \<Longrightarrow> as_new \<or> \<not> hd_magic mem \<Longrightarrow>
     0 < esize \<Longrightarrow> SLAB_HEADER + MIN_ELEMENTS * esize \<le> region_size \<Longrightarrow> region_size < W64 \<Longrightarrow>
     region \<noteq> 0 \<Longrightarrow> slab_reach dbg s"
| alloc: "slab_reach dbg s \<Longrightarrow> slab_alloc dbg s = (r, s') \<Longrightarrow> slab_reach dbg s'"
| free: "slab_reach dbg s \<Longrightarrow> i \<in> slab_live s \<Longrightarrow> slab_free (val_addr s i) s = (r, s') \<Longrightarrow> slab_reach dbg s'"
| reopen: "slab_reach dbg s \<Longrightarrow>
     slab_new dbg (sl_region s) region_size (sl_esize s) False (sl_mem s) = Inr s' \<Longrightarrow> slab_reach dbg s'"

lemma slab_reopen_eq:
  "slab_inv s \<Longrightarrow> slab_new dbg (sl_region s) n (sl_esize s) False (sl_mem s)
     = Inr (slab_open (sl_region s) (sl_esize s) (sl_mem s))"
  by (simp add: slab_new_def slab_inv_def)

lemma slab_reach_inv: "slab_reach dbg s \<Longrightarrow> slab_inv s"
proof (induction rule: slab_reach.induct)
  case (fresh region region_size esize as_new mem s)
  with slab_new_fresh_inv [of esize region_size region as_new mem dbg] show ?case by auto
next
  case (alloc s r s')
  with slab_alloc_cases [of s dbg] show ?case by auto
next
  case (free s i r s')
  with slab_free_live [of s i] show ?case by auto
next
  case (reopen s region_size s')
  with slab_reopen_eq [of s dbg region_size] slab_open_inv [of s] show ?case by simp
qed

lemma elem_ranges:
  assumes "slab_inv s" "i < hd_slots (sl_mem s)"
  shows "sl_region s + SLAB_HEADER \<le> elem_addr s i"
    "elem_addr s i + sl_esize s \<le> sl_region s + hd_region_size (sl_mem s)"
    "i < j \<Longrightarrow> elem_addr s i + sl_esize s \<le> elem_addr s j"
proof -
  have "Suc i * sl_esize s \<le> hd_max_slots (sl_mem s) * sl_esize s"
    using assms by (intro mult_le_mono1) (auto simp: slab_inv_def)
  with assms show "elem_addr s i + sl_esize s \<le> sl_region s + hd_region_size (sl_mem s)"
    by (auto simp: slab_inv_def elem_addr_def)
  show "elem_addr s i + sl_esize s \<le> elem_addr s j" if "i < j"
  proof -
    have "Suc i * sl_esize s \<le> j * sl_esize s" using that by (intro mult_le_mono1) simp
    then show ?thesis by (simp add: elem_addr_def)
  qed
qed (simp add: elem_addr_def)

text \<open>
  C22: through any such life the elements in use are pairwise disjoint and lie between the
  header and the end of the region, the counters agree with the flags, and reopening the
  region yields a well-formed slab with exactly the same elements in use.
\<close>

theorem slab_life_safe:
  assumes "slab_reach dbg s"
  shows "(\<forall>i \<in> slab_live s. sl_region s + SLAB_HEADER \<le> elem_addr s i \<and>
        elem_addr s i + sl_esize s \<le> sl_region s + hd_region_size (sl_mem s)) \<and>
    (\<forall>i \<in> slab_live s. \<forall>j \<in> slab_live s. i \<noteq> j \<longrightarrow>
        {elem_addr s i ..< elem_addr s i + sl_esize s} \<inter> {elem_addr s j ..< elem_addr s j + sl_esize s} = {}) \<and>
    used_slots s = card (slab_live s) \<and> used_slots s + free_slots s = hd_slots (sl_mem s) \<and>
    (\<exists>s'. slab_new dbg (sl_region s) n (sl_esize s) False (sl_mem s) = Inr s' \<and> slab_inv s' \<and> slab_live s' = slab_live s)"
proof -
  note inv = slab_reach_inv [OF assms]
  have live: "i < hd_slots (sl_mem s)" if "i \<in> slab_live s" for i using that by (simp add: slab_live_def)
  have "{elem_addr s i ..< elem_addr s i + sl_esize s} \<inter> {elem_addr s j ..< elem_addr s j + sl_esize s} = {}"
    if "i \<in> slab_live s" "j \<in> slab_live s" "i \<noteq> j" for i j
    using elem_ranges(3) [OF inv live [OF that(1)], of j] elem_ranges(3) [OF inv live [OF that(2)], of i] that(3)
    by (cases "i < j") auto
  moreover have used: "used_slots s = card (slab_live s)"
    unfolding used_slots_def
    by (subst distinct_card [symmetric]) (auto simp: slab_live_def intro: arg_cong [where f = card])
  moreover have "used_slots s + free_slots s = hd_slots (sl_mem s)"
  proof -
    have "free_slots s = card {i. i < hd_slots (sl_mem s) \<and> \<not> elem_used (sl_mem s) i}"
      using inv distinct_card [of "sl_free s"] by (simp add: free_slots_def slab_inv_def)
    moreover have "slab_live s \<union> {i. i < hd_slots (sl_mem s) \<and> \<not> elem_used (sl_mem s) i} = {..<hd_slots (sl_mem s)}"
      "slab_live s \<inter> {i. i < hd_slots (sl_mem s) \<and> \<not> elem_used (sl_mem s) i} = {}"
      "finite (slab_live s)" by (auto simp: slab_live_def)
    ultimately show ?thesis
      using used card_Un_disjoint [of "slab_live s" "{i. i < hd_slots (sl_mem s) \<and> \<not> elem_used (sl_mem s) i}"] by simp
  qed
  ultimately show ?thesis
    using elem_ranges(1,2) [OF inv live] slab_reopen_eq [OF inv] slab_open_inv [OF inv] by simp
qed

theorem slab_life_safe_witness:
  "\<exists>s s'. slab_new True 4096 4096 9 True (sl_mem demo_slab) = Inr s \<and>
     slab_new True 4096 0 9 False (sl_mem s) = Inr s' \<and> slab_live s' = slab_live s"
proof -
  obtain s where s: "slab_new True 4096 4096 9 True (sl_mem demo_slab) = Inr s" "sl_region s = 4096" "sl_esize s = 9"
    by (simp add: slab_new_def slab_format_def sub64_def)
  have "slab_reach True s" by (rule slab_reach.fresh [OF s(1)]) simp_all
  from slab_life_safe [OF this, of 0] s show ?thesis by auto
qed

end
