(* ===== verification/Nupm_Rca.thy ===== *)
theory Nupm_Rca
  imports Utils Avl_Alloc_Contract
begin

text \<open>
  The lower half of the reconstituting allocators of \<open>lib/nupm\<close>: the bucket mappers
  (\<open>mappers.h\<close>) and \<open>Rca_AVL\<close> (\<open>rc_alloc_avl.cpp\<close>), one AVL range allocator per NUMA node over
  metadata taken from the C runtime. The number of NUMA nodes of the machine is the length of
  the vector; \<open>credits\<close> is how many metadata nodes \<open>malloc\<close> will still provide to an
  allocator.
\<close>

section \<open>Bucket mappers\<close>

definition get_log2_bin :: "size_t \<Rightarrow> nat result" where
  "get_log2_bin a =
     (if a = 0 then Inl Undefined_behaviour
      else let fsmsb = 64 - clzl a
           in Inr (if 2 ^ (fsmsb - 1) = a then fsmsb - 1 else fsmsb))"

abbreviation (input) L0_MAX_SMALL_OBJECT_SIZE :: nat where
  "L0_MAX_SMALL_OBJECT_SIZE \<equiv> 4096"

abbreviation (input) L0_REGION_SIZE :: nat where
  "L0_REGION_SIZE \<equiv> 1048576"

abbreviation (input) LARGE_BUCKET :: nat where
  "LARGE_BUCKET \<equiv> 13"

definition ls_bucket :: "size_t \<Rightarrow> nat result" where
  "ls_bucket object_size =
     (if object_size \<le> L0_MAX_SMALL_OBJECT_SIZE then get_log2_bin object_size
      else bind_res (get_log2_bin L0_MAX_SMALL_OBJECT_SIZE) (\<lambda>b. Inr (b + 1)))"

definition ls_base :: "addr_t \<Rightarrow> size_t \<Rightarrow> addr_t result" where
  "ls_base addr object_size =
     (if object_size \<le> L0_MAX_SMALL_OBJECT_SIZE then round_down addr L0_REGION_SIZE else Inr addr)"

definition ls_region_size :: "size_t \<Rightarrow> size_t" where
  "ls_region_size object_size =
     (if object_size \<le> L0_MAX_SMALL_OBJECT_SIZE then L0_REGION_SIZE else object_size)"

definition ls_rounded_up_object_size :: "size_t \<Rightarrow> size_t result" where
  "ls_rounded_up_object_size object_size =
     (if object_size \<le> L0_MAX_SMALL_OBJECT_SIZE
      then bind_res (get_log2_bin object_size) (\<lambda>b. Inr (2 ^ b)) else Inr object_size)"

definition ls_could_exist_in_region :: "size_t \<Rightarrow> bool" where
  "ls_could_exist_in_region object_size \<longleftrightarrow> object_size \<le> L0_MAX_SMALL_OBJECT_SIZE"

definition log2_rounded_up_object_size :: "bool \<Rightarrow> size_t \<Rightarrow> size_t result" where
  "log2_rounded_up_object_size dbg n =
     bind_res (get_log2_bin n) (\<lambda>b.
       if 64 \<le> b then Inl Undefined_behaviour
       else bind_res (assert_res dbg (n \<le> 2 ^ b)) (\<lambda>_. Inr (2 ^ b)))"

definition log2_base :: "addr_t \<Rightarrow> addr_t result" where
  "log2_base addr = round_down addr 1000000000"

lemma get_log2_bin_bracket:
  assumes "0 < a" "a < W64"
  obtains b where "get_log2_bin a = Inr b" "a \<le> 2 ^ b" "b = 0 \<or> 2 ^ (b - 1) < a" "b \<le> 64"
proof -
  define k where "k = bit_length a"
  have k: "64 - clzl a = k" "0 < k" "a < 2 ^ k" "2 ^ (k - 1) \<le> a" "k \<le> 64"
    using assms fsmsb_clzl [of a] bit_length_upper [of a] bit_length_lower [of a] bit_length_le [of a 64]
      bit_length_pos [of a] by (auto simp: k_def)
  show ?thesis
  proof (cases "2 ^ (k - 1) = a")
    case True
    have "k - 1 = 0 \<or> (2::nat) ^ (k - 1 - 1) < 2 ^ (k - 1)" by auto
    with True k assms show ?thesis by (intro that [of "k - 1"]) (auto simp: get_log2_bin_def Let_def)
  next
    case False
    with k assms show ?thesis by (intro that [of k]) (auto simp: get_log2_bin_def Let_def)
  qed
qed

lemma get_log2_bin_small:
  assumes "0 < a" "a \<le> L0_MAX_SMALL_OBJECT_SIZE"
  obtains b where "get_log2_bin a = Inr b" "a \<le> 2 ^ b" "b = 0 \<or> 2 ^ (b - 1) < a" "b \<le> 12"
proof -
  obtain b where b: "get_log2_bin a = Inr b" "a \<le> 2 ^ b" "b = 0 \<or> 2 ^ (b - 1) < a" "b \<le> 64"
    using get_log2_bin_bracket [of a] assms by auto
  have "b \<le> 12"
  proof (rule ccontr)
    assume "\<not> b \<le> 12"
    then have "(2::nat) ^ 12 \<le> 2 ^ (b - 1)" by (intro power_increasing) auto
    with b(3) assms(2) \<open>\<not> b \<le> 12\<close> show False by auto
  qed
  with b show ?thesis by (intro that)
qed

lemma get_log2_bin_4k: "get_log2_bin 4096 = Inr 12"
proof -
  have "bit_length 4096 = 13" by (simp add: bit_length_pos)
  then show ?thesis by (simp add: get_log2_bin_def clzl_def)
qed

lemma ls_bucket_large: "L0_MAX_SMALL_OBJECT_SIZE < n \<Longrightarrow> ls_bucket n = Inr LARGE_BUCKET"
  by (simp add: ls_bucket_def get_log2_bin_4k)

lemma ls_small:
  assumes "0 < n" "n \<le> L0_MAX_SMALL_OBJECT_SIZE"
  obtains b where "ls_bucket n = Inr b" "ls_rounded_up_object_size n = Inr (2 ^ b)" "n \<le> 2 ^ b" "b \<le> 12"
    "b = 0 \<or> 2 ^ (b - 1) < n" "2 ^ b dvd L0_REGION_SIZE"
proof -
  obtain b where b: "get_log2_bin n = Inr b" "n \<le> 2 ^ b" "b = 0 \<or> 2 ^ (b - 1) < n" "b \<le> 12"
    by (rule get_log2_bin_small [OF assms])
  have "(2::nat) ^ b dvd 2 ^ 20" using b(4) by (intro le_imp_power_dvd) simp
  then show ?thesis
    using b assms by (intro that [of b]) (auto simp: ls_bucket_def ls_rounded_up_object_size_def)
qed

section \<open>\<open>Rca_AVL\<close>\<close>

type_synonym rca = "range_alloc option list"

text \<open>
  Indexing the vector of allocators is unchecked: a bad index is undefined behaviour, a null
  entry is dereferenced by the call of its method.
\<close>

definition on_node :: "int \<Rightarrow> (range_alloc, 'a) prog \<Rightarrow> (rca, 'a) prog" where
  "on_node z f = (\<lambda>s.
     if z < 0 \<or> int (length s) \<le> z then (Inl Undefined_behaviour, s)
     else case s ! nat z of
            None \<Rightarrow> (Inl Null_deref, s)
          | Some a \<Rightarrow> (case f a of (r, a') \<Rightarrow> (r, s[nat z := Some a'])))"

definition rca_new :: "nat \<Rightarrow> rca" where
  "rca_new max_numa_node = replicate (max_numa_node + 1) None"

text \<open>An exception a \<open>catch (...)\<close> sees, as opposed to the end of the process.\<close>

definition catchable :: "exn \<Rightarrow> bool" where
  "catchable e \<longleftrightarrow>
     e \<notin> {Assertion_failed, Null_deref, Div_by_zero, Undefined_behaviour, Process_exit, Blocked, Diverges}"

definition rcai_add_managed_region :: "bool \<Rightarrow> nat \<Rightarrow> addr_t \<Rightarrow> size_t \<Rightarrow> int \<Rightarrow> (rca, unit) prog" where
  "rcai_add_managed_region dbg credits region_base region_length z =
     bind_p (assert_p dbg (region_base \<noteq> 0)) (\<lambda>_.
     bind_p (assert_p dbg (0 < region_length)) (\<lambda>_.
     (\<lambda>s. if z < 0 \<or> int (length s) \<le> z then (Inl Undefined_behaviour, s)
          else case s ! nat z of
                 None \<Rightarrow> (case range_alloc_new dbg credits region_base region_length of
                            Inl e \<Rightarrow> (Inl e, s)
                          | Inr a \<Rightarrow> (Inr (), s[nat z := Some a]))
               | Some _ \<Rightarrow> on_node z (ra_add_new_region dbg region_base region_length) s)))"

definition rcai_inject_allocation :: "bool \<Rightarrow> addr_t \<Rightarrow> size_t \<Rightarrow> int \<Rightarrow> (rca, unit) prog" where
  "rcai_inject_allocation dbg ptr n z =
     bind_p (assert_p dbg (ptr \<noteq> 0)) (\<lambda>_.
     bind_p (on_node z (ra_alloc_at dbg ptr n)) (\<lambda>_. ret_p ()))"

definition rcai_alloc :: "bool \<Rightarrow> size_t \<Rightarrow> int \<Rightarrow> size_t \<Rightarrow> (rca, addr_t) prog" where
  "rcai_alloc dbg n z alignment = (\<lambda>s.
     case on_node z (ra_alloc dbg n alignment) s of
       (Inl e, s') \<Rightarrow> (Inl (if catchable e then General_exception else e), s')
     | (Inr a, s') \<Rightarrow> (Inr a, s'))"

definition rcai_free :: "addr_t \<Rightarrow> int \<Rightarrow> (rca, unit) prog" where
  "rcai_free ptr z =
     (if ptr = 0 then throw_p API_exception
      else bind_p (on_node z (ra_free ptr)) (\<lambda>_. ret_p ()))"

definition rca_max_node :: "rca \<Rightarrow> int" where
  "rca_max_node s = int (length s) - 1"

definition rca_add_managed_region :: "bool \<Rightarrow> nat \<Rightarrow> addr_t \<Rightarrow> size_t \<Rightarrow> int \<Rightarrow> (rca, unit) prog" where
  "rca_add_managed_region dbg credits region_base region_length z =
     bind_p (\<lambda>s. (throw_if (rca_max_node s < z) Invalid_argument, s)) (\<lambda>_.
     rcai_add_managed_region dbg credits region_base region_length z)"

definition rca_inject_allocation :: "bool \<Rightarrow> addr_t \<Rightarrow> size_t \<Rightarrow> int \<Rightarrow> (rca, unit) prog" where
  "rca_inject_allocation dbg ptr n z =
     bind_p (\<lambda>s. (throw_if (rca_max_node s < z) Invalid_argument, s)) (\<lambda>_.
     rcai_inject_allocation dbg ptr n z)"

definition rca_alloc :: "bool \<Rightarrow> size_t \<Rightarrow> int \<Rightarrow> size_t \<Rightarrow> (rca, addr_t) prog" where
  "rca_alloc dbg n z alignment =
     bind_p (lift_p (throw_if (n = 0) Invalid_argument)) (\<lambda>_.
     bind_p (\<lambda>s. (throw_if (rca_max_node s < z) Invalid_argument, s)) (\<lambda>_.
     rcai_alloc dbg n z (if alignment = 0 then 1 else alignment)))"

definition rca_free :: "addr_t \<Rightarrow> int \<Rightarrow> size_t \<Rightarrow> (rca, unit) prog" where
  "rca_free ptr z n = rcai_free ptr z"

section \<open>One node of \<open>Rca_AVL\<close> as a range heap\<close>

text \<open>
  The ranges in use and the managed bytes of one node, and the invariant of all nodes; the
  managed ranges exclude address zero, which the code uses as the null pointer.
\<close>

definition rca_live :: "int \<Rightarrow> rca \<Rightarrow> (addr_t \<times> size_t) set" where
  "rca_live z s = (if 0 \<le> z \<and> z < int (length s) then
     (case s ! nat z of None \<Rightarrow> {} | Some a \<Rightarrow> ra_live a) else {})"

definition rca_room :: "int \<Rightarrow> rca \<Rightarrow> addr_t set" where
  "rca_room z s = (if 0 \<le> z \<and> z < int (length s) then
     (case s ! nat z of None \<Rightarrow> {} | Some a \<Rightarrow> ra_room a) else {})"

definition rca_inv :: "rca \<Rightarrow> bool" where
  "rca_inv s \<longleftrightarrow> (\<forall>a. Some a \<in> set s \<longrightarrow> ra_inv a \<and> 0 \<notin> ra_room a)"

lemma rca_inv_update:
  "rca_inv s \<Longrightarrow> ra_inv a \<Longrightarrow> 0 \<notin> ra_room a \<Longrightarrow> rca_inv (s[n := Some a])"
  using set_update_subset_insert [of s n "Some a"] by (auto simp: rca_inv_def)

lemma rca_inv_nth: "rca_inv s \<Longrightarrow> n < length s \<Longrightarrow> s ! n = Some a \<Longrightarrow> ra_inv a \<and> 0 \<notin> ra_room a"
  by (metis nth_mem rca_inv_def)

lemma rca_node_update:
  assumes "0 \<le> z" "z < int (length s)"
  shows "rca_live z (s[nat z := Some a]) = ra_live a" "rca_room z (s[nat z := Some a]) = ra_room a"
    "z' \<noteq> z \<Longrightarrow> rca_live z' (s[nat z := Some a]) = rca_live z' s"
    "z' \<noteq> z \<Longrightarrow> rca_room z' (s[nat z := Some a]) = rca_room z' s"
  using assms by (auto simp: rca_live_def rca_room_def nth_list_update nat_eq_iff2)

lemma rca_alloc_cases:
  assumes "rca_inv s" "0 \<le> z" "z < int (length s)" "s ! nat z \<noteq> None" "0 < n" "n + max al 1 < W64"
  shows "(\<exists>s'. rca_alloc dbg n z al s = (Inl General_exception, s') \<and> rca_inv s' \<and> length s' = length s \<and>
       (\<forall>x. rca_live x s' = rca_live x s \<and> rca_room x s' = rca_room x s) \<and> (\<forall>i. s' ! i = None \<longleftrightarrow> s ! i = None)) \<or>
    (\<exists>p s'. rca_alloc dbg n z al s = (Inr p, s') \<and> rca_inv s' \<and> length s' = length s \<and> p \<noteq> 0 \<and> p mod max al 1 = 0 \<and>
       rca_live z s' = {(p, n)} \<union> rca_live z s \<and> {p ..< p + n} \<subseteq> rca_room z s \<and>
       (\<forall>(b, k) \<in> rca_live z s. {p ..< p + n} \<inter> {b ..< b + k} = {}) \<and>
       (\<forall>x. x \<noteq> z \<longrightarrow> rca_live x s' = rca_live x s) \<and> (\<forall>x. rca_room x s' = rca_room x s) \<and>
       (\<forall>i. s' ! i = None \<longleftrightarrow> s ! i = None))"
proof -
  obtain a where a: "s ! nat z = Some a" using assms(4) by blast
  have inv: "ra_inv a" "0 \<notin> ra_room a" using rca_inv_nth [OF assms(1) _ a] assms(2,3) by auto
  define al' where "al' = (if al = 0 then 1 else al)"
  have al': "al' = max al 1" "0 < al'" by (auto simp: al'_def)
  obtain r a' where run: "ra_alloc dbg n al' a = (r, a')" by force
  have node: "rca_live z s = ra_live a" "rca_room z s = ra_room a"
    using assms(2,3) a by (simp_all add: rca_live_def rca_room_def)
  have eq: "rca_alloc dbg n z al s =
      (case r of Inl e \<Rightarrow> (Inl (if catchable e then General_exception else e), s[nat z := Some a'])
       | Inr p \<Rightarrow> (Inr p, s[nat z := Some a']))"
    using assms(2,3,5) a run
    by (simp add: rca_alloc_def rcai_alloc_def on_node_def rca_max_node_def throw_if_def al'_def [symmetric]
        split: sum.splits)
  have slots: "s[nat z := Some a'] ! i = None \<longleftrightarrow> s ! i = None" for i
    using a assms(2,3) by (cases "i = nat z") auto
  have ok: "ra_request_ok (dbg, n, al')" using assms(5,6) al' by (auto simp: ra_request_ok_def)
  have other: "rca_live x (s[nat z := Some a']) = rca_live x s" "rca_room x (s[nat z := Some a']) = rca_room x s"
    if "x \<noteq> z" for x using rca_node_update(3,4) [OF assms(2,3) that] by simp_all
  show ?thesis
  proof (cases r)
    case (Inl e)
    then have "e = General_exception \<and> ra_tree a' = ra_tree a \<and> ra_nodes a' = ra_nodes a"
      using ra_alloc_cases [OF inv(1) assms(5) al'(2), of dbg] assms(6) al' run by auto
    then have "ra_inv a'" "ra_live a' = ra_live a" "ra_room a' = ra_room a" "e = General_exception"
      using inv(1) by (simp_all add: ra_inv_def ra_inv0_def ra_live_def ra_room_def)
    then have "rca_inv (s[nat z := Some a'])"
      "rca_live x (s[nat z := Some a']) = rca_live x s \<and> rca_room x (s[nat z := Some a']) = rca_room x s" for x
      using inv(2) rca_inv_update [OF assms(1)] other [of x] rca_node_update(1,2) [OF assms(2,3), of a'] node
      by (auto, cases "x = z", auto)+
    with eq Inl \<open>e = General_exception\<close> slots show ?thesis by (simp add: catchable_def)
  next
    case (Inr p)
    have "ra_request_alloc (dbg, n, al') a = (Inr p, a')"
      using run Inr by (simp add: ra_request_alloc_def)
    note A = ra.alloc_some [OF inv(1) ok this, unfolded prod.case]
    let ?s' = "s[nat z := Some a']"
    have "p mod al' = 0"
      using ra_alloc_cases [OF inv(1) assms(5) al'(2), of dbg] assms(6) al' run Inr by auto
    then have f1: "p mod max al 1 = 0" by (simp only: al'(1))
    have f2: "p \<noteq> 0" using A inv(2) assms(5) by fastforce
    have f3: "rca_alloc dbg n z al s = (Inr p, ?s')" using eq Inr by simp
    have f4: "rca_live z ?s' = {(p, n)} \<union> rca_live z s" "{p ..< p + n} \<subseteq> rca_room z s"
        "\<forall>(b, k) \<in> rca_live z s. {p ..< p + n} \<inter> {b ..< b + k} = {}"
      unfolding node rca_node_update(1) [OF assms(2,3)] using A by blast+
    have room: "ra_room a' = ra_room a" "ra_inv a'" using A by blast+
    have f5: "rca_inv ?s'" using room inv(2) by (intro rca_inv_update [OF assms(1)]) simp_all
    have f6: "rca_room x ?s' = rca_room x s" for x
      using other(2) [of x] rca_node_update(2) [OF assms(2,3), of a'] node room by (cases "x = z") simp_all
    have f7: "\<forall>x. x \<noteq> z \<longrightarrow> rca_live x ?s' = rca_live x s" using other(1) by blast
    show ?thesis
      by (intro disjI2 exI [of _ p] exI [of _ ?s'] conjI f1 f2 f3 f4 f5 f6 f7 slots allI) simp
  qed
qed


lemma rca_free_live:
  assumes "rca_inv s" "(p, k) \<in> rca_live z s"
  obtains s' where "rca_free p z n s = (Inr (), s')" "rca_inv s'" "length s' = length s"
    "rca_live z s' = rca_live z s - {(p, k)}" "\<And>x. x \<noteq> z \<Longrightarrow> rca_live x s' = rca_live x s"
    "\<And>x. rca_room x s' = rca_room x s" "\<And>i. s' ! i = None \<longleftrightarrow> s ! i = None"
proof -
  from assms(2) obtain a where z: "0 \<le> z" "z < int (length s)" and a: "s ! nat z = Some a" "(p, k) \<in> ra_live a"
    by (auto simp: rca_live_def split: if_splits option.splits)
  have inv: "ra_inv a" "0 \<notin> ra_room a" using rca_inv_nth [OF assms(1) _ a(1)] z by auto
  from a(2) obtain m where m: "ra_nodes a p = Some m" "k = mr_size m" by (auto simp: ra_live_def used_def)
  obtain a' where a': "ra_free p a = (Inr (mr_size m), a')" "ra_inv a'"
      "used (ra_nodes a') = used (ra_nodes a) - {(p, mr_size m)}" "managed (ra_nodes a') = managed (ra_nodes a)"
    by (rule ra_free_correct [OF inv(1) m(1)])
  have "p \<in> ra_room a"
    using m wf_nodesD(2) [OF ra_invD(2) [OF inv(1)] m(1)] by (fastforce simp: ra_room_def managed_def)
  with inv(2) have "p \<noteq> 0" by metis
  let ?s' = "s[nat z := Some a']"
  have run: "rca_free p z n s = (Inr (), ?s')"
    using z a a' \<open>p \<noteq> 0\<close> by (simp add: rca_free_def rcai_free_def on_node_def)
  have node: "rca_live z s = ra_live a" "rca_room z s = ra_room a"
    using z a by (simp_all add: rca_live_def rca_room_def)
  have live: "rca_live z ?s' = rca_live z s - {(p, k)}"
    using a'(3) m(2) by (simp add: rca_node_update [OF z] node ra_live_def)
  have room: "rca_room x ?s' = rca_room x s" for x
    using rca_node_update(2,4) [OF z] node(2) a'(4) by (cases "x = z") (auto simp: ra_room_def)
  have inv': "rca_inv ?s'"
    using a'(2,4) inv(2) by (intro rca_inv_update [OF assms(1)]) (simp_all add: ra_room_def)
  have "?s' ! i = None \<longleftrightarrow> s ! i = None" for i using a(1) z by (cases "i = nat z") auto
  with run inv' live room rca_node_update(3) [OF z] show ?thesis by (intro that [of ?s']) auto
qed

end
