(* ===== verification/Nupm_Region.thy ===== *)
theory Nupm_Region
  imports Nupm_Rca
begin

text \<open>
  The upper half of the reconstituting allocator of \<open>lib/nupm\<close>: \<open>Region\<close> and \<open>Region_map\<close>
  (\<open>region.h\<close>) and the class \<open>Rca_LB\<close> in front of them (\<open>rc_alloc_lb.cpp\<close>), in the
  configuration the code is built in (\<open>SANITY_CHECK\<close> 0, the large-and-small mapper). A region
  holds objects of one size; its free objects are in a set (until the first allocation) or in a
  list. The set is a list in ascending order, which is how the code iterates over it.
\<close>

section \<open>Regions\<close>

record region =
  rg_object_size :: size_t
  rg_base :: addr_t
  rg_top :: addr_t
  rg_free_list :: "addr_t list"
  rg_free_set :: "addr_t list"
  rg_use_count :: nat

definition region_new :: "addr_t \<Rightarrow> size_t \<Rightarrow> size_t \<Rightarrow> region result" where
  "region_new ptr rsize osize =
     (if osize = 0 then Inl Div_by_zero
      else if rsize mod osize \<noteq> 0 then Inl Invalid_argument
      else if osize < 8 then Inl Invalid_argument
      else Inr \<lparr>rg_object_size = osize, rg_base = ptr, rg_top = ptr + rsize, rg_free_list = [],
                rg_free_set = map (\<lambda>i. ptr + i * osize) [0..<rsize div osize], rg_use_count = 0\<rparr>)"

definition in_range :: "addr_t \<Rightarrow> region \<Rightarrow> bool" where
  "in_range p r \<longleftrightarrow> rg_base r \<le> p \<and> p < rg_top r"

definition mark_used :: "region \<Rightarrow> region" where
  "mark_used r = r\<lparr>rg_use_count := add64 (rg_use_count r) 1\<rparr>"

definition mark_unused :: "addr_t \<Rightarrow> region \<Rightarrow> region" where
  "mark_unused p r = r\<lparr>rg_free_list := p # rg_free_list r, rg_use_count := sub64 (rg_use_count r) 1\<rparr>"

definition migrate :: "region \<Rightarrow> region" where
  "migrate r = r\<lparr>rg_free_list := fold (\<lambda>p l. p # l) (rg_free_set r) (rg_free_list r), rg_free_set := []\<rparr>"

definition rg_allocate :: "bool \<Rightarrow> (region, addr_t option) prog" where
  "rg_allocate dbg =
     bind_p (update_p migrate) (\<lambda>_.
     bind_p (get_p rg_free_list) (\<lambda>l.
       case l of
         [] \<Rightarrow> ret_p None
       | p # ps \<Rightarrow>
           bind_p (update_p (\<lambda>r. mark_used (r\<lparr>rg_free_list := ps\<rparr>))) (\<lambda>_.
           bind_p (\<lambda>r. (assert_aligned dbg p (rg_object_size r), r)) (\<lambda>_.
           ret_p (Some p)))))"

definition rg_free :: "addr_t \<Rightarrow> (region, bool) prog" where
  "rg_free p = bind_p (update_p (mark_unused p)) (\<lambda>_. ret_p True)"

definition rg_allocate_at :: "addr_t \<Rightarrow> (region, bool) prog" where
  "rg_allocate_at p = (\<lambda>r.
     if rg_free_set r \<noteq> [] then
       if p \<notin> set (rg_free_set r) then (Inl Logic_exception, r)
       else (Inr True, r\<lparr>rg_free_set := remove1 p (rg_free_set r)\<rparr>)
     else
       case rg_free_list r of
         [] \<Rightarrow> (Inl Undefined_behaviour, r)
       | _ \<Rightarrow>
           if p \<in> set (rg_free_list r)
           then (Inr True, mark_used (r\<lparr>rg_free_list := remove1 p (rg_free_list r)\<rparr>))
           else (Inr True, r))"

definition rg_size :: "region \<Rightarrow> size_t" where
  "rg_size r = rg_top r - rg_base r"

section \<open>The region map\<close>

abbreviation (input) NUM_BUCKETS :: nat where
  "NUM_BUCKETS \<equiv> 64"

abbreviation (input) MAX_NUMA_ZONES :: int where
  "MAX_NUMA_ZONES \<equiv> 2"

record region_map =
  rm_arena :: rca
  rm_buckets :: "int \<Rightarrow> nat \<Rightarrow> region list"

definition check_node :: "int \<Rightarrow> (region_map, unit) prog" where
  "check_node z = lift_p (throw_if (z < 0 \<or> MAX_NUMA_ZONES \<le> z) Invalid_argument)"

definition arena_p :: "(rca, 'a) prog \<Rightarrow> (region_map, 'a) prog" where
  "arena_p f = (\<lambda>s. case f (rm_arena s) of (r, a) \<Rightarrow> (r, s\<lparr>rm_arena := a\<rparr>))"

definition set_bucket :: "int \<Rightarrow> nat \<Rightarrow> region list \<Rightarrow> region_map \<Rightarrow> region_map" where
  "set_bucket z b rs s = s\<lparr>rm_buckets := (rm_buckets s)(z := (rm_buckets s z)(b := rs))\<rparr>"

definition rm_add_arena :: "bool \<Rightarrow> nat \<Rightarrow> addr_t \<Rightarrow> size_t \<Rightarrow> int \<Rightarrow> (region_map, unit) prog" where
  "rm_add_arena dbg credits arena_base arena_length z =
     bind_p (check_node z) (\<lambda>_.
     arena_p (rca_add_managed_region dbg credits arena_base arena_length z))"

text \<open>The loop over the regions of a bucket: every region visited migrates its free set.\<close>

fun try_regions :: "bool \<Rightarrow> region list \<Rightarrow> addr_t option result \<times> region list" where
  "try_regions dbg [] = (Inr None, [])"
| "try_regions dbg (r # rs) =
     (case rg_allocate dbg r of
        (Inl e, r') \<Rightarrow> (Inl e, r' # rs)
      | (Inr (Some p), r') \<Rightarrow> (Inr (Some p), r' # rs)
      | (Inr None, r') \<Rightarrow> (case try_regions dbg rs of (q, rs') \<Rightarrow> (q, r' # rs')))"

definition allocate_from_existing_region :: "bool \<Rightarrow> size_t \<Rightarrow> int \<Rightarrow> (region_map, addr_t option) prog" where
  "allocate_from_existing_region dbg object_size z =
     bind_p (lift_p (ls_bucket object_size)) (\<lambda>b.
     bind_p (lift_p (throw_if (NUM_BUCKETS \<le> b) Out_of_range)) (\<lambda>_.
     (\<lambda>s. case try_regions dbg (rm_buckets s z b) of (q, rs) \<Rightarrow> (q, set_bucket z b rs s))))"

definition allocate_from_new_region :: "bool \<Rightarrow> size_t \<Rightarrow> int \<Rightarrow> (region_map, addr_t option) prog" where
  "allocate_from_new_region dbg object_size z =
     bind_p (lift_p (ls_bucket object_size)) (\<lambda>b.
     bind_p (lift_p (throw_if (NUM_BUCKETS \<le> b) Out_of_range)) (\<lambda>_.
     let region_size = ls_region_size object_size in
     bind_p (assert_p dbg (0 < region_size)) (\<lambda>_.
     bind_p (lift_p (ls_rounded_up_object_size object_size)) (\<lambda>region_object_size.
     bind_p (arena_p (rca_alloc dbg region_size z region_size)) (\<lambda>region_base.
     bind_p (assert_p dbg (region_base \<noteq> 0)) (\<lambda>_.
     bind_p (lift_p (assert_aligned dbg region_base region_object_size)) (\<lambda>_.
     bind_p (lift_p (region_new region_base region_size region_object_size)) (\<lambda>r.
       case rg_allocate dbg r of
         (Inl e, r') \<Rightarrow> throw_p e
       | (Inr rp, r') \<Rightarrow>
           bind_p (assert_p dbg (rp \<noteq> None)) (\<lambda>_.
           bind_p (update_p (\<lambda>s. set_bucket z b (r' # rm_buckets s z b) s)) (\<lambda>_.
           ret_p rp))))))))))"

definition rm_allocate :: "bool \<Rightarrow> size_t \<Rightarrow> int \<Rightarrow> size_t \<Rightarrow> (region_map, addr_t) prog" where
  "rm_allocate dbg n z alignment =
     bind_p (lift_p (throw_if (0 < alignment \<and> (n < alignment \<or> n mod alignment \<noteq> 0)) Invalid_argument)) (\<lambda>_.
     bind_p (check_node z) (\<lambda>_.
     bind_p (if ls_could_exist_in_region n then allocate_from_existing_region dbg n z else ret_p None) (\<lambda>p.
     bind_p (case p of None \<Rightarrow> allocate_from_new_region dbg n z | Some _ \<Rightarrow> ret_p p) (\<lambda>p.
       case p of None \<Rightarrow> throw_p Bad_alloc | Some q \<Rightarrow> ret_p q))))"

text \<open>
  One bucket of the search of \<open>free\<close>: the first region whose range contains the pointer takes
  it back, and is returned to the arena when its use count has become zero.
\<close>

definition free_in_bucket :: "addr_t \<Rightarrow> int \<Rightarrow> nat \<Rightarrow> (region_map, bool) prog" where
  "free_in_bucket p z b =
     bind_p (get_p (\<lambda>s. rm_buckets s z b)) (\<lambda>rs.
       case List.find (in_range p) rs of
         None \<Rightarrow> ret_p False
       | Some _ \<Rightarrow>
           let before = takeWhile (\<lambda>r. \<not> in_range p r) rs;
               r = hd (dropWhile (\<lambda>r. \<not> in_range p r) rs);
               after = tl (dropWhile (\<lambda>r. \<not> in_range p r) rs);
               r' = snd (rg_free p r)
           in if rg_use_count r' = 0 then
                bind_p (update_p (set_bucket z b (before @ after))) (\<lambda>_.
                bind_p (arena_p (rca_free (rg_base r') z (rg_size r'))) (\<lambda>_.
                ret_p True))
              else
                bind_p (update_p (set_bucket z b (before @ r' # after))) (\<lambda>_.
                ret_p True))"

fun free_buckets :: "addr_t \<Rightarrow> int \<Rightarrow> nat list \<Rightarrow> (region_map, unit) prog" where
  "free_buckets p z [] = throw_p API_exception"
| "free_buckets p z (b # bs) =
     bind_p (free_in_bucket p z b) (\<lambda>done. if done then ret_p () else free_buckets p z bs)"

definition rm_free :: "addr_t \<Rightarrow> int \<Rightarrow> size_t \<Rightarrow> (region_map, unit) prog" where
  "rm_free p z object_size =
     bind_p (check_node z) (\<lambda>_.
     bind_p (lift_p (if 0 < object_size then ls_bucket object_size else Inr 0)) (\<lambda>start.
     bind_p (lift_p (throw_if (NUM_BUCKETS \<le> start) Out_of_range)) (\<lambda>_.
     free_buckets p z (if 0 < object_size then [start] else [0..<NUM_BUCKETS]))))"

fun inject_existing :: "addr_t \<Rightarrow> region list \<Rightarrow> (bool \<times> region list) result" where
  "inject_existing p [] = Inr (False, [])"
| "inject_existing p (r # rs) =
     (if in_range p r then
        (case rg_allocate_at p r of (Inl e, r') \<Rightarrow> Inl e | (Inr ok, r') \<Rightarrow> Inr (True, r' # rs))
      else bind_res (inject_existing p rs) (\<lambda>(found, rs'). Inr (found, r # rs')))"

definition rm_inject_allocation :: "bool \<Rightarrow> addr_t \<Rightarrow> size_t \<Rightarrow> int \<Rightarrow> (region_map, unit) prog" where
  "rm_inject_allocation dbg p n z =
     bind_p (assert_p dbg (p \<noteq> 0)) (\<lambda>_.
     bind_p (assert_p dbg (0 < n)) (\<lambda>_.
     bind_p (check_node z) (\<lambda>_.
     bind_p (lift_p (ls_bucket n)) (\<lambda>b.
     bind_p (\<lambda>s. (inject_existing p (rm_buckets s z b), s)) (\<lambda>(found, rs).
     if found then update_p (set_bucket z b rs)
     else
       let region_size = ls_region_size n in
       bind_p (assert_p dbg (0 < region_size)) (\<lambda>_.
       bind_p (lift_p (ls_base p n)) (\<lambda>region_base.
       bind_p (arena_p (rca_inject_allocation dbg region_base region_size z)) (\<lambda>_.
       bind_p (lift_p (if region_size = n then Inr region_size else ls_rounded_up_object_size n)) (\<lambda>osize.
       bind_p (lift_p (region_new region_base region_size osize)) (\<lambda>r.
         case rg_allocate_at p r of
           (Inl e, r') \<Rightarrow> throw_p e
         | (Inr ok, r') \<Rightarrow> update_p (\<lambda>s. set_bucket z b (r' # rm_buckets s z b) s)))))))))))"

section \<open>\<open>Rca_LB\<close>\<close>

definition rca_lb_add_managed_region :: "bool \<Rightarrow> nat \<Rightarrow> addr_t \<Rightarrow> size_t \<Rightarrow> int \<Rightarrow> (region_map, unit) prog" where
  "rca_lb_add_managed_region dbg credits region_base region_length z =
     bind_p (lift_p (throw_if (region_base = 0 \<or> region_length = 0 \<or> z < 0) Invalid_argument)) (\<lambda>_.
     rm_add_arena dbg credits region_base region_length z)"

definition rca_lb_inject_allocation :: "bool \<Rightarrow> addr_t \<Rightarrow> size_t \<Rightarrow> int \<Rightarrow> (region_map, unit) prog" where
  "rca_lb_inject_allocation dbg p n z = rm_inject_allocation dbg p n z"

definition rca_lb_alloc :: "bool \<Rightarrow> size_t \<Rightarrow> int \<Rightarrow> size_t \<Rightarrow> (region_map, addr_t) prog" where
  "rca_lb_alloc dbg n z alignment =
     bind_p (lift_p (throw_if (n = 0 \<or> z < 0) Invalid_argument)) (\<lambda>_.
     bind_p (lift_p (throw_if (n < alignment) Invalid_argument)) (\<lambda>_.
     bind_p (rm_allocate dbg n z alignment) (\<lambda>p.
       if p = 0 then throw_p Bad_alloc else ret_p p)))"

definition rca_lb_free :: "addr_t \<Rightarrow> int \<Rightarrow> size_t \<Rightarrow> (region_map, unit) prog" where
  "rca_lb_free p z n =
     bind_p (lift_p (throw_if (z < 0) Invalid_argument)) (\<lambda>_.
     bind_p (lift_p (throw_if (p = 0) Invalid_argument)) (\<lambda>_.
     rm_free p z n))"

section \<open>Objects of a region\<close>

definition rg_slots :: "region \<Rightarrow> addr_t set" where
  "rg_slots r = (\<lambda>i. rg_base r + i * rg_object_size r) ` {..<rg_size r div rg_object_size r}"

definition rg_live :: "region \<Rightarrow> addr_t set" where
  "rg_live r = rg_slots r - set (rg_free_list r) - set (rg_free_set r)"

definition rg_inv :: "region \<Rightarrow> bool" where
  "rg_inv r \<longleftrightarrow> 0 < rg_object_size r \<and> rg_base r mod rg_object_size r = 0 \<and>
     rg_base r < rg_top r \<and> rg_size r mod rg_object_size r = 0 \<and> rg_size r < W64 \<and>
     distinct (rg_free_list r @ rg_free_set r) \<and> set (rg_free_list r @ rg_free_set r) \<subseteq> rg_slots r \<and>
     rg_use_count r = card (rg_live r)"


lemma rg_slots_finite [simp]: "finite (rg_slots r)"
  by (simp add: rg_slots_def)

lemma rg_slot_bounds:
  assumes "p \<in> rg_slots r" "0 < rg_object_size r" "rg_base r \<le> rg_top r"
  shows "rg_base r \<le> p" "p + rg_object_size r \<le> rg_top r"
    "rg_base r mod rg_object_size r = 0 \<Longrightarrow> p mod rg_object_size r = 0"
proof -
  from assms(1) obtain i where i: "i < rg_size r div rg_object_size r" "p = rg_base r + i * rg_object_size r"
    by (auto simp: rg_slots_def)
  have "Suc i * rg_object_size r \<le> rg_size r div rg_object_size r * rg_object_size r"
    using i(1) by (intro mult_le_mono1) simp
  also have "\<dots> \<le> rg_size r" by (simp add: div_times_less_eq_dividend)
  finally show "p + rg_object_size r \<le> rg_top r" using i(2) assms(3) by (simp add: rg_size_def)
  show "rg_base r \<le> p" using i(2) by simp
  show "p mod rg_object_size r = 0" if "rg_base r mod rg_object_size r = 0" using that i(2) by simp
qed

lemma rg_slots_disjoint:
  assumes "p \<in> rg_slots r" "q \<in> rg_slots r" "p \<noteq> q"
  shows "{p ..< p + rg_object_size r} \<inter> {q ..< q + rg_object_size r} = {}"
proof -
  from assms obtain i j where ij: "p = rg_base r + i * rg_object_size r" "q = rg_base r + j * rg_object_size r" "i \<noteq> j"
    by (auto simp: rg_slots_def)
  have "Suc i * rg_object_size r \<le> j * rg_object_size r \<or> Suc j * rg_object_size r \<le> i * rg_object_size r"
    using ij(3) by (metis Suc_leI linorder_neqE_nat mult_le_mono1)
  with ij show ?thesis by auto
qed

lemma rg_live_slots: "rg_live r \<subseteq> rg_slots r" "finite (rg_live r)"
  by (auto simp: rg_live_def intro: finite_subset)

lemma rg_live_card_less:
  assumes "rg_inv r"
  shows "card (rg_live r) < W64"
proof -
  have "card (rg_live r) \<le> card (rg_slots r)" using rg_live_slots by (intro card_mono) auto
  also have "\<dots> \<le> rg_size r div rg_object_size r"
    unfolding rg_slots_def by (rule le_trans [OF card_image_le]) auto
  also have "\<dots> \<le> rg_size r" by simp
  finally show ?thesis using assms by (simp add: rg_inv_def)
qed

lemma region_new_correct:
  assumes "8 \<le> osize" "osize dvd rsize" "0 < rsize" "rsize < W64" "base mod osize = 0"
  obtains r where "region_new base rsize osize = Inr r" "rg_inv r" "rg_live r = {}" "rg_slots r \<noteq> {}"
    "rg_base r = base" "rg_top r = base + rsize" "rg_object_size r = osize"
proof -
  define r where "r = \<lparr>rg_object_size = osize, rg_base = base, rg_top = base + rsize, rg_free_list = [],
                rg_free_set = map (\<lambda>i. base + i * osize) [0..<rsize div osize], rg_use_count = 0\<rparr>"
  have "region_new base rsize osize = Inr r"
    using assms by (auto simp: region_new_def r_def)
  moreover have slots: "rg_slots r = set (rg_free_set r)"
    by (auto simp: r_def rg_slots_def rg_size_def)
  moreover have "rg_live r = {}" by (simp add: rg_live_def slots)
  moreover have "distinct (rg_free_set r)"
    using assms(1) by (auto simp: r_def distinct_map inj_on_def)
  moreover have "rg_slots r \<noteq> {}"
  proof -
    have "0 < rsize div osize" using assms(1-3) by (metis dvd_div_eq_0_iff gr0I less_irrefl)
    then show ?thesis by (auto simp: r_def rg_slots_def rg_size_def lessThan_empty_iff)
  qed
  ultimately show ?thesis
    using assms by (intro that [of r]) (auto simp: rg_inv_def, auto simp: r_def rg_size_def)
qed

lemma fold_push_front: "fold (\<lambda>p l. p # l) xs l = rev xs @ l"
  by (induction xs arbitrary: l) auto

lemma migrate_inv:
  assumes "rg_inv r"
  shows "rg_inv (migrate r)" "rg_live (migrate r) = rg_live r" "rg_slots (migrate r) = rg_slots r"
    "rg_free_set (migrate r) = []" "rg_base (migrate r) = rg_base r" "rg_top (migrate r) = rg_top r"
    "rg_object_size (migrate r) = rg_object_size r"
proof -
  have m: "rg_free_list (migrate r) = rev (rg_free_set r) @ rg_free_list r" "rg_free_set (migrate r) = []"
    "rg_base (migrate r) = rg_base r" "rg_top (migrate r) = rg_top r" "rg_object_size (migrate r) = rg_object_size r"
    "rg_use_count (migrate r) = rg_use_count r"
    by (simp_all add: migrate_def fold_push_front)
  then show live: "rg_slots (migrate r) = rg_slots r" "rg_live (migrate r) = rg_live r"
    by (auto simp: rg_slots_def rg_size_def rg_live_def)
  show "rg_inv (migrate r)" using assms m live by (auto simp: rg_inv_def rg_size_def)
qed (simp_all add: migrate_def)

lemma rg_allocate_correct:
  assumes "rg_inv r"
  shows "(\<exists>r'. rg_allocate dbg r = (Inr None, r') \<and> rg_inv r' \<and> rg_live r' = rg_live r \<and> rg_live r = rg_slots r \<and>
       rg_base r' = rg_base r \<and> rg_top r' = rg_top r \<and> rg_object_size r' = rg_object_size r) \<or>
    (\<exists>p r'. rg_allocate dbg r = (Inr (Some p), r') \<and> rg_inv r' \<and> p \<in> rg_slots r \<and> p \<notin> rg_live r \<and>
       rg_live r' = insert p (rg_live r) \<and>
       rg_base r' = rg_base r \<and> rg_top r' = rg_top r \<and> rg_object_size r' = rg_object_size r)"
proof -
  define q where "q = migrate r"
  note M = migrate_inv [OF assms, folded q_def]
  show ?thesis
  proof (cases "rg_free_list q")
    case Nil
    then have "rg_live q = rg_slots q" using M(4) by (simp add: rg_live_def)
    moreover have "rg_allocate dbg r = (Inr None, q)" using Nil by (simp add: rg_allocate_def q_def)
    ultimately show ?thesis using M by auto
  next
    case (Cons p ps)
    define r' where "r' = mark_used (q\<lparr>rg_free_list := ps\<rparr>)"
    have p: "p \<in> rg_slots r" "p \<notin> rg_live r" "distinct (p # ps)" "set ps \<subseteq> rg_slots r"
      using M(1-3) Cons by (auto simp: rg_inv_def rg_live_def)
    have slots: "rg_slots r' = rg_slots r" "rg_base r' = rg_base r" "rg_top r' = rg_top r"
      "rg_object_size r' = rg_object_size r" "rg_free_list r' = ps" "rg_free_set r' = []"
      using M by (auto simp: r'_def mark_used_def rg_slots_def rg_size_def)
    have live: "rg_live r' = insert p (rg_live r)"
      using p M(2-4) Cons slots by (auto simp: rg_live_def)
    have cnt: "add64 (rg_use_count q) 1 = card (rg_live r')"
    proof -
      have "card (rg_live r') = card (rg_live r) + 1"
        using p(2) live rg_live_slots(2) by simp
      moreover have "rg_use_count q = card (rg_live r)" using M(1,2) by (simp add: rg_inv_def)
      moreover have "card (rg_live r') < W64"
      proof -
        have "card (rg_live r') \<le> card (rg_slots r)" using live p(1) rg_live_slots(1) by (intro card_mono) auto
        also have "\<dots> \<le> rg_size r div rg_object_size r"
          unfolding rg_slots_def by (rule le_trans [OF card_image_le]) auto
        also have "\<dots> \<le> rg_size r" by simp
        finally show ?thesis using assms by (simp add: rg_inv_def)
      qed
      ultimately show ?thesis by (simp add: u64_simps)
    qed
    have "rg_inv r'"
      using M(1) slots p cnt by (auto simp: rg_inv_def rg_size_def r'_def mark_used_def)
    moreover have "rg_allocate dbg r = (Inr (Some p), r')"
    proof -
      have "p mod rg_object_size r = 0" "0 < rg_object_size r"
        using rg_slot_bounds(3) [OF p(1)] assms by (auto simp: rg_inv_def)
      then have "assert_aligned dbg p (rg_object_size r') = Inr ()"
        using slots(4) by (intro assert_aligned_ok) auto
      then show ?thesis using Cons by (simp add: rg_allocate_def q_def [symmetric] r'_def [symmetric])
    qed
    ultimately show ?thesis using p live slots by auto
  qed
qed

lemma rg_free_correct:
  assumes "rg_inv r" "p \<in> rg_live r"
  shows "rg_inv (snd (rg_free p r))" "rg_live (snd (rg_free p r)) = rg_live r - {p}"
    "rg_base (snd (rg_free p r)) = rg_base r" "rg_top (snd (rg_free p r)) = rg_top r"
    "rg_object_size (snd (rg_free p r)) = rg_object_size r"
    "rg_use_count (snd (rg_free p r)) = 0 \<longleftrightarrow> rg_live r = {p}"
proof -
  define r' where "r' = snd (rg_free p r)"
  have r': "r' = mark_unused p r" by (simp add: r'_def rg_free_def)
  have slots: "rg_slots r' = rg_slots r" "rg_base r' = rg_base r" "rg_top r' = rg_top r"
    "rg_object_size r' = rg_object_size r" "rg_free_list r' = p # rg_free_list r" "rg_free_set r' = rg_free_set r"
    by (auto simp: r' mark_unused_def rg_slots_def rg_size_def)
  have live: "rg_live r' = rg_live r - {p}" by (auto simp: rg_live_def slots)
  have c: "card (rg_live r) = Suc (card (rg_live r'))"
    using card_Suc_Diff1 [OF rg_live_slots(2) assms(2)] by (simp add: live)
  have "rg_use_count r = card (rg_live r)" using assms(1) by (simp add: rg_inv_def)
  then have "sub64 (rg_use_count r) 1 = card (rg_live r')"
    using c rg_live_card_less [OF assms(1)] by (simp add: u64_simps)
  then have cnt: "rg_use_count r' = card (rg_live r')" by (simp add: r' mark_unused_def)
  have p: "p \<in> rg_slots r" "p \<notin> set (rg_free_list r)" "p \<notin> set (rg_free_set r)"
    using assms(2) by (auto simp: rg_live_def)
  have "rg_inv r'"
    unfolding rg_inv_def cnt slots rg_size_def
    using assms(1) p by (simp add: rg_inv_def rg_size_def)
  moreover have "rg_use_count r' = 0 \<longleftrightarrow> rg_live r = {p}"
  proof -
    have "rg_use_count r' = 0 \<longleftrightarrow> rg_live r' = {}" using rg_live_slots(2) [of r'] by (simp only: cnt card_0_eq)
    also have "\<dots> \<longleftrightarrow> rg_live r = {p}" unfolding live using assms(2) by blast
    finally show ?thesis .
  qed
  ultimately show "rg_inv (snd (rg_free p r))" "rg_live (snd (rg_free p r)) = rg_live r - {p}"
    "rg_base (snd (rg_free p r)) = rg_base r" "rg_top (snd (rg_free p r)) = rg_top r"
    "rg_object_size (snd (rg_free p r)) = rg_object_size r"
    "rg_use_count (snd (rg_free p r)) = 0 \<longleftrightarrow> rg_live r = {p}"
    using live slots by (simp_all add: r'_def [symmetric])
qed


section \<open>Objects of the region map\<close>

definition objs :: "region list \<Rightarrow> (addr_t \<times> size_t) set" where
  "objs rs = {(p, n). \<exists>r \<in> set rs. p \<in> rg_live r \<and> n = rg_object_size r}"

definition rm_live :: "int \<Rightarrow> region_map \<Rightarrow> (addr_t \<times> size_t) set" where
  "rm_live z s = (\<Union>b. objs (rm_buckets s z b))"

definition shape :: "region \<Rightarrow> addr_t \<times> addr_t \<times> size_t" where
  "shape r = (rg_base r, rg_top r, rg_object_size r)"

definition bucket_inv :: "(addr_t \<times> size_t) set \<Rightarrow> nat \<Rightarrow> region list \<Rightarrow> bool" where
  "bucket_inv L b rs \<longleftrightarrow> distinct (map rg_base rs) \<and>
     (\<forall>r \<in> set rs. rg_inv r \<and> (rg_base r, rg_size r) \<in> L \<and> (b < LARGE_BUCKET \<longrightarrow> rg_object_size r = 2 ^ b))"

definition node_inv :: "(addr_t \<times> size_t) set \<Rightarrow> (nat \<Rightarrow> region list) \<Rightarrow> bool" where
  "node_inv L bk \<longleftrightarrow> (\<forall>b. bucket_inv L b (bk b)) \<and>
     (\<forall>b b'. b \<noteq> b' \<longrightarrow> rg_base ` set (bk b) \<inter> rg_base ` set (bk b') = {})"

definition rm_inv :: "region_map \<Rightarrow> bool" where
  "rm_inv s \<longleftrightarrow> rca_inv (rm_arena s) \<and> (\<forall>z. node_inv (rca_live z (rm_arena s)) (rm_buckets s z))"

lemma shape_eqD: "shape r = shape r' \<Longrightarrow> rg_base r = rg_base r' \<and> rg_size r = rg_size r' \<and> rg_object_size r = rg_object_size r'"
  by (simp add: shape_def rg_size_def)

lemma same_shapes:
  assumes "map shape rs' = map shape rs"
  shows "map rg_base rs' = map rg_base rs" "r' \<in> set rs' \<Longrightarrow> \<exists>r \<in> set rs. shape r = shape r'"
proof -
  have "map (fst \<circ> shape) rs' = map (fst \<circ> shape) rs" using assms by (metis map_map)
  moreover have "fst \<circ> shape = rg_base" by (auto simp: shape_def)
  ultimately show "map rg_base rs' = map rg_base rs" by simp
  assume "r' \<in> set rs'"
  then have "shape r' \<in> set (map shape rs')" by simp
  then show "\<exists>r \<in> set rs. shape r = shape r'" unfolding assms by auto
qed

lemma bucket_inv_shapes:
  assumes "bucket_inv L b rs" "map shape rs' = map shape rs" "\<forall>r \<in> set rs'. rg_inv r"
  shows "bucket_inv L b rs'"
  unfolding bucket_inv_def
proof (intro conjI ballI)
  show "distinct (map rg_base rs')" using assms(1) same_shapes(1) [OF assms(2)] by (simp add: bucket_inv_def)
  fix r' assume r': "r' \<in> set rs'"
  then obtain r where "r \<in> set rs" "shape r = shape r'" using same_shapes(2) [OF assms(2)] by blast
  with assms(1,3) r' show "rg_inv r'" "(rg_base r', rg_size r') \<in> L" "b < LARGE_BUCKET \<longrightarrow> rg_object_size r' = 2 ^ b"
    using shape_eqD [of r r'] by (auto simp: bucket_inv_def)
qed

lemma node_inv_update:
  assumes "node_inv L bk" "bucket_inv L b rs'" "rg_base ` set rs' \<subseteq> rg_base ` set (bk b)"
  shows "node_inv L (bk(b := rs'))"
  unfolding node_inv_def
proof (intro conjI allI impI)
  fix c show "bucket_inv L c ((bk(b := rs')) c)" using assms(1,2) by (simp add: node_inv_def)
next
  fix c c' :: nat assume "c \<noteq> c'"
  with assms(1) have "rg_base ` set (bk c) \<inter> rg_base ` set (bk c') = {}" by (simp add: node_inv_def)
  moreover have sub: "rg_base ` set ((bk(b := rs')) d) \<subseteq> rg_base ` set (bk d)" for d
    using assms(3) by (cases "d = b") simp_all
  ultimately show "rg_base ` set ((bk(b := rs')) c) \<inter> rg_base ` set ((bk(b := rs')) c') = {}"
    using Int_mono [OF sub [of c] sub [of c']] by (simp only: subset_empty)
qed

text \<open>Regions of a node do not overlap, because their ranges are live in the arena.\<close>

lemma rca_live_disjoint: "rca_inv a \<Longrightarrow> ranges_disjoint (rca_live z a)"
proof (cases "0 \<le> z \<and> z < int (length a) \<and> a ! nat z \<noteq> None")
  case True
  assume inv: "rca_inv a"
  from True obtain x where x: "a ! nat z = Some x" by blast
  have "nat z < length a" using True by linarith
  with True x rca_inv_nth [OF inv this x] ra_live_disjoint [of x] show ?thesis by (simp add: rca_live_def)
qed (auto simp: rca_live_def ranges_disjoint_def)

lemma regions_disjoint:
  assumes "rm_inv s" "r \<in> set (rm_buckets s z b)" "r' \<in> set (rm_buckets s z b')" "rg_base r \<noteq> rg_base r'"
  shows "{rg_base r ..< rg_top r} \<inter> {rg_base r' ..< rg_top r'} = {}"
proof -
  have "(rg_base r, rg_size r) \<in> rca_live z (rm_arena s)" "(rg_base r', rg_size r') \<in> rca_live z (rm_arena s)"
    "rg_inv r" "rg_inv r'"
    using assms(1-3) by (auto simp: rm_inv_def node_inv_def bucket_inv_def)
  moreover have "ranges_disjoint (rca_live z (rm_arena s))"
    using assms(1) by (intro rca_live_disjoint) (simp add: rm_inv_def)
  ultimately have "{rg_base r ..< rg_base r + rg_size r} \<inter> {rg_base r' ..< rg_base r' + rg_size r'} = {}"
    using assms(4) unfolding ranges_disjoint_def by fastforce
  moreover have "rg_base r + rg_size r = rg_top r" "rg_base r' + rg_size r' = rg_top r'"
    using \<open>rg_inv r\<close> \<open>rg_inv r'\<close> by (simp_all add: rg_inv_def rg_size_def)
  ultimately show ?thesis by (simp only:)
qed

lemma bases_identify:
  assumes "rm_inv s" "r \<in> set (rm_buckets s z b)" "r' \<in> set (rm_buckets s z b')" "rg_base r = rg_base r'"
  shows "b = b' \<and> r = r'"
proof -
  have bb: "b = b'" using assms by (fastforce simp: rm_inv_def node_inv_def)
  have "distinct (map rg_base (rm_buckets s z b))"
    using assms(1) by (simp add: rm_inv_def node_inv_def bucket_inv_def)
  then have "inj_on rg_base (set (rm_buckets s z b))" by (simp add: distinct_map)
  with bb assms(2-4) show ?thesis by (auto dest: inj_onD)
qed

lemma live_in_range:
  assumes "rg_inv r" "p \<in> rg_live r"
  shows "in_range p r" "{p ..< p + rg_object_size r} \<subseteq> {rg_base r ..< rg_top r}" "0 < rg_object_size r"
proof -
  have "p \<in> rg_slots r" "0 < rg_object_size r" "rg_base r \<le> rg_top r"
    using assms rg_live_slots(1) by (auto simp: rg_inv_def)
  note B = rg_slot_bounds [OF this]
  then show "in_range p r" "{p ..< p + rg_object_size r} \<subseteq> {rg_base r ..< rg_top r}" "0 < rg_object_size r"
    using \<open>0 < rg_object_size r\<close> by (auto simp: in_range_def)
qed

lemma rm_owner_unique:
  assumes "rm_inv s" "r \<in> set (rm_buckets s z b)" "in_range p r" "r' \<in> set (rm_buckets s z b')" "in_range p r'"
  shows "b = b' \<and> r = r'"
proof (cases "rg_base r = rg_base r'")
  case True
  then show ?thesis using bases_identify [OF assms(1,2,4)] by blast
next
  case False
  from regions_disjoint [OF assms(1,2,4) this] assms(3,5) show ?thesis by (auto simp: in_range_def)
qed

lemma rm_live_disjoint:
  assumes "rm_inv s"
  shows "ranges_disjoint (rm_live z s)"
proof -
  have "{p ..< p + n} \<inter> {q ..< q + k} = {}"
    if "(p, n) \<in> rm_live z s" "(q, k) \<in> rm_live z s" "(p, n) \<noteq> (q, k)" for p n q k
  proof -
    from that(1,2) obtain b r b' r' where
      r: "r \<in> set (rm_buckets s z b)" "p \<in> rg_live r" "n = rg_object_size r" and
      r': "r' \<in> set (rm_buckets s z b')" "q \<in> rg_live r'" "k = rg_object_size r'"
      by (auto simp: rm_live_def objs_def)
    have inv: "rg_inv r" "rg_inv r'" using assms r(1) r'(1) by (auto simp: rm_inv_def node_inv_def bucket_inv_def)
    show ?thesis
    proof (cases "rg_base r = rg_base r'")
      case True
      with bases_identify [OF assms r(1) r'(1)] have "r = r'" by blast
      moreover from this that(3) r(3) r'(3) have "p \<noteq> q" by auto
      moreover have "p \<in> rg_slots r" "q \<in> rg_slots r'" using r(2) r'(2) rg_live_slots(1) by blast+
      ultimately show ?thesis using rg_slots_disjoint [of p r q] r(3) r'(3) by simp
    next
      case False
      from regions_disjoint [OF assms r(1) r'(1) False] live_in_range(2) [OF inv(1) r(2)]
        live_in_range(2) [OF inv(2) r'(2)] r(3) r'(3) show ?thesis by blast
    qed
  qed
  then show ?thesis unfolding ranges_disjoint_def by blast
qed


section \<open>Allocation from the region map\<close>

lemma try_regions_correct:
  assumes "\<forall>r \<in> set rs. rg_inv r"
  obtains q rs' where "try_regions dbg rs = (Inr q, rs')" "map shape rs' = map shape rs" "\<forall>r \<in> set rs'. rg_inv r"
    "case q of None \<Rightarrow> objs rs' = objs rs
     | Some p \<Rightarrow> \<exists>r \<in> set rs. p \<in> rg_slots r \<and> p \<notin> rg_live r \<and> objs rs' = insert (p, rg_object_size r) (objs rs)"
proof -
  have "\<exists>q rs'. try_regions dbg rs = (Inr q, rs') \<and> map shape rs' = map shape rs \<and> (\<forall>r \<in> set rs'. rg_inv r) \<and>
    (case q of None \<Rightarrow> objs rs' = objs rs
     | Some p \<Rightarrow> \<exists>r \<in> set rs. p \<in> rg_slots r \<and> p \<notin> rg_live r \<and> objs rs' = insert (p, rg_object_size r) (objs rs))"
    using assms
  proof (induction rs)
    case (Cons r rs)
    have objs: "objs (x # xs) = {(p, n). p \<in> rg_live x \<and> n = rg_object_size x} \<union> objs xs" for x xs
      by (auto simp: objs_def)
    have inv: "rg_inv r" "\<forall>r \<in> set rs. rg_inv r" using Cons.prems by simp_all
    from rg_allocate_correct [OF inv(1), of dbg] show ?case
    proof (elim disjE exE conjE)
      fix r'
      assume r': "rg_allocate dbg r = (Inr None, r')" "rg_inv r'" "rg_live r' = rg_live r"
        "rg_base r' = rg_base r" "rg_top r' = rg_top r" "rg_object_size r' = rg_object_size r"
      from Cons.IH [OF inv(2)] obtain q rs' where IH: "try_regions dbg rs = (Inr q, rs')"
        "map shape rs' = map shape rs" "\<forall>r \<in> set rs'. rg_inv r"
        "case q of None \<Rightarrow> objs rs' = objs rs
         | Some p \<Rightarrow> \<exists>r \<in> set rs. p \<in> rg_slots r \<and> p \<notin> rg_live r \<and> objs rs' = insert (p, rg_object_size r) (objs rs)"
        by blast
      have "try_regions dbg (r # rs) = (Inr q, r' # rs')" using r'(1) IH(1) by simp
      moreover have "map shape (r' # rs') = map shape (r # rs)" using r' IH(2) by (simp add: shape_def)
      moreover have "\<forall>r \<in> set (r' # rs'). rg_inv r" using r'(2) IH(3) by simp
      moreover have "case q of None \<Rightarrow> objs (r' # rs') = objs (r # rs)
         | Some p \<Rightarrow> \<exists>x \<in> set (r # rs). p \<in> rg_slots x \<and> p \<notin> rg_live x \<and>
             objs (r' # rs') = insert (p, rg_object_size x) (objs (r # rs))"
        using IH(4) r'(3,6) by (cases q) (auto simp: objs)
      ultimately show ?case by blast
    next
      fix p r'
      assume r': "rg_allocate dbg r = (Inr (Some p), r')" "rg_inv r'" "p \<in> rg_slots r" "p \<notin> rg_live r"
        "rg_live r' = insert p (rg_live r)"
        "rg_base r' = rg_base r" "rg_top r' = rg_top r" "rg_object_size r' = rg_object_size r"
      have "objs (r' # rs) = insert (p, rg_object_size r) (objs (r # rs))" using r'(5,8) by (auto simp: objs)
      with r' inv(2) show ?case
        by (intro exI [of _ "Some p"] exI [of _ "r' # rs"]) (auto simp: shape_def)
    qed
  qed simp
  then show ?thesis using that by blast
qed

lemma rm_live_set_bucket:
  "rm_live z (set_bucket z b rs s) = objs rs \<union> (\<Union>c \<in> - {b}. objs (rm_buckets s z c))"
  "rm_live z s = objs (rm_buckets s z b) \<union> (\<Union>c \<in> - {b}. objs (rm_buckets s z c))"
  "x \<noteq> z \<Longrightarrow> rm_live x (set_bucket z b rs s) = rm_live x s"
  by (auto simp: rm_live_def set_bucket_def split: if_splits)

lemma rm_inv_set_bucket:
  assumes "rm_inv s" "bucket_inv (rca_live z (rm_arena s)) b rs" "rg_base ` set rs \<subseteq> rg_base ` set (rm_buckets s z b)"
  shows "rm_inv (set_bucket z b rs s)"
  using assms node_inv_update [of "rca_live z (rm_arena s)" "rm_buckets s z" b rs]
  by (auto simp: rm_inv_def set_bucket_def)

lemma rm_bucket_inv: "rm_inv s \<Longrightarrow> bucket_inv (rca_live z (rm_arena s)) b (rm_buckets s z b)"
  by (simp add: rm_inv_def node_inv_def)

text \<open>The object is in a region of the bucket in which \<open>free\<close> will look for it.\<close>

definition owned :: "size_t \<Rightarrow> int \<Rightarrow> addr_t \<times> size_t \<Rightarrow> region_map \<Rightarrow> bool" where
  "owned n z x s \<longleftrightarrow> (\<exists>b < NUM_BUCKETS. ls_bucket n = Inr b \<and> x \<in> objs (rm_buckets s z b))"

lemma existing_region_correct:
  assumes inv: "rm_inv s" and n: "0 < n" "n \<le> L0_MAX_SMALL_OBJECT_SIZE"
  obtains q s' where "allocate_from_existing_region dbg n z s = (Inr q, s')" "rm_inv s'" "rm_arena s' = rm_arena s"
    "\<forall>x. x \<noteq> z \<longrightarrow> rm_live x s' = rm_live x s"
    "case q of None \<Rightarrow> rm_live z s' = rm_live z s
     | Some p \<Rightarrow> \<exists>k. n \<le> k \<and> rm_live z s' = insert (p, k) (rm_live z s) \<and> (p, k) \<notin> rm_live z s \<and> p mod k = 0 \<and>
         (\<exists>b. k = 2 ^ b) \<and> owned n z (p, k) s'"
proof -
  obtain b where b: "ls_bucket n = Inr b" "n \<le> 2 ^ b" "b \<le> 12" by (rule ls_small [OF n])
  note B = rm_bucket_inv [OF inv, of z b]
  have rinv: "\<forall>r \<in> set (rm_buckets s z b). rg_inv r" using B by (simp add: bucket_inv_def)
  obtain q rs where t: "try_regions dbg (rm_buckets s z b) = (Inr q, rs)" "map shape rs = map shape (rm_buckets s z b)"
      "\<forall>r \<in> set rs. rg_inv r"
      "case q of None \<Rightarrow> objs rs = objs (rm_buckets s z b)
       | Some p \<Rightarrow> \<exists>r \<in> set (rm_buckets s z b). p \<in> rg_slots r \<and> p \<notin> rg_live r \<and>
           objs rs = insert (p, rg_object_size r) (objs (rm_buckets s z b))"
    by (rule try_regions_correct [OF rinv])
  have "rg_base ` set rs = rg_base ` set (rm_buckets s z b)"
    using same_shapes(1) [OF t(2)] by (metis list.set_map)
  then have inv': "rm_inv (set_bucket z b rs s)"
    by (intro rm_inv_set_bucket [OF inv bucket_inv_shapes [OF B t(2,3)]]) simp
  have run: "allocate_from_existing_region dbg n z s = (Inr q, set_bucket z b rs s)"
    using b t(1) by (simp add: allocate_from_existing_region_def)
  show ?thesis
  proof (cases q)
    case None
    then have "rm_live z (set_bucket z b rs s) = rm_live z s"
      using t(4) rm_live_set_bucket(1) [of z b rs s] rm_live_set_bucket(2) [of z s b] by simp
    with None run inv' rm_live_set_bucket(3) show ?thesis
      by (intro that [of None "set_bucket z b rs s"]) (auto simp: set_bucket_def)
  next
    case (Some p)
    with t(4) obtain r where r: "r \<in> set (rm_buckets s z b)" "p \<in> rg_slots r" "p \<notin> rg_live r"
        "objs rs = insert (p, rg_object_size r) (objs (rm_buckets s z b))" by auto
    have rr: "rg_inv r" "rg_object_size r = 2 ^ b" using B r(1) b(3) by (auto simp: bucket_inv_def)
    have live: "rm_live z (set_bucket z b rs s) = insert (p, 2 ^ b) (rm_live z s)"
      using r(4) rr(2) rm_live_set_bucket(1) [of z b rs s] rm_live_set_bucket(2) [of z s b] by simp
    have S: "0 < rg_object_size r" "rg_base r \<le> rg_top r" "rg_base r mod rg_object_size r = 0"
      using rr(1) by (auto simp: rg_inv_def)
    note bounds = rg_slot_bounds [OF r(2) S(1,2)]
    have pr: "in_range p r" using bounds S(1) by (auto simp: in_range_def)
    have "(p, 2 ^ b) \<notin> rm_live z s"
    proof
      assume "(p, 2 ^ b) \<in> rm_live z s"
      then obtain c r' where r': "r' \<in> set (rm_buckets s z c)" "p \<in> rg_live r'" by (auto simp: rm_live_def objs_def)
      then have "rg_inv r'" using rm_bucket_inv [OF inv, of z c] by (simp add: bucket_inv_def)
      from rm_owner_unique [OF inv r(1) pr r'(1) live_in_range(1) [OF this r'(2)]] r(3) r'(2) show False by simp
    qed
    moreover have "p mod 2 ^ b = 0" using bounds(3) S(3) rr(2) by simp
    ultimately have ex: "\<exists>k. n \<le> k \<and> rm_live z (set_bucket z b rs s) = insert (p, k) (rm_live z s) \<and>
        (p, k) \<notin> rm_live z s \<and> p mod k = 0 \<and> (\<exists>b. k = 2 ^ b) \<and> owned n z (p, k) (set_bucket z b rs s)"
      using live b r(4) rr(2)
      by - (rule exI [of _ "2 ^ b"], intro conjI, simp_all add: owned_def set_bucket_def)
    show ?thesis
    proof (rule that [of "Some p" "set_bucket z b rs s"])
      show "allocate_from_existing_region dbg n z s = (Inr (Some p), set_bucket z b rs s)" using run Some by simp
      show "rm_arena (set_bucket z b rs s) = rm_arena s" by (simp add: set_bucket_def)
      show "\<forall>x. x \<noteq> z \<longrightarrow> rm_live x (set_bucket z b rs s) = rm_live x s" by (simp add: rm_live_set_bucket(3))
    qed (use inv' ex in \<open>simp_all only: option.case\<close>)
  qed
qed


lemma rm_inv_push:
  assumes inv: "rm_inv s" and arena: "rca_inv a" "rca_live z a = {(rg_base r, rg_size r)} \<union> rca_live z (rm_arena s)"
      "\<forall>x. x \<noteq> z \<longrightarrow> rca_live x a = rca_live x (rm_arena s)"
      "\<forall>(c, k) \<in> rca_live z (rm_arena s). {rg_base r ..< rg_base r + rg_size r} \<inter> {c ..< c + k} = {}"
    and r: "rg_inv r" "b < LARGE_BUCKET \<longrightarrow> rg_object_size r = 2 ^ b"
  shows "rm_inv (set_bucket z b (r # rm_buckets s z b) (s\<lparr>rm_arena := a\<rparr>))"
proof -
  let ?L = "rca_live z a"
  have new: "rg_base r \<noteq> rg_base r'" if "r' \<in> set (rm_buckets s z c)" for r' c
  proof
    assume eq: "rg_base r = rg_base r'"
    have "(rg_base r', rg_size r') \<in> rca_live z (rm_arena s)" "rg_inv r'"
      using rm_bucket_inv [OF inv, of z c] that by (auto simp: bucket_inv_def)
    with arena(4) have "{rg_base r ..< rg_base r + rg_size r} \<inter> {rg_base r' ..< rg_base r' + rg_size r'} = {}" by blast
    with eq r(1) \<open>rg_inv r'\<close> show False by (simp add: rg_inv_def rg_size_def)
  qed
  have old: "bucket_inv ?L c (rm_buckets s z c)" for c
    using rm_bucket_inv [OF inv, of z c] arena(2) by (auto simp: bucket_inv_def)
  have B: "bucket_inv ?L b (r # rm_buckets s z b)"
    using old [of b] new [of _ b] r arena(2) by (auto simp: bucket_inv_def)
  have "node_inv ?L ((rm_buckets s z)(b := r # rm_buckets s z b))"
    unfolding node_inv_def
  proof (intro conjI allI impI)
    fix c show "bucket_inv ?L c (((rm_buckets s z)(b := r # rm_buckets s z b)) c)" using old B by simp
  next
    fix c c' :: nat assume "c \<noteq> c'"
    moreover have "rg_base ` set (rm_buckets s z c) \<inter> rg_base ` set (rm_buckets s z c') = {}"
      using inv \<open>c \<noteq> c'\<close> by (simp add: rm_inv_def node_inv_def)
    moreover have "rg_base r \<notin> rg_base ` set (rm_buckets s z d)" for d using new [of _ d] by fast
    ultimately show "rg_base ` set (((rm_buckets s z)(b := r # rm_buckets s z b)) c) \<inter>
        rg_base ` set (((rm_buckets s z)(b := r # rm_buckets s z b)) c') = {}"
      by (cases "c = b"; cases "c' = b") simp_all
  qed
  moreover have "node_inv (rca_live x a) (rm_buckets s x)" if "x \<noteq> z" for x
    using inv arena(3) that by (simp add: rm_inv_def)
  ultimately show ?thesis using arena(1) by (simp add: rm_inv_def set_bucket_def)
qed

lemma rm_live_push:
  assumes "rg_live r = {p}"
  shows "rm_live z (set_bucket z b (r # rm_buckets s z b) (s\<lparr>rm_arena := a\<rparr>)) = insert (p, rg_object_size r) (rm_live z s)"
    "x \<noteq> z \<Longrightarrow> rm_live x (set_bucket z b (r # rm_buckets s z b) (s\<lparr>rm_arena := a\<rparr>)) = rm_live x s"
proof -
  have "objs (r # rm_buckets s z b) = insert (p, rg_object_size r) (objs (rm_buckets s z b))"
    using assms by (auto simp: objs_def)
  then show "rm_live z (set_bucket z b (r # rm_buckets s z b) (s\<lparr>rm_arena := a\<rparr>)) = insert (p, rg_object_size r) (rm_live z s)"
    using rm_live_set_bucket(1) [of z b "r # rm_buckets s z b" "s\<lparr>rm_arena := a\<rparr>"] rm_live_set_bucket(2) [of z s b]
    by simp
qed (simp add: rm_live_set_bucket(3), simp add: rm_live_def)

text \<open>What the mapper answers for a request that a region can hold.\<close>

lemma ls_mapping:
  assumes "4 < n" "2 * n < W64"
  obtains b k where "ls_bucket n = Inr b" "b < NUM_BUCKETS" "ls_rounded_up_object_size n = Inr k" "n \<le> k" "8 \<le> k"
    "k dvd ls_region_size n" "0 < ls_region_size n" "2 * ls_region_size n < W64" "b < LARGE_BUCKET \<longrightarrow> k = 2 ^ b"
    "n \<le> L0_MAX_SMALL_OBJECT_SIZE \<longrightarrow> (\<exists>c. k = 2 ^ c)" "L0_MAX_SMALL_OBJECT_SIZE < n \<longrightarrow> k = n"
proof (cases "n \<le> L0_MAX_SMALL_OBJECT_SIZE")
  case True
  have pos: "0 < n" using assms(1) by simp
  obtain b where b: "ls_bucket n = Inr b" "ls_rounded_up_object_size n = Inr (2 ^ b)" "n \<le> 2 ^ b" "b \<le> 12"
    "b = 0 \<or> 2 ^ (b - 1) < n" "2 ^ b dvd L0_REGION_SIZE"
    by (rule ls_small [OF pos True])
  have "3 \<le> b"
  proof (rule ccontr)
    assume "\<not> 3 \<le> b"
    then have "(2::nat) ^ b \<le> 2 ^ 2" by (intro power_increasing) auto
    with b(3) assms(1) show False by simp
  qed
  then have "(2::nat) ^ 3 \<le> 2 ^ b" by (intro power_increasing) auto
  then show ?thesis
    using True b by (intro that [of b "2 ^ b"]) (auto simp: ls_region_size_def)
next
  case False
  then show ?thesis
    using assms by (intro that [of LARGE_BUCKET n])
      (auto simp: ls_bucket_large ls_region_size_def ls_rounded_up_object_size_def)
qed


definition node_ready :: "int \<Rightarrow> region_map \<Rightarrow> bool" where
  "node_ready z s \<longleftrightarrow> 0 \<le> z \<and> z < MAX_NUMA_ZONES \<and> z < int (length (rm_arena s)) \<and> rm_arena s ! nat z \<noteq> None"

lemma new_region_correct:
  assumes inv: "rm_inv s" and z: "node_ready z s" and n: "4 < n" "2 * n < W64"
  shows "(\<exists>s'. allocate_from_new_region dbg n z s = (Inl General_exception, s') \<and> rm_inv s' \<and> node_ready z s' \<and>
       (\<forall>x. rm_live x s' = rm_live x s)) \<or>
    (\<exists>p k s'. allocate_from_new_region dbg n z s = (Inr (Some p), s') \<and> rm_inv s' \<and> node_ready z s' \<and> n \<le> k \<and>
       rm_live z s' = insert (p, k) (rm_live z s) \<and> (p, k) \<notin> rm_live z s \<and> p mod k = 0 \<and> p \<noteq> 0 \<and>
       (n \<le> L0_MAX_SMALL_OBJECT_SIZE \<longrightarrow> (\<exists>c. k = 2 ^ c)) \<and> (L0_MAX_SMALL_OBJECT_SIZE < n \<longrightarrow> k = n) \<and>
       (\<forall>x. x \<noteq> z \<longrightarrow> rm_live x s' = rm_live x s) \<and> owned n z (p, k) s')"
proof -
  obtain b k where m: "ls_bucket n = Inr b" "b < NUM_BUCKETS" "ls_rounded_up_object_size n = Inr k" "n \<le> k" "8 \<le> k"
    "k dvd ls_region_size n" "0 < ls_region_size n" "2 * ls_region_size n < W64" "b < LARGE_BUCKET \<longrightarrow> k = 2 ^ b"
    "n \<le> L0_MAX_SMALL_OBJECT_SIZE \<longrightarrow> (\<exists>c. k = 2 ^ c)" "L0_MAX_SMALL_OBJECT_SIZE < n \<longrightarrow> k = n"
    by (rule ls_mapping [OF n])
  define R where "R = ls_region_size n"
  have R: "0 < R" "2 * R < W64" "k dvd R" "R < W64" "max R 1 = R" using m by (auto simp: R_def)
  have ainv: "rca_inv (rm_arena s)" using inv by (simp add: rm_inv_def)
  have Z: "0 \<le> z" "z < int (length (rm_arena s))" "rm_arena s ! nat z \<noteq> None" using z by (auto simp: node_ready_def)
  have "R + max R 1 < W64" using R by simp
  from rca_alloc_cases [OF ainv Z R(1) this, of dbg, unfolded R(5)]
  show ?thesis
  proof (elim disjE exE conjE)
    fix a
    assume a: "rca_alloc dbg R z R (rm_arena s) = (Inl General_exception, a)" "rca_inv a" "length a = length (rm_arena s)"
      "\<forall>x. rca_live x a = rca_live x (rm_arena s) \<and> rca_room x a = rca_room x (rm_arena s)"
      "\<forall>i. a ! i = None \<longleftrightarrow> rm_arena s ! i = None"
    have "allocate_from_new_region dbg n z s = (Inl General_exception, s\<lparr>rm_arena := a\<rparr>)"
      using m a(1) R(1) by (simp add: allocate_from_new_region_def Let_def arena_p_def R_def)
    moreover have "rm_inv (s\<lparr>rm_arena := a\<rparr>)" using inv a by (simp add: rm_inv_def)
    moreover have "node_ready z (s\<lparr>rm_arena := a\<rparr>)" using z a by (simp add: node_ready_def)
    moreover have "\<forall>x. rm_live x (s\<lparr>rm_arena := a\<rparr>) = rm_live x s" by (simp add: rm_live_def)
    ultimately show ?thesis by blast
  next
    fix base a
    assume a: "rca_alloc dbg R z R (rm_arena s) = (Inr base, a)" "rca_inv a" "length a = length (rm_arena s)" "base \<noteq> 0"
      "base mod R = 0" "rca_live z a = {(base, R)} \<union> rca_live z (rm_arena s)"
      "\<forall>(c, k) \<in> rca_live z (rm_arena s). {base ..< base + R} \<inter> {c ..< c + k} = {}"
      "\<forall>x. x \<noteq> z \<longrightarrow> rca_live x a = rca_live x (rm_arena s)" "\<forall>i. a ! i = None \<longleftrightarrow> rm_arena s ! i = None"
    have basek: "base mod k = 0" using a(5) R(3) by (meson dvd_trans mod_0_imp_dvd dvd_imp_mod_0)
    obtain r where r: "region_new base R k = Inr r" "rg_inv r" "rg_live r = {}" "rg_slots r \<noteq> {}"
        "rg_base r = base" "rg_top r = base + R" "rg_object_size r = k"
      by (rule region_new_correct [OF m(5) R(3,1,4) basek])
    have "rg_live r \<noteq> rg_slots r" using r(3,4) by simp
    with rg_allocate_correct [OF r(2), of dbg] obtain p r' where r': "rg_allocate dbg r = (Inr (Some p), r')" "rg_inv r'"
        "p \<in> rg_slots r" "rg_live r' = insert p (rg_live r)" "rg_base r' = rg_base r" "rg_top r' = rg_top r"
        "rg_object_size r' = rg_object_size r" by blast
    have live': "rg_live r' = {p}" using r'(4) r(3) by simp
    have sh: "rg_base r' = base" "rg_size r' = R" "rg_object_size r' = k" using r r' by (simp_all add: rg_size_def)
    define s' where "s' = set_bucket z b (r' # rm_buckets s z b) (s\<lparr>rm_arena := a\<rparr>)"
    have "assert_aligned dbg base k = Inr ()" using basek m(5) by (intro assert_aligned_ok) auto
    then have run: "allocate_from_new_region dbg n z s = (Inr (Some p), s')"
      using m a(1,4) R(1) r(1) r'(1)
      by (simp add: allocate_from_new_region_def Let_def arena_p_def R_def [symmetric] s'_def set_bucket_def)
    have inv': "rm_inv s'"
      unfolding s'_def by (rule rm_inv_push [OF inv a(2)]) (use a(6-8) r'(2) m(9) sh in auto)
    have S: "0 < rg_object_size r" "rg_base r \<le> rg_top r" using r(2) by (auto simp: rg_inv_def)
    note bounds = rg_slot_bounds [OF r'(3) S]
    have L: "rm_live z s' = insert (p, k) (rm_live z s)" "\<forall>x. x \<noteq> z \<longrightarrow> rm_live x s' = rm_live x s"
      unfolding s'_def using rm_live_push [OF live'] sh(3) by simp_all
    have fresh: "(p, k) \<notin> rm_live z s"
    proof
      assume "(p, k) \<in> rm_live z s"
      then obtain c q where q: "q \<in> set (rm_buckets s z c)" "p \<in> rg_live q" by (auto simp: rm_live_def objs_def)
      then have qi: "rg_inv q" "(rg_base q, rg_size q) \<in> rca_live z (rm_arena s)"
        using rm_bucket_inv [OF inv, of z c] by (auto simp: bucket_inv_def)
      have "p \<in> {base ..< base + R}" using bounds(1,2) S(1) r(5,6) by auto
      moreover have "p \<in> {rg_base q ..< rg_base q + rg_size q}"
        using live_in_range(1) [OF qi(1) q(2)] by (auto simp: in_range_def rg_size_def)
      ultimately show False using a(7) qi(2) by blast
    qed
    have own: "owned n z (p, k) s'"
      using m(1,2) live' sh(3) by (auto simp: owned_def s'_def set_bucket_def objs_def)
    have al: "p mod k = 0" "p \<noteq> 0" using bounds(1,3) r(5,7) basek a(4) by auto
    have ready: "node_ready z s'" using z a(3,9) by (simp add: node_ready_def s'_def set_bucket_def)
    show ?thesis
      by (rule disjI2, rule exI [of _ p], rule exI [of _ k], rule exI [of _ s'],
        intro conjI run inv' ready m(4) L fresh al m(10,11) own)
  qed
qed


lemma rm_allocate_correct:
  assumes inv: "rm_inv s" and z: "node_ready z s" and n: "4 < n" "2 * n < W64" and al: "al = 0 \<or> (al \<le> n \<and> n mod al = 0)"
  shows "(\<exists>s'. rm_allocate dbg n z al s = (Inl General_exception, s') \<and> rm_inv s' \<and> node_ready z s' \<and>
       (\<forall>x. rm_live x s' = rm_live x s)) \<or>
    (\<exists>p k s'. rm_allocate dbg n z al s = (Inr p, s') \<and> rm_inv s' \<and> node_ready z s' \<and> n \<le> k \<and>
       rm_live z s' = insert (p, k) (rm_live z s) \<and> (p, k) \<notin> rm_live z s \<and> p mod k = 0 \<and>
       (n \<le> L0_MAX_SMALL_OBJECT_SIZE \<longrightarrow> (\<exists>c. k = 2 ^ c)) \<and> (L0_MAX_SMALL_OBJECT_SIZE < n \<longrightarrow> k = n) \<and>
       (\<forall>x. x \<noteq> z \<longrightarrow> rm_live x s' = rm_live x s) \<and> owned n z (p, k) s')"
proof -
  have guards: "throw_if (0 < al \<and> (n < al \<or> n mod al \<noteq> 0)) Invalid_argument = Inr ()"
    "check_node z t = (Inr (), t)" for t
    using al z by (auto simp: throw_if_def check_node_def node_ready_def)
  define fresh where "fresh = (\<lambda>t. bind_p (allocate_from_new_region dbg n z)
      (\<lambda>p. case p of None \<Rightarrow> throw_p Bad_alloc | Some q \<Rightarrow> ret_p q) t)"
  have new: "(\<exists>s'. fresh t = (Inl General_exception, s') \<and> rm_inv s' \<and> node_ready z s' \<and> (\<forall>x. rm_live x s' = rm_live x t)) \<or>
    (\<exists>p k s'. fresh t = (Inr p, s') \<and> rm_inv s' \<and> node_ready z s' \<and> n \<le> k \<and>
       rm_live z s' = insert (p, k) (rm_live z t) \<and> (p, k) \<notin> rm_live z t \<and> p mod k = 0 \<and>
       (n \<le> L0_MAX_SMALL_OBJECT_SIZE \<longrightarrow> (\<exists>c. k = 2 ^ c)) \<and> (L0_MAX_SMALL_OBJECT_SIZE < n \<longrightarrow> k = n) \<and>
       (\<forall>x. x \<noteq> z \<longrightarrow> rm_live x s' = rm_live x t) \<and> owned n z (p, k) s')" if "rm_inv t" "node_ready z t" for t
    using new_region_correct [OF that n, of dbg]
  proof (elim disjE exE conjE)
    fix p k s'
    assume *: "allocate_from_new_region dbg n z t = (Inr (Some p), s')" "rm_inv s'" "node_ready z s'" "n \<le> k"
      "rm_live z s' = insert (p, k) (rm_live z t)" "(p, k) \<notin> rm_live z t" "p mod k = 0"
      "n \<le> L0_MAX_SMALL_OBJECT_SIZE \<longrightarrow> (\<exists>c. k = 2 ^ c)" "L0_MAX_SMALL_OBJECT_SIZE < n \<longrightarrow> k = n"
      "\<forall>x. x \<noteq> z \<longrightarrow> rm_live x s' = rm_live x t" "owned n z (p, k) s'"
    then have "fresh t = (Inr p, s')" by (simp add: fresh_def)
    with * show ?thesis
      by - (rule disjI2, rule exI [of _ p], rule exI [of _ k], rule exI [of _ s'], intro conjI)
  qed (auto simp: fresh_def)
  show ?thesis
  proof (cases "ls_could_exist_in_region n")
    case False
    then have "rm_allocate dbg n z al s = fresh s"
      using guards by (simp add: rm_allocate_def fresh_def)
    then show ?thesis using new [OF inv z] by simp
  next
    case True
    have pos: "0 < n" "n \<le> L0_MAX_SMALL_OBJECT_SIZE" using n(1) True by (auto simp: ls_could_exist_in_region_def)
    obtain q s1 where q: "allocate_from_existing_region dbg n z s = (Inr q, s1)" "rm_inv s1" "rm_arena s1 = rm_arena s"
      "\<forall>x. x \<noteq> z \<longrightarrow> rm_live x s1 = rm_live x s"
      "case q of None \<Rightarrow> rm_live z s1 = rm_live z s
       | Some p \<Rightarrow> \<exists>k. n \<le> k \<and> rm_live z s1 = insert (p, k) (rm_live z s) \<and> (p, k) \<notin> rm_live z s \<and> p mod k = 0 \<and> (\<exists>b. k = 2 ^ b) \<and>
           owned n z (p, k) s1"
      by (rule existing_region_correct [where dbg = dbg and z = z, OF inv pos])
    have z1: "node_ready z s1" using z q(3) by (simp add: node_ready_def)
    show ?thesis
    proof (cases q)
      case None
      then have "rm_allocate dbg n z al s = fresh s1"
        using guards True q(1) by (simp add: rm_allocate_def fresh_def)
      moreover have "rm_live x s1 = rm_live x s" for x using q(4,5) None by (cases "x = z") simp_all
      ultimately show ?thesis using new [OF q(2) z1] by simp
    next
      case (Some p)
      with q(5) obtain k where k: "n \<le> k" "rm_live z s1 = insert (p, k) (rm_live z s)" "(p, k) \<notin> rm_live z s"
        "p mod k = 0" "\<exists>b. k = 2 ^ b" "owned n z (p, k) s1" by auto
      have run: "rm_allocate dbg n z al s = (Inr p, s1)"
        using guards True q(1) Some by (simp add: rm_allocate_def)
      have "L0_MAX_SMALL_OBJECT_SIZE < n \<longrightarrow> k = n" "n \<le> L0_MAX_SMALL_OBJECT_SIZE \<longrightarrow> (\<exists>c. k = 2 ^ c)"
        "\<forall>x. x \<noteq> z \<longrightarrow> rm_live x s1 = rm_live x s" using pos(2) k(5) q(4) by auto
      then show ?thesis
        using run q(2) z1 k(1-4,6)
        by - (rule disjI2, rule exI [of _ p], rule exI [of _ k], rule exI [of _ s1], intro conjI)
    qed
  qed
qed

section \<open>Release to the region map\<close>

lemma find_owner:
  assumes "rm_inv s" "r \<in> set (rm_buckets s z b)" "in_range p r"
  obtains before after where "rm_buckets s z b = before @ r # after"
    "takeWhile (\<lambda>x. \<not> in_range p x) (rm_buckets s z b) = before"
    "dropWhile (\<lambda>x. \<not> in_range p x) (rm_buckets s z b) = r # after"
    "List.find (in_range p) (rm_buckets s z b) = Some r"
proof -
  from assms(2) obtain before after where split: "rm_buckets s z b = before @ r # after" by (meson split_list)
  have "distinct (rm_buckets s z b)"
    using rm_bucket_inv [OF assms(1), of z b] by (auto simp: bucket_inv_def distinct_map)
  then have "r \<notin> set before" using split by simp
  have out: "\<not> in_range p x" if "x \<in> set before" for x
  proof
    assume "in_range p x"
    moreover have "x \<in> set (rm_buckets s z b)" using that split by simp
    ultimately have "r = x" using rm_owner_unique [OF assms(1-3), of x b] by blast
    with that \<open>r \<notin> set before\<close> show False by simp
  qed
  then have "takeWhile (\<lambda>x. \<not> in_range p x) (rm_buckets s z b) = before"
    "dropWhile (\<lambda>x. \<not> in_range p x) (rm_buckets s z b) = r # after"
    using assms(3) split by (simp_all add: takeWhile_append2 dropWhile_append2)
  moreover have "List.find (in_range p) (before @ r # after) = Some r"
    using out assms(3) by (induction before) auto
  ultimately show ?thesis using split that by metis
qed


lemma objs_split: "objs (xs @ r # ys) = objs (xs @ ys) \<union> {(p, n). p \<in> rg_live r \<and> n = rg_object_size r}"
  by (auto simp: objs_def)

lemma objs_without_owner:
  assumes "rm_inv s" "rm_buckets s z b = before @ r # after" "p \<in> rg_live r"
  shows "(p, k) \<notin> objs (before @ after)" "c \<noteq> b \<Longrightarrow> (p, k) \<notin> objs (rm_buckets s z c)"
proof -
  have r: "r \<in> set (rm_buckets s z b)" "rg_inv r"
    using assms(2) rm_bucket_inv [OF assms(1), of z b] by (auto simp: bucket_inv_def)
  note pr = live_in_range(1) [OF r(2) assms(3)]
  have owner: "b = c \<and> r = q" if "q \<in> set (rm_buckets s z c)" "p \<in> rg_live q" for q c
  proof -
    have "rg_inv q" using rm_bucket_inv [OF assms(1), of z c] that(1) by (simp add: bucket_inv_def)
    from rm_owner_unique [OF assms(1) r(1) pr that(1) live_in_range(1) [OF this that(2)]] show ?thesis .
  qed
  have "distinct (rm_buckets s z b)"
    using rm_bucket_inv [OF assms(1), of z b] by (auto simp: bucket_inv_def distinct_map)
  then have "r \<notin> set (before @ after)" using assms(2) by simp
  with owner [of _ b] assms(2) show "(p, k) \<notin> objs (before @ after)" by (auto simp: objs_def)
  show "(p, k) \<notin> objs (rm_buckets s z c)" if "c \<noteq> b" using owner [of _ c] that by (auto simp: objs_def)
qed

lemma free_in_bucket_correct:
  assumes inv: "rm_inv s" and r: "r \<in> set (rm_buckets s z b)" "p \<in> rg_live r"
  obtains s' where "free_in_bucket p z b s = (Inr True, s')" "rm_inv s'"
    "rm_live z s' = rm_live z s - {(p, rg_object_size r)}" "\<forall>x. x \<noteq> z \<longrightarrow> rm_live x s' = rm_live x s"
proof -
  note B = rm_bucket_inv [OF inv, of z b]
  have ri: "rg_inv r" "(rg_base r, rg_size r) \<in> rca_live z (rm_arena s)" using B r(1) by (auto simp: bucket_inv_def)
  obtain before after where f: "rm_buckets s z b = before @ r # after"
    "takeWhile (\<lambda>x. \<not> in_range p x) (rm_buckets s z b) = before"
    "dropWhile (\<lambda>x. \<not> in_range p x) (rm_buckets s z b) = r # after"
    "List.find (in_range p) (rm_buckets s z b) = Some r"
    by (rule find_owner [OF inv r(1) live_in_range(1) [OF ri(1) r(2)]])
  define r' where "r' = snd (rg_free p r)"
  note F = rg_free_correct [OF ri(1) r(2), folded r'_def]
  note W = objs_without_owner [OF inv f(1) r(2)]
  let ?rest = "\<Union>c \<in> - {b}. objs (rm_buckets s z c)"
  have live: "rm_live z s = objs (before @ after) \<union> {(q, n). q \<in> rg_live r \<and> n = rg_object_size r} \<union> ?rest"
    using rm_live_set_bucket(2) [of z s b] by (simp add: f(1) objs_split)
  have minus: "rm_live z s - {(p, rg_object_size r)} =
      objs (before @ after) \<union> {(q, n). q \<in> rg_live r - {p} \<and> n = rg_object_size r} \<union> ?rest"
  proof -
    have "(p, rg_object_size r) \<notin> ?rest" using W(2) by fast
    with W(1) [of "rg_object_size r"] show ?thesis unfolding live by auto
  qed
  show ?thesis
  proof (cases "rg_use_count r' = 0")
    case False
    let ?s = "set_bucket z b (before @ r' # after) s"
    have "map shape (before @ r' # after) = map shape (rm_buckets s z b)"
      using F(3-5) by (simp add: f(1) shape_def)
    moreover have "\<forall>x \<in> set (before @ r' # after). rg_inv x" using B F(1) by (auto simp: f(1) bucket_inv_def)
    ultimately have "bucket_inv (rca_live z (rm_arena s)) b (before @ r' # after)"
      using bucket_inv_shapes [OF B] by blast
    then have "rm_inv ?s" using F(3) by (intro rm_inv_set_bucket [OF inv]) (auto simp: f(1))
    moreover have "rm_live z ?s = rm_live z s - {(p, rg_object_size r)}"
      unfolding rm_live_set_bucket(1) objs_split F(2,5) minus ..
    moreover have "free_in_bucket p z b s = (Inr True, ?s)"
      using False f by (simp add: free_in_bucket_def Let_def r'_def)
    ultimately show ?thesis
      by - (rule that [of ?s], assumption+, simp add: rm_live_set_bucket(3))
  next
    case True
    then have single: "rg_live r = {p}" using F(6) by simp
    let ?t = "set_bucket z b (before @ after) s"
    have sz: "rg_size r' = rg_size r" using F(3,4) by (simp add: rg_size_def)
    obtain a where a: "rca_free (rg_base r) z (rg_size r) (rm_arena s) = (Inr (), a)" "rca_inv a"
      "rca_live z a = rca_live z (rm_arena s) - {(rg_base r, rg_size r)}"
      "\<And>x. x \<noteq> z \<Longrightarrow> rca_live x a = rca_live x (rm_arena s)"
      using rca_free_live [OF _ ri(2), of "rg_size r"] inv by (metis rm_inv_def)
    let ?s = "?t\<lparr>rm_arena := a\<rparr>"
    have t: "rm_inv ?t"
      using B by (intro rm_inv_set_bucket [OF inv]) (auto simp: f(1) bucket_inv_def)
    have gone: "rg_base q \<noteq> rg_base r" if "q \<in> set (rm_buckets ?t z c)" for q c
    proof
      assume eq: "rg_base q = rg_base r"
      have "q \<in> set (rm_buckets s z c)" using that by (auto simp: set_bucket_def f(1) split: if_splits)
      from bases_identify [OF inv this r(1) eq] have "c = b" "q = r" by simp_all
      moreover have "distinct (before @ r # after)" using B by (auto simp: bucket_inv_def distinct_map f(1))
      ultimately show False using that by (auto simp: set_bucket_def)
    qed
    have "rm_inv ?s"
      unfolding rm_inv_def
    proof (intro conjI allI)
      show "rca_inv (rm_arena ?s)" using a(2) by simp
      fix x
      have ni: "node_inv (rca_live x (rm_arena ?t)) (rm_buckets ?t x)" using t by (simp add: rm_inv_def)
      show "node_inv (rca_live x (rm_arena ?s)) (rm_buckets ?s x)"
      proof (cases "x = z")
        case False
        with ni a(4) show ?thesis by (simp add: set_bucket_def)
      next
        case True
        have "rm_arena ?t = rm_arena s" by (simp add: set_bucket_def)
        with ni True gone a(3) show ?thesis by (simp add: node_inv_def bucket_inv_def)
      qed
    qed
    moreover have same: "rm_live x ?s = rm_live x ?t" for x by (simp add: rm_live_def)
    moreover have "rm_live z ?s = rm_live z s - {(p, rg_object_size r)}"
      unfolding same rm_live_set_bucket(1) minus single by auto
    moreover have "free_in_bucket p z b s = (Inr True, ?s)"
      using True f a(1) F(3) sz by (simp add: free_in_bucket_def Let_def r'_def arena_p_def set_bucket_def)
    ultimately show ?thesis
      by - (rule that [of ?s], assumption+, simp add: same rm_live_set_bucket(3))
  qed
qed

lemma rm_free_correct:
  assumes "rm_inv s" "0 \<le> z" "z < MAX_NUMA_ZONES" "0 < n" "ls_bucket n = Inr b" "b < NUM_BUCKETS"
    "r \<in> set (rm_buckets s z b)" "p \<in> rg_live r"
  obtains s' where "rm_free p z n s = (Inr (), s')" "rm_inv s'"
    "rm_live z s' = rm_live z s - {(p, rg_object_size r)}" "\<forall>x. x \<noteq> z \<longrightarrow> rm_live x s' = rm_live x s"
proof -
  obtain s' where s': "free_in_bucket p z b s = (Inr True, s')" "rm_inv s'"
    "rm_live z s' = rm_live z s - {(p, rg_object_size r)}" "\<forall>x. x \<noteq> z \<longrightarrow> rm_live x s' = rm_live x s"
    by (rule free_in_bucket_correct [OF assms(1,7,8)])
  have "rm_free p z n s = (Inr (), s')"
    using assms(2-6) s'(1) by (simp add: rm_free_def check_node_def throw_if_def)
  with s' that show ?thesis by blast
qed


section \<open>Properties\<close>

lemma rm_live_nonzero:
  assumes "rm_inv s" "(p, k) \<in> rm_live z s"
  shows "p \<noteq> 0"
proof -
  from assms(2) obtain b r where r: "r \<in> set (rm_buckets s z b)" "p \<in> rg_live r" by (auto simp: rm_live_def objs_def)
  then have ri: "rg_inv r" "(rg_base r, rg_size r) \<in> rca_live z (rm_arena s)"
    using rm_bucket_inv [OF assms(1), of z b] by (auto simp: bucket_inv_def)
  from ri(2) obtain a where z: "0 \<le> z" "z < int (length (rm_arena s))" "rm_arena s ! nat z = Some a"
      "(rg_base r, rg_size r) \<in> ra_live a"
    by (auto simp: rca_live_def split: if_splits option.splits)
  have "ra_inv a \<and> 0 \<notin> ra_room a" using assms(1) z by (intro rca_inv_nth [of "rm_arena s" "nat z"]) (auto simp: rm_inv_def)
  moreover from this z(4) have "{rg_base r ..< rg_base r + rg_size r} \<subseteq> ra_room a" using ra_live_room by blast
  moreover have "rg_base r \<in> {rg_base r ..< rg_base r + rg_size r}" using ri(1) by (simp add: rg_inv_def rg_size_def)
  ultimately have "rg_base r \<noteq> 0" by (metis subsetD)
  moreover have "rg_base r \<le> p" using live_in_range(1) [OF ri(1) r(2)] by (simp add: in_range_def)
  ultimately show ?thesis by simp
qed

lemma pow2_aligned:
  assumes "(p::nat) mod 2 ^ b = 0" "(2::nat) ^ a \<le> n" "n \<le> 2 ^ b"
  shows "p mod 2 ^ a = 0"
proof -
  have "(2::nat) ^ a \<le> 2 ^ b" using assms(2,3) by (rule le_trans)
  then have "a \<le> b" by (rule power_le_imp_le_exp [rotated]) simp
  then have "(2::nat) ^ a dvd 2 ^ b" by (rule le_imp_power_dvd)
  then show ?thesis using assms(1) by (meson dvd_imp_mod_0 dvd_trans mod_0_imp_dvd)
qed


definition demo_map :: region_map where
  "demo_map = \<lparr>rm_arena = [Some (one_region 100 1048576 4194304)], rm_buckets = (\<lambda>z b. [])\<rparr>"

lemma demo_map_inv: "rm_inv demo_map" "node_ready 0 demo_map" "rm_live 0 demo_map = {}"
  using one_region_inv [of 4194304 1048576 100]
  by (auto simp: demo_map_def rm_inv_def rca_inv_def ra_room_def one_region_bytes node_inv_def bucket_inv_def
      node_ready_def rm_live_def objs_def)




lemmas rm_run_defs = rca_lb_alloc_def rm_allocate_def check_node_def allocate_from_new_region_def arena_p_def
  rca_alloc_def rcai_alloc_def on_node_def rca_max_node_def region_new_def rg_allocate_def migrate_def mark_used_def
  set_bucket_def throw_if_def ls_could_exist_in_region_def ls_region_size_def ls_rounded_up_object_size_def


text \<open>
  A request of at most four bytes loses a region. The region of one mebibyte is taken from
  the arena before the constructor of \<open>Region\<close> rejects the object size, and nothing gives it
  back: the arena counts it as in use and no bucket holds it.
\<close>

theorem region_map_tiny_request_leaks:
  assumes "rm_inv s" "node_ready z s" "0 < n" "n \<le> 4" "ls_bucket n = Inr b" "rm_buckets s z b = []"
    "rca_alloc dbg L0_REGION_SIZE z L0_REGION_SIZE (rm_arena s) = (Inr base, a)"
  shows "\<exists>s'. rca_lb_alloc dbg n z 0 s = (Inl Invalid_argument, s') \<and> rm_buckets s' = rm_buckets s \<and>
    rca_live z (rm_arena s') = {(base, L0_REGION_SIZE)} \<union> rca_live z (rm_arena s)"
proof -
  have small: "n \<le> L0_MAX_SMALL_OBJECT_SIZE" using assms(4) by simp
  obtain c where c: "ls_bucket n = Inr c" "ls_rounded_up_object_size n = Inr (2 ^ c)" "n \<le> 2 ^ c" "c \<le> 12"
      "c = 0 \<or> 2 ^ (c - 1) < n" "2 ^ c dvd L0_REGION_SIZE"
    by (rule ls_small [OF assms(3) small])
  have "b = c" using c(1) assms(5) by simp
  have "c \<le> 2"
  proof (rule ccontr)
    assume "\<not> c \<le> 2"
    then have "(2::nat) ^ 2 \<le> 2 ^ (c - 1)" by (intro power_increasing) auto
    with c(5) assms(4) \<open>\<not> c \<le> 2\<close> show False by auto
  qed
  then have tiny: "(2::nat) ^ c < 8" using power_increasing [of c 2 "2::nat"] by simp
  have Z: "0 \<le> z" "z < int (length (rm_arena s))" "rm_arena s ! nat z \<noteq> None" "z < 2" using assms(2) by (auto simp: node_ready_def)
  have "rca_inv (rm_arena s)" using assms(1) by (simp add: rm_inv_def)
  from rca_alloc_cases [OF this Z(1-3), of L0_REGION_SIZE L0_REGION_SIZE dbg] assms(7)
  have a: "base \<noteq> 0" "base mod L0_REGION_SIZE = 0" "rca_live z a = {(base, L0_REGION_SIZE)} \<union> rca_live z (rm_arena s)"
    by auto
  have "base mod 2 ^ c = 0" using a(2) c(6) by (metis dvd_imp_mod_0 dvd_trans mod_0_imp_dvd)
  then have al: "assert_aligned dbg base (2 ^ c) = Inr ()" by (intro assert_aligned_ok) auto
  have bad: "region_new base L0_REGION_SIZE (2 ^ c) = Inl Invalid_argument"
    using tiny c(6) by (auto simp: region_new_def)
  have keep: "set_bucket z c [] s = s" using assms(6) \<open>b = c\<close> by (simp add: set_bucket_def fun_upd_idem)
  have "allocate_from_existing_region dbg n z s = (Inr None, s)"
    using c(1,4) assms(6) \<open>b = c\<close> keep by (simp add: allocate_from_existing_region_def throw_if_def)
  moreover have "allocate_from_new_region dbg n z s = (Inl Invalid_argument, s\<lparr>rm_arena := a\<rparr>)"
    using c(1,2,4) small assms(7) a(1) al bad
    by (simp add: allocate_from_new_region_def Let_def throw_if_def ls_region_size_def arena_p_def)
  ultimately have "rca_lb_alloc dbg n z 0 s = (Inl Invalid_argument, s\<lparr>rm_arena := a\<rparr>)"
    using Z assms(3) small
    by (simp add: rca_lb_alloc_def rm_allocate_def throw_if_def check_node_def ls_could_exist_in_region_def)
  with a(3) show ?thesis by simp
qed

theorem region_map_tiny_request_leaks_witness:
  "\<exists>s' base. rca_lb_alloc True 3 0 0 demo_map = (Inl Invalid_argument, s') \<and> rm_buckets s' = rm_buckets demo_map \<and>
    rca_live 0 (rm_arena s') = {(base, L0_REGION_SIZE)} \<union> rca_live 0 (rm_arena demo_map)"
proof -
  obtain base a where a: "rca_alloc True L0_REGION_SIZE 0 L0_REGION_SIZE (rm_arena demo_map) = (Inr base, a)"
    by (simp add: demo_map_def one_region_def rm_run_defs alloc_run_defs)
  have b: "ls_bucket 3 = Inr 2" by (simp add: ls_bucket_def get_log2_bin_def clzl_def bit_length_pos)
  have e: "rm_buckets demo_map 0 2 = []" by (simp add: demo_map_def)
  from region_map_tiny_request_leaks [OF demo_map_inv(1,2) _ _ b e a] show ?thesis by auto
qed

end
