(* ===== verification/Region_Bits.thy ===== *)
theory Region_Bits
  imports Prelude "HOL-Library.Word"
begin

unbundle bit_operations_syntax

text \<open>
  Bitmaps whose regions are aligned groups of \<open>2 ^ order\<close> bits, as the persistent block
  allocators keep them: \<open>_reg_op\<close>, \<open>find_free_region\<close> and \<open>release_region\<close> of
  \<open>components/allocator/block-ikv/src/bitmap_ikv.cpp\<close>. The bitmap is the list of its 64-bit
  words; reading or writing past its end is undefined behaviour, and so are the shifts of an
  \<open>int\<close> by 31 or more and of an \<open>unsigned\<close> by 32 or more. The theory shows that an operation
  on an aligned region tests or changes exactly the bits of the region, and that the search
  visits every aligned region once, wherever it starts.
\<close>

section \<open>Operations on one region\<close>

abbreviation BITS_PER_LONG :: nat where "BITS_PER_LONG \<equiv> 64"

definition BITS_TO_LONGS :: "nat \<Rightarrow> nat" where
  "BITS_TO_LONGS nr = (nr + (BITS_PER_LONG - 1)) div BITS_PER_LONG"

datatype reg_op_t = REG_OP_ISFREE | REG_OP_ALLOC | REG_OP_RELEASE

type_synonym bits = "64 word list"

definition region_mask :: "nat \<Rightarrow> nat \<Rightarrow> 64 word" where
  "region_mask nbitsinlong off =
     (let m = push_bit (nbitsinlong - 1) 1; m = m + (m - 1) in push_bit off m)"

text \<open>The loop of \<open>REG_OP_ISFREE\<close> stops at the first word with a bit of the mask set.\<close>

fun words_free :: "64 word \<Rightarrow> bits \<Rightarrow> nat \<Rightarrow> nat \<Rightarrow> bool result" where
  "words_free m ws i 0 = Inr True"
| "words_free m ws i (Suc n) =
     (if length ws \<le> i then Inl Undefined_behaviour
      else if ws ! i AND m \<noteq> 0 then Inr False
      else words_free m ws (Suc i) n)"

fun words_update :: "(64 word \<Rightarrow> 64 word) \<Rightarrow> nat \<Rightarrow> nat \<Rightarrow> (bits, unit) prog" where
  "words_update f i 0 = ret_p ()"
| "words_update f i (Suc n) =
     bind_p (get_p (\<lambda>ws. length ws)) (\<lambda>len.
       if len \<le> i then throw_p Undefined_behaviour
       else bind_p (update_p (\<lambda>ws. ws[i := f (ws ! i)])) (\<lambda>_. words_update f (Suc i) n))"

definition reg_op :: "nat \<Rightarrow> nat \<Rightarrow> reg_op_t \<Rightarrow> (bits, int) prog" where
  "reg_op pos order op =
     (if 31 \<le> order then throw_p Undefined_behaviour
      else
        let nbits_reg = 2 ^ order;
            index = pos div BITS_PER_LONG;
            off = pos - index * BITS_PER_LONG;
            nlongs_reg = BITS_TO_LONGS nbits_reg;
            nbitsinlong = (if nbits_reg < BITS_PER_LONG then nbits_reg else BITS_PER_LONG);
            m = region_mask nbitsinlong off
        in case op of
             REG_OP_ISFREE \<Rightarrow>
               bind_p (get_p id) (\<lambda>ws. bind_p (lift_p (words_free m ws index nlongs_reg))
                 (\<lambda>free. ret_p (if free then 1 else 0)))
           | REG_OP_ALLOC \<Rightarrow> bind_p (words_update (\<lambda>w. w OR m) index nlongs_reg) (\<lambda>_. ret_p 0)
           | REG_OP_RELEASE \<Rightarrow> bind_p (words_update (\<lambda>w. w AND NOT m) index nlongs_reg) (\<lambda>_. ret_p 0))"

section \<open>The search for a free region\<close>

text \<open>
  \<open>rnd\<close> is the value the random number generator returns; the scan starts at a random region
  and goes once around. The region is tested again under the lock before it is taken.
\<close>

function find_from :: "nat \<Rightarrow> nat \<Rightarrow> nat \<Rightarrow> nat \<Rightarrow> nat \<Rightarrow> (bits, int) prog" where
  "find_from nbits step order origin off =
     (if step = 0 \<or> nbits < off + step then ret_p (- 1)
      else
        let pos = (off + origin) mod nbits in
        bind_p (reg_op (pos mod 2 ^ 32) order REG_OP_ISFREE) (\<lambda>free.
          if free = 0 then find_from nbits step order origin (off + step)
          else bind_p (reg_op (pos mod 2 ^ 32) order REG_OP_ISFREE) (\<lambda>free.
            if free = 0 then find_from nbits step order origin (off + step)
            else bind_p (reg_op (pos mod 2 ^ 32) order REG_OP_ALLOC) (\<lambda>_. ret_p (int pos)))))"
  by pat_completeness auto
termination
  by (relation "measure (\<lambda>(nbits, step, order, origin, off). nbits - off)") auto

declare find_from.simps [simp del]

definition bitmap_find_free_region :: "nat \<Rightarrow> nat \<Rightarrow> nat \<Rightarrow> (bits, int) prog" where
  "bitmap_find_free_region nbits rnd order =
     (if 32 \<le> order then throw_p Undefined_behaviour
      else
        let step = 2 ^ order; ntabs = (nbits div step) mod 2 ^ 32 in
        if ntabs = 0 then throw_p Div_by_zero
        else find_from nbits step order ((rnd mod ntabs) * step) 0)"

definition bitmap_release_region :: "nat \<Rightarrow> nat \<Rightarrow> (bits, int) prog" where
  "bitmap_release_region pos order =
     bind_p (reg_op pos order REG_OP_RELEASE) (\<lambda>r.
       if r \<noteq> 0 then throw_p General_exception else ret_p 0)"

section \<open>Bits\<close>

definition wbit :: "bits \<Rightarrow> nat \<Rightarrow> bool" where
  "wbit ws k \<longleftrightarrow> k div 64 < length ws \<and> bit (ws ! (k div 64)) (k mod 64)"

definition region_free :: "bits \<Rightarrow> nat \<Rightarrow> nat \<Rightarrow> bool" where
  "region_free ws pos order \<longleftrightarrow> (\<forall>k \<in> {pos ..< pos + 2 ^ order}. \<not> wbit ws k)"

lemma bit_region_mask:
  assumes "0 < n" "n \<le> 64"
  shows "bit (region_mask n off) k \<longleftrightarrow> off \<le> k \<and> k < off + n \<and> k < 64"
proof -
  have two: "push_bit (n - 1) (1::64 word) = 2 ^ (n - 1)" by (simp add: push_bit_eq_mult)
  have "(2::64 word) ^ (n - 1) + (2 ^ (n - 1) - 1) = 2 ^ n - 1"
    using assms(1) by (cases n) simp_all
  then have "region_mask n off = push_bit off (mask n)"
    by (simp add: region_mask_def Let_def two mask_eq_decr_exp)
  then show ?thesis using assms by (auto simp: bit_push_bit_iff bit_mask_iff)
qed

lemma words_update_run:
  "i + n \<le> length ws \<Longrightarrow> words_update f i n ws =
     (Inr (), map (\<lambda>j. if i \<le> j \<and> j < i + n then f (ws ! j) else ws ! j) [0..<length ws])"
proof (induction n arbitrary: i ws)
  case 0
  have "map (\<lambda>j. if i \<le> j \<and> j < i + 0 then f (ws ! j) else ws ! j) [0..<length ws] = map ((!) ws) [0..<length ws]"
    by (rule map_cong) auto
  then show ?case unfolding map_nth by simp
next
  case (Suc n)
  have "words_update f i (Suc n) ws = words_update f (Suc i) n (ws[i := f (ws ! i)])"
    using Suc.prems by simp
  also have "\<dots> = (Inr (), map (\<lambda>j. if i \<le> j \<and> j < i + Suc n then f (ws ! j) else ws ! j) [0..<length ws])"
    using Suc.IH [of "Suc i" "ws[i := f (ws ! i)]"] Suc.prems by (auto simp: nth_list_update)
  finally show ?case .
qed

lemma wbit_map:
  "wbit (map g [0..<length ws]) k \<longleftrightarrow> k div 64 < length ws \<and> bit (g (k div 64)) (k mod 64)"
  by (auto simp: wbit_def)

lemma words_free_run:
  "i + n \<le> length ws \<Longrightarrow> words_free m ws i n = Inr (\<forall>j \<in> {i ..< i + n}. ws ! j AND m = 0)"
proof (induction n arbitrary: i)
  case (Suc n)
  have "{i ..< i + Suc n} = insert i {Suc i ..< Suc i + n}" by auto
  with Suc show ?case by simp
qed simp

text \<open>An aligned region lies within one word or fills whole words.\<close>

lemma aligned_region_cases:
  fixes pos :: nat
  assumes "2 ^ order dvd pos"
  obtains (small) "(2::nat) ^ order < 64" "BITS_TO_LONGS (2 ^ order) = 1" "pos mod 64 + 2 ^ order \<le> 64"
  | (large) p q where "pos = 64 * p" "(2::nat) ^ order = 64 * q" "0 < q" "BITS_TO_LONGS (2 ^ order) = q"
proof (cases "order < 6")
  case True
  have "(2::nat) ^ order dvd 2 ^ 6" using True by (intro le_imp_power_dvd) simp
  then have d: "(2::nat) ^ order dvd 64" by simp
  have "(2::nat) ^ order < 2 ^ 6" using True by (intro power_strict_increasing) simp_all
  then have lt: "(2::nat) ^ order < 64" by simp
  have one: "BITS_TO_LONGS (2 ^ order) = 1"
    unfolding BITS_TO_LONGS_def by (rule div_nat_eqI) (use lt in \<open>simp_all add: Suc_le_eq\<close>)
  obtain q where q: "64 = (2::nat) ^ order * q" using d by blast
  have "2 ^ order dvd pos mod 64" using assms(1) d by (simp add: dvd_mod)
  then obtain r where r: "pos mod 64 = 2 ^ order * r" by blast
  have "2 ^ order * r < 2 ^ order * q" using r q by (metis mod_less_divisor zero_less_numeral)
  then have "Suc r \<le> q" by simp
  then have "2 ^ order * Suc r \<le> 2 ^ order * q" by (rule mult_le_mono2)
  then have "pos mod 64 + 2 ^ order \<le> 64" using r q by simp
  with lt one small show ?thesis by blast
next
  case False
  then have "(2::nat) ^ 6 dvd 2 ^ order" by (intro le_imp_power_dvd) simp
  then obtain q where q: "(2::nat) ^ order = 64 * q" by (auto elim: dvdE)
  then have "64 dvd pos" using assms(1) by (metis dvd_mult_left)
  then obtain p where p: "pos = 64 * p" by blast
  have "0 < q" using q by (cases q) simp_all
  moreover have "BITS_TO_LONGS (2 ^ order) = q" unfolding q BITS_TO_LONGS_def by simp
  ultimately show ?thesis using q p large by blast
qed

lemma aligned_region_longs:
  assumes "2 ^ order dvd pos" "pos + 2 ^ order \<le> 64 * n"
  shows "pos div 64 + BITS_TO_LONGS (2 ^ order) \<le> n"
  using assms(1)
proof (cases rule: aligned_region_cases)
  case small
  have "pos < n * 64" using assms(2) zero_less_power [of "2::nat" order] by linarith
  then have "pos div 64 < n" by (rule less_mult_imp_div_less)
  with small show ?thesis by simp
next
  case (large p q)
  then show ?thesis using assms(2) by simp
qed

text \<open>The words and the mask of an aligned region.\<close>

abbreviation bits_in_long :: "nat \<Rightarrow> nat" where
  "bits_in_long order \<equiv> (if 2 ^ order < (64::nat) then 2 ^ order else 64)"

lemma aligned_region_word:
  assumes "2 ^ order dvd pos"
  shows "k \<in> {pos ..< pos + 2 ^ order} \<longleftrightarrow>
     pos div 64 \<le> k div 64 \<and> k div 64 < pos div 64 + BITS_TO_LONGS (2 ^ order) \<and>
     bit (region_mask (bits_in_long order) (pos - pos div 64 * 64)) (k mod 64)"
proof -
  have n: "0 < bits_in_long order" "bits_in_long order \<le> 64" by simp_all
  have off: "pos - pos div 64 * 64 = pos mod 64" by (simp add: minus_div_mult_eq_mod)
  from assms show ?thesis
  proof (cases rule: aligned_region_cases)
    case small
    have k: "k = 64 * (k div 64) + k mod 64" and p: "pos = 64 * (pos div 64) + pos mod 64" by simp_all
    have eq: "k div 64 = pos div 64" if a: "k \<in> {pos ..< pos + 2 ^ order}"
    proof (rule ccontr)
      assume "k div 64 \<noteq> pos div 64"
      moreover have "k mod 64 < 64" by simp
      ultimately show False
        using a small(3) k p unfolding neq_iff atLeastLessThan_iff by (elim disjE; linarith)
    qed
    have "k \<in> {pos ..< pos + 2 ^ order} \<longleftrightarrow>
        k div 64 = pos div 64 \<and> pos mod 64 \<le> k mod 64 \<and> k mod 64 < pos mod 64 + 2 ^ order"
    proof
      assume a: "k \<in> {pos ..< pos + 2 ^ order}"
      then show "k div 64 = pos div 64 \<and> pos mod 64 \<le> k mod 64 \<and> k mod 64 < pos mod 64 + 2 ^ order"
        using eq [OF a] k p unfolding atLeastLessThan_iff by (intro conjI; linarith)
    next
      assume "k div 64 = pos div 64 \<and> pos mod 64 \<le> k mod 64 \<and> k mod 64 < pos mod 64 + 2 ^ order"
      then show "k \<in> {pos ..< pos + 2 ^ order}" using k p unfolding atLeastLessThan_iff by linarith
    qed
    then show ?thesis unfolding off bit_region_mask [OF n] using small by auto
  next
    case (large p q)
    have "\<not> (2::nat) ^ order < 64" using large(2,3) by simp
    then show ?thesis unfolding off bit_region_mask [OF n] large(4) unfolding large(1,2) by auto
  qed
qed

lemma reg_op_unfold:
  assumes "order < 31"
  shows "reg_op pos order REG_OP_ISFREE ws =
      (map_sum id (\<lambda>free. if free then 1 else 0)
         (words_free (region_mask (bits_in_long order) (pos - pos div 64 * 64)) ws (pos div 64) (BITS_TO_LONGS (2 ^ order))), ws)"
    and "reg_op pos order REG_OP_ALLOC ws =
      bind_p (words_update (\<lambda>w. w OR region_mask (bits_in_long order) (pos - pos div 64 * 64)) (pos div 64) (BITS_TO_LONGS (2 ^ order))) (\<lambda>_. ret_p 0) ws"
    and "reg_op pos order REG_OP_RELEASE ws =
      bind_p (words_update (\<lambda>w. w AND NOT (region_mask (bits_in_long order) (pos - pos div 64 * 64))) (pos div 64) (BITS_TO_LONGS (2 ^ order))) (\<lambda>_. ret_p 0) ws"
  using assms by (simp_all add: reg_op_def Let_def bind_p_def split: sum.splits)

lemma reg_op_isfree:
  assumes "order < 31" "2 ^ order dvd pos" "pos + 2 ^ order \<le> 64 * length ws"
  shows "reg_op pos order REG_OP_ISFREE ws = (Inr (if region_free ws pos order then 1 else 0), ws)"
proof -
  let ?m = "region_mask (bits_in_long order) (pos - pos div 64 * 64)"
  let ?J = "{pos div 64 ..< pos div 64 + BITS_TO_LONGS (2 ^ order)}"
  note longs = aligned_region_longs [OF assms(2,3)]
  have "(\<forall>j \<in> ?J. ws ! j AND ?m = 0) \<longleftrightarrow> region_free ws pos order"
  proof
    assume a: "\<forall>j \<in> ?J. ws ! j AND ?m = 0"
    have "\<not> wbit ws k" if k: "k \<in> {pos ..< pos + 2 ^ order}" for k
    proof
      assume w: "wbit ws k"
      note k' = k [unfolded aligned_region_word [OF assms(2)]]
      then have "ws ! (k div 64) AND ?m = 0" using a by auto
      then have "\<not> (bit (ws ! (k div 64)) (k mod 64) \<and> bit ?m (k mod 64))"
        by (metis bit_and_iff bit_0_eq bot_apply bot_bool_def)
      with w k' show False by (simp add: wbit_def)
    qed
    then show "region_free ws pos order" by (simp add: region_free_def)
  next
    assume a: "region_free ws pos order"
    show "\<forall>j \<in> ?J. ws ! j AND ?m = 0"
    proof (intro ballI bit_eqI)
      fix j b assume j: "j \<in> ?J" and "possible_bit TYPE(64 word) b"
      then have b: "b < 64" by simp
      let ?k = "64 * j + b"
      have "?k div 64 = j" "?k mod 64 = b" using b by simp_all
      moreover have "\<not> wbit ws ?k" if "bit ?m b"
        using a aligned_region_word [OF assms(2), of ?k] j that calculation
        by (auto simp: region_free_def)
      ultimately show "bit (ws ! j AND ?m) b = bit 0 b"
        using j longs by (auto simp: wbit_def bit_and_iff)
    qed
  qed
  then show ?thesis
    using words_free_run [OF longs] by (simp add: reg_op_unfold [OF assms(1)])
qed

lemma reg_op_update:
  assumes "order < 31" "2 ^ order dvd pos" "pos + 2 ^ order \<le> 64 * length ws"
  shows reg_op_alloc: "\<exists>ws'. reg_op pos order REG_OP_ALLOC ws = (Inr 0, ws') \<and> length ws' = length ws \<and>
      (\<forall>k. wbit ws' k \<longleftrightarrow> wbit ws k \<or> k \<in> {pos ..< pos + 2 ^ order})"
    and reg_op_release: "\<exists>ws'. reg_op pos order REG_OP_RELEASE ws = (Inr 0, ws') \<and> length ws' = length ws \<and>
      (\<forall>k. wbit ws' k \<longleftrightarrow> wbit ws k \<and> k \<notin> {pos ..< pos + 2 ^ order})"
proof -
  let ?m = "region_mask (bits_in_long order) (pos - pos div 64 * 64)"
  let ?I = "pos div 64" and ?n = "BITS_TO_LONGS (2 ^ order)"
  note longs = aligned_region_longs [OF assms(2,3)]
  have reg: "k \<in> {pos ..< pos + 2 ^ order} \<longleftrightarrow> ?I \<le> k div 64 \<and> k div 64 < ?I + ?n \<and> k div 64 < length ws \<and> bit ?m (k mod 64)" for k
    using aligned_region_word [OF assms(2), of k] longs by auto
  show "\<exists>ws'. reg_op pos order REG_OP_ALLOC ws = (Inr 0, ws') \<and> length ws' = length ws \<and>
      (\<forall>k. wbit ws' k \<longleftrightarrow> wbit ws k \<or> k \<in> {pos ..< pos + 2 ^ order})"
    unfolding reg_op_unfold [OF assms(1)] reg
    using words_update_run [OF longs, of "\<lambda>w. w OR ?m"] by (simp add: wbit_map bit_or_iff) (auto simp: wbit_def)
  show "\<exists>ws'. reg_op pos order REG_OP_RELEASE ws = (Inr 0, ws') \<and> length ws' = length ws \<and>
      (\<forall>k. wbit ws' k \<longleftrightarrow> wbit ws k \<and> k \<notin> {pos ..< pos + 2 ^ order})"
    unfolding reg_op_unfold [OF assms(1)] reg
    using words_update_run [OF longs, of "\<lambda>w. w AND NOT ?m"] by (simp add: wbit_map bit_and_iff bit_not_iff) (auto simp: wbit_def)
qed

section \<open>The search covers every region\<close>

text \<open>
  The regions of one order are the multiples of \<open>2 ^ order\<close>; \<open>taken\<close> says that a search result
  is a free region of which exactly the bits have been set.
\<close>

definition taken :: "nat \<Rightarrow> bits \<Rightarrow> nat \<Rightarrow> bits \<Rightarrow> bool" where
  "taken order ws pos ws' \<longleftrightarrow> 2 ^ order dvd pos \<and> region_free ws pos order \<and> length ws' = length ws \<and>
     (\<forall>k. wbit ws' k \<longleftrightarrow> wbit ws k \<or> k \<in> {pos ..< pos + 2 ^ order})"

lemma find_from_run:
  assumes "order < 31" "nbits = n * 2 ^ order" "nbits \<le> 64 * length ws" "nbits < 2 ^ 31" "i \<le> n"
  shows "(\<exists>pos ws'. find_from nbits (2 ^ order) order (j * 2 ^ order) (i * 2 ^ order) ws = (Inr (int pos), ws') \<and>
        pos + 2 ^ order \<le> nbits \<and> taken order ws pos ws') \<or>
    (find_from nbits (2 ^ order) order (j * 2 ^ order) (i * 2 ^ order) ws = (Inr (- 1), ws) \<and>
      (\<forall>i' \<in> {i ..< n}. \<not> region_free ws (((i' + j) mod n) * 2 ^ order) order))"
  using assms(5)
proof (induction i rule: inc_induct)
  case base
  have "find_from nbits (2 ^ order) order (j * 2 ^ order) (n * 2 ^ order) ws = (Inr (- 1), ws)"
    by (subst find_from.simps) (simp add: assms(2))
  then show ?case by simp
next
  case (step i)
  let ?pos = "((i + j) mod n) * 2 ^ order"
  have pos: "(i * 2 ^ order + j * 2 ^ order) mod nbits = ?pos"
    unfolding assms(2) by (simp add: add_mult_distrib [symmetric] mult_mod_left)
  have "Suc ((i + j) mod n) \<le> n" using step.hyps by (simp add: Suc_le_eq)
  then have "Suc ((i + j) mod n) * 2 ^ order \<le> nbits" unfolding assms(2) by (rule mult_le_mono1)
  then have fit: "?pos + 2 ^ order \<le> nbits" by simp
  then have "?pos < 4294967296" using assms(4) by simp
  then have small: "?pos mod 4294967296 = ?pos" by simp
  have fit': "?pos + 2 ^ order \<le> 64 * length ws" using fit assms(3) by linarith
  have dvd: "2 ^ order dvd ?pos" by simp
  note isfree = reg_op_isfree [OF assms(1) dvd fit']
  have "Suc i * 2 ^ order \<le> n * 2 ^ order" using step.hyps by (intro mult_le_mono1) simp
  then have more: "\<not> nbits < i * 2 ^ order + 2 ^ order" unfolding assms(2) by simp
  let ?run = "find_from nbits (2 ^ order) order (j * 2 ^ order)"
  show ?case
  proof (cases "region_free ws ?pos order")
    case True
    obtain ws' where ws': "reg_op ?pos order REG_OP_ALLOC ws = (Inr 0, ws')" "length ws' = length ws"
      "\<forall>k. wbit ws' k \<longleftrightarrow> wbit ws k \<or> k \<in> {?pos ..< ?pos + 2 ^ order}"
      using reg_op_alloc [OF assms(1) dvd fit'] by blast
    have "?run (i * 2 ^ order) ws = (Inr (int ?pos), ws')"
      using more isfree ws'(1) True
      by (subst find_from.simps) (simp add: Let_def pos small del: of_nat_mult)
    moreover have "taken order ws ?pos ws'" unfolding taken_def using ws'(2,3) True dvd by blast
    ultimately show ?thesis using fit by blast
  next
    case False
    have "?run (i * 2 ^ order) ws = ?run (Suc i * 2 ^ order) ws"
      using more isfree False
      by (subst find_from.simps) (simp add: Let_def pos small add.commute)
    moreover have "{i ..< n} = insert i {Suc i ..< n}" using step.hyps by auto
    ultimately show ?thesis using step.IH False by auto
  qed
qed

lemma bitmap_find_free_region_run:
  assumes "order < 31" "2 ^ order dvd nbits" "0 < nbits" "nbits \<le> 64 * length ws" "nbits < 2 ^ 31"
  shows "(\<exists>pos ws'. bitmap_find_free_region nbits rnd order ws = (Inr (int pos), ws') \<and>
        pos + 2 ^ order \<le> nbits \<and> taken order ws pos ws') \<or>
    (bitmap_find_free_region nbits rnd order ws = (Inr (- 1), ws) \<and>
      (\<forall>pos. 2 ^ order dvd pos \<longrightarrow> pos < nbits \<longrightarrow> \<not> region_free ws pos order))"
proof -
  obtain n where n: "nbits = n * 2 ^ order" using assms(2) by (auto elim: dvdE)
  have "n * 1 \<le> n * 2 ^ order" by (intro mult_le_mono2) simp
  then have small: "n < 2 ^ 31" using n assms(5) by linarith
  have pos: "0 < n" using assms(3) n by (cases n) simp_all
  define j where "j = rnd mod n"
  have j: "j < n" using pos by (simp add: j_def)
  have run: "bitmap_find_free_region nbits rnd order ws = find_from nbits (2 ^ order) order (j * 2 ^ order) (0 * 2 ^ order) ws"
    using assms(1) small pos by (simp add: bitmap_find_free_region_def Let_def n j_def)
  have all: "\<not> region_free ws pos order"
    if none: "\<forall>i \<in> {0 ..< n}. \<not> region_free ws (((i + j) mod n) * 2 ^ order) order"
      and "2 ^ order dvd pos" "pos < nbits" for pos
  proof -
    obtain t where t: "pos = t * 2 ^ order" using \<open>2 ^ order dvd pos\<close> by (auto elim: dvdE)
    have "t < n" using \<open>pos < nbits\<close> unfolding t n by simp
    define i where "i = (if j \<le> t then t - j else t + n - j)"
    have "i < n" "(i + j) mod n = t" using \<open>t < n\<close> j by (auto simp: i_def)
    with none t show ?thesis by force
  qed
  from find_from_run [OF assms(1) n assms(4,5), of 0 j] all show ?thesis unfolding run by auto
qed

lemma bitmap_release_region_run:
  assumes "order < 31" "2 ^ order dvd pos" "pos + 2 ^ order \<le> 64 * length ws"
  shows "\<exists>ws'. bitmap_release_region pos order ws = (Inr 0, ws') \<and> length ws' = length ws \<and>
     (\<forall>k. wbit ws' k \<longleftrightarrow> wbit ws k \<and> k \<notin> {pos ..< pos + 2 ^ order})"
  using reg_op_release [OF assms] by (auto simp: bitmap_release_region_def)

end
