(* ===== verification/Map_Store.thy ===== *)
theory Map_Store
  imports Prelude "HOL-Library.AList"
begin

text \<open>
  The in-memory key-value store \<open>components/store/mapstore/src/map_store.cpp\<close>: pools of
  key-value pairs (\<open>Pool_handle\<close>), sessions on them, the thread-local cache of the last
  session and the reader-writer lock of a pool. Values live in buffers of the allocator's
  heap, so that the length a \<open>Value_pair\<close> records and the size of the buffer it points to are
  separate facts. What the allocator and \<open>new\<close> return is an argument of the operations that
  call them.
\<close>

section \<open>Interface codes\<close>

type_synonym status_t = int

abbreviation (input) S_OK :: status_t where "S_OK \<equiv> 0"
abbreviation (input) E_FAIL :: status_t where "E_FAIL \<equiv> - 1"
abbreviation (input) E_INVAL :: status_t where "E_INVAL \<equiv> - 2"
abbreviation (input) E_INSUFFICIENT_BUFFER :: status_t where "E_INSUFFICIENT_BUFFER \<equiv> - 7"
abbreviation (input) E_INVALID_ARG :: status_t where "E_INVALID_ARG \<equiv> - 25"
abbreviation (input) E_KEY_EXISTS :: status_t where "E_KEY_EXISTS \<equiv> - 51"
abbreviation (input) E_KEY_NOT_FOUND :: status_t where "E_KEY_NOT_FOUND \<equiv> - 52"
abbreviation (input) E_POOL_NOT_FOUND :: status_t where "E_POOL_NOT_FOUND \<equiv> - 53"
abbreviation (input) E_ALREADY_OPEN :: status_t where "E_ALREADY_OPEN \<equiv> - 56"

abbreviation (input) FLAGS_READ_ONLY :: nat where "FLAGS_READ_ONLY \<equiv> 1"
abbreviation (input) FLAGS_CREATE_ONLY :: nat where "FLAGS_CREATE_ONLY \<equiv> 4"
abbreviation (input) FLAGS_DONT_STOMP :: nat where "FLAGS_DONT_STOMP \<equiv> 8"

abbreviation (input) VALUE_LEN :: nat where "VALUE_LEN \<equiv> 1"
abbreviation (input) STORE_LOCK_READ :: nat where "STORE_LOCK_READ \<equiv> 1"
abbreviation (input) STORE_LOCK_WRITE :: nat where "STORE_LOCK_WRITE \<equiv> 2"
abbreviation (input) POOL_ERROR :: addr_t where "POOL_ERROR \<equiv> 0"
abbreviation (input) KEY_NONE :: addr_t where "KEY_NONE \<equiv> 0"

text \<open>A flag is a power of two; \<open>flags & f\<close> tests its bit.\<close>

definition flag_set :: "nat \<Rightarrow> nat \<Rightarrow> bool" where
  "flag_set flags f = odd (flags div f)"

section \<open>The heap\<close>

type_synonym bytes = "nat list"
type_synonym heap = "addr_t \<Rightarrow> bytes option"

text \<open>
  A block is what \<open>scalable_aligned_malloc\<close> returns: an address, null when memory is
  exhausted, and the indeterminate bytes found there.
\<close>

type_synonym block = "addr_t \<times> (nat \<Rightarrow> nat)"

definition malloc :: "block \<Rightarrow> size_t \<Rightarrow> (heap, addr_t) prog" where
  "malloc blk n = (case blk of (a, junk) \<Rightarrow>
     if a = 0 then ret_p 0
     else bind_p (update_p (\<lambda>m. m(a \<mapsto> map junk [0..<n]))) (\<lambda>_. ret_p a))"

definition mem_read :: "addr_t \<Rightarrow> size_t \<Rightarrow> (heap, bytes) prog" where
  "mem_read p n = (if p = 0 then throw_p Null_deref
     else bind_p (get_p (\<lambda>m. m p)) (\<lambda>b. case b of
         None \<Rightarrow> throw_p Undefined_behaviour
       | Some bs \<Rightarrow> if length bs < n then throw_p Undefined_behaviour else ret_p (take n bs)))"

definition mem_copy :: "addr_t \<Rightarrow> bytes \<Rightarrow> (heap, unit) prog" where
  "mem_copy p data = (if p = 0 then throw_p Null_deref
     else bind_p (get_p (\<lambda>m. m p)) (\<lambda>b. case b of
         None \<Rightarrow> throw_p Undefined_behaviour
       | Some bs \<Rightarrow> if length bs < length data then throw_p Undefined_behaviour
           else update_p (\<lambda>m. m(p \<mapsto> data @ drop (length data) bs))))"

definition mem_free :: "addr_t \<Rightarrow> (heap, unit) prog" where
  "mem_free p = (if p = 0 then ret_p ()
     else bind_p (get_p (\<lambda>m. m p)) (\<lambda>b. case b of
         None \<Rightarrow> throw_p Undefined_behaviour
       | Some bs \<Rightarrow> update_p (\<lambda>m. m(p := None))))"

section \<open>Pools\<close>

record value_pair =
  vp_ptr :: addr_t
  vp_length :: size_t

datatype rwlock = Unlocked | Read_locked nat | Write_locked

record pool_handle =
  ph_name :: string
  ph_map :: "(string \<times> value_pair) list"
  ph_lock :: rwlock
  ph_flags :: nat

text \<open>A method of \<open>Pool_handle\<close> works on its object and on the heap.\<close>

record pool_env =
  pe_mem :: heap
  pe_pool :: pool_handle

definition heap_p :: "(heap, 'a) prog \<Rightarrow> (pool_env, 'a) prog" where
  "heap_p m = (\<lambda>s. case m (pe_mem s) of (r, h) \<Rightarrow> (r, s\<lparr>pe_mem := h\<rparr>))"

definition find_key :: "string \<Rightarrow> (pool_env, value_pair option) prog" where
  "find_key key = get_p (\<lambda>s. map_of (ph_map (pe_pool s)) key)"

definition set_key :: "string \<Rightarrow> value_pair \<Rightarrow> (pool_env, unit) prog" where
  "set_key key vp = update_p (\<lambda>s. s\<lparr>pe_pool := (pe_pool s)\<lparr>ph_map :=
     AList.update key vp (ph_map (pe_pool s))\<rparr>\<rparr>)"

definition set_lock :: "rwlock \<Rightarrow> (pool_env, unit) prog" where
  "set_lock l = update_p (\<lambda>s. s\<lparr>pe_pool := (pe_pool s)\<lparr>ph_lock := l\<rparr>\<rparr>)"

text \<open>
  \<open>put\<close>: a value pointer is null (\<open>None\<close>) or points to the bytes of the value. When the size
  changes the buffer is replaced; the recorded length is left as it was.
\<close>

definition pool_put :: "block \<Rightarrow> string \<Rightarrow> bytes option \<Rightarrow> nat \<Rightarrow> (pool_env, status_t) prog" where
  "pool_put blk key value flags = (case value of
       None \<Rightarrow> ret_p E_INVAL
     | Some data \<Rightarrow>
         if data = [] then ret_p E_INVAL
         else bind_p (find_key key) (\<lambda>i. case i of
             Some p \<Rightarrow>
               if flag_set flags FLAGS_DONT_STOMP then ret_p E_KEY_EXISTS
               else if vp_length p = length data
                 then bind_p (heap_p (mem_copy (vp_ptr p) data)) (\<lambda>_. ret_p S_OK)
               else bind_p (heap_p (mem_free (vp_ptr p))) (\<lambda>_.
                 bind_p (heap_p (malloc blk (length data))) (\<lambda>a.
                 bind_p (set_key key (p\<lparr>vp_ptr := a\<rparr>)) (\<lambda>_.
                 bind_p (heap_p (mem_copy a data)) (\<lambda>_. ret_p S_OK))))
           | None \<Rightarrow>
               bind_p (heap_p (malloc blk (length data))) (\<lambda>buffer.
               bind_p (heap_p (mem_copy buffer data)) (\<lambda>_.
               bind_p (set_key key \<lparr>vp_ptr = buffer, vp_length = length data\<rparr>) (\<lambda>_. ret_p S_OK)))))"

text \<open>\<open>get\<close> returns the address and the length of a fresh copy.\<close>

definition pool_get :: "block \<Rightarrow> string \<Rightarrow> (pool_env, status_t \<times> (addr_t \<times> size_t) option) prog" where
  "pool_get blk key =
     bind_p (find_key key) (\<lambda>i. case i of
         None \<Rightarrow> ret_p (E_KEY_NOT_FOUND, None)
       | Some p \<Rightarrow>
           bind_p (heap_p (malloc blk (vp_length p))) (\<lambda>out.
           bind_p (heap_p (mem_read (vp_ptr p) (vp_length p))) (\<lambda>data.
           bind_p (heap_p (mem_copy out data)) (\<lambda>_. ret_p (S_OK, Some (out, vp_length p))))))"

text \<open>\<open>get_direct\<close> copies into the caller's buffer and returns the new length.\<close>

definition pool_get_direct :: "string \<Rightarrow> addr_t \<Rightarrow> size_t \<Rightarrow> (pool_env, status_t \<times> size_t) prog" where
  "pool_get_direct key out out_len =
     (if out = 0 \<or> out_len = 0 then throw_p API_exception
      else bind_p (find_key key) (\<lambda>i. case i of
          None \<Rightarrow> ret_p (E_KEY_NOT_FOUND, out_len)
        | Some p \<Rightarrow>
            if out_len < vp_length p then ret_p (E_INSUFFICIENT_BUFFER, out_len)
            else bind_p (heap_p (mem_read (vp_ptr p) (vp_length p))) (\<lambda>data.
              bind_p (heap_p (mem_copy out data)) (\<lambda>_. ret_p (S_OK, vp_length p)))))"

definition pool_get_attribute :: "nat \<Rightarrow> string option \<Rightarrow> (pool_env, status_t \<times> nat list option) prog" where
  "pool_get_attribute attr key =
     (if attr = VALUE_LEN then
        (case key of
           None \<Rightarrow> ret_p (E_INVALID_ARG, None)
         | Some k \<Rightarrow> bind_p (find_key k) (\<lambda>i. case i of
             None \<Rightarrow> ret_p (E_KEY_NOT_FOUND, Some [])
           | Some p \<Rightarrow> ret_p (S_OK, Some [vp_length p])))
      else ret_p (E_INVALID_ARG, None))"

text \<open>
  \<open>lock\<close> returns the key handle, the pointer and the length, or blocks when the caller has to
  wait for the lock. A write lock creates a missing object; the guard that protects the
  creation is released before the lock is taken, and both happen here in one step.
\<close>

definition pool_lock ::
    "bool \<Rightarrow> block \<Rightarrow> string \<Rightarrow> nat \<Rightarrow> size_t \<Rightarrow> (pool_env, addr_t \<times> addr_t \<times> size_t) prog" where
  "pool_lock dbg blk key type out_len =
     (let existing = bind_p (find_key key) (\<lambda>entry.
            bind_p (assert_p dbg (entry \<noteq> None)) (\<lambda>_. case entry of
                None \<Rightarrow> throw_p Undefined_behaviour
              | Some p \<Rightarrow> ret_p (vp_ptr p, vp_ptr p, vp_length p)))
      in if type = STORE_LOCK_READ then
           bind_p (get_p (\<lambda>s. ph_lock (pe_pool s))) (\<lambda>l. case l of
               Write_locked \<Rightarrow> throw_p Blocked
             | Unlocked \<Rightarrow> bind_p (set_lock (Read_locked 1)) (\<lambda>_. existing)
             | Read_locked n \<Rightarrow> bind_p (set_lock (Read_locked (Suc n))) (\<lambda>_. existing))
         else if type = STORE_LOCK_WRITE then
           bind_p (get_p (\<lambda>s. ph_lock (pe_pool s))) (\<lambda>l.
             if l \<noteq> Unlocked then throw_p Blocked
             else bind_p (find_key key) (\<lambda>i. case i of
                 None \<Rightarrow>
                   if out_len = 0 then ret_p (KEY_NONE, 0, out_len)
                   else bind_p (heap_p (malloc blk out_len)) (\<lambda>buffer.
                     if buffer = 0 then ret_p (KEY_NONE, 0, out_len)
                     else bind_p (set_key key \<lparr>vp_ptr = buffer, vp_length = out_len\<rparr>) (\<lambda>_.
                       bind_p (set_lock Write_locked) (\<lambda>_. ret_p (buffer, buffer, out_len))))
               | Some _ \<Rightarrow> bind_p (set_lock Write_locked) (\<lambda>_. existing)))
         else throw_p API_exception)"

text \<open>Releasing a lock that is not held is undefined.\<close>

definition pool_unlock :: "(pool_env, unit) prog" where
  "pool_unlock = bind_p (get_p (\<lambda>s. ph_lock (pe_pool s))) (\<lambda>l. case l of
       Unlocked \<Rightarrow> throw_p Undefined_behaviour
     | Read_locked n \<Rightarrow> set_lock (if n \<le> 1 then Unlocked else Read_locked (n - 1))
     | Write_locked \<Rightarrow> set_lock Unlocked)"

text \<open>
  \<open>erase\<close> reads the pointer to release through the iterator it has just erased;
  \<open>dangling\<close> is what that read returns.
\<close>

definition pool_erase :: "(value_pair \<Rightarrow> value_pair) \<Rightarrow> string \<Rightarrow> (pool_env, status_t) prog" where
  "pool_erase dangling key =
     bind_p (find_key key) (\<lambda>i. case i of
         None \<Rightarrow> ret_p E_KEY_NOT_FOUND
       | Some p \<Rightarrow>
           bind_p (update_p (\<lambda>s. s\<lparr>pe_pool := (pe_pool s)\<lparr>ph_map :=
             AList.delete key (ph_map (pe_pool s))\<rparr>\<rparr>)) (\<lambda>_.
           bind_p (heap_p (mem_free (vp_ptr (dangling p)))) (\<lambda>_. ret_p S_OK)))"

definition pool_count :: "(pool_env, nat) prog" where
  "pool_count = get_p (\<lambda>s. length (ph_map (pe_pool s)))"

text \<open>
  \<open>map\<close> and \<open>map_keys\<close> apply a function to every pair in the iteration order of the hash
  table, \<open>iter\<close>; its results are ignored. The function works on a state of its own.
\<close>

fun apply_pairs :: "(string \<Rightarrow> bytes \<Rightarrow> 'c \<Rightarrow> 'c) \<Rightarrow> (string \<times> value_pair) list \<Rightarrow> 'c \<Rightarrow> (heap, 'c) prog" where
  "apply_pairs f [] c = ret_p c"
| "apply_pairs f ((k, vp) # ps) c =
     bind_p (mem_read (vp_ptr vp) (vp_length vp)) (\<lambda>data. apply_pairs f ps (f k data c))"

definition pool_map ::
    "((string \<times> value_pair) list \<Rightarrow> (string \<times> value_pair) list) \<Rightarrow> (string \<Rightarrow> bytes \<Rightarrow> 'c \<Rightarrow> 'c) \<Rightarrow> 'c
      \<Rightarrow> (pool_env, status_t \<times> 'c) prog" where
  "pool_map iter f c =
     bind_p (get_p (\<lambda>s. iter (ph_map (pe_pool s)))) (\<lambda>ps.
       bind_p (heap_p (apply_pairs f ps c)) (\<lambda>c'. ret_p (S_OK, c')))"

definition pool_map_keys ::
    "((string \<times> value_pair) list \<Rightarrow> (string \<times> value_pair) list) \<Rightarrow> (string \<Rightarrow> 'c \<Rightarrow> 'c) \<Rightarrow> 'c
      \<Rightarrow> (pool_env, status_t \<times> 'c) prog" where
  "pool_map_keys iter f c =
     bind_p (get_p (\<lambda>s. iter (ph_map (pe_pool s)))) (\<lambda>ps. ret_p (S_OK, fold f (map fst ps) c))"

section \<open>The store\<close>

text \<open>
  Objects created with \<open>new\<close> are found by their addresses: handles and sessions. \<open>_pools\<close> maps
  names to handles, \<open>_pool_sessions\<close> is the set of open sessions, and every thread caches the
  session it used last.
\<close>

type_synonym thread = nat

record map_store =
  ms_mem :: heap
  ms_handles :: "addr_t \<Rightarrow> pool_handle option"
  ms_session_objs :: "addr_t \<Rightarrow> addr_t option"
  ms_sessions :: "addr_t list"
  ms_pools :: "(string \<times> addr_t) list"
  ms_tls :: "thread \<Rightarrow> addr_t"

definition get_session :: "bool \<Rightarrow> thread \<Rightarrow> addr_t \<Rightarrow> (map_store, addr_t) prog" where
  "get_session dbg t pid =
     bind_p (get_p id) (\<lambda>s.
       if pid \<noteq> ms_tls s t \<and> pid \<notin> set (ms_sessions s) then ret_p 0
       else bind_p (update_p (\<lambda>s. if pid \<noteq> ms_tls s t then s\<lparr>ms_tls := (ms_tls s)(t := pid)\<rparr> else s)) (\<lambda>_.
         bind_p (assert_p dbg (pid \<noteq> 0)) (\<lambda>_. ret_p pid)))"

definition on_pool :: "addr_t \<Rightarrow> (pool_env, 'a) prog \<Rightarrow> (map_store, 'a) prog" where
  "on_pool h act = (\<lambda>s. case ms_handles s h of
       None \<Rightarrow> (Inl Undefined_behaviour, s)
     | Some ph \<Rightarrow> (case act \<lparr>pe_mem = ms_mem s, pe_pool = ph\<rparr> of
         (r, e) \<Rightarrow> (r, s\<lparr>ms_mem := pe_mem e, ms_handles := (ms_handles s)(h \<mapsto> pe_pool e)\<rparr>)))"

definition session_pool :: "addr_t \<Rightarrow> (map_store, addr_t) prog" where
  "session_pool session = bind_p (get_p (\<lambda>s. ms_session_objs s session)) (\<lambda>h. case h of
       None \<Rightarrow> throw_p Undefined_behaviour
     | Some h \<Rightarrow> ret_p h)"

definition with_session :: "bool \<Rightarrow> thread \<Rightarrow> addr_t \<Rightarrow> 'a \<Rightarrow> (pool_env, 'a) prog \<Rightarrow> (map_store, 'a) prog" where
  "with_session dbg t pid not_found act =
     bind_p (get_session dbg t pid) (\<lambda>session.
       if session = 0 then ret_p not_found
       else bind_p (session_pool session) (\<lambda>h. on_pool h act))"

text \<open>\<open>handle\<close> and \<open>session\<close> are the addresses of the objects \<open>new\<close> creates.\<close>

definition create_pool :: "addr_t \<Rightarrow> addr_t \<Rightarrow> string \<Rightarrow> nat \<Rightarrow> (map_store, addr_t) prog" where
  "create_pool handle session name flags =
     (if flag_set flags FLAGS_READ_ONLY then throw_p API_exception
      else bind_p (get_p ms_pools) (\<lambda>pools.
        if flag_set flags FLAGS_CREATE_ONLY \<and> map_of pools name \<noteq> None then ret_p POOL_ERROR
        else bind_p (update_p (\<lambda>s. s\<lparr>
            ms_handles := (ms_handles s)(handle \<mapsto>
              \<lparr>ph_name = name, ph_map = [], ph_lock = Unlocked, ph_flags = flags\<rparr>),
            ms_session_objs := (ms_session_objs s)(session \<mapsto> handle),
            ms_pools := AList.update name handle (ms_pools s),
            ms_sessions := session # ms_sessions s\<rparr>)) (\<lambda>_. ret_p session)))"

definition open_pool :: "addr_t \<Rightarrow> string \<Rightarrow> (map_store, addr_t) prog" where
  "open_pool session name =
     bind_p (get_p (\<lambda>s. map_of (ms_pools s) name)) (\<lambda>ph. case ph of
         None \<Rightarrow> ret_p POOL_ERROR
       | Some h \<Rightarrow> bind_p (update_p (\<lambda>s. s\<lparr>
             ms_session_objs := (ms_session_objs s)(session \<mapsto> h),
             ms_sessions := session # ms_sessions s\<rparr>)) (\<lambda>_. ret_p session))"

definition close_pool :: "bool \<Rightarrow> thread \<Rightarrow> addr_t \<Rightarrow> (map_store, status_t) prog" where
  "close_pool dbg t pid =
     bind_p (get_session dbg t pid) (\<lambda>session.
       if session = 0 then ret_p E_POOL_NOT_FOUND
       else bind_p (update_p (\<lambda>s. s\<lparr>ms_tls := (ms_tls s)(t := 0)\<rparr>)) (\<lambda>_.
         bind_p (session_pool session) (\<lambda>_.
         bind_p (update_p (\<lambda>s. s\<lparr>
             ms_session_objs := (ms_session_objs s)(session := None),
             ms_sessions := removeAll session (ms_sessions s)\<rparr>)) (\<lambda>_. ret_p S_OK))))"

text \<open>The names of the pools that have a session, read through the session objects.\<close>

definition session_name :: "map_store \<Rightarrow> addr_t \<Rightarrow> string option" where
  "session_name s session = (case ms_session_objs s session of
     None \<Rightarrow> None | Some h \<Rightarrow> map_option ph_name (ms_handles s h))"

fun any_session :: "map_store \<Rightarrow> string \<Rightarrow> addr_t list \<Rightarrow> bool result" where
  "any_session s name [] = Inr False"
| "any_session s name (x # xs) = (case session_name s x of
     None \<Rightarrow> Inl Undefined_behaviour
   | Some n \<Rightarrow> if n = name then Inr True else any_session s name xs)"

definition delete_pool :: "string \<Rightarrow> (map_store, status_t) prog" where
  "delete_pool name =
     bind_p (get_p (\<lambda>s. map_of (ms_pools s) name)) (\<lambda>ph. case ph of
         None \<Rightarrow> ret_p E_POOL_NOT_FOUND
       | Some h \<Rightarrow>
           bind_p (get_p (\<lambda>s. any_session s name (ms_sessions s))) (\<lambda>r.
           bind_p (lift_p r) (\<lambda>busy.
             if busy then ret_p E_ALREADY_OPEN
             else bind_p (update_p (\<lambda>s. s\<lparr>ms_pools := AList.delete name (ms_pools s),
               ms_handles := (ms_handles s)(h := None)\<rparr>)) (\<lambda>_. ret_p S_OK))))"

definition ms_put :: "bool \<Rightarrow> thread \<Rightarrow> addr_t \<Rightarrow> block \<Rightarrow> string \<Rightarrow> bytes option \<Rightarrow> nat \<Rightarrow> (map_store, status_t) prog" where
  "ms_put dbg t pid blk key value flags = with_session dbg t pid E_POOL_NOT_FOUND (pool_put blk key value flags)"

definition ms_put_direct :: "bool \<Rightarrow> thread \<Rightarrow> addr_t \<Rightarrow> block \<Rightarrow> string \<Rightarrow> bytes option \<Rightarrow> nat \<Rightarrow> (map_store, status_t) prog" where
  "ms_put_direct dbg t pid blk key value flags = ms_put dbg t pid blk key value flags"

definition ms_get :: "bool \<Rightarrow> thread \<Rightarrow> addr_t \<Rightarrow> block \<Rightarrow> string \<Rightarrow> (map_store, status_t \<times> (addr_t \<times> size_t) option) prog" where
  "ms_get dbg t pid blk key = with_session dbg t pid (E_POOL_NOT_FOUND, None) (pool_get blk key)"

definition ms_get_direct :: "bool \<Rightarrow> thread \<Rightarrow> addr_t \<Rightarrow> string \<Rightarrow> addr_t \<Rightarrow> size_t \<Rightarrow> (map_store, status_t \<times> size_t) prog" where
  "ms_get_direct dbg t pid key out out_len =
     with_session dbg t pid (E_POOL_NOT_FOUND, out_len) (pool_get_direct key out out_len)"

definition ms_get_attribute :: "bool \<Rightarrow> thread \<Rightarrow> addr_t \<Rightarrow> nat \<Rightarrow> string option \<Rightarrow> (map_store, status_t \<times> nat list option) prog" where
  "ms_get_attribute dbg t pid attr key =
     with_session dbg t pid (E_POOL_NOT_FOUND, None) (pool_get_attribute attr key)"

text \<open>\<open>lock\<close> on an unknown pool returns \<open>E_FAIL\<close> and no key; otherwise \<open>S_OK\<close>, whatever the key.\<close>

definition ms_lock ::
    "bool \<Rightarrow> thread \<Rightarrow> addr_t \<Rightarrow> block \<Rightarrow> string \<Rightarrow> nat \<Rightarrow> size_t \<Rightarrow> (map_store, status_t \<times> addr_t \<times> addr_t \<times> size_t) prog" where
  "ms_lock dbg t pid blk key type out_len =
     with_session dbg t pid (E_FAIL, KEY_NONE, 0, out_len)
       (bind_p (pool_lock dbg blk key type out_len) (\<lambda>r. ret_p (S_OK, r)))"

definition ms_unlock :: "bool \<Rightarrow> thread \<Rightarrow> addr_t \<Rightarrow> (map_store, status_t) prog" where
  "ms_unlock dbg t pid = with_session dbg t pid E_POOL_NOT_FOUND (bind_p pool_unlock (\<lambda>_. ret_p S_OK))"

definition ms_erase :: "(value_pair \<Rightarrow> value_pair) \<Rightarrow> bool \<Rightarrow> thread \<Rightarrow> addr_t \<Rightarrow> string \<Rightarrow> (map_store, status_t) prog" where
  "ms_erase dangling dbg t pid key = with_session dbg t pid E_POOL_NOT_FOUND (pool_erase dangling key)"

text \<open>\<open>count\<close> returns a \<open>size_t\<close>: the error code wraps.\<close>

definition ms_count :: "bool \<Rightarrow> thread \<Rightarrow> addr_t \<Rightarrow> (map_store, size_t) prog" where
  "ms_count dbg t pid = with_session dbg t pid (nat (E_POOL_NOT_FOUND mod int W64)) pool_count"

definition ms_map ::
    "((string \<times> value_pair) list \<Rightarrow> (string \<times> value_pair) list) \<Rightarrow> bool \<Rightarrow> thread \<Rightarrow> addr_t
      \<Rightarrow> (string \<Rightarrow> bytes \<Rightarrow> 'c \<Rightarrow> 'c) \<Rightarrow> 'c \<Rightarrow> (map_store, status_t \<times> 'c) prog" where
  "ms_map iter dbg t pid f c = with_session dbg t pid (E_POOL_NOT_FOUND, c) (pool_map iter f c)"

definition ms_map_keys ::
    "((string \<times> value_pair) list \<Rightarrow> (string \<times> value_pair) list) \<Rightarrow> bool \<Rightarrow> thread \<Rightarrow> addr_t
      \<Rightarrow> (string \<Rightarrow> 'c \<Rightarrow> 'c) \<Rightarrow> 'c \<Rightarrow> (map_store, status_t \<times> 'c) prog" where
  "ms_map_keys iter dbg t pid f c = with_session dbg t pid (E_POOL_NOT_FOUND, c) (pool_map_keys iter f c)"

definition ms_free_memory :: "addr_t \<Rightarrow> (map_store, status_t) prog" where
  "ms_free_memory p = (\<lambda>s. case mem_free p (ms_mem s) of
     (Inl e, m) \<Rightarrow> (Inl e, s\<lparr>ms_mem := m\<rparr>) | (Inr _, m) \<Rightarrow> (Inr S_OK, s\<lparr>ms_mem := m\<rparr>))"

datatype capability = POOL_DELETE_CHECK | RWLOCK_PER_POOL | POOL_THREAD_SAFE

fun get_capability :: "capability \<Rightarrow> int" where
  "get_capability POOL_DELETE_CHECK = 1"
| "get_capability POOL_THREAD_SAFE = 1"
| "get_capability RWLOCK_PER_POOL = 1"

end
