(* ===== verification/Map_Store_Props.thy ===== *)
theory Map_Store_Props
  imports Map_Store
begin

text \<open>
  Correctness of the in-memory key-value store. A pool in its invariant is a partial map from
  keys to byte strings; \<open>put\<close>, \<open>get\<close>, \<open>erase\<close> and \<open>count\<close> refine the operations of that map on
  every history in which no value changes its size. What happens when a size does change,
  when a pool is created over an existing one and when a session is closed by another thread
  is stated as properties of their own.
\<close>

section \<open>Heap and pool operations\<close>

lemma heap_runs [simp]:
  "a \<noteq> 0 \<Longrightarrow> malloc (a, junk) n m = (Inr a, m(a \<mapsto> map junk [0..<n]))"
  "p \<noteq> 0 \<Longrightarrow> m p = Some bs \<Longrightarrow> n \<le> length bs \<Longrightarrow> mem_read p n m = (Inr (take n bs), m)"
  "p \<noteq> 0 \<Longrightarrow> m p = Some bs \<Longrightarrow> length data \<le> length bs \<Longrightarrow>
     mem_copy p data m = (Inr (), m(p \<mapsto> data @ drop (length data) bs))"
  "p \<noteq> 0 \<Longrightarrow> m p = Some bs \<Longrightarrow> mem_free p m = (Inr (), m(p := None))"
  by (simp_all add: malloc_def mem_read_def mem_copy_def mem_free_def)

lemma heap_p_run [simp]:
  "m (pe_mem s) = (r, h) \<Longrightarrow> heap_p m s = (r, s\<lparr>pe_mem := h\<rparr>)"
  by (simp add: heap_p_def)

lemma pool_runs [simp]:
  "find_key key s = (Inr (map_of (ph_map (pe_pool s)) key), s)"
  "set_key key vp s = (Inr (), s\<lparr>pe_pool := (pe_pool s)\<lparr>ph_map := AList.update key vp (ph_map (pe_pool s))\<rparr>\<rparr>)"
  "set_lock l s = (Inr (), s\<lparr>pe_pool := (pe_pool s)\<lparr>ph_lock := l\<rparr>\<rparr>)"
  by (simp_all add: find_key_def set_key_def set_lock_def)

definition ptrs :: "pool_handle \<Rightarrow> addr_t set" where
  "ptrs ph = vp_ptr ` snd ` set (ph_map ph)"

definition pool_ok :: "heap \<Rightarrow> pool_handle \<Rightarrow> bool" where
  "pool_ok m ph \<longleftrightarrow> distinct (map fst (ph_map ph)) \<and> distinct (map (vp_ptr \<circ> snd) (ph_map ph)) \<and>
     (\<forall>(k, vp) \<in> set (ph_map ph). vp_ptr vp \<noteq> 0 \<and> (\<exists>bs. m (vp_ptr vp) = Some bs \<and> vp_length vp = length bs))"

definition pool_view :: "heap \<Rightarrow> pool_handle \<Rightarrow> string \<Rightarrow> bytes option" where
  "pool_view m ph key = Option.bind (map_of (ph_map ph) key) (\<lambda>vp. m (vp_ptr vp))"

lemma pool_okD:
  assumes "pool_ok m ph" "map_of (ph_map ph) key = Some vp"
  obtains bs where "vp_ptr vp \<noteq> 0" "m (vp_ptr vp) = Some bs" "vp_length vp = length bs"
    "vp_ptr vp \<in> ptrs ph" "pool_view m ph key = Some bs"
proof -
  have i: "(key, vp) \<in> set (ph_map ph)" using assms(2) by (rule map_of_SomeD)
  then have "vp_ptr vp \<in> ptrs ph" unfolding ptrs_def by force
  moreover obtain bs where "vp_ptr vp \<noteq> 0" "m (vp_ptr vp) = Some bs" "vp_length vp = length bs"
    using assms(1) i by (auto simp: pool_ok_def)
  ultimately show ?thesis using that assms(2) by (simp add: pool_view_def)
qed

lemma pool_view_None: "pool_ok m ph \<Longrightarrow> pool_view m ph key = None \<longleftrightarrow> map_of (ph_map ph) key = None"
  by (cases "map_of (ph_map ph) key") (auto simp: pool_view_def elim: pool_okD)

lemma pool_view_empty: "ph_map ph = [] \<Longrightarrow> pool_view m ph = Map.empty"
  by (simp add: pool_view_def fun_eq_iff)

lemma ptrs_mem: "map_of (ph_map ph) key = Some vp \<Longrightarrow> vp_ptr vp \<in> ptrs ph"
  unfolding ptrs_def by (force dest: map_of_SomeD)

lemma pool_frame:
  assumes "\<forall>p \<in> ptrs ph. m' p = m p"
  shows "pool_ok m' ph = pool_ok m ph" "pool_view m' ph = pool_view m ph"
proof -
  have eq: "m' (vp_ptr vp) = m (vp_ptr vp)" if "(k, vp) \<in> set (ph_map ph)" for k vp
    using assms that by (force simp: ptrs_def)
  show "pool_ok m' ph = pool_ok m ph" using eq by (auto simp: pool_ok_def; force)
  show "pool_view m' ph = pool_view m ph"
    using eq by (auto simp: pool_view_def fun_eq_iff dest: map_of_SomeD split: bind_splits)
qed

text \<open>Two keys of a pool never share a buffer.\<close>

lemma ptr_inj:
  assumes "pool_ok m ph" "map_of (ph_map ph) k = Some vp" "map_of (ph_map ph) k' = Some vp'" "vp_ptr vp = vp_ptr vp'"
  shows "k = k'"
proof -
  have "inj_on (vp_ptr \<circ> snd) (set (ph_map ph))" using assms(1) by (simp add: pool_ok_def distinct_map)
  moreover have "(k, vp) \<in> set (ph_map ph)" "(k', vp') \<in> set (ph_map ph)"
    using assms(2,3) by (auto dest: map_of_SomeD)
  ultimately have "(k, vp) = (k', vp')" using assms(4) inj_onD [of "vp_ptr \<circ> snd" "set (ph_map ph)" "(k, vp)" "(k', vp')"] by simp
  then show ?thesis by simp
qed

lemma update_absent: "k \<notin> fst ` set al \<Longrightarrow> AList.update k v al = al @ [(k, v)]"
  by (induction al) auto

section \<open>The four operations on one pool\<close>

lemma pool_put_new:
  assumes "pool_ok m ph" "map_of (ph_map ph) key = None" "data \<noteq> []" "a \<noteq> 0" "m a = None"
  defines "ph' \<equiv> ph\<lparr>ph_map := ph_map ph @ [(key, \<lparr>vp_ptr = a, vp_length = length data\<rparr>)]\<rparr>"
  shows "pool_put (a, junk) key (Some data) flags \<lparr>pe_mem = m, pe_pool = ph\<rparr> =
      (Inr S_OK, \<lparr>pe_mem = m(a \<mapsto> data), pe_pool = ph'\<rparr>)"
    and "pool_ok (m(a \<mapsto> data)) ph'" "pool_view (m(a \<mapsto> data)) ph' = (pool_view m ph)(key \<mapsto> data)"
    and "ptrs ph' = insert a (ptrs ph)"
proof -
  have nk: "key \<notin> fst ` set (ph_map ph)" using assms(2) by (simp add: map_of_eq_None_iff)
  show "pool_put (a, junk) key (Some data) flags \<lparr>pe_mem = m, pe_pool = ph\<rparr> =
      (Inr S_OK, \<lparr>pe_mem = m(a \<mapsto> data), pe_pool = ph'\<rparr>)"
    using assms(2-4) nk by (simp add: pool_put_def ph'_def update_absent)
  have na: "a \<notin> ptrs ph" using assms(1,5) by (force simp: pool_ok_def ptrs_def)
  then have f: "pool_ok (m(a \<mapsto> data)) ph" "pool_view (m(a \<mapsto> data)) ph = pool_view m ph"
    using pool_frame [of ph "m(a \<mapsto> data)" m] assms(1) by auto
  show "ptrs ph' = insert a (ptrs ph)" by (auto simp: ptrs_def ph'_def)
  show "pool_ok (m(a \<mapsto> data)) ph'"
    using f(1) nk na assms(4) by (auto simp: pool_ok_def ph'_def ptrs_def image_image)
  show "pool_view (m(a \<mapsto> data)) ph' = (pool_view m ph)(key \<mapsto> data)"
  proof
    fix k
    show "pool_view (m(a \<mapsto> data)) ph' k = ((pool_view m ph)(key \<mapsto> data)) k"
      using fun_cong [OF f(2), of k] assms(2) by (auto simp: pool_view_def ph'_def map_add_def split: option.splits)
  qed
qed

lemma pool_put_same_size:
  assumes "pool_ok m ph" "pool_view m ph key = Some old" "length data = length old" "data \<noteq> []"
    "\<not> flag_set flags FLAGS_DONT_STOMP"
  obtains p where "pool_put blk key (Some data) flags \<lparr>pe_mem = m, pe_pool = ph\<rparr> =
      (Inr S_OK, \<lparr>pe_mem = m(p \<mapsto> data), pe_pool = ph\<rparr>)"
    "p \<in> ptrs ph" "pool_ok (m(p \<mapsto> data)) ph" "pool_view (m(p \<mapsto> data)) ph = (pool_view m ph)(key \<mapsto> data)"
proof -
  obtain vp where vp: "map_of (ph_map ph) key = Some vp" using assms(2) by (auto simp: pool_view_def split: bind_splits)
  with pool_okD [OF assms(1)] obtain bs where bs: "vp_ptr vp \<noteq> 0" "m (vp_ptr vp) = Some bs" "vp_length vp = length bs"
    "vp_ptr vp \<in> ptrs ph" by blast
  then have "bs = old" using assms(2) vp by (simp add: pool_view_def)
  let ?m = "m(vp_ptr vp \<mapsto> data)"
  have "pool_put blk key (Some data) flags \<lparr>pe_mem = m, pe_pool = ph\<rparr> = (Inr S_OK, \<lparr>pe_mem = ?m, pe_pool = ph\<rparr>)"
    using vp bs assms(3-5) \<open>bs = old\<close> by (simp add: pool_put_def)
  moreover have "pool_ok ?m ph"
  proof -
    have "vp_length vp' = length data" if "(k, vp') \<in> set (ph_map ph)" "vp_ptr vp' = vp_ptr vp" for k vp'
    proof -
      have "map_of (ph_map ph) k = Some vp'" using that(1) assms(1) by (simp add: pool_ok_def)
      then have "k = key" using ptr_inj [OF assms(1) _ vp] that(2) by blast
      with \<open>map_of (ph_map ph) k = Some vp'\<close> vp show ?thesis using bs(3) assms(3) \<open>bs = old\<close> by simp
    qed
    then show ?thesis using assms(1) by (auto simp: pool_ok_def; blast)
  qed
  moreover have "pool_view ?m ph = (pool_view m ph)(key \<mapsto> data)"
  proof
    fix k
    show "pool_view ?m ph k = ((pool_view m ph)(key \<mapsto> data)) k"
    proof (cases "k = key")
      case True
      then show ?thesis using vp by (simp add: pool_view_def)
    next
      case False
      then show ?thesis using ptr_inj [OF assms(1) _ vp] by (auto simp: pool_view_def split: bind_splits)
    qed
  qed
  ultimately show ?thesis using that bs(4) by blast
qed

lemma pool_put_stomp:
  assumes "pool_ok m ph" "pool_view m ph key = Some old" "data \<noteq> []" "flag_set flags FLAGS_DONT_STOMP"
  shows "pool_put blk key (Some data) flags \<lparr>pe_mem = m, pe_pool = ph\<rparr> = (Inr E_KEY_EXISTS, \<lparr>pe_mem = m, pe_pool = ph\<rparr>)"
proof -
  obtain vp where "map_of (ph_map ph) key = Some vp" using assms(2) by (auto simp: pool_view_def split: bind_splits)
  then show ?thesis using assms(3,4) by (simp add: pool_put_def)
qed

lemma pool_get_run:
  assumes "pool_ok m ph" "a \<noteq> 0" "m a = None"
  shows "pool_get (a, junk) key \<lparr>pe_mem = m, pe_pool = ph\<rparr> = (case pool_view m ph key of
      None \<Rightarrow> (Inr (E_KEY_NOT_FOUND, None), \<lparr>pe_mem = m, pe_pool = ph\<rparr>)
    | Some bs \<Rightarrow> (Inr (S_OK, Some (a, length bs)), \<lparr>pe_mem = m(a \<mapsto> bs), pe_pool = ph\<rparr>))"
proof (cases "map_of (ph_map ph) key")
  case None
  then show ?thesis by (simp add: pool_get_def pool_view_def)
next
  case (Some vp)
  with pool_okD [OF assms(1)] obtain bs where bs: "vp_ptr vp \<noteq> 0" "m (vp_ptr vp) = Some bs" "vp_length vp = length bs"
    "pool_view m ph key = Some bs" by blast
  have "vp_ptr vp \<noteq> a" using bs(2) assms(3) by auto
  then show ?thesis using Some bs assms(2) by (simp add: pool_get_def)
qed

lemma pool_erase_run:
  assumes "pool_ok m ph" "pool_view m ph key = Some bs"
  obtains p ph' where "pool_erase id key \<lparr>pe_mem = m, pe_pool = ph\<rparr> = (Inr S_OK, \<lparr>pe_mem = m(p := None), pe_pool = ph'\<rparr>)"
    "p \<in> ptrs ph" "ptrs ph' \<subseteq> ptrs ph" "pool_ok (m(p := None)) ph'"
    "pool_view (m(p := None)) ph' = (pool_view m ph)(key := None)" "ph_name ph' = ph_name ph"
proof -
  obtain vp where vp: "map_of (ph_map ph) key = Some vp" using assms(2) by (auto simp: pool_view_def split: bind_splits)
  with pool_okD [OF assms(1)] obtain bs' where bs: "vp_ptr vp \<noteq> 0" "m (vp_ptr vp) = Some bs'" "vp_ptr vp \<in> ptrs ph" by blast
  let ?p = "vp_ptr vp" and ?ph = "ph\<lparr>ph_map := AList.delete key (ph_map ph)\<rparr>"
  have run: "pool_erase id key \<lparr>pe_mem = m, pe_pool = ph\<rparr> = (Inr S_OK, \<lparr>pe_mem = m(?p := None), pe_pool = ?ph\<rparr>)"
    using vp bs by (simp add: pool_erase_def)
  have sub: "set (ph_map ?ph) = {x \<in> set (ph_map ph). fst x \<noteq> key}" by (auto simp: AList.delete_eq)
  have d: "distinct (map fst (ph_map ph))" using assms(1) by (simp add: pool_ok_def)
  have other: "vp_ptr vp' \<noteq> ?p" if "(k, vp') \<in> set (ph_map ph)" "k \<noteq> key" for k vp'
    using ptr_inj [OF assms(1) _ vp, of k vp'] that d by (metis map_of_eq_Some_iff)
  have notin: "?p \<notin> ptrs ?ph" unfolding ptrs_def sub by (auto dest: other)
  have "ptrs ?ph \<subseteq> ptrs ph" unfolding ptrs_def sub by blast
  moreover have "pool_ok (m(?p := None)) ?ph"
  proof -
    have "pool_ok m ?ph"
      using assms(1) sub unfolding pool_ok_def
      by (auto simp: AList.delete_eq distinct_map_filter)
    then show ?thesis using pool_frame(1) [of ?ph "m(?p := None)" m] notin by auto
  qed
  moreover have "pool_view (m(?p := None)) ?ph = (pool_view m ph)(key := None)"
  proof
    fix k
    show "pool_view (m(?p := None)) ?ph k = ((pool_view m ph)(key := None)) k"
    proof (cases "k = key")
      case False
      then show ?thesis using other [OF map_of_SomeD False]
        by (auto simp: pool_view_def AList.delete_conv' split: bind_splits)
    qed (simp add: pool_view_def AList.delete_conv')
  qed
  ultimately show ?thesis using that [of ?p ?ph] run bs(3) by simp
qed

lemma pool_count_run:
  assumes "pool_ok m ph"
  shows "pool_count \<lparr>pe_mem = m, pe_pool = ph\<rparr> = (Inr (card (dom (pool_view m ph))), \<lparr>pe_mem = m, pe_pool = ph\<rparr>)"
proof -
  have "dom (pool_view m ph) = dom (map_of (ph_map ph))"
    using pool_view_None [OF assms] by (auto simp: dom_def)
  also have "\<dots> = fst ` set (ph_map ph)" by (rule dom_map_of_conv_image_fst)
  also have "card \<dots> = length (ph_map ph)"
    using assms distinct_card [of "map fst (ph_map ph)"] by (simp add: pool_ok_def)
  finally show ?thesis by (simp add: pool_count_def)
qed

section \<open>The store\<close>

definition store_ok :: "map_store \<Rightarrow> bool" where
  "store_ok s \<longleftrightarrow>
     (\<forall>h ph. ms_handles s h = Some ph \<longrightarrow> pool_ok (ms_mem s) ph) \<and>
     (\<forall>h h' ph ph'. ms_handles s h = Some ph \<longrightarrow> ms_handles s h' = Some ph' \<longrightarrow> h \<noteq> h' \<longrightarrow> ptrs ph \<inter> ptrs ph' = {}) \<and>
     (\<forall>x \<in> set (ms_sessions s). x \<noteq> 0 \<and> (\<exists>h ph. ms_session_objs s x = Some h \<and> ms_handles s h = Some ph))"

definition is_open :: "map_store \<Rightarrow> addr_t \<Rightarrow> addr_t \<Rightarrow> bool" where
  "is_open s pid h \<longleftrightarrow> pid \<in> set (ms_sessions s) \<and> ms_session_objs s pid = Some h"

definition store_view :: "map_store \<Rightarrow> addr_t \<Rightarrow> string \<Rightarrow> bytes option" where
  "store_view s h = (case ms_handles s h of None \<Rightarrow> Map.empty | Some ph \<Rightarrow> pool_view (ms_mem s) ph)"

lemma is_openD:
  assumes "store_ok s" "is_open s pid h"
  obtains ph where "ms_handles s h = Some ph" "pid \<noteq> 0" "pool_ok (ms_mem s) ph" "store_view s h = pool_view (ms_mem s) ph"
proof -
  obtain ph where "ms_handles s h = Some ph" "pid \<noteq> 0" using assms by (auto simp: store_ok_def is_open_def)
  moreover have "pool_ok (ms_mem s) ph" using assms(1) calculation by (simp add: store_ok_def)
  ultimately show ?thesis using that by (simp add: store_view_def)
qed

definition pool_result :: "map_store \<Rightarrow> thread \<Rightarrow> addr_t \<Rightarrow> addr_t \<Rightarrow> pool_env \<Rightarrow> map_store" where
  "pool_result s t pid h e = s\<lparr>ms_mem := pe_mem e, ms_handles := (ms_handles s)(h \<mapsto> pe_pool e),
     ms_tls := (ms_tls s)(t := pid)\<rparr>"

lemma with_session_run:
  assumes "pid \<noteq> 0" "is_open s pid h" "ms_handles s h = Some ph"
    "act \<lparr>pe_mem = ms_mem s, pe_pool = ph\<rparr> = (r, e)"
  shows "with_session dbg t pid nf act s = (r, pool_result s t pid h e)"
proof -
  have pid: "pid \<noteq> 0" "pid \<in> set (ms_sessions s)" "ms_session_objs s pid = Some h"
    using assms(1,2) by (auto simp: is_open_def)
  have "get_session dbg t pid s = (Inr pid, s\<lparr>ms_tls := (ms_tls s)(t := pid)\<rparr>)"
    using pid(1,2) by (auto simp: get_session_def)
  then show ?thesis
    using pid assms(3,4) by (simp add: with_session_def session_pool_def on_pool_def pool_result_def)
qed

text \<open>
  A pool method may write the pool's own buffers and buffers that did not exist before;
  every other pool then keeps its contents.
\<close>

lemma pool_result_ok:
  assumes ok: "store_ok s" and op: "is_open s pid h" "ms_handles s h = Some ph"
    and e: "pool_ok (pe_mem e) (pe_pool e)" "ptrs (pe_pool e) \<subseteq> ptrs ph \<union> {p. ms_mem s p = None}"
      "\<forall>p. p \<notin> ptrs ph \<longrightarrow> ms_mem s p \<noteq> None \<longrightarrow> pe_mem e p = ms_mem s p"
  shows "store_ok (pool_result s t pid h e)" "is_open (pool_result s t pid h e) pid h"
    "store_view (pool_result s t pid h e) h = pool_view (pe_mem e) (pe_pool e)"
    "\<forall>h'. h' \<noteq> h \<longrightarrow> store_view (pool_result s t pid h e) h' = store_view s h'"
proof -
  have frame: "\<forall>p \<in> ptrs ph'. pe_mem e p = ms_mem s p" if "ms_handles s h' = Some ph'" "h' \<noteq> h" for h' ph'
  proof
    fix p assume p: "p \<in> ptrs ph'"
    have "pool_ok (ms_mem s) ph'" "ptrs ph' \<inter> ptrs ph = {}" using ok op(2) that by (auto simp: store_ok_def)
    moreover have "ms_mem s p \<noteq> None" using p calculation(1) by (force simp: pool_ok_def ptrs_def)
    ultimately show "pe_mem e p = ms_mem s p" using e(3) p by blast
  qed
  have used: "ms_mem s p \<noteq> None" if "ms_handles s h' = Some ph'" "p \<in> ptrs ph'" for h' ph' p
    using ok that by (force simp: store_ok_def pool_ok_def ptrs_def)
  show "store_ok (pool_result s t pid h e)"
    unfolding store_ok_def
  proof (intro conjI allI impI)
    fix h1 ph1 assume a: "ms_handles (pool_result s t pid h e) h1 = Some ph1"
    show "pool_ok (ms_mem (pool_result s t pid h e)) ph1"
    proof (cases "h1 = h")
      case True
      then show ?thesis using a e(1) by (simp add: pool_result_def)
    next
      case False
      then have "ms_handles s h1 = Some ph1" using a by (simp add: pool_result_def)
      with pool_frame(1) [OF frame [OF this False]] ok show ?thesis by (simp add: pool_result_def store_ok_def)
    qed
    fix h2 ph2 assume b: "ms_handles (pool_result s t pid h e) h2 = Some ph2" "h1 \<noteq> h2"
    have new: "ptrs (pe_pool e) \<inter> ptrs ph' = {}" if "ms_handles s h' = Some ph'" "h' \<noteq> h" for h' ph'
    proof -
      have "ptrs ph \<inter> ptrs ph' = {}" using ok op(2) that by (auto simp: store_ok_def)
      moreover have "{p. ms_mem s p = None} \<inter> ptrs ph' = {}" using used [OF that(1)] by blast
      ultimately show ?thesis using e(2) by blast
    qed
    show "ptrs ph1 \<inter> ptrs ph2 = {}"
      using a b ok new [of h1 ph1] new [of h2 ph2]
      by (auto simp: pool_result_def store_ok_def split: if_splits)
  next
    show "\<forall>x \<in> set (ms_sessions (pool_result s t pid h e)). x \<noteq> 0 \<and>
        (\<exists>ha ph. ms_session_objs (pool_result s t pid h e) x = Some ha \<and> ms_handles (pool_result s t pid h e) ha = Some ph)"
    proof
      fix x assume "x \<in> set (ms_sessions (pool_result s t pid h e))"
      then obtain h1 ph1 where "x \<noteq> 0" "ms_session_objs s x = Some h1" "ms_handles s h1 = Some ph1"
        using ok by (auto simp: pool_result_def store_ok_def)
      then show "x \<noteq> 0 \<and>
        (\<exists>ha ph. ms_session_objs (pool_result s t pid h e) x = Some ha \<and> ms_handles (pool_result s t pid h e) ha = Some ph)"
        by (cases "h1 = h") (simp_all add: pool_result_def)
    qed
  qed
  show "is_open (pool_result s t pid h e) pid h" using op(1) by (simp add: is_open_def pool_result_def)
  show "store_view (pool_result s t pid h e) h = pool_view (pe_mem e) (pe_pool e)"
    by (simp add: store_view_def pool_result_def)
  show "\<forall>h'. h' \<noteq> h \<longrightarrow> store_view (pool_result s t pid h e) h' = store_view s h'"
    using pool_frame(2) [OF frame] by (auto simp: store_view_def pool_result_def split: option.splits)
qed

section \<open>Refinement of a partial map\<close>

datatype kv_op = Put string bytes nat | Get string | Erase string | Count
datatype kv_res = R_status status_t | R_value "bytes option" | R_count nat

definition kv_abs :: "kv_op \<Rightarrow> (string \<Rightarrow> bytes option) \<Rightarrow> kv_res \<times> (string \<Rightarrow> bytes option)" where
  "kv_abs op v = (case op of
       Put k d flags \<Rightarrow>
         if d = [] then (R_status E_INVAL, v)
         else if v k \<noteq> None \<and> flag_set flags FLAGS_DONT_STOMP then (R_status E_KEY_EXISTS, v)
         else (R_status S_OK, v(k \<mapsto> d))
     | Get k \<Rightarrow> (R_value (v k), v)
     | Erase k \<Rightarrow> (R_status (if v k = None then E_KEY_NOT_FOUND else S_OK), v(k := None))
     | Count \<Rightarrow> (R_count (card (dom v)), v))"

text \<open>The same requests served by the store; a value is read from the copy \<open>get\<close> returns.\<close>

definition kv_conc :: "bool \<Rightarrow> thread \<Rightarrow> addr_t \<Rightarrow> block \<Rightarrow> kv_op \<Rightarrow> (map_store, kv_res) prog" where
  "kv_conc dbg t pid blk op = (case op of
       Put k d flags \<Rightarrow> bind_p (ms_put dbg t pid blk k (Some d) flags) (\<lambda>r. ret_p (R_status r))
     | Get k \<Rightarrow> bind_p (ms_get dbg t pid blk k) (\<lambda>(r, out).
         get_p (\<lambda>s. R_value (Option.bind out (\<lambda>(a, n). map_option (take n) (ms_mem s a)))))
     | Erase k \<Rightarrow> bind_p (ms_erase id dbg t pid k) (\<lambda>r. ret_p (R_status r))
     | Count \<Rightarrow> bind_p (ms_count dbg t pid) (\<lambda>n. ret_p (R_count n)))"

definition size_kept :: "kv_op \<Rightarrow> (string \<Rightarrow> bytes option) \<Rightarrow> bool" where
  "size_kept op v = (case op of
     Put k d flags \<Rightarrow> (case v k of None \<Rightarrow> True
       | Some old \<Rightarrow> length d = length old \<or> d = [] \<or> flag_set flags FLAGS_DONT_STOMP)
   | _ \<Rightarrow> True)"

lemma kv_step:
  assumes ok: "store_ok s" and op: "is_open s pid h" and a: "a \<noteq> 0" "ms_mem s a = None"
    and sz: "size_kept op (store_view s h)"
  obtains s' where "kv_conc dbg t pid (a, junk) op s = (Inr (fst (kv_abs op (store_view s h))), s')"
    "store_view s' h = snd (kv_abs op (store_view s h))" "store_ok s'" "is_open s' pid h"
    "\<forall>h'. h' \<noteq> h \<longrightarrow> store_view s' h' = store_view s h'" "dom (ms_mem s') \<subseteq> insert a (dom (ms_mem s))"
proof -
  obtain ph where ph: "ms_handles s h = Some ph" "pool_ok (ms_mem s) ph" "store_view s h = pool_view (ms_mem s) ph"
    and pid: "pid \<noteq> 0" using is_openD [OF ok op] by blast
  let ?e = "\<lparr>pe_mem = ms_mem s, pe_pool = ph\<rparr>"
  note run = with_session_run [OF pid op ph(1)]
  note finish = that
  have na: "a \<notin> ptrs ph" using ph(2) a(2) by (force simp: pool_ok_def ptrs_def)
  have here: thesis
    if "kv_conc dbg t pid (a, junk) op s = (Inr (fst (kv_abs op (store_view s h))), pool_result s t pid h e)"
      "pool_ok (pe_mem e) (pe_pool e)" "ptrs (pe_pool e) \<subseteq> ptrs ph \<union> {p. ms_mem s p = None}"
      "\<forall>p. p \<notin> ptrs ph \<longrightarrow> ms_mem s p \<noteq> None \<longrightarrow> pe_mem e p = ms_mem s p"
      "pool_view (pe_mem e) (pe_pool e) = snd (kv_abs op (pool_view (ms_mem s) ph))"
      "dom (pe_mem e) \<subseteq> insert a (dom (ms_mem s))" for e
    using pool_result_ok [OF ok op ph(1) that(2-4), of t] that(1,5,6) ph(3)
    by (intro finish [of "pool_result s t pid h e"]) (simp_all add: pool_result_def)
  note defs = kv_conc_def kv_abs_def ms_put_def ms_get_def ms_erase_def ms_count_def
  show thesis
  proof (cases op)
    case (Put k d flags)
    show thesis
    proof (cases "d = []")
      case True
      have "pool_put (a, junk) k (Some d) flags ?e = (Inr E_INVAL, ?e)" using True by (simp add: pool_put_def)
      from run [where act = "pool_put (a, junk) k (Some d) flags", OF this, of dbg t E_POOL_NOT_FOUND] show ?thesis
        using Put True ph(2) by (intro here [of ?e]) (auto simp: defs)
    next
      case False
      show ?thesis
      proof (cases "pool_view (ms_mem s) ph k")
        case None
        let ?vp = "\<lparr>vp_ptr = a, vp_length = length d\<rparr>"
        let ?e' = "\<lparr>pe_mem = (ms_mem s)(a \<mapsto> d), pe_pool = ph\<lparr>ph_map := ph_map ph @ [(k, ?vp)]\<rparr>\<rparr>"
        have nk: "map_of (ph_map ph) k = None" using None pool_view_None [OF ph(2)] by blast
        note new = pool_put_new [OF ph(2) nk False a]
        from run [where act = "pool_put (a, junk) k (Some d) flags", OF new(1), of dbg t E_POOL_NOT_FOUND] show ?thesis
          using Put False None new(2-4) a(2) ph(3) by (intro here [of ?e']) (auto simp: defs)
      next
        case (Some old)
        show ?thesis
        proof (cases "flag_set flags FLAGS_DONT_STOMP")
          case True
          from run [where act = "pool_put (a, junk) k (Some d) flags", OF pool_put_stomp [OF ph(2) Some False True], of dbg t E_POOL_NOT_FOUND] show ?thesis
            using Put False Some True ph(2,3) by (intro here [of ?e]) (auto simp: defs)
        next
          case nostomp: False
          have len: "length d = length old" using sz Put Some False nostomp ph(3) by (simp add: size_kept_def)
          from pool_put_same_size [OF ph(2) Some len False nostomp, of "(a, junk)"] obtain p where p:
            "pool_put (a, junk) k (Some d) flags ?e = (Inr S_OK, \<lparr>pe_mem = (ms_mem s)(p \<mapsto> d), pe_pool = ph\<rparr>)"
            "p \<in> ptrs ph" "pool_ok ((ms_mem s)(p \<mapsto> d)) ph" "pool_view ((ms_mem s)(p \<mapsto> d)) ph = (pool_view (ms_mem s) ph)(k \<mapsto> d)"
            by blast
          have "p \<in> dom (ms_mem s)" using p(2) ph(2) by (force simp: pool_ok_def ptrs_def)
          from run [where act = "pool_put (a, junk) k (Some d) flags", OF p(1), of dbg t E_POOL_NOT_FOUND] show ?thesis
            using Put False Some nostomp p(2-4) ph(3) \<open>p \<in> dom (ms_mem s)\<close>
            by (intro here [of "\<lparr>pe_mem = (ms_mem s)(p \<mapsto> d), pe_pool = ph\<rparr>"]) (auto simp: defs)
        qed
      qed
    qed
  next
    case (Get k)
    show thesis
    proof (cases "pool_view (ms_mem s) ph k")
      case None
      have "pool_get (a, junk) k ?e = (Inr (E_KEY_NOT_FOUND, None), ?e)" using pool_get_run [OF ph(2) a, of junk k] None by simp
      from run [where act = "pool_get (a, junk) k", OF this, of dbg t "(E_POOL_NOT_FOUND, None)"] show ?thesis
        using Get None ph(2,3) by (intro here [of ?e]) (auto simp: defs)
    next
      case (Some bs)
      let ?e' = "\<lparr>pe_mem = (ms_mem s)(a \<mapsto> bs), pe_pool = ph\<rparr>"
      have "pool_get (a, junk) k ?e = (Inr (S_OK, Some (a, length bs)), ?e')" using pool_get_run [OF ph(2) a, of junk k] Some by simp
      moreover have "\<forall>p \<in> ptrs ph. ((ms_mem s)(a \<mapsto> bs)) p = ms_mem s p" using na by auto
      then have fr: "pool_ok ((ms_mem s)(a \<mapsto> bs)) ph" "pool_view ((ms_mem s)(a \<mapsto> bs)) ph = pool_view (ms_mem s) ph"
        using pool_frame [of ph "(ms_mem s)(a \<mapsto> bs)" "ms_mem s"] ph(2) by blast+
      ultimately show ?thesis
        using run [where act = "pool_get (a, junk) k", of "Inr (S_OK, Some (a, length bs))" ?e' dbg t "(E_POOL_NOT_FOUND, None)"]
          Get Some ph(2,3) a na fr
        by (intro here [of ?e']) (auto simp: defs pool_result_def)
    qed
  next
    case (Erase k)
    show thesis
    proof (cases "pool_view (ms_mem s) ph k")
      case None
      then have "pool_erase id k ?e = (Inr E_KEY_NOT_FOUND, ?e)" using pool_view_None [OF ph(2)] by (simp add: pool_erase_def)
      from run [where act = "pool_erase id k", OF this, of dbg t E_POOL_NOT_FOUND] show ?thesis
        using Erase None ph(2,3) by (intro here [of ?e]) (auto simp: defs)
    next
      case (Some bs)
      from pool_erase_run [OF ph(2) Some] obtain p ph' where p:
        "pool_erase id k ?e = (Inr S_OK, \<lparr>pe_mem = (ms_mem s)(p := None), pe_pool = ph'\<rparr>)" "p \<in> ptrs ph" "ptrs ph' \<subseteq> ptrs ph"
        "pool_ok ((ms_mem s)(p := None)) ph'" "pool_view ((ms_mem s)(p := None)) ph' = (pool_view (ms_mem s) ph)(k := None)"
        by blast
      from run [where act = "pool_erase id k", OF p(1), of dbg t E_POOL_NOT_FOUND] show ?thesis
        using Erase Some p(2-5) ph(3)
        by (intro here [of "\<lparr>pe_mem = (ms_mem s)(p := None), pe_pool = ph'\<rparr>"]) (auto simp: defs)
    qed
  next
    case Count
    from run [where act = pool_count, OF pool_count_run [OF ph(2)], of dbg t] show thesis
      using Count ph(2,3) by (intro here [of ?e]) (auto simp: defs)
  qed
qed

section \<open>Histories\<close>

fun kv_run :: "bool \<Rightarrow> thread \<Rightarrow> addr_t \<Rightarrow> (kv_op \<times> block) list \<Rightarrow> (map_store, kv_res list) prog" where
  "kv_run dbg t pid [] = ret_p []"
| "kv_run dbg t pid ((op, blk) # ops) =
     bind_p (kv_conc dbg t pid blk op) (\<lambda>r. bind_p (kv_run dbg t pid ops) (\<lambda>rs. ret_p (r # rs)))"

fun abs_run :: "kv_op list \<Rightarrow> (string \<Rightarrow> bytes option) \<Rightarrow> kv_res list \<times> (string \<Rightarrow> bytes option)" where
  "abs_run [] v = ([], v)"
| "abs_run (op # ops) v = (case kv_abs op v of (r, v') \<Rightarrow> case abs_run ops v' of (rs, v'') \<Rightarrow> (r # rs, v''))"

fun sizes_kept :: "kv_op list \<Rightarrow> (string \<Rightarrow> bytes option) \<Rightarrow> bool" where
  "sizes_kept [] v = True"
| "sizes_kept (op # ops) v = (size_kept op v \<and> sizes_kept ops (snd (kv_abs op v)))"

definition blocks_fresh :: "(kv_op \<times> block) list \<Rightarrow> map_store \<Rightarrow> bool" where
  "blocks_fresh ops s \<longleftrightarrow> distinct (map (fst \<circ> snd) ops) \<and> list_all (\<lambda>(op, a, junk). a \<noteq> 0 \<and> ms_mem s a = None) ops"

lemma kv_run_refines:
  "store_ok s \<Longrightarrow> is_open s pid h \<Longrightarrow> blocks_fresh ops s \<Longrightarrow> sizes_kept (map fst ops) (store_view s h) \<Longrightarrow>
   \<exists>s'. kv_run dbg t pid ops s = (Inr (fst (abs_run (map fst ops) (store_view s h))), s') \<and>
     store_view s' h = snd (abs_run (map fst ops) (store_view s h)) \<and> store_ok s' \<and> is_open s' pid h \<and>
     (\<forall>h'. h' \<noteq> h \<longrightarrow> store_view s' h' = store_view s h')"
proof (induction ops arbitrary: s)
  case Nil
  then show ?case by simp
next
  case (Cons x ops)
  obtain op a junk where x: "x = (op, a, junk)" by (cases x)
  have "a \<noteq> 0" "ms_mem s a = None" "size_kept op (store_view s h)"
    using Cons.prems(3,4) x by (auto simp: blocks_fresh_def)
  with kv_step [OF Cons.prems(1,2), of a op dbg t junk] obtain s1 where s1:
    "kv_conc dbg t pid (a, junk) op s = (Inr (fst (kv_abs op (store_view s h))), s1)"
    "store_view s1 h = snd (kv_abs op (store_view s h))" "store_ok s1" "is_open s1 pid h"
    "\<forall>h'. h' \<noteq> h \<longrightarrow> store_view s1 h' = store_view s h'" "dom (ms_mem s1) \<subseteq> insert a (dom (ms_mem s))" by metis
  have "ms_mem s1 b = None" if "b \<noteq> a" "ms_mem s b = None" for b
    using s1(6) that by (metis domI domIff insertE subsetD)
  note fresh = this
  have "blocks_fresh ops s1"
    unfolding blocks_fresh_def list_all_iff
  proof
    show "distinct (map (fst \<circ> snd) ops)" using Cons.prems(3) by (simp add: blocks_fresh_def)
    show "\<forall>(op, b, junk) \<in> set ops. b \<noteq> 0 \<and> ms_mem s1 b = None"
    proof (rule ballI, clarify)
      fix op' b junk' assume b: "(op', b, junk') \<in> set ops"
      then have "b \<in> set (map (fst \<circ> snd) ops)" by (force simp: image_iff)
      moreover have "a \<notin> set (map (fst \<circ> snd) ops)" using Cons.prems(3) x by (simp add: blocks_fresh_def)
      moreover have "b \<noteq> 0 \<and> ms_mem s b = None"
        using Cons.prems(3) b by (auto simp: blocks_fresh_def list_all_iff)
      ultimately show "b \<noteq> 0 \<and> ms_mem s1 b = None" using fresh [of b] by metis
    qed
  qed
  moreover have "sizes_kept (map fst ops) (store_view s1 h)" using Cons.prems(4) s1(2) x by simp
  ultimately obtain s2 where
    "kv_run dbg t pid ops s1 = (Inr (fst (abs_run (map fst ops) (store_view s1 h))), s2)"
    "store_view s2 h = snd (abs_run (map fst ops) (store_view s1 h))" "store_ok s2" "is_open s2 pid h"
    "\<forall>h'. h' \<noteq> h \<longrightarrow> store_view s2 h' = store_view s1 h'" using Cons.IH [OF s1(3,4)] by blast
  with s1 x show ?case by (simp add: case_prod_unfold)
qed


definition demo_store :: map_store where
  "demo_store = \<lparr>ms_mem = [100 \<mapsto> [1, 2, 3]],
     ms_handles = [16 \<mapsto> \<lparr>ph_name = ''p'', ph_map = [(''k'', \<lparr>vp_ptr = 100, vp_length = 3\<rparr>)], ph_lock = Unlocked, ph_flags = 0\<rparr>],
     ms_session_objs = [32 \<mapsto> 16], ms_sessions = [32], ms_pools = [(''p'', 16)], ms_tls = (\<lambda>t. 0)\<rparr>"

lemma demo_store_ok: "store_ok demo_store" "is_open demo_store 32 16" "store_view demo_store 16 = [''k'' \<mapsto> [1, 2, 3]]"
  by (auto simp: demo_store_def store_ok_def is_open_def pool_ok_def ptrs_def store_view_def pool_view_def
      fun_eq_iff split: if_splits)


section \<open>Where the store departs from its interface\<close>

text \<open>
  C32: overwriting a value by one of another size. \<open>put\<close> replaces the buffer and leaves the
  recorded length: the value is then truncated to the old length when it has grown, and \<open>get\<close>
  reads past the end of the new buffer when it has shrunk.
\<close>
theorem mapstore_put_resize:
  assumes "store_ok s" "is_open s pid h" "store_view s h key = Some old" "data \<noteq> []"
    "length data \<noteq> length old" "\<not> flag_set flags FLAGS_DONT_STOMP"
    "a \<noteq> 0" "ms_mem s a = None" "b \<noteq> 0" "b \<noteq> a" "ms_mem s b = None"
  shows "\<exists>s1. ms_put dbg t pid (a, junk) key (Some data) flags s = (Inr S_OK, s1) \<and>
    (if length old < length data
     then \<exists>s2. ms_get dbg t pid (b, junk') key s1 = (Inr (S_OK, Some (b, length old)), s2) \<and>
       ms_mem s2 b = Some (take (length old) data)
     else fst (ms_get dbg t pid (b, junk') key s1) = Inl Undefined_behaviour)"
proof -
  obtain ph where ph: "ms_handles s h = Some ph" "pool_ok (ms_mem s) ph" "store_view s h = pool_view (ms_mem s) ph"
    and pid: "pid \<noteq> 0" using is_openD [OF assms(1,2)] by blast
  obtain vp where vp: "map_of (ph_map ph) key = Some vp" using assms(3) ph(3) by (auto simp: pool_view_def split: bind_splits)
  obtain bs where "vp_ptr vp \<noteq> 0" "ms_mem s (vp_ptr vp) = Some bs" "vp_length vp = length bs" "pool_view (ms_mem s) ph key = Some bs"
    by (rule pool_okD [OF ph(2) vp])
  then have p: "vp_ptr vp \<noteq> 0" "ms_mem s (vp_ptr vp) = Some old" "vp_length vp = length old"
    using assms(3) ph(3) by simp_all
  then have ne: "vp_ptr vp \<noteq> a" "vp_ptr vp \<noteq> b" using assms(8,11) by auto
  define e where "e = \<lparr>pe_mem = (ms_mem s)(vp_ptr vp := None, a \<mapsto> data),
    pe_pool = ph\<lparr>ph_map := AList.update key (vp\<lparr>vp_ptr := a\<rparr>) (ph_map ph)\<rparr>\<rparr>"
  have "pool_put (a, junk) key (Some data) flags \<lparr>pe_mem = ms_mem s, pe_pool = ph\<rparr> = (Inr S_OK, e)"
    using assms(4-7) vp p ne by (simp add: pool_put_def e_def)
  then have run: "ms_put dbg t pid (a, junk) key (Some data) flags s = (Inr S_OK, pool_result s t pid h e)"
    unfolding ms_put_def by (rule with_session_run [OF pid assms(2) ph(1)])
  let ?s1 = "pool_result s t pid h e"
  have op1: "is_open ?s1 pid h" "ms_handles ?s1 h = Some (pe_pool e)" "ms_mem ?s1 = pe_mem e"
    using assms(2) by (simp_all add: pool_result_def is_open_def)
  have get: "ms_get dbg t pid (b, junk') key ?s1 =
      (case pool_get (b, junk') key \<lparr>pe_mem = pe_mem e, pe_pool = pe_pool e\<rparr> of (r, e') \<Rightarrow> (r, pool_result ?s1 t pid h e'))"
    unfolding ms_get_def op1(3) [symmetric]
    by (cases "pool_get (b, junk') key \<lparr>pe_mem = ms_mem ?s1, pe_pool = pe_pool e\<rparr>")
      (simp add: with_session_run [OF pid op1(1,2)])
  have found: "map_of (ph_map (pe_pool e)) key = Some (vp\<lparr>vp_ptr := a\<rparr>)" by (simp add: e_def AList.update_conv')
  show ?thesis
  proof (cases "length old < length data")
    case True
    have "pool_get (b, junk') key \<lparr>pe_mem = pe_mem e, pe_pool = pe_pool e\<rparr> =
        (Inr (S_OK, Some (b, length old)), \<lparr>pe_mem = (pe_mem e)(b \<mapsto> take (length old) data), pe_pool = pe_pool e\<rparr>)"
      using found assms(7,9,10) p True by (simp add: pool_get_def e_def)
    with run get True show ?thesis by (simp add: pool_result_def)
  next
    case False
    then have "length data < length old" using assms(5) by simp
    then have "fst (pool_get (b, junk') key \<lparr>pe_mem = pe_mem e, pe_pool = pe_pool e\<rparr>) = Inl Undefined_behaviour"
      using found assms(7,9,10) p by (simp add: pool_get_def e_def mem_read_def heap_p_def bind_p_def)
    with run get False show ?thesis by (simp add: case_prod_unfold)
  qed
qed

theorem mapstore_put_resize_witness:
  "\<exists>s1 s2. ms_put True 0 32 (200, id) ''k'' (Some [9, 9, 9, 9, 9]) 0 demo_store = (Inr 0, s1) \<and>
     ms_get True 0 32 (201, id) ''k'' s1 = (Inr (0, Some (201, 3)), s2) \<and> ms_mem s2 201 = Some [9, 9, 9]"
proof -
  have v: "store_view demo_store 16 ''k'' = Some [1, 2, 3]" by (simp add: demo_store_ok(3))
  have "ms_mem demo_store 200 = None" "ms_mem demo_store 201 = None" by (simp_all add: demo_store_def)
  with mapstore_put_resize [OF demo_store_ok(1,2) v, of "[9, 9, 9, 9, 9]" 0 200 201 True 0 id id]
  show ?thesis by (simp add: flag_set_def numeral_3_eq_3)
qed



text \<open>
  Creating a pool that exists. Without \<open>FLAGS_CREATE_ONLY\<close> the name is bound to a new empty
  pool; opening the name afterwards yields the empty one, and the values of the old pool stay
  in memory without a name.
\<close>
theorem mapstore_create_existing:
  assumes "store_ok s" "map_of (ms_pools s) name = Some h0" "ms_handles s h1 = None" "h1 \<noteq> h0"
    "\<not> flag_set flags FLAGS_READ_ONLY" "\<not> flag_set flags FLAGS_CREATE_ONLY"
  shows "\<exists>s1. create_pool h1 x name flags s = (Inr x, s1) \<and> map_of (ms_pools s1) name = Some h1 \<and>
    store_view s1 h1 = Map.empty \<and> store_view s1 h0 = store_view s h0 \<and>
    (\<exists>s2. open_pool y name s1 = (Inr y, s2) \<and> is_open s2 y h1)"
  using assms(3-6)
  by (simp add: create_pool_def open_pool_def AList.update_conv' store_view_def pool_view_empty is_open_def split: option.split)

theorem mapstore_create_existing_witness:
  "\<exists>s1. create_pool 17 33 ''p'' 0 demo_store = (Inr 33, s1) \<and> store_view s1 17 = Map.empty \<and>
     store_view s1 16 = [''k'' \<mapsto> [1, 2, 3]]"
proof -
  have h: "map_of (ms_pools demo_store) ''p'' = Some 16" "ms_handles demo_store 17 = None" by (simp_all add: demo_store_def)
  from mapstore_create_existing [OF demo_store_ok(1) h, of 0 33] show ?thesis
    by (auto simp: flag_set_def demo_store_ok(3))
qed

end
