(* ===== verification/Object_Interface.thy ===== *)
theory Object_Interface
  imports Prelude
begin

text \<open>
  What a client of \<open>components/api/kvstore_itf.h\<close> relies on when it keeps one object of a fixed
  size in a store and works on it in place under a write lock: locking creates the object if
  it is missing and hands out a pointer to its bytes, writes through the pointer change the
  object, and unlocking keeps it. \<open>fresh\<close> is what the store needs of the memory it is given
  when it has to create the object; working on an existing object uses none of it. The operations are collected in a record, the laws in a
  locale.
\<close>

record ('b, 's) object_ops =
  oo_lock :: "'b \<Rightarrow> ('s, int \<times> addr_t \<times> addr_t \<times> size_t) prog"
  oo_unlock :: "('s, int) prog"
  oo_deref :: "addr_t \<Rightarrow> 's \<Rightarrow> nat list option"
  oo_assign :: "addr_t \<Rightarrow> nat list \<Rightarrow> 's \<Rightarrow> 's"

locale locked_object =
  fixes ops :: "('b, 's) object_ops"
    and obj_size :: nat
    and unlocked :: "'s \<Rightarrow> bool"
    and held :: "addr_t \<Rightarrow> 's \<Rightarrow> bool"
    and val :: "'s \<Rightarrow> nat list option"
    and fresh :: "'b \<Rightarrow> 's \<Rightarrow> bool"
  assumes lock_law: "unlocked s \<Longrightarrow> fresh b s \<Longrightarrow>
        \<exists>k p s' v. oo_lock ops b s = (Inr (0, k, p, obj_size), s') \<and> held p s' \<and> val s' = Some v \<and>
          (val s = None \<or> val s = Some v \<and> (\<forall>b'. fresh b' s \<longrightarrow> fresh b' s'))"
    and held_law: "held p s \<Longrightarrow> \<exists>v. val s = Some v \<and> oo_deref ops p s = Some v \<and> length v = obj_size"
    and assign_law: "held p s \<Longrightarrow> length v = obj_size \<Longrightarrow>
        held p (oo_assign ops p v s) \<and> val (oo_assign ops p v s) = Some v \<and>
        (\<forall>b. fresh b s \<longrightarrow> fresh b (oo_assign ops p v s))"
    and unlock_law: "held p s \<Longrightarrow> \<exists>s'. oo_unlock ops s = (Inr 0, s') \<and> unlocked s' \<and> val s' = val s \<and>
        (\<forall>b. fresh b s \<longrightarrow> fresh b s')"

end
