(* ===== verification/Map_Store_Lock.thy ===== *)
theory Map_Store_Lock
  imports Map_Store_Props Object_Interface
begin

text \<open>
  Locks of the in-memory store. A pool has one reader-writer lock; a write lock hands out a
  pointer to the value and excludes every other lock until it is released. The store is an
  instance of the interface \<open>locked_object\<close>.
\<close>

definition ms_object :: "bool \<Rightarrow> thread \<Rightarrow> addr_t \<Rightarrow> string \<Rightarrow> size_t \<Rightarrow> (block, map_store) object_ops" where
  "ms_object dbg t pid key n = \<lparr>
     oo_lock = (\<lambda>blk. ms_lock dbg t pid blk key STORE_LOCK_WRITE n),
     oo_unlock = ms_unlock dbg t pid,
     oo_deref = (\<lambda>p s. if p = 0 then None else ms_mem s p),
     oo_assign = (\<lambda>p v s. s\<lparr>ms_mem := (ms_mem s)(p \<mapsto> v)\<rparr>)\<rparr>"

definition ms_unlocked :: "addr_t \<Rightarrow> addr_t \<Rightarrow> string \<Rightarrow> size_t \<Rightarrow> map_store \<Rightarrow> bool" where
  "ms_unlocked pid h key n s \<longleftrightarrow> store_ok s \<and> is_open s pid h \<and> map_option ph_lock (ms_handles s h) = Some Unlocked \<and>
     (\<forall>v. store_view s h key = Some v \<longrightarrow> length v = n)"

definition ms_held :: "addr_t \<Rightarrow> addr_t \<Rightarrow> string \<Rightarrow> size_t \<Rightarrow> addr_t \<Rightarrow> map_store \<Rightarrow> bool" where
  "ms_held pid h key n p s \<longleftrightarrow> store_ok s \<and> is_open s pid h \<and>
     (\<exists>ph. ms_handles s h = Some ph \<and> ph_lock ph = Write_locked \<and>
        map_of (ph_map ph) key = Some \<lparr>vp_ptr = p, vp_length = n\<rparr>)"

definition block_fresh :: "block \<Rightarrow> map_store \<Rightarrow> bool" where
  "block_fresh blk s \<longleftrightarrow> fst blk \<noteq> 0 \<and> ms_mem s (fst blk) = None"

lemma pool_lock_other [simp]:
  "ptrs (ph\<lparr>ph_lock := l\<rparr>) = ptrs ph" "pool_ok m (ph\<lparr>ph_lock := l\<rparr>) = pool_ok m ph"
  "pool_view m (ph\<lparr>ph_lock := l\<rparr>) = pool_view m ph"
  by (simp_all add: ptrs_def pool_ok_def pool_view_def fun_eq_iff)

lemma ms_lock_run:
  assumes "ms_unlocked pid h key n s" "block_fresh blk s" "0 < n"
  obtains p s' where "ms_lock dbg t pid blk key STORE_LOCK_WRITE n s = (Inr (S_OK, p, p, n), s')"
    "ms_held pid h key n p s'" "store_view s h key = None \<or> store_view s h key = store_view s' h key \<and> ms_mem s' = ms_mem s"
    "\<forall>h'. h' \<noteq> h \<longrightarrow> store_view s' h' = store_view s h'"
proof -
  have ok: "store_ok s" "is_open s pid h" using assms(1) by (auto simp: ms_unlocked_def)
  obtain ph where ph: "ms_handles s h = Some ph" "pool_ok (ms_mem s) ph" "store_view s h = pool_view (ms_mem s) ph"
    and pid: "pid \<noteq> 0" using is_openD [OF ok] by blast
  have free: "ph_lock ph = Unlocked" using assms(1) ph(1) by (simp add: ms_unlocked_def)
  obtain a junk where blk: "blk = (a, junk)" "a \<noteq> 0" "ms_mem s a = None"
    using assms(2) by (cases blk) (simp add: block_fresh_def)
  let ?act = "bind_p (pool_lock dbg blk key STORE_LOCK_WRITE n) (\<lambda>r. ret_p (S_OK, r))"
  let ?e = "\<lparr>pe_mem = ms_mem s, pe_pool = ph\<rparr>"
  note run = with_session_run [OF pid ok(2) ph(1), where act = ?act]
  show ?thesis
  proof (cases "map_of (ph_map ph) key")
    case None
    let ?ph = "ph\<lparr>ph_map := ph_map ph @ [(key, \<lparr>vp_ptr = a, vp_length = n\<rparr>)]\<rparr>"
    let ?junk = "map junk [0..<n]"
    have "?junk \<noteq> []" "length ?junk = n" using assms(3) by simp_all
    note new = pool_put_new [OF ph(2) None \<open>?junk \<noteq> []\<close> blk(2,3), unfolded \<open>length ?junk = n\<close>]
    let ?e' = "\<lparr>pe_mem = (ms_mem s)(a \<mapsto> ?junk), pe_pool = ?ph\<lparr>ph_lock := Write_locked\<rparr>\<rparr>"
    have "key \<notin> fst ` set (ph_map ph)" using None by (simp add: map_of_eq_None_iff)
    then have "?act ?e = (Inr (S_OK, a, a, n), ?e')"
      using None free assms(3) blk by (simp add: pool_lock_def Let_def update_absent)
    from run [OF this] have r: "ms_lock dbg t pid blk key STORE_LOCK_WRITE n s = (Inr (S_OK, a, a, n), pool_result s t pid h ?e')"
      by (simp add: ms_lock_def)
    note res = pool_result_ok [OF ok ph(1), of ?e' t]
    have "ms_held pid h key n a (pool_result s t pid h ?e')"
      using res new(2,4) blk(3) None unfolding ms_held_def
      by (auto simp: pool_result_def map_add_def split: option.splits)
    moreover have "\<forall>h'. h' \<noteq> h \<longrightarrow> store_view (pool_result s t pid h ?e') h' = store_view s h'"
      using res new(2,4) blk(3) by auto
    ultimately show ?thesis using r None ph(3) that [OF r] by (simp add: pool_view_def)
  next
    case (Some vp)
    let ?e' = "\<lparr>pe_mem = ms_mem s, pe_pool = ph\<lparr>ph_lock := Write_locked\<rparr>\<rparr>"
    obtain bs where bs: "vp_length vp = length bs" "pool_view (ms_mem s) ph key = Some bs" by (rule pool_okD [OF ph(2) Some])
    then have n: "vp_length vp = n" using assms(1) ph(3) by (simp add: ms_unlocked_def)
    have "?act ?e = (Inr (S_OK, vp_ptr vp, vp_ptr vp, n), ?e')"
      using Some free n by (simp add: pool_lock_def Let_def)
    from run [OF this] have r: "ms_lock dbg t pid blk key STORE_LOCK_WRITE n s = (Inr (S_OK, vp_ptr vp, vp_ptr vp, n), pool_result s t pid h ?e')"
      by (simp add: ms_lock_def)
    note res = pool_result_ok [OF ok ph(1), of ?e' t]
    have "ms_held pid h key n (vp_ptr vp) (pool_result s t pid h ?e')"
      using res ph(2) Some n unfolding ms_held_def by (auto simp: pool_result_def)
    moreover have "store_view s h key = store_view (pool_result s t pid h ?e') h key \<and> ms_mem (pool_result s t pid h ?e') = ms_mem s"
      using ph(1) by (simp add: store_view_def pool_result_def)
    moreover have "\<forall>h'. h' \<noteq> h \<longrightarrow> store_view (pool_result s t pid h ?e') h' = store_view s h'"
      using res ph(2) by auto
    ultimately show ?thesis using that [OF r] by blast
  qed
qed

lemma ms_heldD:
  assumes "ms_held pid h key n p s"
  obtains ph bs where "ms_handles s h = Some ph" "ph_lock ph = Write_locked" "pool_ok (ms_mem s) ph"
    "map_of (ph_map ph) key = Some \<lparr>vp_ptr = p, vp_length = n\<rparr>" "p \<noteq> 0" "ms_mem s p = Some bs" "length bs = n"
    "p \<in> ptrs ph" "store_view s h key = Some bs" "pid \<noteq> 0" "store_ok s" "is_open s pid h"
proof -
  obtain ph where ph: "ms_handles s h = Some ph" "ph_lock ph = Write_locked"
      "map_of (ph_map ph) key = Some \<lparr>vp_ptr = p, vp_length = n\<rparr>" "store_ok s" "is_open s pid h"
    using assms by (auto simp: ms_held_def)
  obtain ph' where "ms_handles s h = Some ph'" "pool_ok (ms_mem s) ph'" "store_view s h = pool_view (ms_mem s) ph'" "pid \<noteq> 0"
    using is_openD [OF ph(4,5)] by blast
  with ph(1) have ok: "pool_ok (ms_mem s) ph" "store_view s h = pool_view (ms_mem s) ph" and pid: "pid \<noteq> 0" by auto
  obtain bs where "vp_ptr \<lparr>vp_ptr = p, vp_length = n\<rparr> \<noteq> 0" "ms_mem s (vp_ptr \<lparr>vp_ptr = p, vp_length = n\<rparr>) = Some bs"
      "vp_length \<lparr>vp_ptr = p, vp_length = n\<rparr> = length bs" "vp_ptr \<lparr>vp_ptr = p, vp_length = n\<rparr> \<in> ptrs ph"
      "pool_view (ms_mem s) ph key = Some bs" by (rule pool_okD [OF ok(1) ph(3)])
  then show ?thesis using that [OF ph(1,2) ok(1) ph(3)] pid ok(2) ph(4,5) by simp
qed

text \<open>Writing through the pointer of a held lock changes exactly the locked value.\<close>

lemma ms_assign_held:
  assumes "ms_held pid h key n p s" "length v = n" "0 < n"
  defines "s' \<equiv> s\<lparr>ms_mem := (ms_mem s)(p \<mapsto> v)\<rparr>"
  shows "ms_held pid h key n p s'" "store_view s' h = (store_view s h)(key \<mapsto> v)"
    "\<forall>h'. h' \<noteq> h \<longrightarrow> store_view s' h' = store_view s h'"
proof -
  obtain ph bs where ph: "ms_handles s h = Some ph" "ph_lock ph = Write_locked" "pool_ok (ms_mem s) ph"
    "map_of (ph_map ph) key = Some \<lparr>vp_ptr = p, vp_length = n\<rparr>" "p \<noteq> 0" "ms_mem s p = Some bs" "length bs = n"
    "p \<in> ptrs ph" "store_view s h key = Some bs" "pid \<noteq> 0" "store_ok s" "is_open s pid h"
    by (rule ms_heldD [OF assms(1)])
  have view: "pool_view (ms_mem s) ph key = Some bs" using ph(1,9) by (simp add: store_view_def)
  have "v \<noteq> []" "length v = length bs" using assms(2,3) ph(7) by auto
  moreover have "\<not> flag_set 0 FLAGS_DONT_STOMP" by (simp add: flag_set_def)
  ultimately obtain q where q: "pool_put (0, id) key (Some v) 0 \<lparr>pe_mem = ms_mem s, pe_pool = ph\<rparr> =
      (Inr S_OK, \<lparr>pe_mem = (ms_mem s)(q \<mapsto> v), pe_pool = ph\<rparr>)"
      "pool_ok ((ms_mem s)(q \<mapsto> v)) ph" "pool_view ((ms_mem s)(q \<mapsto> v)) ph = (pool_view (ms_mem s) ph)(key \<mapsto> v)"
    using pool_put_same_size [OF ph(3) view] by metis
  have "pool_put (0, id) key (Some v) 0 \<lparr>pe_mem = ms_mem s, pe_pool = ph\<rparr> =
      (Inr S_OK, \<lparr>pe_mem = (ms_mem s)(p \<mapsto> v), pe_pool = ph\<rparr>)"
    using ph(4-7) \<open>v \<noteq> []\<close> assms(2) \<open>\<not> flag_set 0 FLAGS_DONT_STOMP\<close> by (simp add: pool_put_def)
  with q have ok: "pool_ok ((ms_mem s)(p \<mapsto> v)) ph" "pool_view ((ms_mem s)(p \<mapsto> v)) ph = (pool_view (ms_mem s) ph)(key \<mapsto> v)"
    by auto
  let ?e = "\<lparr>pe_mem = (ms_mem s)(p \<mapsto> v), pe_pool = ph\<rparr>"
  have frame: "\<forall>x. x \<notin> ptrs ph \<longrightarrow> ms_mem s x \<noteq> None \<longrightarrow> pe_mem ?e x = ms_mem s x" using ph(8) by auto
  note res = pool_result_ok [OF ph(11,12,1), of ?e 0, simplified, OF ok(1) frame [simplified]]
  have eq: "pool_result s 0 pid h ?e = s'\<lparr>ms_tls := (ms_tls s)(0 := pid)\<rparr>"
    using ph(1) by (simp add: pool_result_def s'_def fun_upd_idem)
  have tls: "store_ok (x\<lparr>ms_tls := y\<rparr>) = store_ok x" "is_open (x\<lparr>ms_tls := y\<rparr>) a b = is_open x a b"
    "store_view (x\<lparr>ms_tls := y\<rparr>) = store_view x" for x y a b
    by (simp_all add: store_ok_def is_open_def store_view_def fun_eq_iff split: option.split)
  have "store_ok s'" "is_open s' pid h" using res(1,2) unfolding eq tls .
  then show "ms_held pid h key n p s'" using ph(1,2,4) by (simp add: ms_held_def s'_def)
  show "store_view s' h = (store_view s h)(key \<mapsto> v)" using ph(1) ok(2) by (simp add: store_view_def s'_def)
  show "\<forall>h'. h' \<noteq> h \<longrightarrow> store_view s' h' = store_view s h'" using res(4) unfolding eq tls .
qed

lemma ms_unlock_run:
  assumes "ms_held pid h key n p s"
  obtains s' where "ms_unlock dbg t pid s = (Inr S_OK, s')" "ms_unlocked pid h key n s'"
    "\<forall>h. store_view s' h = store_view s h" "ms_mem s' = ms_mem s"
proof -
  obtain ph bs where ph: "ms_handles s h = Some ph" "ph_lock ph = Write_locked" "pool_ok (ms_mem s) ph"
    "map_of (ph_map ph) key = Some \<lparr>vp_ptr = p, vp_length = n\<rparr>" "p \<noteq> 0" "ms_mem s p = Some bs" "length bs = n"
    "p \<in> ptrs ph" "store_view s h key = Some bs" "pid \<noteq> 0" "store_ok s" "is_open s pid h"
    by (rule ms_heldD [OF assms])
  let ?act = "bind_p pool_unlock (\<lambda>_. ret_p S_OK)"
  let ?e = "\<lparr>pe_mem = ms_mem s, pe_pool = ph\<lparr>ph_lock := Unlocked\<rparr>\<rparr>"
  have "?act \<lparr>pe_mem = ms_mem s, pe_pool = ph\<rparr> = (Inr S_OK, ?e)" using ph(2) by (simp add: pool_unlock_def)
  from with_session_run [OF ph(10,12,1), where act = ?act, OF this]
  have run: "ms_unlock dbg t pid s = (Inr S_OK, pool_result s t pid h ?e)" by (simp add: ms_unlock_def)
  note res = pool_result_ok [OF ph(11,12,1), of ?e t, simplified, OF ph(3)]
  have view: "store_view (pool_result s t pid h ?e) x = store_view s x" for x
    using res(3,4) ph(1) by (cases "x = h") (auto simp: store_view_def)
  have "ms_unlocked pid h key n (pool_result s t pid h ?e)"
    using res(1,2) ph(7,9) view by (simp add: ms_unlocked_def) (simp add: pool_result_def)
  moreover have "ms_mem (pool_result s t pid h ?e) = ms_mem s" by (simp add: pool_result_def)
  ultimately show ?thesis using that [OF run] view by blast
qed

interpretation mapstore: locked_object "ms_object dbg t pid key (Suc n)" "Suc n" "ms_unlocked pid h key (Suc n)"
  "ms_held pid h key (Suc n)" "\<lambda>s. store_view s h key" block_fresh
  for dbg t pid key n h
proof (unfold_locales, goal_cases)
  case (1 s b)
  obtain p s' where "ms_lock dbg t pid b key STORE_LOCK_WRITE (Suc n) s = (Inr (S_OK, p, p, Suc n), s')"
    "ms_held pid h key (Suc n) p s'" "store_view s h key = None \<or> store_view s h key = store_view s' h key \<and> ms_mem s' = ms_mem s"
    using ms_lock_run [OF 1, of dbg t] by blast
  moreover obtain v where "store_view s' h key = Some v" by (rule ms_heldD [OF calculation(2)])
  ultimately show ?case by (auto simp: ms_object_def block_fresh_def)
next
  case (2 p s)
  then show ?case by (rule ms_heldD) (simp add: ms_object_def)
next
  case (3 p s v)
  obtain bs where "ms_mem s p = Some bs" by (rule ms_heldD [OF 3(1)])
  then have "\<forall>b. block_fresh b s \<longrightarrow> block_fresh b (s\<lparr>ms_mem := (ms_mem s)(p \<mapsto> v)\<rparr>)"
    by (auto simp: block_fresh_def)
  with ms_assign_held [OF 3] show ?case by (simp add: ms_object_def)
next
  case (4 p s)
  obtain s' where "ms_unlock dbg t pid s = (Inr S_OK, s')" "ms_unlocked pid h key (Suc n) s'"
    "\<forall>h. store_view s' h = store_view s h" "ms_mem s' = ms_mem s" by (rule ms_unlock_run [OF 4])
  then show ?case by (simp add: ms_object_def block_fresh_def)
qed


lemma demo_store_unlocked: "ms_unlocked 32 16 ''k'' 3 demo_store"
  using demo_store_ok by (simp add: ms_unlocked_def) (simp add: demo_store_def)


end
