(* ===== verification/Block_Alloc_Ikv.thy ===== *)
theory Block_Alloc_Ikv
  imports Region_Bits Page_Bitmap Map_Store_Lock
begin

text \<open>
  The block allocator that keeps its bitmap in a key-value store:
  \<open>components/allocator/block-ikv/src/bitmap_ikv.h\<close> and \<open>allocator_ikv.cpp\<close>. The bitmap is one
  object of four mebibytes; every allocation and release locks it, works on its words in place
  and unlocks it. The store is a parameter (\<open>ops\<close>, the record of the interface
  \<open>locked_object\<close>); the properties are stated for the in-memory store. Two arguments stand for
  the environment: \<open>blk\<close>, what the store's allocator returns if the object has to be created,
  and \<open>rnd\<close>, the random number that the search starts with.
\<close>

section \<open>The bytes of an object as words\<close>

fun le_bytes :: "nat \<Rightarrow> nat \<Rightarrow> nat list" where
  "le_bytes 0 w = []"
| "le_bytes (Suc n) w = (w mod 256) # le_bytes n (w div 256)"

definition words_of :: "nat list \<Rightarrow> bits" where
  "words_of bs = map (\<lambda>i. word_of_nat (le_word (take 8 (drop (8 * i) bs)))) [0..<length bs div 8]"

definition bytes_of :: "bits \<Rightarrow> nat list" where
  "bytes_of ws = concat (map (\<lambda>w. le_bytes 8 (unat w)) ws)"

lemma length_le_bytes [simp]: "length (le_bytes n w) = n"
  by (induction n arbitrary: w) auto

lemma le_word_bytes: "le_word (le_bytes n w) = w mod 256 ^ n"
proof (induction n arbitrary: w)
  case (Suc n)
  have "w mod 256 + 256 * (w div 256 mod 256 ^ n) = w mod (256 * 256 ^ n)"
    by (simp add: mod_mult2_eq)
  with Suc show ?case by simp
qed simp

lemma length_bytes_of [simp]: "length (bytes_of ws) = 8 * length ws"
  by (induction ws) (simp_all add: bytes_of_def)

lemma length_words_of [simp]: "length (words_of bs) = length bs div 8"
  by (simp add: words_of_def)

lemma take_drop_bytes_of:
  "i < length ws \<Longrightarrow> take 8 (drop (8 * i) (bytes_of ws @ rest)) = le_bytes 8 (unat (ws ! i))"
proof (induction ws arbitrary: i)
  case (Cons w ws)
  show ?case
  proof (cases i)
    case 0
    have "take 8 (le_bytes 8 (unat w)) = le_bytes 8 (unat w)" by (rule take_all) simp
    then show ?thesis using 0 by (simp add: bytes_of_def)
  next
    case (Suc j)
    have "drop (8 * i) (bytes_of (w # ws) @ rest) = drop (8 * j) (bytes_of ws @ rest)"
      using Suc by (simp add: bytes_of_def)
    with Suc Cons show ?thesis by simp
  qed
qed simp

lemma words_of_bytes_of: "words_of (bytes_of ws) = ws"
proof (rule nth_equalityI)
  fix i assume "i < length (words_of (bytes_of ws))"
  then have i: "i < length ws" by simp
  have "unat (ws ! i) < 2 ^ 64" using unsigned_less [of "ws ! i"] by simp
  then have "unat (ws ! i) mod 256 ^ 8 = unat (ws ! i)" by simp
  then show "words_of (bytes_of ws) ! i = ws ! i"
    using i take_drop_bytes_of [OF i, of "[]"] by (simp add: words_of_def le_word_bytes)
qed simp

section \<open>The bitmap object\<close>

abbreviation BITMAP_CHUNCK_SIZE :: nat where "BITMAP_CHUNCK_SIZE \<equiv> 4194304"

record 's bitmap_ikv =
  bi_capacity :: size_t
  bi_bitdata :: addr_t
  bi_is_locked :: bool
  bi_store :: 's

definition bitmap_ikv_new :: "'s \<Rightarrow> 's bitmap_ikv" where
  "bitmap_ikv_new st = \<lparr>bi_capacity = BITMAP_CHUNCK_SIZE * 8, bi_bitdata = 0, bi_is_locked = False, bi_store = st\<rparr>"

definition store_p :: "('s, 'a) prog \<Rightarrow> ('s bitmap_ikv, 'a) prog" where
  "store_p m = (\<lambda>s. case m (bi_store s) of (r, st) \<Rightarrow> (r, s\<lparr>bi_store := st\<rparr>))"

definition ikv_load :: "('b, 's) object_ops \<Rightarrow> 'b \<Rightarrow> ('s bitmap_ikv, addr_t) prog" where
  "ikv_load ops blk = bind_p (store_p (oo_lock ops blk)) (\<lambda>(st, key, p, n).
     if st \<noteq> S_OK then throw_p General_exception
     else bind_p (update_p (\<lambda>s. s\<lparr>bi_bitdata := p, bi_is_locked := True\<rparr>)) (\<lambda>_. ret_p key))"

definition ikv_flush :: "('b, 's) object_ops \<Rightarrow> ('s bitmap_ikv, status_t) prog" where
  "ikv_flush ops = bind_p (store_p (oo_unlock ops)) (\<lambda>st.
     if st \<noteq> S_OK then throw_p General_exception
     else bind_p (update_p (\<lambda>s. s\<lparr>bi_is_locked := False\<rparr>)) (\<lambda>_. ret_p S_OK))"

definition ikv_zero :: "('b, 's) object_ops \<Rightarrow> ('s bitmap_ikv, status_t) prog" where
  "ikv_zero ops = bind_p (get_p id) (\<lambda>s.
     if \<not> bi_is_locked s then throw_p General_exception
     else let mem_size = BITS_TO_LONGS (bi_capacity s) * 8 in
       case oo_deref ops (bi_bitdata s) (bi_store s) of
         None \<Rightarrow> throw_p Undefined_behaviour
       | Some bs \<Rightarrow>
           if length bs < mem_size then throw_p Undefined_behaviour
           else bind_p (update_p (\<lambda>s. s\<lparr>bi_store :=
             oo_assign ops (bi_bitdata s) (replicate mem_size 0 @ drop mem_size bs) (bi_store s)\<rparr>)) (\<lambda>_. ret_p S_OK))"

text \<open>The region operations read and write the words \<open>_bitdata\<close> points to.\<close>

definition on_words :: "('b, 's) object_ops \<Rightarrow> (bits, 'a) prog \<Rightarrow> ('s bitmap_ikv, 'a) prog" where
  "on_words ops m = (\<lambda>s. case oo_deref ops (bi_bitdata s) (bi_store s) of
       None \<Rightarrow> (Inl Undefined_behaviour, s)
     | Some bs \<Rightarrow> (case m (words_of bs) of (r, ws) \<Rightarrow>
         (r, s\<lparr>bi_store := oo_assign ops (bi_bitdata s) (bytes_of ws @ drop (8 * length ws) bs) (bi_store s)\<rparr>)))"

section \<open>The allocator\<close>

definition size_to_bin :: "nat \<Rightarrow> nat result" where
  "size_to_bin n = (if n = 0 then Inl Undefined_behaviour else Inr (64 - clzl n))"

definition GET_ALLOC_LBA :: "nat \<Rightarrow> nat" where
  "GET_ALLOC_LBA handle = handle div 2 ^ 32"

definition GET_ALLOC_ORDER :: "nat \<Rightarrow> nat" where
  "GET_ALLOC_ORDER handle = handle mod 2 ^ 32"

definition block_alloc_ikv_new ::
    "('b, 's) object_ops \<Rightarrow> 'b \<Rightarrow> nat \<Rightarrow> bool \<Rightarrow> ('s bitmap_ikv, unit) prog" where
  "block_alloc_ikv_new ops blk nbits force_init =
     bind_p (get_p bi_capacity) (\<lambda>cap.
       if cap < nbits then throw_p General_exception
       else if force_init then
         bind_p (ikv_load ops blk) (\<lambda>_. bind_p (ikv_zero ops) (\<lambda>_. bind_p (ikv_flush ops) (\<lambda>_. ret_p ())))
       else ret_p ())"

text \<open>
  The position is an \<open>int\<close>, returned as the unsigned \<open>lba_t\<close>; the handle holds it in its upper
  half and the order in its lower half.
\<close>

definition ikv_alloc :: "('b, 's) object_ops \<Rightarrow> 'b \<Rightarrow> nat \<Rightarrow> nat \<Rightarrow> ('s bitmap_ikv, nat \<times> nat) prog" where
  "ikv_alloc ops blk rnd cnt =
     bind_p (lift_p (size_to_bin cnt)) (\<lambda>bin.
     let order = bin - 1 in
     bind_p (ikv_load ops blk) (\<lambda>_.
     bind_p (get_p bi_capacity) (\<lambda>cap.
     bind_p (on_words ops (bitmap_find_free_region cap rnd order)) (\<lambda>pos.
     bind_p (ikv_flush ops) (\<lambda>_.
     let ret_pos = nat (pos mod 2 ^ 64) in
     ret_p (ret_pos, (ret_pos * 2 ^ 32) mod 2 ^ 64 OR order))))))"

definition ikv_free :: "('b, 's) object_ops \<Rightarrow> 'b \<Rightarrow> nat \<Rightarrow> nat \<Rightarrow> ('s bitmap_ikv, unit) prog" where
  "ikv_free ops blk lba handle =
     (let lba_start = GET_ALLOC_LBA handle mod 2 ^ 32; order = GET_ALLOC_ORDER handle in
      if handle = 0 \<or> lba_start \<noteq> lba then throw_p General_exception
      else bind_p (ikv_load ops blk) (\<lambda>_.
        bind_p (on_words ops (bitmap_release_region lba_start order)) (\<lambda>_.
        bind_p (ikv_flush ops) (\<lambda>_. ret_p ()))))"

section \<open>Over any store with locked objects\<close>

definition used_bits :: "nat list option \<Rightarrow> nat set" where
  "used_bits v = (case v of None \<Rightarrow> {} | Some bs \<Rightarrow> {k. wbit (words_of bs) k})"

abbreviation CAPACITY :: nat where "CAPACITY \<equiv> BITMAP_CHUNCK_SIZE * 8"

lemma used_bits_words: "used_bits (Some (bytes_of ws)) = {k. wbit ws k}"
  by (simp add: used_bits_def words_of_bytes_of)

lemma or_low: "y < 2 ^ n \<Longrightarrow> x * 2 ^ n OR y = x * 2 ^ n + (y::nat)"
proof -
  assume y: "y < 2 ^ n"
  have "\<not> bit (x * 2 ^ n) k \<or> \<not> bit y k" for k
  proof (cases "k < n")
    case True
    then show ?thesis by (simp add: push_bit_eq_mult [symmetric] bit_push_bit_iff)
  next
    case False
    have "take_bit n y = y" using y by (simp add: take_bit_nat_eq_self)
    then have "\<not> bit y k" using False by (metis bit_take_bit_iff)
    then show ?thesis ..
  qed
  then have "x * 2 ^ n AND y = 0" by (intro bit_eqI) (auto simp: bit_and_iff)
  then show ?thesis by (simp add: disjunctive_add_eq_or)
qed

context locked_object
begin

lemma ikv_load_run:
  assumes "unlocked (bi_store s)" "fresh blk (bi_store s)" "val (bi_store s) = Some v"
  obtains s1 where "\<exists>key. ikv_load ops blk s = (Inr key, s1)" "held (bi_bitdata s1) (bi_store s1)"
    "val (bi_store s1) = Some v" "bi_capacity s1 = bi_capacity s" "\<forall>b. fresh b (bi_store s) \<longrightarrow> fresh b (bi_store s1)"
proof -
  obtain k p st' where "oo_lock ops blk (bi_store s) = (Inr (0, k, p, obj_size), st')" "held p st'" "val st' = Some v"
    "\<forall>b. fresh b (bi_store s) \<longrightarrow> fresh b st'"
    using lock_law [OF assms(1,2)] assms(3) by auto
  then show ?thesis
    using that [of "s\<lparr>bi_store := st', bi_bitdata := p, bi_is_locked := True\<rparr>"]
    by (simp add: ikv_load_def store_p_def bind_p_def)
qed

lemma ikv_flush_run:
  assumes "held p (bi_store s)"
  obtains s1 where "ikv_flush ops s = (Inr S_OK, s1)" "unlocked (bi_store s1)" "val (bi_store s1) = val (bi_store s)"
    "bi_capacity s1 = bi_capacity s" "\<forall>b. fresh b (bi_store s) \<longrightarrow> fresh b (bi_store s1)"
proof -
  obtain st' where "oo_unlock ops (bi_store s) = (Inr 0, st')" "unlocked st'" "val st' = val (bi_store s)"
    "\<forall>b. fresh b (bi_store s) \<longrightarrow> fresh b st'"
    using unlock_law [OF assms] by auto
  then show ?thesis
    using that [of "s\<lparr>bi_store := st', bi_is_locked := False\<rparr>"]
    by (simp add: ikv_flush_def store_p_def bind_p_def)
qed

lemma on_words_run:
  assumes "held (bi_bitdata s) (bi_store s)" "val (bi_store s) = Some v" "obj_size mod 8 = 0"
    "m (words_of v) = (r, ws)" "length ws = length (words_of v)"
  obtains s1 where "on_words ops m s = (r, s1)" "held (bi_bitdata s1) (bi_store s1)"
    "val (bi_store s1) = Some (bytes_of ws)" "bi_capacity s1 = bi_capacity s" "\<forall>b. fresh b (bi_store s) \<longrightarrow> fresh b (bi_store s1)"
proof -
  have v: "oo_deref ops (bi_bitdata s) (bi_store s) = Some v" "length v = obj_size"
    using held_law [OF assms(1)] assms(2) by auto
  then have len: "8 * length ws = length v" using assms(3,5) by (simp add: mod_0_imp_dvd)
  have h: "held (bi_bitdata s) (oo_assign ops (bi_bitdata s) (bytes_of ws) (bi_store s)) \<and>
      val (oo_assign ops (bi_bitdata s) (bytes_of ws) (bi_store s)) = Some (bytes_of ws) \<and>
      (\<forall>b. fresh b (bi_store s) \<longrightarrow> fresh b (oo_assign ops (bi_bitdata s) (bytes_of ws) (bi_store s)))"
    by (rule assign_law [OF assms(1)]) (simp add: len v(2))
  show ?thesis
    by (rule that [of "s\<lparr>bi_store := oo_assign ops (bi_bitdata s) (bytes_of ws) (bi_store s)\<rparr>"])
      (use v(1) assms(4) h len in \<open>simp_all add: on_words_def\<close>)
qed

lemma ikv_alloc_run:
  assumes "unlocked (bi_store s)" "fresh blk (bi_store s)" "val (bi_store s) = Some v" "bi_capacity s = CAPACITY"
    "obj_size = BITMAP_CHUNCK_SIZE" "0 < cnt" "cnt < 2 * CAPACITY" "length v = obj_size"
  defines "order \<equiv> bit_length cnt - 1"
  obtains (ok) pos s1 where "ikv_alloc ops blk rnd cnt s = (Inr (pos, pos * 2 ^ 32 + order), s1)"
      "unlocked (bi_store s1)" "bi_capacity s1 = CAPACITY" "\<exists>v'. val (bi_store s1) = Some v' \<and> length v' = obj_size"
      "pos + 2 ^ order \<le> CAPACITY" "2 ^ order dvd pos" "used_bits (val (bi_store s)) \<inter> {pos ..< pos + 2 ^ order} = {}"
      "used_bits (val (bi_store s1)) = used_bits (val (bi_store s)) \<union> {pos ..< pos + 2 ^ order}"
      "fst (bitmap_find_free_region CAPACITY rnd order (words_of v)) = Inr (int pos)" "\<forall>b. fresh b (bi_store s) \<longrightarrow> fresh b (bi_store s1)"
  | (full) s1 where "\<exists>handle. ikv_alloc ops blk rnd cnt s = (Inr (2 ^ 64 - 1, handle), s1)"
      "unlocked (bi_store s1)" "bi_capacity s1 = CAPACITY" "\<exists>v'. val (bi_store s1) = Some v' \<and> length v' = obj_size"
      "used_bits (val (bi_store s1)) = used_bits (val (bi_store s))"
      "\<forall>pos. 2 ^ order dvd pos \<longrightarrow> pos < CAPACITY \<longrightarrow> used_bits (val (bi_store s)) \<inter> {pos ..< pos + 2 ^ order} \<noteq> {}"
proof -
  have bl: "bit_length cnt \<le> 26" using assms(7) by (intro bit_length_le) simp
  then have order: "order \<le> 25" by (simp add: order_def)
  have bin: "size_to_bin cnt = Inr (bit_length cnt)"
    using assms(6,7) by (simp add: size_to_bin_def fsmsb_clzl)
  obtain s1 where s1: "\<exists>key. ikv_load ops blk s = (Inr key, s1)" "held (bi_bitdata s1) (bi_store s1)"
    "val (bi_store s1) = Some v" "bi_capacity s1 = bi_capacity s" "\<forall>b. fresh b (bi_store s) \<longrightarrow> fresh b (bi_store s1)"
    by (rule ikv_load_run [OF assms(1-3)])
  let ?ws = "words_of v"
  have len: "64 * length ?ws = CAPACITY" using assms(5,8) by simp
  have "(2::nat) ^ order dvd 2 ^ 25" using order by (intro le_imp_power_dvd)
  then have dvd: "2 ^ order dvd CAPACITY" by simp
  have sz: "obj_size mod 8 = 0" using assms(5) by simp
  have used: "used_bits (val (bi_store s)) = {k. wbit ?ws k}" by (simp add: assms(3) used_bits_def)
  have rest: "\<exists>s3. ikv_alloc ops blk rnd cnt s = (Inr (nat (r mod 2 ^ 64), (nat (r mod 2 ^ 64) * 2 ^ 32) mod 2 ^ 64 OR order), s3) \<and>
      unlocked (bi_store s3) \<and> bi_capacity s3 = CAPACITY \<and> val (bi_store s3) = Some (bytes_of ws) \<and>
      (\<forall>b. fresh b (bi_store s) \<longrightarrow> fresh b (bi_store s3))"
    if f: "bitmap_find_free_region CAPACITY rnd order ?ws = (Inr r, ws)" "length ws = length ?ws" for r ws
  proof -
    obtain s2 where s2: "on_words ops (bitmap_find_free_region CAPACITY rnd order) s1 = (Inr r, s2)" "held (bi_bitdata s2) (bi_store s2)"
      "val (bi_store s2) = Some (bytes_of ws)" "bi_capacity s2 = bi_capacity s1" "\<forall>b. fresh b (bi_store s1) \<longrightarrow> fresh b (bi_store s2)" by (rule on_words_run [OF s1(2,3) sz, where m = "bitmap_find_free_region CAPACITY rnd order", OF f])
    obtain s3 where s3: "ikv_flush ops s2 = (Inr S_OK, s3)" "unlocked (bi_store s3)" "val (bi_store s3) = val (bi_store s2)"
      "bi_capacity s3 = bi_capacity s2" "\<forall>b. fresh b (bi_store s2) \<longrightarrow> fresh b (bi_store s3)" by (rule ikv_flush_run [OF s2(2)])
    have "ikv_alloc ops blk rnd cnt s = (Inr (nat (r mod 2 ^ 64), (nat (r mod 2 ^ 64) * 2 ^ 32) mod 2 ^ 64 OR order), s3)"
      using s1(1,4) s2(1) s3(1) assms(4) bin by (auto simp: ikv_alloc_def Let_def order_def)
    with s3 s2 s1(4,5) assms(4) show ?thesis by auto
  qed
  from bitmap_find_free_region_run [of order CAPACITY ?ws rnd] order dvd len show ?thesis
  proof (elim meta_impE disjE exE conjE)
    fix pos ws'
    assume f: "bitmap_find_free_region CAPACITY rnd order ?ws = (Inr (int pos), ws')" "pos + 2 ^ order \<le> CAPACITY" "taken order ?ws pos ws'"
    then have t: "2 ^ order dvd pos" "region_free ?ws pos order" "length ws' = length ?ws"
      "\<forall>k. wbit ws' k \<longleftrightarrow> wbit ?ws k \<or> k \<in> {pos ..< pos + 2 ^ order}" by (auto simp: taken_def)
    have "(0::nat) < 2 ^ order" by simp
    then have pos: "pos < 33554432" using f(2) by linarith
    then have "int pos mod 2 ^ 64 = int pos" "pos * 2 ^ 32 mod 2 ^ 64 = pos * 2 ^ 32" by simp_all
    with rest [OF f(1) t(3)] obtain s3 where s3: "ikv_alloc ops blk rnd cnt s = (Inr (pos, pos * 2 ^ 32 OR order), s3)"
      "unlocked (bi_store s3)" "bi_capacity s3 = CAPACITY" "val (bi_store s3) = Some (bytes_of ws')"
      "\<forall>b. fresh b (bi_store s) \<longrightarrow> fresh b (bi_store s3)" by auto
    show ?thesis
    proof (rule ok [of pos s3])
      show "ikv_alloc ops blk rnd cnt s = (Inr (pos, pos * 2 ^ 32 + order), s3)"
        using s3(1) or_low [of order 32 pos] order by simp
      show "\<exists>v'. val (bi_store s3) = Some v' \<and> length v' = obj_size"
        using s3(4) t(3) assms(5,8) by simp
      show "used_bits (val (bi_store s)) \<inter> {pos ..< pos + 2 ^ order} = {}"
        using t(2) unfolding used region_free_def by blast
      show "used_bits (val (bi_store s3)) = used_bits (val (bi_store s)) \<union> {pos ..< pos + 2 ^ order}"
        unfolding used s3(4) used_bits_words using t(4) by blast
    qed (use s3 f t in simp_all)
  next
    assume f: "bitmap_find_free_region CAPACITY rnd order ?ws = (Inr (- 1), ?ws)"
      "\<forall>pos. 2 ^ order dvd pos \<longrightarrow> pos < CAPACITY \<longrightarrow> \<not> region_free ?ws pos order"
    have m: "nat (- 1 mod 2 ^ 64) = 2 ^ 64 - (1::nat)" by simp
    from rest [OF f(1) refl] obtain s3 where s3:
      "\<exists>handle. ikv_alloc ops blk rnd cnt s = (Inr (2 ^ 64 - 1, handle), s3)"
      "unlocked (bi_store s3)" "bi_capacity s3 = CAPACITY" "val (bi_store s3) = Some (bytes_of ?ws)" unfolding m by blast
    show ?thesis
    proof (rule full [of s3])
      show "\<exists>v'. val (bi_store s3) = Some v' \<and> length v' = obj_size" using s3(4) assms(5,8) by simp
      show "used_bits (val (bi_store s3)) = used_bits (val (bi_store s))" unfolding used s3(4) used_bits_words ..
      show "\<forall>pos. 2 ^ order dvd pos \<longrightarrow> pos < CAPACITY \<longrightarrow> used_bits (val (bi_store s)) \<inter> {pos ..< pos + 2 ^ order} \<noteq> {}"
        using f(2) unfolding used region_free_def by blast
    qed (use s3 in simp_all)
  qed simp_all
qed

lemma ikv_free_run:
  assumes "unlocked (bi_store s)" "fresh blk (bi_store s)" "val (bi_store s) = Some v" "bi_capacity s = CAPACITY"
    "obj_size = BITMAP_CHUNCK_SIZE" "length v = obj_size" "order \<le> 25" "2 ^ order dvd pos" "pos + 2 ^ order \<le> CAPACITY"
    "pos \<noteq> 0 \<or> order \<noteq> 0"
  obtains s1 where "ikv_free ops blk pos (pos * 2 ^ 32 + order) s = (Inr (), s1)"
      "unlocked (bi_store s1)" "bi_capacity s1 = CAPACITY" "\<exists>v'. val (bi_store s1) = Some v' \<and> length v' = obj_size"
      "used_bits (val (bi_store s1)) = used_bits (val (bi_store s)) - {pos ..< pos + 2 ^ order}"
proof -
  obtain s1 where s1: "\<exists>key. ikv_load ops blk s = (Inr key, s1)" "held (bi_bitdata s1) (bi_store s1)"
    "val (bi_store s1) = Some v" "bi_capacity s1 = bi_capacity s" "\<forall>b. fresh b (bi_store s) \<longrightarrow> fresh b (bi_store s1)"
    by (rule ikv_load_run [OF assms(1-3)])
  let ?ws = "words_of v"
  have len: "64 * length ?ws = CAPACITY" using assms(5,6) by simp
  have "order < 31" "pos + 2 ^ order \<le> 64 * length ?ws" using assms(7,9) len by simp_all
  with bitmap_release_region_run [of order pos ?ws] assms(8) obtain ws where ws: "bitmap_release_region pos order ?ws = (Inr 0, ws)"
    "length ws = length ?ws" "\<forall>k. wbit ws k \<longleftrightarrow> wbit ?ws k \<and> k \<notin> {pos ..< pos + 2 ^ order}" by blast
  have sz: "obj_size mod 8 = 0" using assms(5) by simp
  have used: "used_bits (val (bi_store s)) = {k. wbit ?ws k}" by (simp add: assms(3) used_bits_def)
  obtain s2 where s2: "on_words ops (bitmap_release_region pos order) s1 = (Inr 0, s2)" "held (bi_bitdata s2) (bi_store s2)"
    "val (bi_store s2) = Some (bytes_of ws)" "bi_capacity s2 = bi_capacity s1" "\<forall>b. fresh b (bi_store s1) \<longrightarrow> fresh b (bi_store s2)"
    by (rule on_words_run [OF s1(2,3) sz, where m = "bitmap_release_region pos order", OF ws(1,2)])
  obtain s3 where s3: "ikv_flush ops s2 = (Inr S_OK, s3)" "unlocked (bi_store s3)" "val (bi_store s3) = val (bi_store s2)"
    "bi_capacity s3 = bi_capacity s2" "\<forall>b. fresh b (bi_store s2) \<longrightarrow> fresh b (bi_store s3)" by (rule ikv_flush_run [OF s2(2)])
  have "(0::nat) < 2 ^ order" by simp
  then have pos: "pos < 33554432" using assms(9) by linarith
  have "order < 2 ^ 32" using assms(7) by simp
  then have h: "GET_ALLOC_LBA (pos * 2 ^ 32 + order) = pos" "GET_ALLOC_ORDER (pos * 2 ^ 32 + order) = order"
    by (simp_all add: GET_ALLOC_LBA_def GET_ALLOC_ORDER_def)
  show ?thesis
  proof (rule that [of s3])
    show "ikv_free ops blk pos (pos * 2 ^ 32 + order) s = (Inr (), s3)"
    proof -
      have "pos mod 2 ^ 32 = pos" "pos * 2 ^ 32 + order \<noteq> 0" using pos assms(10) by simp_all
      moreover obtain k where "ikv_load ops blk s = (Inr k, s1)" using s1(1) by blast
      ultimately show ?thesis unfolding ikv_free_def Let_def h using s2(1) s3(1) by (simp only: run_bind if_False simp_thms run_prog)
    qed
    show "\<exists>v'. val (bi_store s3) = Some v' \<and> length v' = obj_size" using s3(3) s2(3) ws(2) assms(5,6) by simp
    show "used_bits (val (bi_store s3)) = used_bits (val (bi_store s)) - {pos ..< pos + 2 ^ order}"
      unfolding s3(3) s2(3) used_bits_words used using ws(3) by blast
  qed (use s1 s2 s3 assms(4) in simp_all)
qed

end

section \<open>The search takes the region it starts with if that is free\<close>

lemma bitmap_find_free_region_first:
  assumes "order < 31" "nbits = n * 2 ^ order" "0 < n" "nbits \<le> 64 * length ws" "nbits < 2 ^ 31"
    "region_free ws ((rnd mod n) * 2 ^ order) order"
  shows "fst (bitmap_find_free_region nbits rnd order ws) = Inr (int ((rnd mod n) * 2 ^ order))"
proof -
  let ?pos = "(rnd mod n) * 2 ^ order"
  have "n \<le> n * 2 ^ order" "nbits < 2147483648" using assms(5) by simp_all
  then have small: "n < 2147483648" using assms(2) by linarith
  have "Suc (rnd mod n) * 2 ^ order \<le> nbits" unfolding assms(2) using assms(3) by (intro mult_le_mono1) (simp add: Suc_le_eq)
  then have fit: "?pos + 2 ^ order \<le> nbits" by simp
  then have lt: "?pos < nbits" using zero_less_power [of "2::nat" order] by linarith
  then have m: "?pos mod nbits = ?pos" "?pos mod 4294967296 = ?pos" using assms(5) by simp_all
  have fit': "?pos + 2 ^ order \<le> 64 * length ws" using fit assms(4) by linarith
  have dvd: "2 ^ order dvd ?pos" by simp
  obtain ws' where "reg_op ?pos order REG_OP_ALLOC ws = (Inr 0, ws')" using reg_op_alloc [OF assms(1) dvd fit'] by blast
  moreover have "\<not> nbits < 2 ^ order" using fit by linarith
  ultimately have "find_from nbits (2 ^ order) order ?pos 0 ws = (Inr (int ?pos), ws')"
    using reg_op_isfree [OF assms(1) dvd fit'] assms(6) m
    by (subst find_from.simps) (simp add: Let_def del: of_nat_mult)
  moreover have "bitmap_find_free_region nbits rnd order ws = find_from nbits (2 ^ order) order ?pos 0 ws"
    using assms(1,3) small by (simp add: bitmap_find_free_region_def Let_def assms(2))
  ultimately show ?thesis by simp
qed

section \<open>Over the in-memory store\<close>

abbreviation ikv_ops :: "bool \<Rightarrow> thread \<Rightarrow> addr_t \<Rightarrow> string \<Rightarrow> (block, map_store) object_ops" where
  "ikv_ops dbg t pid key \<equiv> ms_object dbg t pid key BITMAP_CHUNCK_SIZE"

definition ikv_ready :: "addr_t \<Rightarrow> addr_t \<Rightarrow> string \<Rightarrow> map_store bitmap_ikv \<Rightarrow> bool" where
  "ikv_ready pid h key s \<longleftrightarrow> ms_unlocked pid h key BITMAP_CHUNCK_SIZE (bi_store s) \<and> bi_capacity s = CAPACITY \<and>
     store_view (bi_store s) h key \<noteq> None"

definition ikv_used :: "addr_t \<Rightarrow> string \<Rightarrow> map_store bitmap_ikv \<Rightarrow> nat set" where
  "ikv_used h key s = used_bits (store_view (bi_store s) h key)"

lemma ikv_readyD:
  assumes "ikv_ready pid h key s"
  obtains v where "ms_unlocked pid h key BITMAP_CHUNCK_SIZE (bi_store s)" "bi_capacity s = CAPACITY"
    "store_view (bi_store s) h key = Some v" "length v = BITMAP_CHUNCK_SIZE" "ikv_used h key s = {k. wbit (words_of v) k}"
  using assms by (auto simp: ikv_ready_def ms_unlocked_def ikv_used_def used_bits_def)

lemma chunk_Suc: "Suc 4194303 = BITMAP_CHUNCK_SIZE"
  by simp

lemma ikv_alloc_mapstore:
  assumes "ikv_ready pid h key s" "block_fresh blk (bi_store s)" "0 < cnt" "cnt < 2 * CAPACITY"
  defines "order \<equiv> bit_length cnt - 1"
  obtains (ok) pos s1 where "ikv_alloc (ikv_ops dbg t pid key) blk rnd cnt s = (Inr (pos, pos * 2 ^ 32 + order), s1)"
      "ikv_ready pid h key s1" "pos + 2 ^ order \<le> CAPACITY" "2 ^ order dvd pos"
      "ikv_used h key s \<inter> {pos ..< pos + 2 ^ order} = {}"
      "ikv_used h key s1 = ikv_used h key s \<union> {pos ..< pos + 2 ^ order}"
      "ikv_used h key s \<inter> {(rnd mod (CAPACITY div 2 ^ order)) * 2 ^ order ..< (rnd mod (CAPACITY div 2 ^ order)) * 2 ^ order + 2 ^ order} = {}
        \<longrightarrow> pos = (rnd mod (CAPACITY div 2 ^ order)) * 2 ^ order"
      "\<forall>b. block_fresh b (bi_store s) \<longrightarrow> block_fresh b (bi_store s1)"
  | (full) s1 where "\<exists>handle. ikv_alloc (ikv_ops dbg t pid key) blk rnd cnt s = (Inr (2 ^ 64 - 1, handle), s1)"
      "ikv_ready pid h key s1" "ikv_used h key s1 = ikv_used h key s"
      "\<forall>pos. 2 ^ order dvd pos \<longrightarrow> pos < CAPACITY \<longrightarrow> ikv_used h key s \<inter> {pos ..< pos + 2 ^ order} \<noteq> {}"
proof -
  obtain v where v: "ms_unlocked pid h key BITMAP_CHUNCK_SIZE (bi_store s)" "bi_capacity s = CAPACITY"
    "store_view (bi_store s) h key = Some v" "length v = BITMAP_CHUNCK_SIZE" "ikv_used h key s = {k. wbit (words_of v) k}"
    by (rule ikv_readyD [OF assms(1)])
  note run = mapstore.ikv_alloc_run [where n = 4194303 and dbg = dbg and t = t and pid = pid and h = h and key = key,
      unfolded chunk_Suc, OF v(1) assms(2) v(3,2) refl assms(3,4) v(4), of rnd, folded order_def]
  have bl: "order \<le> 25" using bit_length_le [of cnt 26] assms(4) by (simp add: order_def)
  then have "(2::nat) ^ order dvd 2 ^ 25" by (intro le_imp_power_dvd)
  then have cap: "CAPACITY = (CAPACITY div 2 ^ order) * 2 ^ order" by simp
  then have pos: "0 < CAPACITY div 2 ^ order" by (metis mult_0 neq0_conv zero_neq_numeral mult_is_0)
  have len: "CAPACITY \<le> 64 * length (words_of v)" using v(4) by simp
  note first = bitmap_find_free_region_first [OF _ cap pos len, of rnd]
  show ?thesis
  proof (rule run)
    fix pos s1
    assume a: "ikv_alloc (ikv_ops dbg t pid key) blk rnd cnt s = (Inr (pos, pos * 2 ^ 32 + order), s1)"
      "ms_unlocked pid h key BITMAP_CHUNCK_SIZE (bi_store s1)" "bi_capacity s1 = CAPACITY"
      "\<exists>v'. store_view (bi_store s1) h key = Some v' \<and> length v' = BITMAP_CHUNCK_SIZE"
      "pos + 2 ^ order \<le> CAPACITY" "2 ^ order dvd pos" "used_bits (store_view (bi_store s) h key) \<inter> {pos ..< pos + 2 ^ order} = {}"
      "used_bits (store_view (bi_store s1) h key) = used_bits (store_view (bi_store s) h key) \<union> {pos ..< pos + 2 ^ order}"
      "fst (bitmap_find_free_region CAPACITY rnd order (words_of v)) = Inr (int pos)"
      "\<forall>b. block_fresh b (bi_store s) \<longrightarrow> block_fresh b (bi_store s1)"
    let ?o = "(rnd mod (CAPACITY div 2 ^ order)) * 2 ^ order"
    have start: "pos = ?o" if "ikv_used h key s \<inter> {?o ..< ?o + 2 ^ order} = {}"
    proof -
      have "region_free (words_of v) ?o order" using that v(5) by (auto simp: region_free_def)
      then have "Inr (int pos) = (Inr (int ?o) :: int result)" unfolding a(9) [symmetric] using first bl by simp
      then show ?thesis by (simp only: sum.inject of_nat_eq_iff)
    qed
    have ready: "ikv_ready pid h key s1" using a(2-4) by (auto simp: ikv_ready_def)
    show ?thesis
      by (rule ok [OF a(1) ready a(5,6) a(7,8) [folded ikv_used_def] impI [OF start] a(10)])
  next
    fix s1
    assume "\<exists>handle. ikv_alloc (ikv_ops dbg t pid key) blk rnd cnt s = (Inr (2 ^ 64 - 1, handle), s1)"
      "ms_unlocked pid h key BITMAP_CHUNCK_SIZE (bi_store s1)" "bi_capacity s1 = CAPACITY"
      "\<exists>v'. store_view (bi_store s1) h key = Some v' \<and> length v' = BITMAP_CHUNCK_SIZE"
      "used_bits (store_view (bi_store s1) h key) = used_bits (store_view (bi_store s) h key)"
      "\<forall>pos. 2 ^ order dvd pos \<longrightarrow> pos < CAPACITY \<longrightarrow> used_bits (store_view (bi_store s) h key) \<inter> {pos ..< pos + 2 ^ order} \<noteq> {}"
    moreover have "ikv_ready pid h key s1" using calculation(2-4) by (auto simp: ikv_ready_def)
    ultimately show ?thesis unfolding ikv_used_def [symmetric] by (intro full [of s1])
  qed
qed

lemma ikv_free_mapstore:
  assumes "ikv_ready pid h key s" "block_fresh blk (bi_store s)" "order \<le> 25" "2 ^ order dvd pos"
    "pos + 2 ^ order \<le> CAPACITY" "pos \<noteq> 0 \<or> order \<noteq> 0"
  obtains s1 where "ikv_free (ikv_ops dbg t pid key) blk pos (pos * 2 ^ 32 + order) s = (Inr (), s1)"
    "ikv_ready pid h key s1" "ikv_used h key s1 = ikv_used h key s - {pos ..< pos + 2 ^ order}"
proof -
  obtain v where v: "ms_unlocked pid h key BITMAP_CHUNCK_SIZE (bi_store s)" "bi_capacity s = CAPACITY"
    "store_view (bi_store s) h key = Some v" "length v = BITMAP_CHUNCK_SIZE" "ikv_used h key s = {k. wbit (words_of v) k}"
    by (rule ikv_readyD [OF assms(1)])
  obtain s1 where "ikv_free (ikv_ops dbg t pid key) blk pos (pos * 2 ^ 32 + order) s = (Inr (), s1)"
    "ms_unlocked pid h key BITMAP_CHUNCK_SIZE (bi_store s1)" "bi_capacity s1 = CAPACITY"
    "\<exists>v'. store_view (bi_store s1) h key = Some v' \<and> length v' = BITMAP_CHUNCK_SIZE"
    "used_bits (store_view (bi_store s1) h key) = used_bits (store_view (bi_store s) h key) - {pos ..< pos + 2 ^ order}"
    by (rule mapstore.ikv_free_run [where n = 4194303 and dbg = dbg and t = t and pid = pid and h = h and key = key,
          unfolded chunk_Suc, OF v(1) assms(2) v(3,2) refl v(4) assms(3-6)])
  then show ?thesis by (intro that [of s1]) (auto simp: ikv_ready_def ikv_used_def)
qed


definition demo_ikv :: "map_store bitmap_ikv" where
  "demo_ikv = \<lparr>bi_capacity = CAPACITY, bi_bitdata = 0, bi_is_locked = False, bi_store = \<lparr>ms_mem = [100 \<mapsto> replicate BITMAP_CHUNCK_SIZE 0],
     ms_handles = [16 \<mapsto> \<lparr>ph_name = ''p'', ph_map = [(''b'', \<lparr>vp_ptr = 100, vp_length = BITMAP_CHUNCK_SIZE\<rparr>)], ph_lock = Unlocked, ph_flags = 0\<rparr>],
     ms_session_objs = [32 \<mapsto> 16], ms_sessions = [32], ms_pools = [(''p'', 16)], ms_tls = (\<lambda>t. 0)\<rparr>\<rparr>"

lemma demo_ikv_ready: "ikv_ready 32 16 ''b'' demo_ikv" "ikv_used 16 ''b'' demo_ikv = {}" "block_fresh (200, id) (bi_store demo_ikv)"
proof -
  have view: "store_view (bi_store demo_ikv) 16 ''b'' = Some (replicate BITMAP_CHUNCK_SIZE 0)"
    by (simp add: demo_ikv_def store_view_def pool_view_def)
  have "store_ok (bi_store demo_ikv)" "is_open (bi_store demo_ikv) 32 16"
    by (auto simp: demo_ikv_def store_ok_def is_open_def pool_ok_def ptrs_def split: if_splits)
  then show "ikv_ready 32 16 ''b'' demo_ikv"
    using view by (simp add: ikv_ready_def ms_unlocked_def) (simp add: demo_ikv_def)
  have zero: "le_word (replicate n 0) = 0" for n by (induction n) simp_all
  have "words_of (replicate n 0) = replicate (n div 8) 0" for n
    by (simp add: words_of_def zero map_replicate_trivial min_def)
  then have "\<not> wbit (words_of (replicate n 0)) k" for n k by (simp add: wbit_def)
  then show "ikv_used 16 ''b'' demo_ikv = {}" by (simp add: ikv_used_def view used_bits_def)
  show "block_fresh (200, id) (bi_store demo_ikv)" by (simp add: block_fresh_def demo_ikv_def)
qed


text \<open>
  C35: a request that is not a power of two reserves too little. The block after the reserved
  region belongs to the blocks the caller asked for, and if it was free a later request for
  one block is given it.
\<close>
theorem block_alloc_ikv_undersized:
  assumes "ikv_ready pid h key s" "block_fresh blk (bi_store s)" "0 < cnt" "cnt < 2 * CAPACITY"
    "2 ^ (bit_length cnt - 1) \<noteq> cnt"
    "ikv_alloc (ikv_ops dbg t pid key) blk rnd cnt s = (Inr (pos, handle), s1)"
    "pos + 2 ^ (bit_length cnt - 1) < CAPACITY" "pos + 2 ^ (bit_length cnt - 1) \<notin> ikv_used h key s"
    "block_fresh blk' (bi_store s)"
  shows "pos + 2 ^ (bit_length cnt - 1) \<in> {pos ..< pos + cnt} \<and>
    (\<exists>handle' s2. ikv_alloc (ikv_ops dbg t pid key) blk' (pos + 2 ^ (bit_length cnt - 1)) 1 s1 =
       (Inr (pos + 2 ^ (bit_length cnt - 1), handle'), s2))"
proof -
  let ?o = "bit_length cnt - 1" and ?q = "pos + 2 ^ (bit_length cnt - 1)"
  have "2 ^ ?o < cnt" using bit_length_lower [OF assms(3)] assms(5) by simp
  then have inside: "?q \<in> {pos ..< pos + cnt}" by simp
  have "?q \<notin> ikv_used h key s1 \<and> ikv_ready pid h key s1 \<and> block_fresh blk' (bi_store s1)"
    using assms(1-4)
  proof (cases rule: ikv_alloc_mapstore [where dbg = dbg and t = t and rnd = rnd])
    case (ok p s')
    with assms(6) have eq: "p = pos" "s' = s1" by simp_all
    have "?q \<notin> ikv_used h key s1" using ok(6) assms(8) unfolding eq by auto
    moreover have "block_fresh blk' (bi_store s1)" using ok(8) assms(9) unfolding eq by blast
    ultimately show ?thesis using ok(2) unfolding eq by blast
  next
    case (full s')
    with assms(6,7) show ?thesis by auto
  qed
  then have free: "?q \<notin> ikv_used h key s1" and ready: "ikv_ready pid h key s1" and fresh: "block_fresh blk' (bi_store s1)"
    by blast+
  have one: "bit_length 1 - 1 = 0" by (simp add: bit_length.simps)
  have small: "(0::nat) < 1" "(1::nat) < 2 * CAPACITY" by simp_all
  show ?thesis
    using ready fresh small
  proof (cases rule: ikv_alloc_mapstore [where dbg = dbg and t = t and rnd = ?q])
    case (ok p s2)
    have "p = ?q" using ok(7) free assms(7) unfolding one by simp
    with ok(1) inside show ?thesis unfolding one by auto
  next
    case (full s2)
    have "ikv_used h key s1 \<inter> {?q ..< ?q + 1} \<noteq> {}" using full(4) assms(7) unfolding one by simp
    with free show ?thesis by auto
  qed
qed

text \<open>
  The first block can be taken alone but never given back. Its handle is the null pointer,
  which \<open>free\<close> rejects as corrupted; the block stays reserved.
\<close>
theorem block_alloc_ikv_first_block:
  assumes "ikv_ready pid h key s" "block_fresh blk (bi_store s)" "0 \<notin> ikv_used h key s"
  shows "\<exists>s1. ikv_alloc (ikv_ops dbg t pid key) blk 0 1 s = (Inr (0, 0), s1) \<and> 0 \<in> ikv_used h key s1 \<and>
    ikv_free (ikv_ops dbg t pid key) blk' 0 0 s1 = (Inl General_exception, s1)"
proof -
  have one: "bit_length 1 - 1 = 0" by (simp add: bit_length.simps)
  have small: "(0::nat) < 1" "(1::nat) < 2 * CAPACITY" by simp_all
  show ?thesis
    using assms(1,2) small
  proof (cases rule: ikv_alloc_mapstore [where dbg = dbg and t = t and rnd = 0])
    case (ok p s1)
    have "p = 0" using ok(7) assms(3) unfolding one by simp
    with ok(1,6) show ?thesis unfolding one by (auto simp: ikv_free_def Let_def)
  next
    case (full s1)
    have "ikv_used h key s \<inter> {0 ..< 0 + 1} \<noteq> {}" using full(4) unfolding one by simp
    with assms(3) show ?thesis by auto
  qed
qed

theorem block_alloc_ikv_first_block_witness:
  "\<exists>s1. ikv_alloc (ikv_ops True 0 32 ''b'') (200, id) 0 1 demo_ikv = (Inr (0, 0), s1) \<and>
     ikv_free (ikv_ops True 0 32 ''b'') (201, id) 0 0 s1 = (Inl General_exception, s1)"
  using block_alloc_ikv_first_block [OF demo_ikv_ready(1,3), of True 0 "(201, id)"] demo_ikv_ready(2) by auto

theorem block_alloc_ikv_undersized_witness:
  "\<exists>pos h1 h2 s1 s2. ikv_alloc (ikv_ops True 0 32 ''b'') (200, id) 0 3 demo_ikv = (Inr (pos, h1), s1) \<and>
     ikv_alloc (ikv_ops True 0 32 ''b'') (200, id) (pos + 2) 1 s1 = (Inr (pos + 2, h2), s2)"
proof -
  have b: "bit_length 3 = 2" by (simp add: bit_length.simps)
  have small: "(0::nat) < 3" "(3::nat) < 2 * CAPACITY" by simp_all
  show ?thesis
    using demo_ikv_ready(1,3) small
  proof (cases rule: ikv_alloc_mapstore [where dbg = True and t = 0 and rnd = 0])
    case (ok pos s1)
    have "pos = 0" using ok(7) by (simp add: demo_ikv_ready(2))
    have "2 ^ (bit_length 3 - 1) \<noteq> (3::nat)" "pos + 2 ^ (bit_length 3 - 1) < CAPACITY"
      "pos + 2 ^ (bit_length 3 - 1) \<notin> ikv_used 16 ''b'' demo_ikv"
      using \<open>pos = 0\<close> by (simp_all add: b demo_ikv_ready(2))
    from block_alloc_ikv_undersized [OF demo_ikv_ready(1,3) small this(1) ok(1) this(2,3) demo_ikv_ready(3)]
    show ?thesis using ok(1) by (auto simp: b)
  next
    case (full s1)
    from full(4) have "ikv_used 16 ''b'' demo_ikv \<inter> {0 ..< 0 + 2 ^ (bit_length 3 - 1)} \<noteq> {}" by (metis dvd_0_right small(1) mult_pos_pos zero_less_numeral)
    then show ?thesis by (simp add: demo_ikv_ready(2))
  qed
qed

end
