(* ===== verification/Block_Alloc_Aep.thy ===== *)
theory Block_Alloc_Aep
  imports Region_Bits Utils
begin

text \<open>
  The block allocator that keeps its bitmap in a persistent object pool:
  \<open>components/allocator/allocator-blk-aep/src/bitmap-tx.cpp\<close> and \<open>blk-alloc-aep.cpp\<close>. The
  region operations are those of \<open>Region_Bits\<close> followed by a flush. Every allocation leaves a
  persistent record whose offset in the pool is the caller's handle. The object store is an
  environment: an argument says what a transaction returns (\<open>None\<close> when it aborts).
\<close>

section \<open>The pool\<close>

record alloc_record =
  rec_offset :: nat
  rec_order :: nat

text \<open>The root object holds the size of the bitmap and its words, null until it is created.\<close>

record aep_pool =
  root_nbits :: nat
  root_bits :: "bits option"
  pool_records :: "nat \<Rightarrow> alloc_record option"

record aep =
  aep_pop :: "aep_pool option"
  aep_nbits :: nat

definition tx_bits :: "(bits, 'a) prog \<Rightarrow> (aep_pool, 'a) prog" where
  "tx_bits m = (\<lambda>s. case root_bits s of
       None \<Rightarrow> (Inl Null_deref, s)
     | Some ws \<Rightarrow> (case m ws of (r, ws') \<Rightarrow> (r, s\<lparr>root_bits := Some ws'\<rparr>)))"

definition tx_reg_op :: "nat \<Rightarrow> nat \<Rightarrow> reg_op_t \<Rightarrow> (aep_pool, int) prog" where
  "tx_reg_op pos order op = tx_bits (reg_op pos order op)"

definition bitmap_tx_zero :: "(aep_pool, int) prog" where
  "bitmap_tx_zero = bind_p (get_p root_nbits) (\<lambda>nbits.
     bind_p (get_p root_bits) (\<lambda>b. case b of
         None \<Rightarrow> throw_p Null_deref
       | Some ws \<Rightarrow> bind_p (update_p (\<lambda>s. s\<lparr>root_bits :=
           Some (replicate (BITS_TO_LONGS nbits) 0 @ drop (BITS_TO_LONGS nbits) ws)\<rparr>)) (\<lambda>_. ret_p 0)))"

text \<open>The parameter is an \<open>unsigned\<close>.\<close>

definition bitmap_tx_create :: "nat \<Rightarrow> (aep_pool, int) prog" where
  "bitmap_tx_create nbits = (let nbits = nbits mod 2 ^ 32 in
     bind_p (update_p (\<lambda>s. s\<lparr>root_nbits := nbits, root_bits := Some (replicate (BITS_TO_LONGS nbits) 0)\<rparr>))
       (\<lambda>_. ret_p 0))"

definition bitmap_tx_destroy :: "(aep_pool, int) prog" where
  "bitmap_tx_destroy = bind_p (update_p (\<lambda>s. s\<lparr>root_bits := None\<rparr>)) (\<lambda>_. ret_p 0)"

function tx_find_from :: "nat \<Rightarrow> nat \<Rightarrow> nat \<Rightarrow> nat \<Rightarrow> nat \<Rightarrow> (aep_pool, int) prog" where
  "tx_find_from nbits step order origin off =
     (if step = 0 \<or> nbits < off + step then ret_p (- 1)
      else
        let pos = (off + origin) mod nbits in
        bind_p (tx_reg_op (pos mod 2 ^ 32) order REG_OP_ISFREE) (\<lambda>free.
          if free = 0 then tx_find_from nbits step order origin (off + step)
          else bind_p (tx_reg_op (pos mod 2 ^ 32) order REG_OP_ISFREE) (\<lambda>free.
            if free = 0 then tx_find_from nbits step order origin (off + step)
            else bind_p (tx_reg_op (pos mod 2 ^ 32) order REG_OP_ALLOC) (\<lambda>_. ret_p (int pos)))))"
  by pat_completeness auto
termination
  by (relation "measure (\<lambda>(nbits, step, order, origin, off). nbits - off)") auto

declare tx_find_from.simps [simp del]

definition bitmap_tx_find_free_region :: "nat \<Rightarrow> nat \<Rightarrow> (aep_pool, int) prog" where
  "bitmap_tx_find_free_region rnd order =
     bind_p (get_p root_nbits) (\<lambda>nbits.
       if 32 \<le> order then throw_p Undefined_behaviour
       else
         let step = 2 ^ order; ntabs = (nbits div step) mod 2 ^ 32 in
         if ntabs = 0 then throw_p Div_by_zero
         else tx_find_from nbits step order ((rnd mod ntabs) * step) 0)"

definition bitmap_tx_release_region :: "nat \<Rightarrow> nat \<Rightarrow> (aep_pool, int) prog" where
  "bitmap_tx_release_region pos order =
     bind_p (tx_reg_op pos order REG_OP_RELEASE) (\<lambda>r. if r \<noteq> 0 then throw_p General_exception else ret_p 0)"

section \<open>The allocator\<close>

definition aep_size_to_bin :: "nat \<Rightarrow> nat result" where
  "aep_size_to_bin n = (if n = 0 then Inl Undefined_behaviour else Inr (64 - clzl n))"

text \<open>
  \<open>opened\<close> is the pool that \<open>pmemobj_create\<close> (a new one, with a zeroed root object) or
  \<open>pmemobj_open\<close> returns.
\<close>

definition aep_new :: "bool \<Rightarrow> nat \<Rightarrow> aep_pool option \<Rightarrow> aep result" where
  "aep_new dbg max_lba opened =
     bind_res (assert_res dbg (0 < max_lba)) (\<lambda>_. case opened of
         None \<Rightarrow> Inl General_exception
       | Some pop \<Rightarrow>
           if root_nbits pop = 0
           then (case bitmap_tx_create max_lba pop of
               (Inl e, _) \<Rightarrow> Inl e
             | (Inr r, pop') \<Rightarrow> if r \<noteq> 0 then Inl General_exception else Inr \<lparr>aep_pop = Some pop', aep_nbits = max_lba\<rparr>)
           else Inr \<lparr>aep_pop = Some pop, aep_nbits = max_lba\<rparr>)"

definition pop_p :: "(aep_pool, 'a) prog \<Rightarrow> (aep, 'a) prog" where
  "pop_p m = (\<lambda>s. case aep_pop s of
       None \<Rightarrow> (Inl Null_deref, s)
     | Some p \<Rightarrow> (case m p of (r, p') \<Rightarrow> (r, s\<lparr>aep_pop := Some p'\<rparr>)))"

text \<open>\<open>tx\<close> is the offset of the record the transaction allocates.\<close>

definition aep_alloc :: "nat option \<Rightarrow> nat \<Rightarrow> nat \<Rightarrow> (aep, nat \<times> nat) prog" where
  "aep_alloc tx rnd cnt =
     bind_p (lift_p (aep_size_to_bin cnt)) (\<lambda>bin.
     let order = bin - 1 in
     bind_p (pop_p (bitmap_tx_find_free_region rnd order)) (\<lambda>pos.
       if pos = - 1 then throw_p API_exception
       else case tx of
         None \<Rightarrow> throw_p General_exception
       | Some off \<Rightarrow>
           bind_p (pop_p (update_p (\<lambda>p. p\<lparr>pool_records := (pool_records p)(off \<mapsto>
             \<lparr>rec_offset = nat pos, rec_order = order\<rparr>)\<rparr>))) (\<lambda>_. ret_p (nat pos, off))))"

text \<open>The logical block address is not used; \<open>tx_ok\<close> is false when the transaction aborts.\<close>

definition aep_free :: "bool \<Rightarrow> nat \<Rightarrow> nat \<Rightarrow> (aep, unit) prog" where
  "aep_free tx_ok lba handle =
     (if handle = 0 then throw_p General_exception
      else bind_p (pop_p (get_p (\<lambda>p. pool_records p handle))) (\<lambda>r. case r of
          None \<Rightarrow> throw_p Undefined_behaviour
        | Some r \<Rightarrow>
            bind_p (pop_p (bitmap_tx_release_region (rec_offset r mod 2 ^ 32) (rec_order r))) (\<lambda>_.
              if \<not> tx_ok then throw_p General_exception
              else pop_p (update_p (\<lambda>p. p\<lparr>pool_records := (pool_records p)(handle := None)\<rparr>)))))"

text \<open>\<open>resize(0, 0)\<close> removes the pool; the result is \<open>E_FAIL\<close> in every case.\<close>

definition aep_resize :: "bool \<Rightarrow> nat \<Rightarrow> nat \<Rightarrow> (aep, int) prog" where
  "aep_resize rm_ok lba sz =
     (if lba = 0 \<and> sz = 0 then
        bind_p (pop_p bitmap_tx_destroy) (\<lambda>r.
          if r \<noteq> 0 then ret_p (- 1)
          else bind_p (update_p (\<lambda>s. s\<lparr>aep_pop := None\<rparr>)) (\<lambda>_.
            if \<not> rm_ok then throw_p General_exception else ret_p (- 1)))
      else ret_p (- 1))"

definition aep_get_free_capacity :: "aep \<Rightarrow> nat" where
  "aep_get_free_capacity s = 0"

definition aep_get_capacity :: "aep \<Rightarrow> nat" where
  "aep_get_capacity s = 0"

section \<open>The search is the one of \<open>Region_Bits\<close>\<close>

lemma tx_bits_bind: "tx_bits (bind_p m f) = bind_p (tx_bits m) (\<lambda>x. tx_bits (f x))"
  by (rule ext) (auto simp: tx_bits_def bind_p_def split: option.splits prod.splits sum.splits)

lemma tx_bits_ret: "root_bits s \<noteq> None \<Longrightarrow> tx_bits (ret_p x) s = ret_p x s"
  by (auto simp: tx_bits_def)

lemma bind_p_eqI:
  "m s = m' s \<Longrightarrow> (\<And>x s'. m' s = (Inr x, s') \<Longrightarrow> f x s' = g x s') \<Longrightarrow> bind_p m f s = bind_p m' g s"
  by (auto simp: bind_p_def split: prod.splits sum.splits)

lemma tx_find_from_eq:
  "root_bits s \<noteq> None \<Longrightarrow> tx_find_from nbits step order origin off s = tx_bits (find_from nbits step order origin off) s"
proof (induction nbits step order origin off arbitrary: s rule: find_from.induct)
  case (1 nbits step order origin off)
  note prem = 1(3)
  show ?case
  proof (cases "step = 0 \<or> nbits < off + step")
    case True
    then show ?thesis
      using 1 by (subst tx_find_from.simps, subst find_from.simps) (simp add: tx_bits_ret)
  next
    case False
    let ?pos = "(off + origin) mod nbits"
    have keep: "root_bits s' \<noteq> None" if "tx_bits m s = (r, s')" "root_bits s \<noteq> None" for m r s s'
      using that by (auto simp: tx_bits_def split: prod.splits)
    have rec: "tx_find_from nbits step order origin (off + step) s' = tx_bits (find_from nbits step order origin (off + step)) s'"
      if "root_bits s' \<noteq> None" for s'
      using 1(1,2) [OF False refl] that by blast
    have "tx_bits (find_from nbits step order origin off) = tx_bits (
        bind_p (reg_op (?pos mod 2 ^ 32) order REG_OP_ISFREE) (\<lambda>free.
          if free = 0 then find_from nbits step order origin (off + step)
          else bind_p (reg_op (?pos mod 2 ^ 32) order REG_OP_ISFREE) (\<lambda>free.
            if free = 0 then find_from nbits step order origin (off + step)
            else bind_p (reg_op (?pos mod 2 ^ 32) order REG_OP_ALLOC) (\<lambda>_. ret_p (int ?pos)))))"
      using False by (subst find_from.simps) (simp add: Let_def)
    moreover have "tx_find_from nbits step order origin off =
        bind_p (tx_reg_op (?pos mod 2 ^ 32) order REG_OP_ISFREE) (\<lambda>free.
          if free = 0 then tx_find_from nbits step order origin (off + step)
          else bind_p (tx_reg_op (?pos mod 2 ^ 32) order REG_OP_ISFREE) (\<lambda>free.
            if free = 0 then tx_find_from nbits step order origin (off + step)
            else bind_p (tx_reg_op (?pos mod 2 ^ 32) order REG_OP_ALLOC) (\<lambda>_. ret_p (int ?pos))))"
      using False by (subst tx_find_from.simps) (simp add: Let_def)
    moreover have "bind_p (tx_bits (reg_op p order REG_OP_ISFREE)) (\<lambda>free.
          if free = 0 then tx_find_from nbits step order origin (off + step)
          else bind_p (tx_bits (reg_op p order REG_OP_ISFREE)) (\<lambda>free.
            if free = 0 then tx_find_from nbits step order origin (off + step)
            else bind_p (tx_bits (reg_op p order REG_OP_ALLOC)) (\<lambda>_. ret_p (int q)))) s =
        tx_bits (bind_p (reg_op p order REG_OP_ISFREE) (\<lambda>free.
          if free = 0 then find_from nbits step order origin (off + step)
          else bind_p (reg_op p order REG_OP_ISFREE) (\<lambda>free.
            if free = 0 then find_from nbits step order origin (off + step)
            else bind_p (reg_op p order REG_OP_ALLOC) (\<lambda>_. ret_p (int q))))) s" for p q
      unfolding tx_bits_bind
    proof (rule bind_p_eqI [OF refl], goal_cases)
      case (1 x s1)
      note k1 = keep [OF 1 prem]
      show ?case
      proof (cases "x = 0")
        case False
        show ?thesis
          unfolding if_not_P [OF False] tx_bits_bind
        proof (rule bind_p_eqI [OF refl], goal_cases)
          case (1 y s2)
          note k2 = keep [OF 1 k1]
          show ?case
          proof (cases "y = 0")
            case False
            then show ?thesis by (auto simp: tx_bits_bind tx_bits_ret dest: keep [OF _ k2] intro!: bind_p_eqI)
          qed (simp add: rec [OF k2])
        qed
      qed (simp add: rec [OF k1])
    qed
    ultimately show ?thesis unfolding tx_reg_op_def by (simp only:)
  qed
qed

section \<open>Records and bits\<close>

definition record_region :: "alloc_record \<Rightarrow> nat set" where
  "record_region r = {rec_offset r ..< rec_offset r + 2 ^ rec_order r}"

definition live_regions :: "aep_pool \<Rightarrow> nat set" where
  "live_regions p = (\<Union>h \<in> dom (pool_records p). record_region (the (pool_records p h)))"

definition pool_inv :: "nat \<Rightarrow> aep_pool \<Rightarrow> bool" where
  "pool_inv n p \<longleftrightarrow> root_nbits p = n \<and> 0 < n \<and> n < 2 ^ 31 \<and>
     (\<exists>ws. root_bits p = Some ws \<and> n \<le> 64 * length ws \<and> {k. wbit ws k} = live_regions p) \<and>
     pool_records p 0 = None \<and>
     (\<forall>h r. pool_records p h = Some r \<longrightarrow> rec_order r < 31 \<and> 2 ^ rec_order r dvd rec_offset r \<and> record_region r \<subseteq> {..< n}) \<and>
     (\<forall>h h' r r'. pool_records p h = Some r \<longrightarrow> pool_records p h' = Some r' \<longrightarrow> h \<noteq> h' \<longrightarrow>
        record_region r \<inter> record_region r' = {})"

lemma record_region_end: "record_region r \<subseteq> {..< n} \<Longrightarrow> rec_offset r + 2 ^ rec_order r \<le> n"
proof -
  assume sub: "record_region r \<subseteq> {..< n}"
  have "(0::nat) < 2 ^ rec_order r" by simp
  then have "rec_offset r + 2 ^ rec_order r - 1 \<in> record_region r" unfolding record_region_def atLeastLessThan_iff by linarith
  then have "rec_offset r + 2 ^ rec_order r - 1 < n" using sub by auto
  with \<open>0 < 2 ^ rec_order r\<close> show ?thesis by linarith
qed

lemma live_regions_iff: "k \<in> live_regions p \<longleftrightarrow> (\<exists>h r. pool_records p h = Some r \<and> k \<in> record_region r)"
  by (force simp: live_regions_def)

lemma aep_alloc_run:
  assumes "aep_pop s = Some p" "pool_inv n p" "0 < cnt" "cnt < 2 ^ 31" "2 ^ (bit_length cnt - 1) dvd n"
    "off \<noteq> 0" "pool_records p off = None"
  obtains (ok) pos p' where "aep_alloc (Some off) rnd cnt s = (Inr (pos, off), s\<lparr>aep_pop := Some p'\<rparr>)" "pool_inv n p'"
      "pool_records p' = (pool_records p)(off \<mapsto> \<lparr>rec_offset = pos, rec_order = bit_length cnt - 1\<rparr>)"
      "live_regions p \<inter> {pos ..< pos + 2 ^ (bit_length cnt - 1)} = {}"
  | (full) "aep_alloc (Some off) rnd cnt s = (Inl API_exception, s)"
      "\<forall>pos. 2 ^ (bit_length cnt - 1) dvd pos \<longrightarrow> pos < n \<longrightarrow> live_regions p \<inter> {pos ..< pos + 2 ^ (bit_length cnt - 1)} \<noteq> {}"
proof -
  let ?o = "bit_length cnt - 1"
  have o: "?o < 31" using bit_length_le [of cnt 31] assms(3,4) by (cases "bit_length cnt") auto
  obtain ws where p: "root_nbits p = n" "0 < n" "n < 2 ^ 31" "root_bits p = Some ws" "n \<le> 64 * length ws"
    "{k. wbit ws k} = live_regions p" "pool_records p 0 = None"
    using assms(2) by (auto simp: pool_inv_def)
  have bin: "aep_size_to_bin cnt = Inr (bit_length cnt)"
    using assms(3,4) by (simp add: aep_size_to_bin_def fsmsb_clzl)
  have "2 ^ ?o \<le> n" using assms(5) p(2) by (rule dvd_imp_le)
  then have q: "0 < n div 2 ^ ?o" by (simp add: div_greater_zero_iff)
  have "n div 2 ^ ?o < 4294967296" using p(3) by (intro le_less_trans [OF div_le_dividend]) simp
  then have q2: "n div 2 ^ ?o mod 4294967296 = n div 2 ^ ?o" by (rule mod_less)
  have eq: "bitmap_tx_find_free_region rnd ?o p = tx_bits (bitmap_find_free_region n rnd ?o) p"
    using o p(1,4) q q2 tx_find_from_eq [of p n "2 ^ ?o" ?o "(rnd mod (n div 2 ^ ?o)) * 2 ^ ?o" 0]
    by (simp add: bitmap_tx_find_free_region_def bitmap_find_free_region_def Let_def)
  from bitmap_find_free_region_run [OF o assms(5) p(2,5,3), of rnd] show ?thesis
  proof (elim disjE exE conjE)
    fix pos ws'
    assume f: "bitmap_find_free_region n rnd ?o ws = (Inr (int pos), ws')" "pos + 2 ^ ?o \<le> n" "taken ?o ws pos ws'"
    let ?r = "\<lparr>rec_offset = pos, rec_order = ?o\<rparr>"
    let ?p = "p\<lparr>root_bits := Some ws', pool_records := (pool_records p)(off \<mapsto> ?r)\<rparr>"
    have run: "aep_alloc (Some off) rnd cnt s = (Inr (pos, off), s\<lparr>aep_pop := Some ?p\<rparr>)"
      using bin eq f(1) p(4) assms(1)
      by (simp add: aep_alloc_def Let_def pop_p_def tx_bits_def bind_p_def)
    have r: "record_region ?r = {pos ..< pos + 2 ^ ?o}" by (simp add: record_region_def)
    have t: "2 ^ ?o dvd pos" "region_free ws pos ?o" "length ws' = length ws"
      "\<forall>k. wbit ws' k \<longleftrightarrow> wbit ws k \<or> k \<in> record_region ?r" using f(3) unfolding r by (auto simp: taken_def)
    have disj: "live_regions p \<inter> record_region ?r = {}"
      using t(2) p(6) unfolding r by (auto simp: region_free_def)
    have live: "live_regions ?p = live_regions p \<union> record_region ?r"
    proof (rule set_eqI)
      fix k
      show "k \<in> live_regions ?p \<longleftrightarrow> k \<in> live_regions p \<union> record_region ?r"
        using assms(7) unfolding live_regions_iff Un_iff by (simp, metis option.simps(3))
    qed
    have other: "record_region r' \<inter> record_region ?r = {}" if "pool_records p h = Some r'" for h r'
      using disj that by (force simp: live_regions_def dom_def)
    have "pool_inv n ?p"
      unfolding pool_inv_def
    proof (intro conjI)
      show "\<exists>ws. root_bits ?p = Some ws \<and> n \<le> 64 * length ws \<and> {k. wbit ws k} = live_regions ?p"
        unfolding live using t(3,4) p(5,6) by auto
      show "\<forall>h r. pool_records ?p h = Some r \<longrightarrow> rec_order r < 31 \<and> 2 ^ rec_order r dvd rec_offset r \<and> record_region r \<subseteq> {..< n}"
        using assms(2) o t(1) f(2) r by (auto simp: pool_inv_def)
      show "\<forall>h h' r r'. pool_records ?p h = Some r \<longrightarrow> pool_records ?p h' = Some r' \<longrightarrow> h \<noteq> h' \<longrightarrow>
          record_region r \<inter> record_region r' = {}"
      proof (intro allI impI)
        fix h h' r1 r2
        assume a: "pool_records ?p h = Some r1" "pool_records ?p h' = Some r2" "h \<noteq> h'"
        show "record_region r1 \<inter> record_region r2 = {}"
        proof (cases "h = off \<or> h' = off")
          case True
          then show ?thesis using a other [of h' r2] other [of h r1] by (auto split: if_splits)
        next
          case False
          then show ?thesis using a assms(2) by (auto simp: pool_inv_def)
        qed
      qed
    qed (use p assms(6) in simp_all)
    with run disj show ?thesis unfolding r by (intro ok [of pos ?p]) simp_all
  next
    assume f: "bitmap_find_free_region n rnd ?o ws = (Inr (- 1), ws)"
      "\<forall>pos. 2 ^ ?o dvd pos \<longrightarrow> pos < n \<longrightarrow> \<not> region_free ws pos ?o"
    have "p\<lparr>root_bits := Some ws\<rparr> = p" "s\<lparr>aep_pop := Some p\<rparr> = s" using p(4) assms(1) by simp_all
    then have "aep_alloc (Some off) rnd cnt s = (Inl API_exception, s)"
      using bin eq f(1) p(4) assms(1) by (simp add: aep_alloc_def Let_def pop_p_def tx_bits_def bind_p_def)
    moreover have "\<forall>pos. 2 ^ ?o dvd pos \<longrightarrow> pos < n \<longrightarrow> live_regions p \<inter> {pos ..< pos + 2 ^ ?o} \<noteq> {}"
      using f(2) p(6) unfolding region_free_def by blast
    ultimately show ?thesis by (rule full)
  qed
qed

lemma aep_free_run:
  assumes "aep_pop s = Some p" "pool_inv n p" "pool_records p h = Some r"
  obtains p' where "aep_free True lba h s = (Inr (), s\<lparr>aep_pop := Some p'\<rparr>)" "pool_inv n p'"
    "pool_records p' = (pool_records p)(h := None)"
proof -
  have r: "rec_order r < 31" "2 ^ rec_order r dvd rec_offset r" "record_region r \<subseteq> {..< n}"
    using assms(2,3) unfolding pool_inv_def by blast+
  have h0: "h \<noteq> 0" using assms(2,3) by (cases h) (auto simp: pool_inv_def)
  obtain ws where p: "root_nbits p = n" "0 < n" "n < 2 ^ 31" "root_bits p = Some ws" "n \<le> 64 * length ws"
    "{k. wbit ws k} = live_regions p" using assms(2) by (auto simp: pool_inv_def)
  note e = record_region_end [OF r(3)]
  have fit: "rec_offset r + 2 ^ rec_order r \<le> 64 * length ws" using e p(5) by linarith
  have small: "rec_offset r mod 4294967296 = rec_offset r" using e p(3) by simp
  obtain ws' where ws': "reg_op (rec_offset r) (rec_order r) REG_OP_RELEASE ws = (Inr 0, ws')" "length ws' = length ws"
    "\<forall>k. wbit ws' k \<longleftrightarrow> wbit ws k \<and> k \<notin> record_region r"
    using reg_op_release [OF r(1,2) fit] by (auto simp: record_region_def)
  let ?p = "p\<lparr>root_bits := Some ws', pool_records := (pool_records p)(h := None)\<rparr>"
  have run: "aep_free True lba h s = (Inr (), s\<lparr>aep_pop := Some ?p\<rparr>)"
    using h0 assms(1,3) small ws'(1) p(4)
    by (simp add: aep_free_def pop_p_def bitmap_tx_release_region_def tx_reg_op_def tx_bits_def bind_p_def)
  have "live_regions ?p = live_regions p - record_region r"
  proof (intro equalityI subsetI)
    fix k assume "k \<in> live_regions ?p"
    then obtain h' r' where h': "h' \<noteq> h" "pool_records p h' = Some r'" "k \<in> record_region r'"
      by (auto simp: live_regions_iff split: if_splits)
    then have "record_region r' \<inter> record_region r = {}" using assms(2,3) by (auto simp: pool_inv_def)
    with h' show "k \<in> live_regions p - record_region r" by (force simp: live_regions_iff)
  next
    fix k assume "k \<in> live_regions p - record_region r"
    then obtain h' r' where "pool_records p h' = Some r'" "k \<in> record_region r'" "k \<notin> record_region r"
      by (auto simp: live_regions_iff)
    moreover have "h' \<noteq> h" using calculation assms(3) by auto
    ultimately show "k \<in> live_regions ?p" unfolding live_regions_iff by (intro exI [of _ h'] exI [of _ r']) simp
  qed
  then have "pool_inv n ?p"
    using assms(2) ws'(2,3) p by (auto simp: pool_inv_def)
  with run show ?thesis by (intro that [of ?p]) simp_all
qed

section \<open>Histories\<close>

text \<open>
  The life of an allocator of \<open>n\<close> blocks: created on a new pool, used for allocations whose
  rounded size divides \<open>n\<close> and releases of live handles, and reopened.
\<close>

inductive aep_reach :: "nat \<Rightarrow> aep \<Rightarrow> bool" for n where
  aep_create: "aep_new dbg n (Some \<lparr>root_nbits = 0, root_bits = b, pool_records = (\<lambda>h. None)\<rparr>) = Inr s \<Longrightarrow>
     0 < n \<Longrightarrow> n < 2 ^ 31 \<Longrightarrow> aep_reach n s"
| aep_allocate: "aep_reach n s \<Longrightarrow> aep_pop s = Some p \<Longrightarrow> 0 < cnt \<Longrightarrow> cnt < 2 ^ 31 \<Longrightarrow>
     2 ^ (bit_length cnt - 1) dvd n \<Longrightarrow> off \<noteq> 0 \<Longrightarrow> pool_records p off = None \<Longrightarrow>
     aep_reach n (snd (aep_alloc (Some off) rnd cnt s))"
| aep_release: "aep_reach n s \<Longrightarrow> aep_pop s = Some p \<Longrightarrow> pool_records p h = Some r \<Longrightarrow>
     aep_reach n (snd (aep_free True lba h s))"
| aep_reopen: "aep_reach n s \<Longrightarrow> aep_new dbg m (aep_pop s) = Inr s' \<Longrightarrow> aep_reach n s'"

lemma aep_reach_inv: "aep_reach n s \<Longrightarrow> \<exists>p. aep_pop s = Some p \<and> pool_inv n p"
proof (induction rule: aep_reach.induct)
  case (aep_create dbg b s)
  have "n \<le> 64 * BITS_TO_LONGS n" by (simp add: BITS_TO_LONGS_def)
  moreover have "\<not> wbit (replicate m 0) k" for m k by (simp add: wbit_def)
  ultimately show ?case
    using aep_create
    by (auto simp: aep_new_def bitmap_tx_create_def Let_def assert_res_def pool_inv_def live_regions_def split: if_splits)
next
  case (aep_allocate s p cnt off rnd)
  then have inv: "pool_inv n p" by simp
  show ?case
    using aep_allocate.hyps(2) inv aep_allocate.hyps(3-)
    by (cases rule: aep_alloc_run [where rnd = rnd]) (use aep_allocate.hyps(2) inv in simp_all)
next
  case (aep_release s p h r lba)
  then have inv: "pool_inv n p" by simp
  obtain p' where "aep_free True lba h s = (Inr (), s\<lparr>aep_pop := Some p'\<rparr>)" "pool_inv n p'"
    by (rule aep_free_run [OF aep_release.hyps(2) inv aep_release.hyps(3)])
  then show ?case by simp
next
  case (aep_reopen s dbg m s')
  then obtain p where p: "aep_pop s = Some p" "pool_inv n p" by blast
  then have "root_nbits p \<noteq> 0" by (auto simp: pool_inv_def)
  then show ?case using aep_reopen.hyps(2) p by (auto simp: aep_new_def assert_res_def split: if_splits)
qed



text \<open>
  C36: blocks beyond the end. When the number of blocks is not a multiple of the request the scan
  that wraps around proposes a region that reaches past the end of the bitmap: with 100 blocks
  a request for 32 that starts at the third region and finds it in use is given the blocks from
  96 to 127.
\<close>
theorem aep_alloc_past_end:
  assumes "aep_pop s = Some p" "root_nbits p = 100" "root_bits p = Some [w0, w1]"
    "bit w1 0" "\<forall>k \<in> {32 ..< 64}. \<not> bit w1 k"
  shows "fst (aep_alloc (Some off) 2 32 s) = Inr (96, off) \<and> 96 + 32 > root_nbits p"
proof -
  have bl: "bit_length 32 = 6" by (simp add: bit_length.simps)
  have o: "(5::nat) < 31" and fit: "64 + 2 ^ 5 \<le> 64 * length [w0, w1]" "96 + 2 ^ 5 \<le> 64 * length [w0, w1]"
    and dvd: "2 ^ 5 dvd (64::nat)" "2 ^ 5 dvd (96::nat)" by simp_all
  have busy: "\<not> region_free [w0, w1] 64 5"
    unfolding region_free_def using assms(4) by (auto simp: wbit_def intro!: bexI [of _ 64])
  have free: "region_free [w0, w1] 96 5"
    unfolding region_free_def
  proof
    fix k :: nat assume k: "k \<in> {96 ..< 96 + 2 ^ 5}"
    then have "k div 64 = 1" "k mod 64 = k - 64" by (auto simp: mod_if div_if)
    moreover have "k - 64 \<in> {32 ..< 64}" using k by auto
    ultimately show "\<not> wbit [w0, w1] k" using assms(5) by (simp add: wbit_def)
  qed
  obtain ws' where al: "reg_op 96 5 REG_OP_ALLOC [w0, w1] = (Inr 0, ws')" using reg_op_alloc [OF o dvd(2) fit(2)] by blast
  have "find_from 100 32 5 64 32 [w0, w1] = (Inr 96, ws')"
    using reg_op_isfree [OF o dvd(2) fit(2)] free al by (subst find_from.simps) (simp add: Let_def)
  then have "find_from 100 32 5 64 0 [w0, w1] = (Inr 96, ws')"
    using reg_op_isfree [OF o dvd(1) fit(1)] busy by (subst find_from.simps) (simp add: Let_def)
  moreover have "bitmap_tx_find_free_region 2 5 p = tx_find_from 100 32 5 64 0 p"
    using assms(2) by (simp add: bitmap_tx_find_free_region_def Let_def)
  ultimately have "bitmap_tx_find_free_region 2 5 p = (Inr 96, p\<lparr>root_bits := Some ws'\<rparr>)"
    using tx_find_from_eq [of p 100 32 5 64 0] assms(3) by (simp add: tx_bits_def)
  then show ?thesis
    using assms(1,2) by (simp add: aep_alloc_def aep_size_to_bin_def fsmsb_clzl bl Let_def pop_p_def bind_p_def)
qed

theorem aep_alloc_past_end_witness:
  "fst (aep_alloc (Some 7) 2 32 \<lparr>aep_pop = Some \<lparr>root_nbits = 100, root_bits = Some [0, 1], pool_records = (\<lambda>h. None)\<rparr>, aep_nbits = 100\<rparr>)
     = Inr (96, 7)"
  using aep_alloc_past_end [of "\<lparr>aep_pop = Some \<lparr>root_nbits = 100, root_bits = Some [0, 1], pool_records = (\<lambda>h. None)\<rparr>, aep_nbits = 100\<rparr>"
      "\<lparr>root_nbits = 100, root_bits = Some [0, 1], pool_records = (\<lambda>h. None)\<rparr>" 0 1 7]
  by (auto simp: bit_1_iff)

end
