(* ===== verification/Mpmc_Queue.thy ===== *)
theory Mpmc_Queue
  imports Utils
begin

unbundle bit_operations_syntax

text \<open>
  The multi-producer multi-consumer queue \<open>Mpmc_bounded_lfq\<close> of
  \<open>common/mpmc_bounded_queue.h\<close>. Threads are interleaved at the granularity of the code's
  loads, stores and compare-and-swaps (\<open>mpmc_step\<close>, one atomic access per step) on a
  sequentially consistent memory. The sequence numbers are 64-bit and wrap around.
\<close>

section \<open>The queue\<close>

record 'a node_t =
  n_data :: 'a
  n_seq :: nat

record 'a mpmc =
  head_seq :: nat
  tail_seq :: nat
  q_size :: nat
  q_mask :: nat
  q_buffer :: "'a node_t list"

definition mpmc_init :: "bool \<Rightarrow> nat \<Rightarrow> (nat \<Rightarrow> 'a) \<Rightarrow> 'a mpmc result" where
  "mpmc_init dbg sz junk =
     bind_res (assert_res dbg (sz \<noteq> 0 \<and> sz AND add64 (not64 sz) 1 = sz)) (\<lambda>_.
     Inr \<lparr>head_seq = 0, tail_seq = 0, q_size = sz, q_mask = sub64 sz 1,
       q_buffer = map (\<lambda>i. \<lparr>n_data = junk i, n_seq = i\<rparr>) [0..<sz]\<rparr>)"

definition mpmc_new :: "bool \<Rightarrow> nat \<Rightarrow> addr_t \<Rightarrow> addr_t \<Rightarrow> (nat \<Rightarrow> 'a) \<Rightarrow> 'a mpmc result" where
  "mpmc_new dbg sz allocator buf junk =
     bind_res (assert_res dbg (allocator \<noteq> 0)) (\<lambda>_.
     bind_res (assert_res dbg (buf \<noteq> 0)) (\<lambda>_. mpmc_init dbg sz junk))"

definition mpmc_new_at :: "bool \<Rightarrow> nat \<Rightarrow> nat \<Rightarrow> addr_t \<Rightarrow> (nat \<Rightarrow> 'a) \<Rightarrow> 'a mpmc result" where
  "mpmc_new_at dbg node_size sz buf_addr junk =
     bind_res (assert_res dbg (buf_addr \<noteq> 0)) (\<lambda>_.
     bind_res (if dbg then check_aligned buf_addr node_size else Inr True) (\<lambda>al.
     bind_res (assert_res dbg al) (\<lambda>_. mpmc_init dbg sz junk)))"

text \<open>The difference of two sequence numbers as a signed 64-bit integer.\<close>

definition intptr_diff :: "nat \<Rightarrow> nat \<Rightarrow> int" where
  "intptr_diff a b = (let d = sub64 a b in if d < 2 ^ 63 then int d else int d - 2 ^ 64)"

section \<open>Operations in atomic steps\<close>

text \<open>
  Where a thread is: before the load of the counter (\<open>Start\<close>), before the load of the node's
  sequence number (\<open>Node\<close>), before the compare-and-swap (\<open>Cas\<close>), before the access to the
  data (\<open>Write\<close>, \<open>Read\<close>), before the store of the sequence number (\<open>Publish\<close>), or
  returning (\<open>Ret\<close>).
\<close>

datatype 'a mpmc_pc =
    Idle
  | Enq_start 'a | Enq_node 'a nat | Enq_cas 'a nat | Enq_write 'a nat | Enq_publish nat | Enq_ret bool
  | Deq_start | Deq_node nat | Deq_cas nat | Deq_read nat | Deq_publish 'a nat | Deq_ret "'a option"
  | Emp_start | Emp_node nat | Emp_ret bool

definition node_at :: "'a mpmc \<Rightarrow> nat \<Rightarrow> 'a node_t" where
  "node_at q sq = q_buffer q ! (sq AND q_mask q)"

definition set_node :: "nat \<Rightarrow> ('a node_t \<Rightarrow> 'a node_t) \<Rightarrow> 'a mpmc \<Rightarrow> 'a mpmc" where
  "set_node sq f q = q\<lparr>q_buffer := (q_buffer q)[sq AND q_mask q := f (node_at q sq)]\<rparr>"

text \<open>The first argument says whether a weak compare-and-swap fails spuriously.\<close>

fun mpmc_step :: "bool \<Rightarrow> 'a mpmc_pc \<Rightarrow> 'a mpmc \<Rightarrow> 'a mpmc_pc \<times> 'a mpmc" where
  "mpmc_step sp (Enq_start v) q = (Enq_node v (head_seq q), q)"
| "mpmc_step sp (Enq_node v h) q =
     (let dif = intptr_diff (n_seq (node_at q h)) h in
      (if dif = 0 then Enq_cas v h else if dif < 0 then Enq_ret False else Enq_start v, q))"
| "mpmc_step sp (Enq_cas v h) q =
     (if head_seq q = h \<and> \<not> sp then (Enq_write v h, q\<lparr>head_seq := add64 h 1\<rparr>)
      else (Enq_node v (head_seq q), q))"
| "mpmc_step sp (Enq_write v h) q = (Enq_publish h, set_node h (\<lambda>n. n\<lparr>n_data := v\<rparr>) q)"
| "mpmc_step sp (Enq_publish h) q = (Enq_ret True, set_node h (\<lambda>n. n\<lparr>n_seq := add64 h 1\<rparr>) q)"
| "mpmc_step sp Deq_start q = (Deq_node (tail_seq q), q)"
| "mpmc_step sp (Deq_node t) q =
     (let dif = intptr_diff (n_seq (node_at q t)) (add64 t 1) in
      (if dif = 0 then Deq_cas t else if dif < 0 then Deq_ret None else Deq_start, q))"
| "mpmc_step sp (Deq_cas t) q =
     (if tail_seq q = t \<and> \<not> sp then (Deq_read t, q\<lparr>tail_seq := add64 t 1\<rparr>)
      else (Deq_node (tail_seq q), q))"
| "mpmc_step sp (Deq_read t) q = (Deq_publish (n_data (node_at q t)) t, q)"
| "mpmc_step sp (Deq_publish v t) q =
     (Deq_ret (Some v), set_node t (\<lambda>n. n\<lparr>n_seq := add64 (add64 t (q_mask q)) 1\<rparr>) q)"
| "mpmc_step sp Emp_start q = (Emp_node (tail_seq q), q)"
| "mpmc_step sp (Emp_node t) q =
     (let dif = intptr_diff (n_seq (node_at q t)) (add64 t 1) in
      (if dif = 0 then Emp_ret False else if dif < 0 then Emp_ret True else Emp_start, q))"
| "mpmc_step sp pc q = (pc, q)"

text \<open>One thread running alone.\<close>

fun mpmc_solo :: "nat \<Rightarrow> 'a mpmc_pc \<Rightarrow> 'a mpmc \<Rightarrow> 'a mpmc_pc \<times> 'a mpmc" where
  "mpmc_solo 0 pc q = (pc, q)"
| "mpmc_solo (Suc n) pc q = (let (pc', q') = mpmc_step False pc q in mpmc_solo n pc' q')"

section \<open>Concurrent executions\<close>

text \<open>
  A system of threads on one queue. \<open>sys_in\<close> logs the values in the order in which enqueuers
  win their tickets, \<open>sys_out\<close> the tickets of dequeuers with the values they read.
\<close>

record 'a mpmc_sys =
  sys_q :: "'a mpmc"
  sys_pc :: "nat \<Rightarrow> 'a mpmc_pc"
  sys_in :: "'a list"
  sys_out :: "(nat \<times> 'a) list"

fun log_in :: "'a mpmc_pc \<Rightarrow> 'a mpmc_pc \<Rightarrow> 'a list" where
  "log_in (Enq_cas v h) (Enq_write w k) = [v]"
| "log_in pc pc' = []"

fun log_out :: "'a mpmc_pc \<Rightarrow> 'a mpmc_pc \<Rightarrow> (nat \<times> 'a) list" where
  "log_out (Deq_read t) (Deq_publish v k) = [(t, v)]"
| "log_out pc pc' = []"

definition sys_step :: "nat \<Rightarrow> bool \<Rightarrow> 'a mpmc_sys \<Rightarrow> 'a mpmc_sys" where
  "sys_step i sp s =
     (let pc = sys_pc s i; (pc', q') = mpmc_step sp pc (sys_q s) in
      \<lparr>sys_q = q', sys_pc = (sys_pc s)(i := pc'), sys_in = sys_in s @ log_in pc pc', sys_out = sys_out s @ log_out pc pc'\<rparr>)"

definition sys_call :: "nat \<Rightarrow> 'a mpmc_pc \<Rightarrow> 'a mpmc_sys \<Rightarrow> 'a mpmc_sys" where
  "sys_call i pc s = s\<lparr>sys_pc := (sys_pc s)(i := pc)\<rparr>"

fun pc_returned :: "'a mpmc_pc \<Rightarrow> bool" where
  "pc_returned Idle = True"
| "pc_returned (Enq_ret b) = True"
| "pc_returned (Deq_ret r) = True"
| "pc_returned (Emp_ret b) = True"
| "pc_returned pc = False"

text \<open>The states reached in \<open>n\<close> steps by threads that call the operations on a new queue of \<open>sz\<close> nodes.\<close>

inductive mpmc_reach :: "nat \<Rightarrow> nat \<Rightarrow> 'a mpmc_sys \<Rightarrow> bool" for sz where
  reach_new: "mpmc_init True sz junk = Inr q \<Longrightarrow>
     mpmc_reach sz 0 \<lparr>sys_q = q, sys_pc = (\<lambda>_. Idle), sys_in = [], sys_out = []\<rparr>"
| reach_call: "mpmc_reach sz n s \<Longrightarrow> pc_returned (sys_pc s i) \<Longrightarrow> pc \<in> {Enq_start v, Deq_start, Emp_start} \<Longrightarrow>
     mpmc_reach sz (Suc n) (sys_call i pc s)"
| reach_step: "mpmc_reach sz n s \<Longrightarrow> mpmc_reach sz (Suc n) (sys_step i sp s)"

section \<open>Tickets and slots\<close>

fun enq_ticket :: "'a mpmc_pc \<Rightarrow> nat option" where
  "enq_ticket (Enq_write v h) = Some h"
| "enq_ticket (Enq_publish h) = Some h"
| "enq_ticket pc = None"

fun deq_ticket :: "'a mpmc_pc \<Rightarrow> nat option" where
  "deq_ticket (Deq_read t) = Some t"
| "deq_ticket (Deq_publish v t) = Some t"
| "deq_ticket pc = None"

text \<open>
  A slot waits for the enqueuer with ticket \<open>c\<close>, or holds the value of ticket \<open>c\<close>; in the
  first case an issued ticket is held by an enqueuer, in the second by a dequeuer.
\<close>

definition slot_empty :: "'a mpmc_sys \<Rightarrow> nat \<Rightarrow> nat \<Rightarrow> bool" where
  "slot_empty s i c \<longleftrightarrow> (let q = sys_q s in n_seq (q_buffer q ! i) = c \<and> c mod q_size q = i \<and>
     tail_seq q \<le> c \<and> c < tail_seq q + q_size q \<and> (c < head_seq q \<longrightarrow> (\<exists>j. enq_ticket (sys_pc s j) = Some c)))"

definition slot_full :: "'a mpmc_sys \<Rightarrow> nat \<Rightarrow> nat \<Rightarrow> bool" where
  "slot_full s i c \<longleftrightarrow> (let q = sys_q s in n_seq (q_buffer q ! i) = Suc c \<and> c mod q_size q = i \<and>
     c < head_seq q \<and> head_seq q \<le> c + q_size q \<and> n_data (q_buffer q ! i) = sys_in s ! c \<and>
     (c < tail_seq q \<longrightarrow> (\<exists>j. deq_ticket (sys_pc s j) = Some c)))"

fun pc_ok :: "'a mpmc_sys \<Rightarrow> 'a mpmc_pc \<Rightarrow> bool" where
  "pc_ok s (Enq_node v h) \<longleftrightarrow> h \<le> head_seq (sys_q s)"
| "pc_ok s (Enq_cas v h) \<longleftrightarrow> h \<le> head_seq (sys_q s) \<and> h \<le> n_seq (q_buffer (sys_q s) ! (h mod q_size (sys_q s)))"
| "pc_ok s (Enq_write v h) \<longleftrightarrow> h < head_seq (sys_q s) \<and> sys_in s ! h = v \<and>
     n_seq (q_buffer (sys_q s) ! (h mod q_size (sys_q s))) = h"
| "pc_ok s (Enq_publish h) \<longleftrightarrow> h < head_seq (sys_q s) \<and>
     n_seq (q_buffer (sys_q s) ! (h mod q_size (sys_q s))) = h \<and>
     n_data (q_buffer (sys_q s) ! (h mod q_size (sys_q s))) = sys_in s ! h"
| "pc_ok s (Deq_node t) \<longleftrightarrow> t \<le> tail_seq (sys_q s)"
| "pc_ok s (Emp_node t) \<longleftrightarrow> t \<le> tail_seq (sys_q s)"
| "pc_ok s (Deq_cas t) \<longleftrightarrow> t \<le> tail_seq (sys_q s) \<and> Suc t \<le> n_seq (q_buffer (sys_q s) ! (t mod q_size (sys_q s)))"
| "pc_ok s (Deq_read t) \<longleftrightarrow> t < tail_seq (sys_q s) \<and> n_seq (q_buffer (sys_q s) ! (t mod q_size (sys_q s))) = Suc t"
| "pc_ok s (Deq_publish v t) \<longleftrightarrow> t < tail_seq (sys_q s) \<and> v = sys_in s ! t \<and>
     n_seq (q_buffer (sys_q s) ! (t mod q_size (sys_q s))) = Suc t"
| "pc_ok s pc \<longleftrightarrow> True"

definition tickets_distinct :: "(nat \<Rightarrow> 'a mpmc_pc) \<Rightarrow> bool" where
  "tickets_distinct pcs \<longleftrightarrow> (\<forall>i j c. i \<noteq> j \<longrightarrow>
     (enq_ticket (pcs i) = Some c \<longrightarrow> enq_ticket (pcs j) \<noteq> Some c) \<and>
     (deq_ticket (pcs i) = Some c \<longrightarrow> deq_ticket (pcs j) \<noteq> Some c))"

definition mpmc_inv :: "nat \<Rightarrow> 'a mpmc_sys \<Rightarrow> bool" where
  "mpmc_inv sz s \<longleftrightarrow> (let q = sys_q s in
     q_size q = sz \<and> q_mask q = sz - 1 \<and> length (q_buffer q) = sz \<and> head_seq q = length (sys_in s) \<and>
     tail_seq q \<le> head_seq q \<and> head_seq q \<le> tail_seq q + sz \<and>
     (\<forall>i < sz. \<exists>c. slot_empty s i c \<or> slot_full s i c) \<and>
     (\<forall>j. pc_ok s (sys_pc s j)) \<and> tickets_distinct (sys_pc s))"

lemma mod_Suc_neq: "2 \<le> sz \<Longrightarrow> Suc c mod sz \<noteq> c mod (sz::nat)"
  by (auto simp: mod_Suc)

lemma same_slot_gap: "c mod sz = d mod sz \<Longrightarrow> c < d \<Longrightarrow> c + sz \<le> (d::nat)"
  by (metis add_le_cancel_left dvd_imp_le le_add_diff_inverse less_imp_le mod_eq_dvd_iff_nat zero_less_diff)

lemma mpmc_invD:
  assumes "mpmc_inv sz s"
  shows "q_size (sys_q s) = sz" "q_mask (sys_q s) = sz - 1" "length (q_buffer (sys_q s)) = sz"
    "head_seq (sys_q s) = length (sys_in s)" "tail_seq (sys_q s) \<le> head_seq (sys_q s)"
    "head_seq (sys_q s) \<le> tail_seq (sys_q s) + sz" "\<And>j. pc_ok s (sys_pc s j)" "tickets_distinct (sys_pc s)"
    "\<And>i. i < sz \<Longrightarrow> \<exists>c. slot_empty s i c \<or> slot_full s i c"
  using assms by (auto simp: mpmc_inv_def Let_def)

lemma enq_ticketD:
  assumes "pc_ok s pc" "enq_ticket pc = Some c"
  shows "c < head_seq (sys_q s) \<and> n_seq (q_buffer (sys_q s) ! (c mod q_size (sys_q s))) = c"
  using assms by (cases pc) auto

lemma deq_ticketD:
  assumes "pc_ok s pc" "deq_ticket pc = Some c"
  shows "c < tail_seq (sys_q s) \<and> n_seq (q_buffer (sys_q s) ! (c mod q_size (sys_q s))) = Suc c"
  using assms by (cases pc) auto

lemma enq_slot:
  assumes "mpmc_inv sz s" "2 \<le> sz" "enq_ticket (sys_pc s j) = Some c"
  shows "slot_empty s (c mod sz) c"
proof -
  note D = mpmc_invD [OF assms(1)]
  have c: "n_seq (q_buffer (sys_q s) ! (c mod sz)) = c" using enq_ticketD [OF D(7) assms(3)] D(1) by simp
  have "c mod sz < sz" using assms(2) by simp
  then obtain d where "slot_empty s (c mod sz) d \<or> slot_full s (c mod sz) d" using D(9) by blast
  then show ?thesis using c D(1) mod_Suc_neq [OF assms(2), of d] by (auto simp: slot_empty_def slot_full_def Let_def)
qed

lemma deq_slot:
  assumes "mpmc_inv sz s" "2 \<le> sz" "deq_ticket (sys_pc s j) = Some c"
  shows "slot_full s (c mod sz) c"
proof -
  note D = mpmc_invD [OF assms(1)]
  have c: "n_seq (q_buffer (sys_q s) ! (c mod sz)) = Suc c" using deq_ticketD [OF D(7) assms(3)] D(1) by simp
  have "c mod sz < sz" using assms(2) by simp
  then obtain d where "slot_empty s (c mod sz) d \<or> slot_full s (c mod sz) d" using D(9) by blast
  then show ?thesis using c D(1) mod_Suc_neq [OF assms(2), of c] by (auto simp: slot_empty_def slot_full_def Let_def)
qed

text \<open>At most one thread holds a ticket of a slot.\<close>

lemma slot_owner:
  assumes "mpmc_inv sz s" "2 \<le> sz" "j \<noteq> l" "c mod sz = d mod sz"
    "enq_ticket (sys_pc s j) = Some c \<or> deq_ticket (sys_pc s j) = Some c"
    "enq_ticket (sys_pc s l) = Some d \<or> deq_ticket (sys_pc s l) = Some d"
  shows False
proof -
  note D = mpmc_invD [OF assms(1)]
  note E = enq_ticketD [OF D(7), unfolded D(1)] and F = deq_ticketD [OF D(7), unfolded D(1)]
  have "\<not> (enq_ticket (sys_pc s j) = Some c \<and> deq_ticket (sys_pc s l) = Some d)"
    using E [of j c] F [of l d] assms(4) mod_Suc_neq [OF assms(2), of d] by auto
  moreover have "\<not> (deq_ticket (sys_pc s j) = Some c \<and> enq_ticket (sys_pc s l) = Some d)"
    using F [of j c] E [of l d] assms(4) mod_Suc_neq [OF assms(2), of c] by auto
  moreover have "\<not> (enq_ticket (sys_pc s j) = Some c \<and> enq_ticket (sys_pc s l) = Some d)"
  proof
    assume a: "enq_ticket (sys_pc s j) = Some c \<and> enq_ticket (sys_pc s l) = Some d"
    then have "c = d" using E [of j c] E [of l d] assms(4) by metis
    then show False using a assms(3) D(8) unfolding tickets_distinct_def by metis
  qed
  moreover have "\<not> (deq_ticket (sys_pc s j) = Some c \<and> deq_ticket (sys_pc s l) = Some d)"
  proof
    assume a: "deq_ticket (sys_pc s j) = Some c \<and> deq_ticket (sys_pc s l) = Some d"
    then have "c = d" using F [of j c] F [of l d] assms(4) by (metis nat.inject)
    then show False using a assms(3) D(8) unfolding tickets_distinct_def by metis
  qed
  ultimately show False using assms(5,6) by blast
qed

section \<open>The invariant is kept\<close>

text \<open>What a step of thread \<open>j\<close> that touches the slot \<open>m\<close> must leave alone.\<close>

definition step_frame :: "nat \<Rightarrow> nat \<Rightarrow> nat \<Rightarrow> 'a mpmc_sys \<Rightarrow> 'a mpmc_sys \<Rightarrow> bool" where
  "step_frame sz j m s s' \<longleftrightarrow>
     q_size (sys_q s') = sz \<and> q_mask (sys_q s') = q_mask (sys_q s) \<and> length (q_buffer (sys_q s')) = sz \<and>
     (\<exists>pc. sys_pc s' = (sys_pc s)(j := pc)) \<and> (\<exists>l. sys_in s' = sys_in s @ l) \<and>
     (\<forall>i < sz. i \<noteq> m \<longrightarrow> q_buffer (sys_q s') ! i = q_buffer (sys_q s) ! i) \<and>
     (head_seq (sys_q s') = head_seq (sys_q s) \<or> head_seq (sys_q s') = Suc (head_seq (sys_q s)) \<and> head_seq (sys_q s) mod sz = m) \<and>
     (tail_seq (sys_q s') = tail_seq (sys_q s) \<or> tail_seq (sys_q s') = Suc (tail_seq (sys_q s)) \<and> tail_seq (sys_q s) mod sz = m) \<and>
     (\<forall>c. enq_ticket (sys_pc s j) = Some c \<or> deq_ticket (sys_pc s j) = Some c \<longrightarrow> c mod sz = m) \<and>
     n_seq (q_buffer (sys_q s) ! m) \<le> n_seq (q_buffer (sys_q s') ! m) \<and>
     ((\<exists>c. enq_ticket (sys_pc s j) = Some c \<or> deq_ticket (sys_pc s j) = Some c) \<or>
       q_buffer (sys_q s') ! m = q_buffer (sys_q s) ! m)"

lemma slot_kept:
  assumes "step_frame sz j m s s'" "q_size (sys_q s) = sz" "i < sz" "i \<noteq> m" "head_seq (sys_q s) = length (sys_in s)"
    "slot_empty s i c \<or> slot_full s i c"
  shows "slot_empty s' i c \<or> slot_full s' i c"
proof -
  obtain pc where pc: "sys_pc s' = (sys_pc s)(j := pc)" using assms(1) by (auto simp: step_frame_def)
  obtain l where l: "sys_in s' = sys_in s @ l" using assms(1) by (auto simp: step_frame_def)
  have node: "q_buffer (sys_q s') ! i = q_buffer (sys_q s) ! i" using assms by (auto simp: step_frame_def)
  have sz: "q_size (sys_q s') = sz" using assms by (auto simp: step_frame_def)
  have own: "c mod sz = i \<Longrightarrow> enq_ticket (sys_pc s j) \<noteq> Some c \<and> deq_ticket (sys_pc s j) \<noteq> Some c"
    using assms(1,4) by (auto simp: step_frame_def)
  have hold: "c mod sz = i \<Longrightarrow> (\<exists>k. enq_ticket (sys_pc s k) = Some c) \<Longrightarrow> \<exists>k. enq_ticket (sys_pc s' k) = Some c"
    "c mod sz = i \<Longrightarrow> (\<exists>k. deq_ticket (sys_pc s k) = Some c) \<Longrightarrow> \<exists>k. deq_ticket (sys_pc s' k) = Some c"
    using own unfolding pc by (metis fun_upd_other)+
  have h: "head_seq (sys_q s') = head_seq (sys_q s) \<or> head_seq (sys_q s') = Suc (head_seq (sys_q s)) \<and> head_seq (sys_q s) mod sz \<noteq> i"
    and t: "tail_seq (sys_q s') = tail_seq (sys_q s) \<or> tail_seq (sys_q s') = Suc (tail_seq (sys_q s)) \<and> tail_seq (sys_q s) mod sz \<noteq> i"
    using assms(1,4) by (auto simp: step_frame_def)
  show ?thesis
  proof (cases "slot_empty s i c")
    case True
    then have e: "n_seq (q_buffer (sys_q s) ! i) = c" "c mod sz = i" "tail_seq (sys_q s) \<le> c" "c < tail_seq (sys_q s) + sz"
      "c < head_seq (sys_q s) \<Longrightarrow> \<exists>j. enq_ticket (sys_pc s j) = Some c" using assms(2) by (auto simp: slot_empty_def Let_def)
    have "tail_seq (sys_q s') \<le> c" "c < tail_seq (sys_q s') + sz" using e(2-4) t by (auto simp: le_less)
    moreover have "c < head_seq (sys_q s') \<Longrightarrow> \<exists>j. enq_ticket (sys_pc s' j) = Some c"
      using hold(1) e(2,5) h by (auto simp: less_Suc_eq)
    ultimately show ?thesis using e(1,2) node sz by (auto simp: slot_empty_def Let_def)
  next
    case False
    then have f: "n_seq (q_buffer (sys_q s) ! i) = Suc c" "c mod sz = i" "c < head_seq (sys_q s)" "head_seq (sys_q s) \<le> c + sz"
      "n_data (q_buffer (sys_q s) ! i) = sys_in s ! c" "c < tail_seq (sys_q s) \<Longrightarrow> \<exists>j. deq_ticket (sys_pc s j) = Some c"
      using assms(2,6) by (auto simp: slot_full_def Let_def)
    have "(c + sz) mod sz = i" using f(2) by simp
    then have "head_seq (sys_q s) = c + sz \<Longrightarrow> head_seq (sys_q s') = head_seq (sys_q s)" using h by auto
    then have "c < head_seq (sys_q s')" "head_seq (sys_q s') \<le> c + sz" using f(3,4) h by (auto simp: le_less)
    moreover have "c < tail_seq (sys_q s') \<Longrightarrow> \<exists>j. deq_ticket (sys_pc s' j) = Some c"
      using hold(2) f(2,6) t by (auto simp: less_Suc_eq)
    moreover have "sys_in s' ! c = sys_in s ! c" using f(3) assms(5) unfolding l by (simp add: nth_append)
    ultimately show ?thesis using f(1,2,5) node sz by (auto simp: slot_full_def Let_def)
  qed
qed

lemma pc_kept:
  assumes "mpmc_inv sz s" "2 \<le> sz" "step_frame sz j m s s'" "i \<noteq> j"
  shows "pc_ok s' (sys_pc s i)"
proof -
  note D = mpmc_invD [OF assms(1)]
  let ?n = "\<lambda>s c. q_buffer (sys_q s) ! (c mod sz)"
  obtain l where l: "sys_in s' = sys_in s @ l" using assms(3) by (auto simp: step_frame_def)
  have sz: "q_size (sys_q s') = sz" and ht: "head_seq (sys_q s) \<le> head_seq (sys_q s')" "tail_seq (sys_q s) \<le> tail_seq (sys_q s')"
    using assms(3) by (auto simp: step_frame_def)
  have "c mod sz < sz" for c using assms(2) by simp
  then have seq: "n_seq (?n s c) \<le> n_seq (?n s' c)" for c
    using assms(3) by (cases "c mod sz = m") (auto simp: step_frame_def)
  have node: "?n s' c = ?n s c" if "enq_ticket (sys_pc s i) = Some c \<or> deq_ticket (sys_pc s i) = Some c" for c
  proof (cases "c mod sz = m")
    case True
    then have "\<not> (\<exists>d. enq_ticket (sys_pc s j) = Some d \<or> deq_ticket (sys_pc s j) = Some d)"
      using slot_owner [OF assms(1,2,4), of c] that assms(3) unfolding step_frame_def by metis
    then show ?thesis using assms(3) True by (auto simp: step_frame_def)
  next
    case False
    then show ?thesis using assms(3) \<open>\<And>c. c mod sz < sz\<close> by (auto simp: step_frame_def)
  qed
  have inn: "k < head_seq (sys_q s) \<Longrightarrow> sys_in s' ! k = sys_in s ! k" for k unfolding l D(4) by (simp add: nth_append)
  show ?thesis
    using D(7) [of i] ht seq node inn D(5)
    by (cases "sys_pc s i") (auto simp: D(1) sz intro: le_trans)
qed

lemma mpmc_inv_step:
  assumes "mpmc_inv sz s" "2 \<le> sz" "step_frame sz j m s s'" "head_seq (sys_q s') = length (sys_in s')"
    "tail_seq (sys_q s') \<le> head_seq (sys_q s')" "head_seq (sys_q s') \<le> tail_seq (sys_q s') + sz"
    "m < sz \<Longrightarrow> \<exists>c. slot_empty s' m c \<or> slot_full s' m c" "pc_ok s' (sys_pc s' j)"
    "\<And>c. enq_ticket (sys_pc s' j) = Some c \<Longrightarrow> enq_ticket (sys_pc s j) = Some c \<or> head_seq (sys_q s) \<le> c"
    "\<And>c. deq_ticket (sys_pc s' j) = Some c \<Longrightarrow> deq_ticket (sys_pc s j) = Some c \<or> tail_seq (sys_q s) \<le> c"
  shows "mpmc_inv sz s'"
proof -
  note D = mpmc_invD [OF assms(1)]
  obtain pc where pc: "sys_pc s' = (sys_pc s)(j := pc)" using assms(3) by (auto simp: step_frame_def)
  have slots: "\<exists>c. slot_empty s' i c \<or> slot_full s' i c" if "i < sz" for i
    using D(9) [OF that] slot_kept [OF assms(3) D(1) that _ D(4)] assms(7) that by (cases "i = m") blast+
  have pcs: "pc_ok s' (sys_pc s' i)" for i
    using pc_kept [OF assms(1-3), of i] assms(8) by (cases "i = j") (auto simp: pc)
  have "enq_ticket (sys_pc s i) = Some c \<Longrightarrow> c < head_seq (sys_q s)" "deq_ticket (sys_pc s i) = Some c \<Longrightarrow> c < tail_seq (sys_q s)" for i c
    using enq_ticketD [OF D(7)] deq_ticketD [OF D(7)] by blast+
  then have "i \<noteq> j \<Longrightarrow> enq_ticket (sys_pc s i) = Some c \<Longrightarrow> enq_ticket pc \<noteq> Some c"
    "i \<noteq> j \<Longrightarrow> deq_ticket (sys_pc s i) = Some c \<Longrightarrow> deq_ticket pc \<noteq> Some c" for i c
    using assms(9,10) D(8) unfolding pc tickets_distinct_def fun_upd_same by (meson not_le)+
  then have "tickets_distinct (sys_pc s')" using D(8) unfolding pc tickets_distinct_def fun_upd_apply by (smt (verit))
  then show ?thesis
    using slots pcs assms(3-6) D(2) by (auto simp: mpmc_inv_def Let_def step_frame_def)
qed

lemma inv_local_step:
  assumes "mpmc_inv sz s" "2 \<le> sz" "sys_q s' = sys_q s" "sys_in s' = sys_in s" "sys_pc s' = (sys_pc s)(j := pc)"
    "enq_ticket (sys_pc s j) = None" "deq_ticket (sys_pc s j) = None" "enq_ticket pc = None" "deq_ticket pc = None" "pc_ok s' pc"
  shows "mpmc_inv sz s'"
proof -
  note D = mpmc_invD [OF assms(1)]
  have "step_frame sz j sz s s'" using assms(3-7) D(1-3) by (auto simp: step_frame_def)
  then show ?thesis by (rule mpmc_inv_step [OF assms(1,2)]) (use D assms in auto)
qed

lemma inv_claim_enq:
  assumes "mpmc_inv sz s" "2 \<le> sz" "sys_pc s j = Enq_cas v h" "head_seq (sys_q s) = h"
    "sys_q s' = (sys_q s)\<lparr>head_seq := Suc h\<rparr>" "sys_pc s' = (sys_pc s)(j := Enq_write v h)" "sys_in s' = sys_in s @ [v]"
  shows "mpmc_inv sz s'"
proof -
  note D = mpmc_invD [OF assms(1)]
  have seq: "h \<le> n_seq (q_buffer (sys_q s) ! (h mod sz))" using D(7) [of j] assms(3) D(1) by simp
  have m: "h mod sz < sz" using assms(2) by simp
  then obtain c where "slot_empty s (h mod sz) c \<or> slot_full s (h mod sz) c" using D(9) by blast
  then have slot: "slot_empty s (h mod sz) h"
  proof
    assume e: "slot_empty s (h mod sz) c"
    then have c: "h \<le> c" "c mod sz = h mod sz" "c < tail_seq (sys_q s) + sz" using seq D(1) by (auto simp: slot_empty_def Let_def)
    then have "h = c" using same_slot_gap [of h sz c] D(5) assms(4) by fastforce
    with e show ?thesis by simp
  next
    assume f: "slot_full s (h mod sz) c"
    then have "Suc c = h" "c mod sz = h mod sz" using seq D(1) assms(4) by (auto simp: slot_full_def Let_def)
    then show ?thesis using mod_Suc_neq [OF assms(2), of c] by simp
  qed
  have fr: "step_frame sz j (h mod sz) s s'" using D(1-3) assms(3-7) by (auto simp: step_frame_def)
  have e: "n_seq (q_buffer (sys_q s) ! (h mod sz)) = h" "tail_seq (sys_q s) \<le> h" "h < tail_seq (sys_q s) + sz"
    using slot D(1) by (auto simp: slot_empty_def Let_def)
  have "slot_empty s' (h mod sz) h" using e D(1) assms(5,6) by (auto simp: slot_empty_def Let_def intro!: exI [of _ j])
  moreover have "pc_ok s' (Enq_write v h)" using e D(1,4) assms(4,5,7) by simp
  ultimately show ?thesis
    by (intro mpmc_inv_step [OF assms(1,2) fr]) (use D e assms(4-7) in auto)
qed

lemma inv_write:
  assumes "mpmc_inv sz s" "2 \<le> sz" "sys_pc s j = Enq_write v h"
    "sys_q s' = (sys_q s)\<lparr>q_buffer := (q_buffer (sys_q s))[h mod sz := (q_buffer (sys_q s) ! (h mod sz))\<lparr>n_data := v\<rparr>]\<rparr>"
    "sys_pc s' = (sys_pc s)(j := Enq_publish h)" "sys_in s' = sys_in s"
  shows "mpmc_inv sz s'"
proof -
  note D = mpmc_invD [OF assms(1)]
  have m: "h mod sz < sz" using assms(2) by simp
  have ok: "h < head_seq (sys_q s)" "sys_in s ! h = v" "n_seq (q_buffer (sys_q s) ! (h mod sz)) = h"
    using D(7) [of j] assms(3) D(1) by auto
  have "slot_empty s (h mod sz) h" using assms(3) by (intro enq_slot [OF assms(1,2), of j]) simp
  then have "slot_empty s' (h mod sz) h"
    using assms(4,5) m D(1,3) by (auto simp: slot_empty_def Let_def intro!: exI [of _ j])
  moreover have fr: "step_frame sz j (h mod sz) s s'" using D(1-3) assms(3-6) m by (auto simp: step_frame_def)
  moreover have "pc_ok s' (Enq_publish h)" using ok D(1,3) m assms(4,6) by simp
  ultimately show ?thesis
    by (intro mpmc_inv_step [OF assms(1,2) fr]) (use D assms(3-6) in auto)
qed

lemma inv_publish:
  assumes "mpmc_inv sz s" "2 \<le> sz" "sys_pc s j = Enq_publish h"
    "sys_q s' = (sys_q s)\<lparr>q_buffer := (q_buffer (sys_q s))[h mod sz := (q_buffer (sys_q s) ! (h mod sz))\<lparr>n_seq := Suc h\<rparr>]\<rparr>"
    "sys_pc s' = (sys_pc s)(j := Enq_ret True)" "sys_in s' = sys_in s"
  shows "mpmc_inv sz s'"
proof -
  note D = mpmc_invD [OF assms(1)]
  have m: "h mod sz < sz" using assms(2) by simp
  have ok: "h < head_seq (sys_q s)" "n_seq (q_buffer (sys_q s) ! (h mod sz)) = h" "n_data (q_buffer (sys_q s) ! (h mod sz)) = sys_in s ! h"
    using D(7) [of j] assms(3) D(1) by auto
  have "slot_empty s (h mod sz) h" using assms(3) by (intro enq_slot [OF assms(1,2), of j]) simp
  then have "tail_seq (sys_q s) \<le> h" using D(1) by (auto simp: slot_empty_def Let_def)
  then have "slot_full s' (h mod sz) h"
    using assms(4-6) m D(1,3,6) ok by (auto simp: slot_full_def Let_def)
  moreover have fr: "step_frame sz j (h mod sz) s s'" using D(1-3) assms(3-6) m ok by (auto simp: step_frame_def)
  ultimately show ?thesis
    by (intro mpmc_inv_step [OF assms(1,2) fr]) (use D assms(3-6) in auto)
qed

lemma inv_claim_deq:
  assumes "mpmc_inv sz s" "2 \<le> sz" "sys_pc s j = Deq_cas t" "tail_seq (sys_q s) = t"
    "sys_q s' = (sys_q s)\<lparr>tail_seq := Suc t\<rparr>" "sys_pc s' = (sys_pc s)(j := Deq_read t)" "sys_in s' = sys_in s"
  shows "mpmc_inv sz s'"
proof -
  note D = mpmc_invD [OF assms(1)]
  have seq: "Suc t \<le> n_seq (q_buffer (sys_q s) ! (t mod sz))" using D(7) [of j] assms(3) D(1) by simp
  have m: "t mod sz < sz" using assms(2) by simp
  then obtain c where "slot_empty s (t mod sz) c \<or> slot_full s (t mod sz) c" using D(9) by blast
  then have slot: "slot_full s (t mod sz) t"
  proof
    assume e: "slot_empty s (t mod sz) c"
    then have c: "t < c" "c mod sz = t mod sz" "c < tail_seq (sys_q s) + sz" using seq D(1) by (auto simp: slot_empty_def Let_def)
    then show ?thesis using same_slot_gap [of t sz c] assms(4) by fastforce
  next
    assume f: "slot_full s (t mod sz) c"
    then have c: "t \<le> c" "c mod sz = t mod sz" "c < head_seq (sys_q s)" using seq D(1) by (auto simp: slot_full_def Let_def)
    then have "t = c" using same_slot_gap [of t sz c] D(6) assms(4) by fastforce
    with f show ?thesis by simp
  qed
  have fr: "step_frame sz j (t mod sz) s s'" using D(1-3) assms(3-7) by (auto simp: step_frame_def)
  have f: "n_seq (q_buffer (sys_q s) ! (t mod sz)) = Suc t" "t < head_seq (sys_q s)"
    using slot D(1) by (auto simp: slot_full_def Let_def)
  have "slot_full s' (t mod sz) t"
    using slot D(1) assms(5-7) by (auto simp: slot_full_def Let_def intro!: exI [of _ j])
  moreover have "pc_ok s' (Deq_read t)" using f D(1) assms(4,5,7) by simp
  ultimately show ?thesis
    by (intro mpmc_inv_step [OF assms(1,2) fr]) (use D f assms(4-7) in auto)
qed

lemma inv_read:
  assumes "mpmc_inv sz s" "2 \<le> sz" "sys_pc s j = Deq_read t" "v = n_data (q_buffer (sys_q s) ! (t mod sz))"
    "sys_q s' = sys_q s" "sys_pc s' = (sys_pc s)(j := Deq_publish v t)" "sys_in s' = sys_in s"
  shows "mpmc_inv sz s' \<and> v = sys_in s ! t"
proof -
  note D = mpmc_invD [OF assms(1)]
  have ok: "t < tail_seq (sys_q s)" "n_seq (q_buffer (sys_q s) ! (t mod sz)) = Suc t" using D(7) [of j] assms(3) D(1) by auto
  have f: "slot_full s (t mod sz) t" using assms(3) by (intro deq_slot [OF assms(1,2), of j]) simp
  then have v: "v = sys_in s ! t" using D(1) assms(4) by (auto simp: slot_full_def Let_def)
  have "slot_full s' (t mod sz) t"
    using f D(1) assms(5-7) by (auto simp: slot_full_def Let_def intro!: exI [of _ j])
  moreover have fr: "step_frame sz j (t mod sz) s s'" using D(1-3) assms(3-7) by (auto simp: step_frame_def)
  moreover have "pc_ok s' (Deq_publish v t)" using ok v D(1) assms(5,7) by simp
  ultimately show ?thesis
    using v by (intro conjI mpmc_inv_step [OF assms(1,2) fr]) (use D assms(3-7) in auto)
qed

lemma inv_release:
  assumes "mpmc_inv sz s" "2 \<le> sz" "sys_pc s j = Deq_publish v t"
    "sys_q s' = (sys_q s)\<lparr>q_buffer := (q_buffer (sys_q s))[t mod sz := (q_buffer (sys_q s) ! (t mod sz))\<lparr>n_seq := t + sz\<rparr>]\<rparr>"
    "sys_pc s' = (sys_pc s)(j := Deq_ret (Some v))" "sys_in s' = sys_in s"
  shows "mpmc_inv sz s'"
proof -
  note D = mpmc_invD [OF assms(1)]
  have m: "t mod sz < sz" using assms(2) by simp
  have ok: "t < tail_seq (sys_q s)" "n_seq (q_buffer (sys_q s) ! (t mod sz)) = Suc t" using D(7) [of j] assms(3) D(1) by auto
  have "slot_full s (t mod sz) t" using assms(3) by (intro deq_slot [OF assms(1,2), of j]) simp
  then have "head_seq (sys_q s) \<le> t + sz" using D(1) by (auto simp: slot_full_def Let_def)
  then have "slot_empty s' (t mod sz) (t + sz)"
    using assms(4-6) m D(1,3,5) ok by (auto simp: slot_empty_def Let_def)
  moreover have fr: "step_frame sz j (t mod sz) s s'" using D(1-3) assms(2-6) m ok by (auto simp: step_frame_def)
  ultimately show ?thesis
    by (intro mpmc_inv_step [OF assms(1,2) fr]) (use D assms(3-6) in auto)
qed

lemma intptr_diff_small:
  assumes "a < 2 ^ 63" "b < 2 ^ 63"
  shows "intptr_diff a b = int a - int b"
proof (cases "b \<le> a")
  case True
  then have "sub64 a b = a - b" using assms by (simp add: sub64_nowrap)
  then show ?thesis using True assms by (simp add: intptr_diff_def Let_def)
next
  case False
  then have "sub64 a b = a + (W64 - b)" using assms by (simp add: sub64_def)
  then show ?thesis using False assms by (simp add: intptr_diff_def Let_def)
qed

lemma mpmc_bounds:
  assumes "mpmc_inv sz s" "i < sz"
  shows "n_seq (q_buffer (sys_q s) ! i) < head_seq (sys_q s) + sz + 1"
  using mpmc_invD(9) [OF assms] mpmc_invD(1,5,6) [OF assms(1)] by (auto simp: slot_empty_def slot_full_def Let_def)

lemma mpmc_inv_sys_step:
  assumes inv: "mpmc_inv sz s" and sz: "sz = 2 ^ k" "2 \<le> sz" "sz \<le> 2 ^ 61" and small: "head_seq (sys_q s) < 2 ^ 61"
  shows "mpmc_inv sz (sys_step j sp s)"
proof -
  note D = mpmc_invD [OF inv]
  let ?s = "sys_step j sp s"
  have mod: "c AND q_mask (sys_q s) = c mod sz" for c using D(2) and_low_mask [of c k] sz(1) by simp
  have node: "node_at (sys_q s) c = q_buffer (sys_q s) ! (c mod sz)" for c by (simp add: node_at_def mod)
  have inc: "add64 c 1 = Suc c" if "c \<le> head_seq (sys_q s)" for c using that small by (simp add: add64_nowrap)
  have wrap: "add64 (add64 c (q_mask (sys_q s))) 1 = c + sz" if "c \<le> head_seq (sys_q s)" for c
    using that small sz(2,3) D(2) by (simp add: add64_nowrap)
  have i: "c mod sz < sz" for c using sz(2) by simp
  have lim: "n_seq (q_buffer (sys_q s) ! (c mod sz)) < 2 ^ 63" for c using mpmc_bounds [OF inv i [of c]] small sz(3) by simp
  have dif: "intptr_diff (n_seq (q_buffer (sys_q s) ! (c mod sz))) d = int (n_seq (q_buffer (sys_q s) ! (c mod sz))) - int d"
    if "d \<le> Suc (head_seq (sys_q s))" for c d using lim that small by (intro intptr_diff_small) auto
  have ok: "pc_ok s (sys_pc s j)" by (rule D(7))
  have loc: "mpmc_inv sz ?s" if "mpmc_step sp (sys_pc s j) (sys_q s) = (pc, sys_q s)"
    "enq_ticket (sys_pc s j) = None" "deq_ticket (sys_pc s j) = None" "enq_ticket pc = None" "deq_ticket pc = None"
    "log_in (sys_pc s j) pc = []" "pc_ok s pc" for pc
  proof -
    have q: "sys_q ?s = sys_q s" "sys_in ?s = sys_in s" "sys_pc ?s = (sys_pc s)(j := pc)" using that(1,6) by (simp_all add: sys_step_def)
    have "pc_ok ?s pc" using that(7) q by (cases pc) auto
    then show ?thesis by (intro inv_local_step [OF inv sz(2) q]) (use that in auto)
  qed
  show ?thesis
  proof (cases "sys_pc s j")
    case (Enq_node v h)
    then show ?thesis using ok D(1) by (intro loc) (auto simp: Let_def node dif)
  next
    case (Enq_cas v h)
    show ?thesis
    proof (cases "head_seq (sys_q s) = h \<and> \<not> sp")
      case True
      then show ?thesis using Enq_cas inc by (intro inv_claim_enq [OF inv sz(2) Enq_cas]) (auto simp: sys_step_def)
    next
      case False
      then show ?thesis using Enq_cas by (intro loc [of "Enq_node v (head_seq (sys_q s))"]) auto
    qed
  next
    case (Enq_write v h)
    then show ?thesis by (intro inv_write [OF inv sz(2) Enq_write]) (auto simp: sys_step_def set_node_def node mod)
  next
    case (Enq_publish h)
    then show ?thesis using ok inc by (intro inv_publish [OF inv sz(2) Enq_publish]) (auto simp: sys_step_def set_node_def node mod)
  next
    case (Deq_node t)
    then show ?thesis using ok D(1,5) inc [of t] by (intro loc) (auto simp: Let_def node dif)
  next
    case (Deq_cas t)
    show ?thesis
    proof (cases "tail_seq (sys_q s) = t \<and> \<not> sp")
      case True
      then show ?thesis using Deq_cas inc [of t] D(5) by (intro inv_claim_deq [OF inv sz(2) Deq_cas]) (auto simp: sys_step_def)
    next
      case False
      then show ?thesis using Deq_cas by (intro loc [of "Deq_node (tail_seq (sys_q s))"]) auto
    qed
  next
    case (Deq_read t)
    then show ?thesis by (intro conjunct1 [OF inv_read [OF inv sz(2) Deq_read]]) (auto simp: sys_step_def node)
  next
    case (Deq_publish v t)
    then show ?thesis using ok wrap [of t] D(5)
      by (intro inv_release [OF inv sz(2) Deq_publish]) (auto simp: sys_step_def set_node_def node mod)
  next
    case (Emp_node t)
    then show ?thesis by (intro loc) (auto simp: Let_def)
  qed (rule loc, simp, simp, simp, simp, simp, simp, simp)+
qed

lemma power_of_two_check: "k < 64 \<Longrightarrow> (2::nat) ^ k AND add64 (not64 (2 ^ k)) 1 = 2 ^ k"
proof -
  assume k: "k < 64"
  have lt: "(2::nat) ^ k < W64" using power_strict_increasing [OF k, of "2::nat"] by simp
  then have "add64 (not64 (2 ^ k)) 1 = W64 - 2 ^ k" by (simp add: add64_nowrap not64_def)
  moreover have "bit (W64 - 2 ^ k) k"
  proof -
    have "W64 = 2 ^ k * 2 ^ (64 - k)" using k by (simp flip: power_add)
    then have "W64 - 2 ^ k = 2 ^ k * (2 ^ (64 - k) - 1)" by (simp add: diff_mult_distrib2)
    then have "(W64 - 2 ^ k) div 2 ^ k = 2 ^ (64 - k) - 1" by simp
    moreover have "odd (2 ^ (64 - k) - 1 :: nat)" using k by simp
    ultimately show ?thesis by (simp add: bit_iff_odd)
  qed
  ultimately show ?thesis by (auto intro!: bit_eqI simp: bit_simps)
qed

lemma mpmc_init_eq:
  assumes "sz = 2 ^ k" "k < 64"
  shows "mpmc_init dbg sz junk = Inr \<lparr>head_seq = 0, tail_seq = 0, q_size = sz, q_mask = sz - 1,
       q_buffer = map (\<lambda>i. \<lparr>n_data = junk i, n_seq = i\<rparr>) [0..<sz]\<rparr>"
proof -
  have "(2::nat) ^ k < W64" using power_strict_increasing [OF assms(2), of "2::nat"] by simp
  then have "sub64 sz 1 = sz - 1" using assms(1) by (simp add: sub64_nowrap Suc_leI)
  then show ?thesis using assms power_of_two_check [OF assms(2)] by (simp add: mpmc_init_def assert_res_def)
qed

lemma mpmc_reach_inv:
  assumes "mpmc_reach sz n s" "sz = 2 ^ Suc k" "k < 61" "n < 2 ^ 61"
  shows "mpmc_inv sz s \<and> head_seq (sys_q s) \<le> n"
  using assms(1,4)
proof (induction rule: mpmc_reach.induct)
  case (reach_new junk q)
  then have q: "q = \<lparr>head_seq = 0, tail_seq = 0, q_size = sz, q_mask = sz - 1,
       q_buffer = map (\<lambda>i. \<lparr>n_data = junk i, n_seq = i\<rparr>) [0..<sz]\<rparr>"
    using mpmc_init_eq [of sz "Suc k" True junk] assms(2,3) by simp
  show ?case by (auto simp: q mpmc_inv_def Let_def slot_empty_def tickets_distinct_def)
next
  case (reach_call n s i pc v)
  have two: "2 \<le> sz" using assms(2) by simp
  have "mpmc_inv sz s" "head_seq (sys_q s) \<le> n" using reach_call by simp_all
  moreover have "enq_ticket (sys_pc s i) = None" "deq_ticket (sys_pc s i) = None" using reach_call.hyps(2) by (cases "sys_pc s i"; simp)+
  ultimately show ?case
    using reach_call.hyps(3) by (auto simp: sys_call_def intro: inv_local_step [OF _ two, of s])
next
  case (reach_step n s i sp)
  have two: "2 \<le> sz" "sz \<le> 2 ^ 61" using assms(2,3) power_increasing [of "Suc k" 61 "2::nat"] by simp_all
  have s: "mpmc_inv sz s" "head_seq (sys_q s) \<le> n" using reach_step by simp_all
  then have "mpmc_inv sz (sys_step i sp s)" using reach_step.prems by (intro mpmc_inv_sys_step [OF _ assms(2) two]) auto
  moreover have "head_seq (sys_q (sys_step i sp s)) \<le> Suc (head_seq (sys_q s))"
    using reach_step.prems s(2)
    by (cases "sys_pc s i") (auto simp: sys_step_def Let_def set_node_def add64_nowrap)
  ultimately show ?case using s(2) by simp
qed

section \<open>What the dequeuers read\<close>

definition out_ok :: "'a mpmc_sys \<Rightarrow> bool" where
  "out_ok s \<longleftrightarrow> distinct (map fst (sys_out s)) \<and>
     (\<forall>(t, v) \<in> set (sys_out s). t < tail_seq (sys_q s) \<and> v = sys_in s ! t) \<and>
     (\<forall>t < tail_seq (sys_q s). t \<in> fst ` set (sys_out s) \<or> (\<exists>j. sys_pc s j = Deq_read t)) \<and>
     (\<forall>j t. sys_pc s j = Deq_read t \<longrightarrow> t \<notin> fst ` set (sys_out s))"

text \<open>A step that neither wins a ticket of a dequeuer nor reads keeps the log of the outputs right.\<close>

lemma out_ok_kept:
  assumes "out_ok s" "mpmc_inv sz s" "tail_seq (sys_q s') = tail_seq (sys_q s)" "sys_in s' = sys_in s @ l" "sys_out s' = sys_out s"
    "sys_pc s' = (sys_pc s)(j := pc)" "\<And>t. sys_pc s j \<noteq> Deq_read t" "\<And>t. pc \<noteq> Deq_read t"
  shows "out_ok s'"
proof -
  note D = mpmc_invD [OF assms(2)]
  have "t < tail_seq (sys_q s) \<Longrightarrow> sys_in s' ! t = sys_in s ! t" for t using D(4,5) assms(4) by (simp add: nth_append)
  moreover have "(\<exists>i. sys_pc s' i = Deq_read t) \<longleftrightarrow> (\<exists>i. sys_pc s i = Deq_read t)" for t
    using assms(6-8) by (metis fun_upd_apply)
  ultimately show ?thesis using assms(1,3,5) by (fastforce simp: out_ok_def)
qed

lemma out_ok_step:
  assumes "out_ok s" "mpmc_inv sz s" "sz = 2 ^ k" "2 \<le> sz" "head_seq (sys_q s) < 2 ^ 61"
  shows "out_ok (sys_step j sp s)"
proof -
  note D = mpmc_invD [OF assms(2)]
  let ?s = "sys_step j sp s"
  have mod: "c AND q_mask (sys_q s) = c mod sz" for c using D(2) and_low_mask [of c k] assms(3) by simp
  consider (claim) t where "sys_pc s j = Deq_cas t" "tail_seq (sys_q s) = t" "\<not> sp" | (read) t where "sys_pc s j = Deq_read t"
    | (other) "\<And>t. sys_pc s j \<noteq> Deq_read t" "\<And>t. sys_pc s j = Deq_cas t \<Longrightarrow> tail_seq (sys_q s) \<noteq> t \<or> sp" by metis
  then show ?thesis
  proof cases
    case (claim t)
    have q: "tail_seq (sys_q ?s) = Suc t" "sys_in ?s = sys_in s" "sys_out ?s = sys_out s" "sys_pc ?s = (sys_pc s)(j := Deq_read t)"
      using claim D(5) assms(5) by (simp_all add: sys_step_def add64_nowrap)
    have new: "t \<notin> fst ` set (sys_out s)" using assms(1) claim(2) by (force simp: out_ok_def)
    have "\<exists>i. sys_pc ?s i = Deq_read c" if "c = t \<or> (\<exists>i. sys_pc s i = Deq_read c)" for c
      using that claim(1) unfolding q by (metis fun_upd_apply mpmc_pc.distinct(1,3,5,7,9,11) mpmc_pc.simps)
    then have pend: "\<forall>c < Suc t. c \<in> fst ` set (sys_out s) \<or> (\<exists>i. sys_pc ?s i = Deq_read c)"
      using assms(1) claim(2) unfolding out_ok_def by (metis less_Suc_eq)
    have "c \<notin> fst ` set (sys_out s)" if "sys_pc ?s i = Deq_read c" for i c
      using that assms(1) new unfolding out_ok_def q by (cases "i = j") simp_all
    moreover have "\<forall>(c, v) \<in> set (sys_out s). c < Suc t \<and> v = sys_in s ! c"
      using assms(1) claim(2) unfolding out_ok_def by auto
    ultimately show ?thesis
      using assms(1) pend unfolding out_ok_def q(1-3) by blast
  next
    case (read t)
    let ?v = "n_data (q_buffer (sys_q s) ! (t mod sz))"
    have q: "sys_q ?s = sys_q s" "sys_in ?s = sys_in s" "sys_out ?s = sys_out s @ [(t, ?v)]" "sys_pc ?s = (sys_pc s)(j := Deq_publish ?v t)"
      using read by (simp_all add: sys_step_def node_at_def mod)
    have v: "?v = sys_in s ! t" using inv_read [OF assms(2,4) read refl q(1,4,2)] by simp
    have t: "t < tail_seq (sys_q s)" "t \<notin> fst ` set (sys_out s)" using D(7) [of j] read assms(1) by (auto simp: out_ok_def)
    have one: "i \<noteq> j \<Longrightarrow> sys_pc s i \<noteq> Deq_read t" for i
      using D(8) read unfolding tickets_distinct_def by (metis deq_ticket.simps(1))
    have "c \<in> fst ` set (sys_out s @ [(t, ?v)]) \<or> (\<exists>i. sys_pc ?s i = Deq_read c)" if "c < tail_seq (sys_q s)" for c
    proof (cases "c = t")
      case False
      have "c \<in> fst ` set (sys_out s) \<or> (\<exists>i. sys_pc s i = Deq_read c)" using that assms(1) by (simp add: out_ok_def)
      moreover have "sys_pc s i = Deq_read c \<Longrightarrow> sys_pc ?s i = Deq_read c" for i using read False unfolding q by auto
      ultimately show ?thesis by auto
    qed simp
    moreover have "c \<notin> fst ` set (sys_out s @ [(t, ?v)])" if "sys_pc ?s i = Deq_read c" for i c
      using that assms(1) one [of i] unfolding out_ok_def q by (cases "i = j") auto
    ultimately show ?thesis
      using assms(1) v t unfolding out_ok_def q by auto
  next
    case other
    have "\<exists>l pc. tail_seq (sys_q ?s) = tail_seq (sys_q s) \<and> sys_in ?s = sys_in s @ l \<and> sys_out ?s = sys_out s \<and>
        sys_pc ?s = (sys_pc s)(j := pc) \<and> (\<forall>t. pc \<noteq> Deq_read t)"
      using other by (cases "sys_pc s j") (auto simp: sys_step_def Let_def set_node_def)
    then show ?thesis using out_ok_kept [OF assms(1,2)] other(1) by metis
  qed
qed

lemma mpmc_reach_out:
  assumes "mpmc_reach sz n s" "sz = 2 ^ Suc k" "k < 61" "n < 2 ^ 61"
  shows "out_ok s"
  using assms(1,4)
proof (induction rule: mpmc_reach.induct)
  case (reach_new junk q)
  then show ?case using mpmc_init_eq [of sz "Suc k" True junk] assms(2,3) by (auto simp: out_ok_def)
next
  case (reach_call n s i pc v)
  then have ok: "out_ok s" "mpmc_inv sz s" using mpmc_reach_inv [OF reach_call.hyps(1) assms(2,3)] by simp_all
  have "sys_pc s i \<noteq> Deq_read t" for t using reach_call.hyps(2) by (cases "sys_pc s i") auto
  moreover have "pc \<noteq> Deq_read t" for t using reach_call.hyps(3) by auto
  ultimately show ?case by (intro out_ok_kept [OF ok, where l = "[]" and j = i and pc = pc]) (simp_all add: sys_call_def)
next
  case (reach_step n s i sp)
  then have "out_ok s" "mpmc_inv sz s" "head_seq (sys_q s) < 2 ^ 61" using mpmc_reach_inv [OF reach_step.hyps(1) assms(2,3)] by simp_all
  then show ?case using assms(2) by (intro out_ok_step [where k = "Suc k"]) auto
qed

section \<open>Properties\<close>


text \<open>An enqueue by one thread followed by a dequeue by another, on two slots.\<close>

definition run_sys :: "nat list \<Rightarrow> 'a mpmc_sys \<Rightarrow> 'a mpmc_sys" where
  "run_sys = fold (\<lambda>i. sys_step i False)"

definition demo_run :: "nat mpmc_sys \<Rightarrow> nat mpmc_sys" where
  "demo_run s = run_sys [1, 1, 1, 1, 1] (sys_call 1 Deq_start (run_sys [0, 0, 0, 0, 0] (sys_call 0 (Enq_start 7) s)))"

lemma reach_run: "mpmc_reach sz n s \<Longrightarrow> mpmc_reach sz (length is + n) (run_sys is s)"
proof (induction "is" arbitrary: n s)
  case (Cons i "is")
  from Cons.IH [OF reach_step [OF Cons.prems, of i False]] show ?case by (simp add: run_sys_def)
qed (simp add: run_sys_def)


text \<open>In a state without operations in progress the slots of the two counters are settled.\<close>

lemma quiet_slots:
  assumes "mpmc_inv sz s" "2 \<le> sz" "\<And>j. pc_returned (sys_pc s j)"
  shows "n_seq (q_buffer (sys_q s) ! (head_seq (sys_q s) mod sz)) =
      (if head_seq (sys_q s) < tail_seq (sys_q s) + sz then head_seq (sys_q s) else Suc (head_seq (sys_q s) - sz))"
    "n_seq (q_buffer (sys_q s) ! (tail_seq (sys_q s) mod sz)) =
      (if tail_seq (sys_q s) < head_seq (sys_q s) then Suc (tail_seq (sys_q s)) else tail_seq (sys_q s))"
    "tail_seq (sys_q s) < head_seq (sys_q s) \<Longrightarrow> n_data (q_buffer (sys_q s) ! (tail_seq (sys_q s) mod sz)) = sys_in s ! tail_seq (sys_q s)"
proof -
  note D = mpmc_invD [OF assms(1)]
  let ?h = "head_seq (sys_q s)" and ?t = "tail_seq (sys_q s)"
  have "enq_ticket (sys_pc s j) = None \<and> deq_ticket (sys_pc s j) = None" for j using assms(3) [of j] by (cases "sys_pc s j") auto
  then have q: "slot_empty s i c \<Longrightarrow> n_seq (q_buffer (sys_q s) ! i) = c \<and> c mod sz = i \<and> ?h \<le> c \<and> c < ?t + sz"
    "slot_full s i c \<Longrightarrow> n_seq (q_buffer (sys_q s) ! i) = Suc c \<and> c mod sz = i \<and> c < ?h \<and> ?h \<le> c + sz \<and> ?t \<le> c \<and>
       n_data (q_buffer (sys_q s) ! i) = sys_in s ! c" for i c
    using D(1) by (auto simp: slot_empty_def slot_full_def Let_def not_less)
  have m: "?h mod sz < sz" "?t mod sz < sz" using assms(2) by simp_all
  obtain c where "slot_empty s (?h mod sz) c \<or> slot_full s (?h mod sz) c" using D(9) [OF m(1)] by blast
  then show "n_seq (q_buffer (sys_q s) ! (?h mod sz)) = (if ?h < ?t + sz then ?h else Suc (?h - sz))"
  proof
    assume f: "slot_empty s (?h mod sz) c"
    have c: "n_seq (q_buffer (sys_q s) ! (?h mod sz)) = c" "c mod sz = ?h mod sz" "?h \<le> c" "c < ?t + sz" using q(1) [OF f] by - (elim conjE, assumption)+
    from c(2-4) have "?h = c" using same_slot_gap [of ?h sz c] D(5) by fastforce
    then show ?thesis using c(1,4) by metis
  next
    assume f: "slot_full s (?h mod sz) c"
    have c: "n_seq (q_buffer (sys_q s) ! (?h mod sz)) = Suc c" "c mod sz = ?h mod sz" "c < ?h" "?h \<le> c + sz" "?t \<le> c" using q(2) [OF f] by - (elim conjE, assumption)+
    have "c + sz = ?h" using same_slot_gap [OF c(2,3)] c(4) by simp
    then have "\<not> ?h < ?t + sz" "?h - sz = c" using c(5) by linarith+
    then show ?thesis using c(1) by presburger
  qed
  obtain c where "slot_empty s (?t mod sz) c \<or> slot_full s (?t mod sz) c" using D(9) [OF m(2)] by blast
  then have "n_seq (q_buffer (sys_q s) ! (?t mod sz)) = (if ?t < ?h then Suc ?t else ?t) \<and>
    (?t < ?h \<longrightarrow> n_data (q_buffer (sys_q s) ! (?t mod sz)) = sys_in s ! ?t)"
  proof
    assume f: "slot_empty s (?t mod sz) c"
    have c: "n_seq (q_buffer (sys_q s) ! (?t mod sz)) = c" "c mod sz = ?t mod sz" "?h \<le> c" "c < ?t + sz" using q(1) [OF f] by - (elim conjE, assumption)+
    from c(2-4) have "?t = c" using same_slot_gap [of ?t sz c] D(5) by fastforce
    moreover have "\<not> ?t < ?h" using calculation c(3) by linarith
    ultimately show ?thesis using c(1) by metis
  next
    assume f: "slot_full s (?t mod sz) c"
    have c: "c mod sz = ?t mod sz" "c < ?h" "?t \<le> c" "n_seq (q_buffer (sys_q s) ! (?t mod sz)) = Suc c"
      "n_data (q_buffer (sys_q s) ! (?t mod sz)) = sys_in s ! c" using q(2) [OF f] by - (elim conjE, assumption)+
    from c(1-3) have "c = ?t" using same_slot_gap [of ?t sz c] D(6) by fastforce
    then show ?thesis using c(2,4,5) by metis
  qed
  then show "n_seq (q_buffer (sys_q s) ! (?t mod sz)) = (if ?t < ?h then Suc ?t else ?t)"
    "?t < ?h \<Longrightarrow> n_data (q_buffer (sys_q s) ! (?t mod sz)) = sys_in s ! ?t" by blast+
qed



text \<open>
  The constructor accepts a queue of one slot, on which the sequence number of a full slot
  is that of the next empty one: a second enqueue succeeds without a dequeue in between, and a
  dequeue after it never returns, however many steps it runs.
\<close>
theorem mpmc_single_slot_stuck:
  "\<exists>q q1 q2. mpmc_init True 1 junk = Inr q \<and> mpmc_solo 5 (Enq_start a) q = (Enq_ret True, q1) \<and>
     mpmc_solo 5 (Enq_start b) q1 = (Enq_ret True, q2) \<and> (\<forall>n. \<not> pc_returned (fst (mpmc_solo n Deq_start q2)))"
proof -
  let ?q = "\<lambda>h v sq. \<lparr>head_seq = h, tail_seq = 0, q_size = 1, q_mask = 0, q_buffer = [\<lparr>n_data = v, n_seq = sq\<rparr>]\<rparr>"
  note ev = node_at_def set_node_def intptr_diff_def add64_def sub64_def Let_def
  have five: "(5::nat) = Suc (Suc (Suc (Suc (Suc 0))))" by simp
  have "mpmc_init True 1 junk = Inr (?q 0 (junk 0) 0)" using mpmc_init_eq [of 1 0 True junk] by simp
  moreover have "mpmc_solo 5 (Enq_start a) (?q 0 (junk 0) 0) = (Enq_ret True, ?q 1 a 1)" unfolding five by (simp add: ev)
  moreover have "mpmc_solo 5 (Enq_start b) (?q 1 a 1) = (Enq_ret True, ?q 2 b 2)" unfolding five by (simp add: ev)
  moreover have stuck: "fst (mpmc_solo n pc (?q 2 b 2)) \<in> {Deq_start, Deq_node 0}" if "pc \<in> {Deq_start, Deq_node 0}" for n pc
    using that
  proof (induction n arbitrary: pc)
    case (Suc n)
    have "mpmc_step False pc (?q 2 b 2) \<in> {Deq_start, Deq_node 0} \<times> {?q 2 b 2}" using Suc.prems by (auto simp: ev)
    then obtain pc' where "mpmc_step False pc (?q 2 b 2) = (pc', ?q 2 b 2)" "pc' \<in> {Deq_start, Deq_node 0}" by blast
    then show ?case using Suc.IH [of pc'] by (simp only: mpmc_solo.simps Let_def prod.case)
  qed simp
  moreover have "\<not> pc_returned (fst (mpmc_solo n Deq_start (?q 2 b 2)))" for n
  proof -
    have "fst (mpmc_solo n Deq_start (?q 2 b 2)) \<in> {Deq_start, Deq_node 0}" by (rule stuck) simp
    then show ?thesis by auto
  qed
  ultimately show ?thesis by blast
qed

end
