(* ===== verification/Fifo_Interface.thy ===== *)
theory Fifo_Interface
  imports Prelude
begin

text \<open>
  What the block allocator relies on in the queues that hold its segments: a first-in first-out
  queue of bounded capacity used by one thread. \<open>rep q xs\<close> says that the queue holds \<open>xs\<close>,
  oldest first.
\<close>

locale fifo =
  fixes enq :: "'a \<Rightarrow> ('q, bool) prog" and deq :: "('q, 'a option) prog" and emp :: "('q, bool) prog"
    and rep :: "'q \<Rightarrow> 'a list \<Rightarrow> bool" and cap :: nat
  assumes enq_room: "rep q xs \<Longrightarrow> length xs < cap \<Longrightarrow> \<exists>q'. enq x q = (Inr True, q') \<and> rep q' (xs @ [x])"
    and deq_front: "rep q (x # xs) \<Longrightarrow> \<exists>q'. deq q = (Inr (Some x), q') \<and> rep q' xs"
    and deq_none: "rep q [] \<Longrightarrow> deq q = (Inr None, q)"
    and emp_iff: "rep q xs \<Longrightarrow> emp q = (Inr (xs = []), q)"
    and rep_cap: "rep q xs \<Longrightarrow> length xs \<le> cap"
begin

text \<open>Moving the oldest element to the end never runs out of room.\<close>

lemma rotate_front:
  assumes "rep q (x # xs)"
  shows "\<exists>q' q''. deq q = (Inr (Some x), q') \<and> rep q' xs \<and> enq x q' = (Inr True, q'') \<and> rep q'' (xs @ [x])"
proof -
  obtain q' where q': "deq q = (Inr (Some x), q')" "rep q' xs" using deq_front [OF assms] by blast
  have "length xs < cap" using rep_cap [OF assms] by simp
  from enq_room [OF q'(2) this] q' show ?thesis by blast
qed

lemma enq_deq_single:
  assumes "rep q []" "0 < cap"
  shows "\<exists>q' q''. enq x q = (Inr True, q') \<and> rep q' [x] \<and> deq q' = (Inr (Some x), q'') \<and> rep q'' []"
  using enq_room [OF assms(1), of x] deq_front [of _ x "[]"] assms(2) by fastforce

end

end
