(* ===== verification/Mpmc_Sequential.thy ===== *)
theory Mpmc_Sequential
  imports Mpmc_Queue Fifo_Interface
begin

unbundle bit_operations_syntax

text \<open>
  The multi-producer multi-consumer queue used by one thread at a time, without a bound on the
  number of operations: the counters may wrap around. It is a bounded first-in first-out queue.
\<close>

section \<open>Whole operations\<close>

text \<open>
  An operation run alone. It returns within five steps or repeats the same two steps forever,
  which is the result \<open>Diverges\<close>.
\<close>

definition mpmc_call :: "'a mpmc_pc \<Rightarrow> ('a mpmc, 'a mpmc_pc) prog" where
  "mpmc_call pc q = (let (pc', q') = mpmc_solo 5 pc q in (if pc_returned pc' then Inr pc' else Inl Diverges, q'))"

definition mpmc_enqueue :: "'a \<Rightarrow> ('a mpmc, bool) prog" where
  "mpmc_enqueue v = bind_p (mpmc_call (Enq_start v)) (\<lambda>pc. ret_p (pc = Enq_ret True))"

definition mpmc_dequeue :: "('a mpmc, 'a option) prog" where
  "mpmc_dequeue = bind_p (mpmc_call Deq_start) (\<lambda>pc. ret_p (case pc of Deq_ret r \<Rightarrow> r | _ \<Rightarrow> None))"

definition mpmc_empty :: "('a mpmc, bool) prog" where
  "mpmc_empty = bind_p (mpmc_call Emp_start) (\<lambda>pc. ret_p (pc = Emp_ret True))"

section \<open>The contents\<close>

definition mpmc_at :: "nat \<Rightarrow> 'a mpmc \<Rightarrow> nat \<Rightarrow> 'a list \<Rightarrow> bool" where
  "mpmc_at sz q t xs \<longleftrightarrow> q_size q = sz \<and> q_mask q = sz - 1 \<and> length (q_buffer q) = sz \<and> length xs \<le> sz \<and>
     tail_seq q = t mod W64 \<and> head_seq q = (t + length xs) mod W64 \<and>
     (\<forall>i < length xs. n_seq (q_buffer q ! ((t + i) mod sz)) = Suc (t + i) mod W64 \<and> n_data (q_buffer q ! ((t + i) mod sz)) = xs ! i) \<and>
     (\<forall>i. length xs \<le> i \<longrightarrow> i < sz \<longrightarrow> n_seq (q_buffer q ! ((t + i) mod sz)) = (t + i) mod W64)"

definition mpmc_rep :: "nat \<Rightarrow> 'a mpmc \<Rightarrow> 'a list \<Rightarrow> bool" where
  "mpmc_rep k q xs \<longleftrightarrow> (\<exists>t. mpmc_at (2 ^ k) q t xs)"

lemma intptr_diff_mod:
  assumes "- (2 ^ 63) \<le> int a - int b" "int a - int b < 2 ^ 63"
  shows "intptr_diff (a mod W64) (b mod W64) = int a - int b"
proof -
  have sub: "int (sub64 (a mod W64) (b mod W64)) = (int a - int b) mod int W64"
    unfolding sub64_int of_nat_mod mod_diff_eq ..
  show ?thesis
  proof (cases "b \<le> a")
    case True
    then have "(int a - int b) mod int W64 = int a - int b" using assms(2) by (intro mod_pos_pos_trivial) auto
    then show ?thesis using sub assms(2) unfolding intptr_diff_def Let_def by auto
  next
    case False
    have "(int a - int b) mod int W64 = (int a - int b + int W64) mod int W64" by simp
    also have "\<dots> = int a - int b + int W64" using assms(1) False by (intro mod_pos_pos_trivial) auto
    finally show ?thesis using sub assms(1) unfolding intptr_diff_def Let_def by auto
  qed
qed

lemma wrap_slot:
  assumes "k \<le> 64"
  shows "(a mod W64) AND (2 ^ k - 1) = a mod 2 ^ k"
proof -
  have "(2::nat) ^ k dvd W64" using assms le_imp_power_dvd [of k 64 "2::nat"] by simp
  then show ?thesis using and_low_mask [of "a mod W64" k] by (simp add: mod_mod_cancel)
qed

lemma slots_differ:
  assumes "i < sz" "j < sz" "i \<noteq> j"
  shows "(t + i) mod sz \<noteq> (t + j) mod (sz::nat)"
proof
  assume eq: "(t + i) mod sz = (t + j) mod sz"
  consider "i < j" | "j < i" using assms(3) by linarith
  then show False
    using eq same_slot_gap [of "t + i" sz "t + j"] same_slot_gap [of "t + j" sz "t + i"] assms by cases auto
qed

lemma mpmc_at_new: "k < 64 \<Longrightarrow> mpmc_init dbg (2 ^ k) junk = Inr q \<Longrightarrow> mpmc_rep k q []"
proof -
  assume k: "k < 64" and q: "mpmc_init dbg (2 ^ k) junk = Inr q"
  have "(2::nat) ^ k \<le> W64" using k power_increasing [of k 64 "2::nat"] by simp
  then show ?thesis using q mpmc_init_eq [OF refl k, of dbg junk]
    by (auto simp: mpmc_rep_def mpmc_at_def intro!: exI [of _ 0])
qed

lemma five_steps: "(5::nat) = Suc (Suc (Suc (Suc (Suc 0))))"
  by simp

lemma mpmc_enqueue_room:
  assumes at: "mpmc_at (2 ^ k) q t xs" and k: "k \<le> 64" and room: "length xs < 2 ^ k"
  shows "\<exists>q'. mpmc_enqueue v q = (Inr True, q') \<and> mpmc_at (2 ^ k) q' t (xs @ [v])"
proof -
  let ?sz = "2 ^ k :: nat" and ?h = "t + length xs"
  have D: "q_mask q = ?sz - 1" "length (q_buffer q) = ?sz" "head_seq q = ?h mod W64" "n_seq (q_buffer q ! (?h mod ?sz)) = ?h mod W64"
    using at room by (auto simp: mpmc_at_def)
  have node: "node_at q (?h mod W64) = q_buffer q ! (?h mod ?sz)" by (simp add: node_at_def D(1) wrap_slot [OF k, simplified])
  have dif: "intptr_diff (?h mod W64) (?h mod W64) = 0" using intptr_diff_mod [of ?h ?h] by simp
  let ?q = "q\<lparr>head_seq := Suc ?h mod W64, q_buffer := (q_buffer q)[?h mod ?sz := (q_buffer q ! (?h mod ?sz))\<lparr>n_data := v, n_seq := Suc ?h mod W64\<rparr>]\<rparr>"
  have inc: "add64 (?h mod W64) 1 = Suc ?h mod W64" by (simp add: add64_def mod_simps)
  have m: "?h mod ?sz < ?sz" by simp
  have "mpmc_solo 5 (Enq_start v) q = (Enq_ret True, ?q)"
    unfolding five_steps using m
    by (simp add: D node dif Let_def set_node_def node_at_def wrap_slot [OF k, simplified] inc [simplified])
  then have "mpmc_enqueue v q = (Inr True, ?q)" by (simp add: mpmc_enqueue_def mpmc_call_def bind_p_def ret_p_def)
  moreover have "mpmc_at ?sz ?q t (xs @ [v])"
    unfolding mpmc_at_def
  proof (intro conjI allI impI)
    fix i assume "i < length (xs @ [v])"
    then consider "i = length xs" | "i < length xs" by fastforce
    then show "n_seq (q_buffer ?q ! ((t + i) mod ?sz)) = Suc (t + i) mod W64" "n_data (q_buffer ?q ! ((t + i) mod ?sz)) = (xs @ [v]) ! i"
      using at room D(2) slots_differ [of i ?sz "length xs" t] by (cases; auto simp: mpmc_at_def nth_append)+
  next
    fix i assume i: "length (xs @ [v]) \<le> i" "i < ?sz"
    then have "(t + i) mod ?sz \<noteq> ?h mod ?sz" using room by (intro slots_differ) auto
    then show "n_seq (q_buffer ?q ! ((t + i) mod ?sz)) = (t + i) mod W64" using at i by (auto simp: mpmc_at_def)
  qed (use at room in \<open>auto simp: mpmc_at_def\<close>)
  ultimately show ?thesis by blast
qed

lemma mpmc_dequeue_front:
  assumes at: "mpmc_at (2 ^ k) q t (x # xs)" and k: "k \<le> 64"
  shows "\<exists>q'. mpmc_dequeue q = (Inr (Some x), q') \<and> mpmc_at (2 ^ k) q' (Suc t) xs"
proof -
  let ?sz = "2 ^ k :: nat"
  have D: "q_mask q = ?sz - 1" "length (q_buffer q) = ?sz" "tail_seq q = t mod W64" "n_seq (q_buffer q ! (t mod ?sz)) = Suc t mod W64"
    "n_data (q_buffer q ! (t mod ?sz)) = x" "length xs < ?sz"
    using at by (auto simp: mpmc_at_def)
  have node: "node_at q (t mod W64) = q_buffer q ! (t mod ?sz)" by (simp add: node_at_def D(1) wrap_slot [OF k, simplified])
  have inc: "add64 (t mod W64) 1 = Suc t mod W64" by (simp add: add64_def mod_simps)
  have dif: "intptr_diff (Suc t mod W64) (Suc t mod W64) = 0" using intptr_diff_mod [of "Suc t" "Suc t"] by simp
  have rel: "add64 (add64 (t mod W64) (?sz - 1)) 1 = (t + ?sz) mod W64" by (simp add: add64_def mod_simps)
  let ?q = "q\<lparr>tail_seq := Suc t mod W64, q_buffer := (q_buffer q)[t mod ?sz := (q_buffer q ! (t mod ?sz))\<lparr>n_seq := (t + ?sz) mod W64\<rparr>]\<rparr>"
  have m: "t mod ?sz < ?sz" by simp
  have "mpmc_solo 5 Deq_start q = (Deq_ret (Some x), ?q)"
    unfolding five_steps using m D(5)
    by (simp add: D node dif inc [simplified] rel [simplified] Let_def set_node_def node_at_def wrap_slot [OF k, simplified])
  then have "mpmc_dequeue q = (Inr (Some x), ?q)" by (simp add: mpmc_dequeue_def mpmc_call_def bind_p_def ret_p_def)
  moreover have "mpmc_at ?sz ?q (Suc t) xs"
    unfolding mpmc_at_def
  proof (intro conjI allI impI)
    fix i assume i: "i < length xs"
    then have "(t + Suc i) mod ?sz \<noteq> (t + 0) mod ?sz" using D(6) by (intro slots_differ) auto
    then show "n_seq (q_buffer ?q ! ((Suc t + i) mod ?sz)) = Suc (Suc t + i) mod W64" "n_data (q_buffer ?q ! ((Suc t + i) mod ?sz)) = xs ! i"
      using at i by (auto simp: mpmc_at_def dest!: spec [of _ "Suc i"])
  next
    fix i assume i: "length xs \<le> i" "i < ?sz"
    show "n_seq (q_buffer ?q ! ((Suc t + i) mod ?sz)) = (Suc t + i) mod W64"
    proof (cases "Suc i = ?sz")
      case True
      then have e: "Suc t + i = t + ?sz" by simp
      show ?thesis unfolding e using D(2) by simp
    next
      case False
      then have "(t + Suc i) mod ?sz \<noteq> (t + 0) mod ?sz" using i by (intro slots_differ) auto
      then show ?thesis using at i False by (auto simp: mpmc_at_def dest!: spec [of _ "Suc i"])
    qed
  qed (use at in \<open>auto simp: mpmc_at_def\<close>)
  ultimately show ?thesis by blast
qed

lemma mpmc_dequeue_none:
  assumes at: "mpmc_at (2 ^ k) q t []" and k: "k \<le> 64"
  shows "mpmc_dequeue q = (Inr None, q)"
proof -
  have D: "q_mask q = 2 ^ k - 1" "tail_seq q = t mod W64" "n_seq (q_buffer q ! (t mod 2 ^ k)) = t mod W64"
    using at by (auto simp: mpmc_at_def dest!: spec [of _ 0])
  have inc: "add64 (t mod W64) 1 = Suc t mod W64" by (simp add: add64_def mod_simps)
  have dif: "intptr_diff (t mod W64) (Suc t mod W64) = - 1" using intptr_diff_mod [of t "Suc t"] by simp
  have "mpmc_solo 5 Deq_start q = (Deq_ret None, q)"
    unfolding five_steps by (simp add: D node_at_def dif inc [simplified] Let_def wrap_slot [OF k, simplified])
  then show ?thesis by (simp add: mpmc_dequeue_def mpmc_call_def bind_p_def ret_p_def)
qed

lemma mpmc_empty_iff:
  assumes at: "mpmc_at (2 ^ k) q t xs" and k: "k \<le> 64"
  shows "mpmc_empty q = (Inr (xs = []), q)"
proof -
  have D: "q_mask q = 2 ^ k - 1" "tail_seq q = t mod W64"
    "n_seq (q_buffer q ! (t mod 2 ^ k)) = (if xs = [] then t mod W64 else Suc t mod W64)"
    using at by (auto simp: mpmc_at_def dest!: spec [of _ 0])
  have inc: "add64 (t mod W64) 1 = Suc t mod W64" by (simp add: add64_def mod_simps)
  have dif: "intptr_diff (t mod W64) (Suc t mod W64) = - 1" "intptr_diff (Suc t mod W64) (Suc t mod W64) = 0"
    using intptr_diff_mod [of t "Suc t"] intptr_diff_mod [of "Suc t" "Suc t"] by simp_all
  have "mpmc_solo 5 Emp_start q = (Emp_ret (xs = []), q)"
    unfolding five_steps by (simp add: D node_at_def dif inc [simplified] Let_def wrap_slot [OF k, simplified])
  then show ?thesis by (simp add: mpmc_empty_def mpmc_call_def bind_p_def ret_p_def)
qed

interpretation mpmc_seq: fifo mpmc_enqueue mpmc_dequeue mpmc_empty "mpmc_rep (k mod 64)" "2 ^ (k mod 64)" for k
proof
  have k: "k mod 64 \<le> 64" by simp
  fix q :: "'a mpmc" and xs :: "'a list" and x :: 'a
  show "\<exists>q'. mpmc_enqueue x q = (Inr True, q') \<and> mpmc_rep (k mod 64) q' (xs @ [x])"
    if "mpmc_rep (k mod 64) q xs" "length xs < 2 ^ (k mod 64)"
    using mpmc_enqueue_room [OF _ k that(2)] that(1) unfolding mpmc_rep_def by metis
  show "\<exists>q'. mpmc_dequeue q = (Inr (Some x), q') \<and> mpmc_rep (k mod 64) q' xs" if "mpmc_rep (k mod 64) q (x # xs)"
    using mpmc_dequeue_front [OF _ k] that unfolding mpmc_rep_def by metis
  show "mpmc_dequeue q = (Inr None, q)" if "mpmc_rep (k mod 64) q []"
    using mpmc_dequeue_none [OF _ k] that unfolding mpmc_rep_def by metis
  show "mpmc_empty q = (Inr (xs = []), q)" if "mpmc_rep (k mod 64) q xs"
    using mpmc_empty_iff [OF _ k] that unfolding mpmc_rep_def by metis
  show "length xs \<le> 2 ^ (k mod 64)" if "mpmc_rep (k mod 64) q xs"
    using that by (auto simp: mpmc_rep_def mpmc_at_def)
qed

end
