(* ===== verification/Spsc_Queue.thy ===== *)
theory Spsc_Queue
  imports Utils "HOL-Library.Sublist"
begin

unbundle bit_operations_syntax

text \<open>
  The single-producer single-consumer queue \<open>Spsc_bounded_lfq\<close> of
  \<open>common/spsc_bounded_queue.h\<close>: a ring indexed by two 64-bit counters that wrap around. The
  producer and the consumer are interleaved at the granularity of their loads and stores.
\<close>

section \<open>The queue\<close>

record 'a spsc =
  s_head :: nat
  s_tail :: nat
  s_mask :: nat
  s_buffer :: "'a list"

definition spsc_new :: "nat \<Rightarrow> 'a \<Rightarrow> 'a spsc" where
  "spsc_new qsize zero = \<lparr>s_head = 0, s_tail = 0, s_mask = qsize - 1, s_buffer = replicate qsize zero\<rparr>"

text \<open>The producer before the load of the tail, the store of the element and the store of the head.\<close>

datatype 'a prod_pc =
    Prod_idle | Prod_start 'a | Prod_tail 'a nat | Prod_write 'a nat | Prod_publish 'a nat | Prod_ret bool

datatype 'a cons_pc =
    Cons_idle | Cons_start | Cons_head nat | Cons_read nat | Cons_publish 'a nat | Cons_ret "'a option"

fun spsc_enqueue_step :: "'a prod_pc \<Rightarrow> 'a spsc \<Rightarrow> 'a prod_pc \<times> 'a spsc" where
  "spsc_enqueue_step (Prod_start v) q = (Prod_tail v (s_head q), q)"
| "spsc_enqueue_step (Prod_tail v h) q =
     (if sub64 (s_tail q) (add64 h 1) AND s_mask q \<ge> 1 then Prod_write v h else Prod_ret False, q)"
| "spsc_enqueue_step (Prod_write v h) q = (Prod_publish v h, q\<lparr>s_buffer := (s_buffer q)[h AND s_mask q := v]\<rparr>)"
| "spsc_enqueue_step (Prod_publish v h) q = (Prod_ret True, q\<lparr>s_head := add64 h 1\<rparr>)"
| "spsc_enqueue_step pc q = (pc, q)"

fun spsc_dequeue_step :: "'a cons_pc \<Rightarrow> 'a spsc \<Rightarrow> 'a cons_pc \<times> 'a spsc" where
  "spsc_dequeue_step Cons_start q = (Cons_head (s_tail q), q)"
| "spsc_dequeue_step (Cons_head t) q =
     (if sub64 (s_head q) t AND s_mask q \<ge> 1 then Cons_read t else Cons_ret None, q)"
| "spsc_dequeue_step (Cons_read t) q = (Cons_publish (s_buffer q ! (s_tail q AND s_mask q)) t, q)"
| "spsc_dequeue_step (Cons_publish v t) q = (Cons_ret (Some v), q\<lparr>s_tail := add64 t 1\<rparr>)"
| "spsc_dequeue_step pc q = (pc, q)"

section \<open>Interleavings\<close>

text \<open>\<open>spsc_in\<close> and \<open>spsc_out\<close> log the values published by the producer and taken by the consumer.\<close>

record 'a spsc_sys =
  spsc_q :: "'a spsc"
  prod_pc :: "'a prod_pc"
  cons_pc :: "'a cons_pc"
  spsc_in :: "'a list"
  spsc_out :: "'a list"

definition prod_step :: "'a spsc_sys \<Rightarrow> 'a spsc_sys" where
  "prod_step s = (let (pc, q) = spsc_enqueue_step (prod_pc s) (spsc_q s) in
     s\<lparr>spsc_q := q, prod_pc := pc, spsc_in := spsc_in s @ (case prod_pc s of Prod_publish v h \<Rightarrow> [v] | _ \<Rightarrow> [])\<rparr>)"

definition cons_step :: "'a spsc_sys \<Rightarrow> 'a spsc_sys" where
  "cons_step s = (let (pc, q) = spsc_dequeue_step (cons_pc s) (spsc_q s) in
     s\<lparr>spsc_q := q, cons_pc := pc, spsc_out := spsc_out s @ (case cons_pc s of Cons_publish v t \<Rightarrow> [v] | _ \<Rightarrow> [])\<rparr>)"

inductive spsc_reach :: "nat \<Rightarrow> 'a spsc_sys \<Rightarrow> bool" for sz where
  spsc_init: "spsc_reach sz \<lparr>spsc_q = spsc_new sz zero, prod_pc = Prod_idle, cons_pc = Cons_idle, spsc_in = [], spsc_out = []\<rparr>"
| spsc_call_enqueue: "spsc_reach sz s \<Longrightarrow> prod_pc s \<in> {Prod_idle} \<union> range Prod_ret \<Longrightarrow> spsc_reach sz (s\<lparr>prod_pc := Prod_start v\<rparr>)"
| spsc_call_dequeue: "spsc_reach sz s \<Longrightarrow> cons_pc s \<in> {Cons_idle} \<union> range Cons_ret \<Longrightarrow> spsc_reach sz (s\<lparr>cons_pc := Cons_start\<rparr>)"
| spsc_prod_step: "spsc_reach sz s \<Longrightarrow> spsc_reach sz (prod_step s)"
| spsc_cons_step: "spsc_reach sz s \<Longrightarrow> spsc_reach sz (cons_step s)"

section \<open>The invariant\<close>

text \<open>The counters are the lengths of the logs modulo the word size.\<close>

fun prod_ok :: "nat \<Rightarrow> 'a spsc_sys \<Rightarrow> 'a prod_pc \<Rightarrow> bool" where
  "prod_ok sz s (Prod_tail v h) \<longleftrightarrow> h = length (spsc_in s) mod W64"
| "prod_ok sz s (Prod_write v h) \<longleftrightarrow> h = length (spsc_in s) mod W64 \<and> Suc (length (spsc_in s)) < length (spsc_out s) + sz"
| "prod_ok sz s (Prod_publish v h) \<longleftrightarrow> h = length (spsc_in s) mod W64 \<and> Suc (length (spsc_in s)) < length (spsc_out s) + sz \<and>
     s_buffer (spsc_q s) ! (length (spsc_in s) mod sz) = v"
| "prod_ok sz s pc \<longleftrightarrow> True"

fun cons_ok :: "'a spsc_sys \<Rightarrow> 'a cons_pc \<Rightarrow> bool" where
  "cons_ok s (Cons_head t) \<longleftrightarrow> t = length (spsc_out s) mod W64"
| "cons_ok s (Cons_read t) \<longleftrightarrow> t = length (spsc_out s) mod W64 \<and> length (spsc_out s) < length (spsc_in s)"
| "cons_ok s (Cons_publish v t) \<longleftrightarrow> t = length (spsc_out s) mod W64 \<and> length (spsc_out s) < length (spsc_in s) \<and>
     v = spsc_in s ! length (spsc_out s)"
| "cons_ok s pc \<longleftrightarrow> True"

lemma pc_ok_frame [simp]:
  "prod_ok sz (s\<lparr>prod_pc := p\<rparr>) pc = prod_ok sz s pc" "prod_ok sz (s\<lparr>cons_pc := c\<rparr>) pc = prod_ok sz s pc"
  "cons_ok (s\<lparr>prod_pc := p\<rparr>) cpc = cons_ok s cpc" "cons_ok (s\<lparr>cons_pc := c\<rparr>) cpc = cons_ok s cpc"
  "cons_ok (s\<lparr>spsc_q := q\<rparr>) cpc = cons_ok s cpc"
  by (cases pc; cases cpc; simp)+

lemma prod_ok_out:
  "prod_ok sz s pc \<Longrightarrow> prod_ok sz (s\<lparr>spsc_q := (spsc_q s)\<lparr>s_tail := t\<rparr>, cons_pc := c, spsc_out := spsc_out s @ [v]\<rparr>) pc"
  by (cases pc) auto

lemma cons_ok_in: "cons_ok s pc \<Longrightarrow> cons_ok (s\<lparr>spsc_q := q, prod_pc := p, spsc_in := spsc_in s @ [v]\<rparr>) pc"
  by (cases pc) (auto simp: nth_append)

definition spsc_inv :: "nat \<Rightarrow> 'a spsc_sys \<Rightarrow> bool" where
  "spsc_inv sz s \<longleftrightarrow> s_mask (spsc_q s) = sz - 1 \<and> length (s_buffer (spsc_q s)) = sz \<and>
     s_head (spsc_q s) = length (spsc_in s) mod W64 \<and> s_tail (spsc_q s) = length (spsc_out s) mod W64 \<and>
     prefix (spsc_out s) (spsc_in s) \<and> length (spsc_in s) < length (spsc_out s) + sz \<and>
     (\<forall>k. length (spsc_out s) \<le> k \<longrightarrow> k < length (spsc_in s) \<longrightarrow> s_buffer (spsc_q s) ! (k mod sz) = spsc_in s ! k) \<and>
     prod_ok sz s (prod_pc s) \<and> cons_ok s (cons_pc s)"

lemma wrap_index:
  assumes "sz = 2 ^ k" "k \<le> 64"
  shows "(a mod W64) AND (sz - 1) = a mod sz"
proof -
  have "sz dvd W64" using assms le_imp_power_dvd [of k 64 "2::nat"] by simp
  then show ?thesis using and_low_mask [of "a mod W64" k] assms(1) by (simp add: mod_mod_cancel)
qed

lemma wrap_distance:
  assumes "sz = 2 ^ k" "k \<le> 64"
  shows "int (sub64 (a mod W64) (b mod W64) AND (sz - 1)) = (int a - int b) mod int sz"
proof -
  have d: "int sz dvd int W64" using assms le_imp_power_dvd [of k 64 "2::nat"] by (simp only: of_nat_dvd_iff) simp
  have "sub64 (a mod W64) (b mod W64) AND (sz - 1) = sub64 (a mod W64) (b mod W64) mod sz"
    using and_low_mask [of _ k] assms(1) by simp
  then have "int (sub64 (a mod W64) (b mod W64) AND (sz - 1)) = (int (a mod W64) - int (b mod W64)) mod int W64 mod int sz"
    by (simp only: of_nat_mod sub64_int)
  also have "\<dots> = (int a - int b) mod int sz" unfolding of_nat_mod mod_diff_eq by (rule mod_mod_cancel [OF d])
  finally show ?thesis .
qed

lemma spsc_room:
  assumes "sz = 2 ^ k" "k \<le> 64" "t \<le> h" "h < t + sz"
  shows "sub64 (t mod W64) (add64 (h mod W64) 1) AND (sz - 1) \<ge> 1 \<longleftrightarrow> Suc h < t + sz"
    "sub64 (h mod W64) (t mod W64) AND (sz - 1) \<ge> 1 \<longleftrightarrow> t < h"
proof -
  have inc: "add64 (h mod W64) 1 = Suc h mod W64" by (simp add: add64_def mod_simps)
  have "int (sub64 (t mod W64) (Suc h mod W64) AND (sz - 1)) = (int t - int (Suc h)) mod int sz" by (rule wrap_distance [OF assms(1,2)])
  also have "\<dots> = (int t - int (Suc h) + int sz) mod int sz" by simp
  also have "\<dots> = int t - int (Suc h) + int sz" using assms(3,4) by (intro mod_pos_pos_trivial) auto
  finally show "sub64 (t mod W64) (add64 (h mod W64) 1) AND (sz - 1) \<ge> 1 \<longleftrightarrow> Suc h < t + sz" unfolding inc by linarith
  have "int (sub64 (h mod W64) (t mod W64) AND (sz - 1)) = (int h - int t) mod int sz" by (rule wrap_distance [OF assms(1,2)])
  also have "\<dots> = int h - int t" using assms(3,4) by (intro mod_pos_pos_trivial) auto
  finally show "sub64 (h mod W64) (t mod W64) AND (sz - 1) \<ge> 1 \<longleftrightarrow> t < h" by linarith
qed

lemma spsc_prod_inv:
  assumes inv: "spsc_inv sz s" and sz: "sz = 2 ^ k" "k \<le> 64"
  shows "spsc_inv sz (prod_step s)"
proof -
  have D: "s_mask (spsc_q s) = sz - 1" "length (s_buffer (spsc_q s)) = sz" "s_head (spsc_q s) = length (spsc_in s) mod W64"
    "s_tail (spsc_q s) = length (spsc_out s) mod W64" "prefix (spsc_out s) (spsc_in s)" "length (spsc_in s) < length (spsc_out s) + sz"
    "\<And>k. length (spsc_out s) \<le> k \<Longrightarrow> k < length (spsc_in s) \<Longrightarrow> s_buffer (spsc_q s) ! (k mod sz) = spsc_in s ! k"
    "prod_ok sz s (prod_pc s)" "cons_ok s (cons_pc s)"
    using inv by (auto simp: spsc_inv_def)
  have le: "length (spsc_out s) \<le> length (spsc_in s)" using D(5) by (rule prefix_length_le)
  have pos: "0 < sz" using sz by simp
  show ?thesis
  proof (cases "prod_pc s")
    case (Prod_tail v h)
    then have s': "prod_step s = s\<lparr>prod_pc := if Suc (length (spsc_in s)) < length (spsc_out s) + sz then Prod_write v h else Prod_ret False\<rparr>"
      using D(1,4,8) spsc_room(1) [OF sz le D(6)] by (simp add: prod_step_def)
    show ?thesis unfolding s' using D Prod_tail by (simp add: spsc_inv_def)
  next
    case (Prod_write v h)
    let ?i = "length (spsc_in s) mod sz"
    have h: "h AND (sz - 1) = ?i" and room: "Suc (length (spsc_in s)) < length (spsc_out s) + sz"
      using D(8) Prod_write wrap_index [OF sz] by auto
    have s': "prod_step s = s\<lparr>spsc_q := (spsc_q s)\<lparr>s_buffer := (s_buffer (spsc_q s))[?i := v]\<rparr>, prod_pc := Prod_publish v h\<rparr>"
      using Prod_write D(1) h by (simp add: prod_step_def)
    have "k mod sz \<noteq> ?i" if "length (spsc_out s) \<le> k" "k < length (spsc_in s)" for k
    proof
      assume "k mod sz = ?i"
      then have "sz dvd length (spsc_in s) - k" using that(2) by (metis less_imp_le mod_eq_dvd_iff_nat)
      then have "sz \<le> length (spsc_in s) - k" using that(2) by (intro dvd_imp_le) auto
      then show False using that D(6) by linarith
    qed
    then have "(s_buffer (spsc_q s))[?i := v] ! (k mod sz) = spsc_in s ! k" if "length (spsc_out s) \<le> k" "k < length (spsc_in s)" for k
      using that D(7) by (metis nth_list_update_neq)
    then show ?thesis unfolding s' using D Prod_write room pos by (simp add: spsc_inv_def)
  next
    case (Prod_publish v h)
    have s': "prod_step s = s\<lparr>spsc_q := (spsc_q s)\<lparr>s_head := Suc (length (spsc_in s)) mod W64\<rparr>, prod_pc := Prod_ret True, spsc_in := spsc_in s @ [v]\<rparr>"
      using Prod_publish D(8) by (simp add: prod_step_def add64_def mod_simps)
    have "prefix (spsc_out s) (spsc_in s @ [v])" using D(5) by (rule prefix_prefix)
    then show ?thesis unfolding s' using D Prod_publish cons_ok_in [OF D(9), where v = v and p = "Prod_ret True"]
      by (simp add: spsc_inv_def nth_append less_Suc_eq)
  qed (use D in \<open>simp_all add: spsc_inv_def prod_step_def\<close>)
qed

lemma spsc_cons_inv:
  assumes inv: "spsc_inv sz s" and sz: "sz = 2 ^ k" "k \<le> 64"
  shows "spsc_inv sz (cons_step s)"
proof -
  have D: "s_mask (spsc_q s) = sz - 1" "length (s_buffer (spsc_q s)) = sz" "s_head (spsc_q s) = length (spsc_in s) mod W64"
    "s_tail (spsc_q s) = length (spsc_out s) mod W64" "prefix (spsc_out s) (spsc_in s)" "length (spsc_in s) < length (spsc_out s) + sz"
    "\<And>k. length (spsc_out s) \<le> k \<Longrightarrow> k < length (spsc_in s) \<Longrightarrow> s_buffer (spsc_q s) ! (k mod sz) = spsc_in s ! k"
    "prod_ok sz s (prod_pc s)" "cons_ok s (cons_pc s)"
    using inv by (auto simp: spsc_inv_def)
  have le: "length (spsc_out s) \<le> length (spsc_in s)" using D(5) by (rule prefix_length_le)
  show ?thesis
  proof (cases "cons_pc s")
    case (Cons_head t)
    then have s': "cons_step s = s\<lparr>cons_pc := if length (spsc_out s) < length (spsc_in s) then Cons_read t else Cons_ret None\<rparr>"
      using D(1,3,9) spsc_room(2) [OF sz le D(6)] by (simp add: cons_step_def)
    show ?thesis unfolding s' using D Cons_head by (simp add: spsc_inv_def)
  next
    case (Cons_read t)
    have s': "cons_step s = s\<lparr>cons_pc := Cons_publish (s_buffer (spsc_q s) ! (length (spsc_out s) mod sz)) t\<rparr>"
      using Cons_read D(1,4) wrap_index [OF sz] by (simp add: cons_step_def)
    show ?thesis unfolding s' using D Cons_read by (simp add: spsc_inv_def)
  next
    case (Cons_publish v t)
    have s': "cons_step s = s\<lparr>spsc_q := (spsc_q s)\<lparr>s_tail := Suc (length (spsc_out s)) mod W64\<rparr>, cons_pc := Cons_ret (Some v), spsc_out := spsc_out s @ [v]\<rparr>"
      using Cons_publish D(9) by (simp add: cons_step_def add64_def mod_simps)
    have v: "length (spsc_out s) < length (spsc_in s)" "v = spsc_in s ! length (spsc_out s)" using Cons_publish D(9) by simp_all
    have "spsc_out s = take (length (spsc_out s)) (spsc_in s)" using D(5) by (metis append_eq_conv_conj prefix_def)
    then have "spsc_out s @ [v] = take (Suc (length (spsc_out s))) (spsc_in s)" using v by (simp add: take_Suc_conv_app_nth)
    then have "prefix (spsc_out s @ [v]) (spsc_in s)" by (simp add: take_is_prefix)
    then show ?thesis unfolding s' using D v prod_ok_out [OF D(8), where t = "Suc (length (spsc_out s)) mod W64" and c = "Cons_ret (Some v)" and v = v]
      by (simp add: spsc_inv_def)
  qed (use D in \<open>simp_all add: spsc_inv_def cons_step_def\<close>)
qed

lemma spsc_reach_inv:
  assumes "spsc_reach sz s" "sz = 2 ^ k" "k \<le> 64"
  shows "spsc_inv sz s"
  using assms(1)
proof (induction rule: spsc_reach.induct)
  case (spsc_init zero)
  then show ?case using assms(2) by (simp add: spsc_inv_def spsc_new_def)
next
  case (spsc_call_enqueue s v)
  then show ?case by (simp add: spsc_inv_def)
next
  case (spsc_call_dequeue s)
  then show ?case by (simp add: spsc_inv_def)
qed (auto intro: spsc_prod_inv spsc_cons_inv assms(2,3))

text \<open>
  C21: whatever the interleaving of one producer and one consumer, and however often the
  counters wrap around, the values taken are a prefix of the values put in, at most all but one
  of the slots are in use, an enqueue is refused exactly when all but one are in use at the moment
  it reads the tail, and a dequeue finds nothing exactly when every value has been taken at the
  moment it reads the head.
\<close>
theorem spsc_fifo:
  assumes "spsc_reach (2 ^ k) s" "k \<le> 64"
  shows "prefix (spsc_out s) (spsc_in s) \<and> length (spsc_in s) < length (spsc_out s) + 2 ^ k \<and>
    (prod_pc s = Prod_tail v h \<longrightarrow>
       (prod_pc (prod_step s) = Prod_ret False \<longleftrightarrow> length (spsc_in s) = length (spsc_out s) + 2 ^ k - 1)) \<and>
    (cons_pc s = Cons_head t \<longrightarrow> (cons_pc (cons_step s) = Cons_ret None \<longleftrightarrow> spsc_out s = spsc_in s)) \<and>
    (cons_pc s = Cons_publish w t \<longrightarrow> prefix (spsc_out s @ [w]) (spsc_in s))"
proof -
  have inv: "spsc_inv (2 ^ k) s" by (rule spsc_reach_inv [OF assms(1) refl assms(2)])
  then have pre: "prefix (spsc_out s) (spsc_in s)" and len: "length (spsc_in s) < length (spsc_out s) + 2 ^ k" by (auto simp: spsc_inv_def)
  then have le: "length (spsc_out s) \<le> length (spsc_in s)" by (simp add: prefix_length_le)
  note room = spsc_room [OF refl assms(2) le len]
  have "prod_pc (prod_step s) = Prod_ret False \<longleftrightarrow> length (spsc_in s) = length (spsc_out s) + 2 ^ k - 1" if "prod_pc s = Prod_tail v h"
  proof -
    have "prod_pc (prod_step s) = Prod_ret False \<longleftrightarrow> \<not> Suc (length (spsc_in s)) < length (spsc_out s) + 2 ^ k"
      using inv that room(1) by (simp add: spsc_inv_def prod_step_def)
    then show ?thesis using len by linarith
  qed
  moreover have "cons_pc (cons_step s) = Cons_ret None \<longleftrightarrow> spsc_out s = spsc_in s" if "cons_pc s = Cons_head t"
  proof -
    have "cons_pc (cons_step s) = Cons_ret None \<longleftrightarrow> \<not> length (spsc_out s) < length (spsc_in s)"
      using inv that room(2) by (simp add: spsc_inv_def cons_step_def)
    then show ?thesis using pre le by (metis append_Nil2 append_eq_conv_conj nat_less_le prefix_def take_all_iff)
  qed
  moreover have "prefix (spsc_out s @ [w]) (spsc_in s)" if "cons_pc s = Cons_publish w t"
  proof -
    have "spsc_inv (2 ^ k) (cons_step s)" by (rule spsc_cons_inv [OF inv refl assms(2)])
    then show ?thesis using that by (simp add: spsc_inv_def cons_step_def)
  qed
  ultimately show ?thesis using pre len by blast
qed

theorem spsc_fifo_witness:
  "let s = \<lparr>spsc_q = spsc_new 32 0, prod_pc = Prod_idle, cons_pc = Cons_idle, spsc_in = [], spsc_out = []\<rparr>;
       s1 = prod_step (prod_step (prod_step (prod_step (s\<lparr>prod_pc := Prod_start (7::nat)\<rparr>)))) in
   prod_pc s1 = Prod_ret True \<and> prefix (spsc_out s1) (spsc_in s1)"
proof -
  let ?s = "\<lparr>spsc_q = spsc_new 32 0, prod_pc = Prod_idle, cons_pc = Cons_idle, spsc_in = [], spsc_out = []\<rparr>"
  let ?t = "prod_step (prod_step (prod_step (prod_step (?s\<lparr>prod_pc := Prod_start (7::nat)\<rparr>))))"
  have "spsc_reach (2 ^ 5) ?t"
    by (intro spsc_prod_step spsc_call_enqueue) (use spsc_init [of "2 ^ 5" 0] in simp_all)
  from spsc_fifo [OF this] have "prefix (spsc_out ?t) (spsc_in ?t)" by simp
  moreover have "prod_pc ?t = Prod_ret True"
    by (simp add: prod_step_def spsc_new_def sub64_def add64_def)
  ultimately show ?thesis unfolding Let_def by blast
qed

end
