(* ===== verification/Queue_Waiting.thy ===== *)
theory Queue_Waiting
  imports Prelude
begin

text \<open>
  The blocking queues built on the bounded queues: \<open>Mpmc_bounded_lfq_sleeping\<close> and
  \<open>Mpmc_bounded_lfq_sleeping_dual\<close> of \<open>common/mpmc_bounded_queue.h\<close> and
  \<open>Spsc_bounded_lfq_sleeping\<close> of \<open>common/spsc_bounded_queue.h\<close>. A blocking call retries the
  operation of the underlying queue and goes to sleep on a semaphore after a number of retries.
  What other threads do in the meantime is given as a list of rounds: the outcome of the attempt
  on the underlying queue, whether the clock can be read, the number of posts of the semaphore
  and the exit flag after the sleep. A call that uses up the list is still running.
\<close>

datatype thread_state = SLEEPING | AWAKE

record sleeping =
  sl_exit :: bool
  sl_sem :: nat
  consumer_state :: thread_state

record dual =
  du_exit :: bool
  consumer_sem :: nat
  producer_sem :: nat
  du_consumer :: thread_state
  du_producer :: thread_state

record 'r round =
  attempt :: 'r
  clock_ok :: bool
  posted :: nat
  exit_seen :: bool

datatype 'r outcome = Running | Returned 'r

text \<open>\<open>sem_timedwait\<close> takes a post or times out.\<close>

definition sem_wait :: "nat \<Rightarrow> nat \<Rightarrow> nat" where
  "sem_wait posts n = posts + n - 1"

section \<open>Sleep on the consumer side\<close>

definition sleeping_new :: sleeping where
  "sleeping_new = \<lparr>sl_exit = False, sl_sem = 0, consumer_state = AWAKE\<rparr>"

definition sleeping_exit_threads :: "sleeping \<Rightarrow> sleeping" where
  "sleeping_exit_threads s = s\<lparr>sl_exit := True, sl_sem := Suc (sl_sem s)\<rparr>"

definition sleeping_enqueue :: "bool \<Rightarrow> sleeping \<Rightarrow> bool \<times> sleeping" where
  "sleeping_enqueue enq s =
     (enq, if consumer_state s = SLEEPING then s\<lparr>sl_sem := Suc (sl_sem s)\<rparr> else s)"

text \<open>\<open>retries\<close> is a 32-bit counter. The limit is \<open>RETRY_THRESHOLD\<close> of the class.\<close>

fun sleeping_loop ::
  "nat \<Rightarrow> bool \<Rightarrow> nat \<Rightarrow> 'a option round list \<Rightarrow> sleeping \<Rightarrow> 'a option outcome result \<times> sleeping" where
  "sleeping_loop limit dbg retries [] s = (Inr Running, s)"
| "sleeping_loop limit dbg retries (r # rs) s =
     (case attempt r of
        Some v \<Rightarrow> (Inr (Returned (Some v)), s\<lparr>consumer_state := AWAKE\<rparr>)
      | None \<Rightarrow>
          (let retries = Suc retries mod 2 ^ 32 in
           if retries < limit then sleeping_loop limit dbg retries rs s
           else
             (let s = s\<lparr>consumer_state := SLEEPING\<rparr> in
              if \<not> clock_ok r then (bind_res (assert_res dbg False) (\<lambda>_. Inr (Returned None)), s)
              else
                (let s = s\<lparr>sl_sem := sem_wait (posted r) (sl_sem s), sl_exit := exit_seen r\<rparr> in
                 if sl_exit s then (Inr (Returned None), s)
                 else sleeping_loop limit dbg retries rs s))))"

definition mpmc_sleeping_dequeue :: "bool \<Rightarrow> 'a option round list \<Rightarrow> sleeping \<Rightarrow> 'a option outcome result \<times> sleeping" where
  "mpmc_sleeping_dequeue dbg = sleeping_loop 100000 dbg 0"

definition spsc_dequeue_sleeping :: "bool \<Rightarrow> 'a option round list \<Rightarrow> sleeping \<Rightarrow> 'a option outcome result \<times> sleeping" where
  "spsc_dequeue_sleeping dbg = sleeping_loop 5000000 dbg 0"

section \<open>Sleep on both sides\<close>

definition dual_new :: dual where
  "dual_new = \<lparr>du_exit = False, consumer_sem = 0, producer_sem = 0, du_consumer = AWAKE, du_producer = AWAKE\<rparr>"

definition dual_exit_threads :: "dual \<Rightarrow> dual" where
  "dual_exit_threads s = s\<lparr>du_exit := True, producer_sem := Suc (producer_sem s), consumer_sem := Suc (consumer_sem s)\<rparr>"

fun dual_enqueue_loop :: "bool \<Rightarrow> nat \<Rightarrow> bool round list \<Rightarrow> dual \<Rightarrow> bool outcome result \<times> dual" where
  "dual_enqueue_loop dbg retries [] s = (Inr Running, s)"
| "dual_enqueue_loop dbg retries (r # rs) s =
     (if attempt r then (Inr (Returned True), s)
      else if retries < 1000 then dual_enqueue_loop dbg retries rs s
      else
        (let s = s\<lparr>du_producer := SLEEPING\<rparr> in
         if \<not> clock_ok r then (bind_res (assert_res dbg False) (\<lambda>_. Inr (Returned False)), s)
         else dual_enqueue_loop dbg retries rs (s\<lparr>producer_sem := sem_wait (posted r) (producer_sem s)\<rparr>)))"

definition dual_enqueue :: "bool \<Rightarrow> bool round list \<Rightarrow> dual \<Rightarrow> bool outcome result \<times> dual" where
  "dual_enqueue dbg rs s =
     dual_enqueue_loop dbg 0 rs (if du_consumer s = SLEEPING then s\<lparr>consumer_sem := Suc (consumer_sem s)\<rparr> else s)"

fun dual_dequeue_loop :: "bool \<Rightarrow> nat \<Rightarrow> 'a option round list \<Rightarrow> dual \<Rightarrow> 'a option outcome result \<times> dual" where
  "dual_dequeue_loop dbg retries [] s = (Inr Running, s)"
| "dual_dequeue_loop dbg retries (r # rs) s =
     (case attempt r of
        Some v \<Rightarrow> (Inr (Returned (Some v)), s\<lparr>du_consumer := AWAKE\<rparr>)
      | None \<Rightarrow>
          (let retries = Suc retries mod 2 ^ 32 in
           if retries < 1000 then dual_dequeue_loop dbg retries rs s
           else
             (let s = s\<lparr>du_consumer := SLEEPING\<rparr> in
              if \<not> clock_ok r then (bind_res (assert_res dbg False) (\<lambda>_. Inr (Returned None)), s)
              else
                (let s = s\<lparr>consumer_sem := sem_wait (posted r) (consumer_sem s), du_exit := exit_seen r\<rparr> in
                 if du_exit s then (Inr (Returned None), s)
                 else dual_dequeue_loop dbg retries rs s))))"

definition dual_dequeue :: "bool \<Rightarrow> 'a option round list \<Rightarrow> dual \<Rightarrow> 'a option outcome result \<times> dual" where
  "dual_dequeue dbg rs s =
     dual_dequeue_loop dbg 0 rs (if du_producer s = SLEEPING then s\<lparr>producer_sem := Suc (producer_sem s)\<rparr> else s)"

section \<open>Who is released by an exit request\<close>

text \<open>
  Once the exit flag is seen and the clock works, a consumer returns at the latest in the round
  in which its retries reach the limit.
\<close>

lemma sleeping_loop_exits:
  assumes "\<forall>r \<in> set rs. clock_ok r \<and> exit_seen r" "retries < limit" "limit < 2 ^ 32" "limit \<le> retries + length rs"
  shows "\<exists>v s'. sleeping_loop limit dbg retries rs s = (Inr (Returned v), s')"
  using assms
proof (induction rs arbitrary: retries s)
  case (Cons r rs)
  have m: "Suc retries mod 4294967296 = Suc retries" using Cons.prems(2,3) by simp
  show ?case
  proof (cases "attempt r = None \<and> Suc retries < limit")
    case True
    then obtain v s' where "sleeping_loop limit dbg (Suc retries) rs s = (Inr (Returned v), s')"
      using Cons.IH [of "Suc retries" s] Cons.prems by auto
    then show ?thesis using True by (auto simp: Let_def m)
  next
    case False
    then show ?thesis using Cons.prems(1) by (auto simp: Let_def m split: option.split)
  qed
qed simp

lemma dual_dequeue_loop_exits:
  assumes "\<forall>r \<in> set rs. clock_ok r \<and> exit_seen r" "retries < 1000" "1000 \<le> retries + length rs"
  shows "\<exists>v s'. dual_dequeue_loop dbg retries rs s = (Inr (Returned v), s')"
  using assms
proof (induction rs arbitrary: retries s)
  case (Cons r rs)
  have m: "Suc retries mod 4294967296 = Suc retries" using Cons.prems(2) by simp
  show ?case
  proof (cases "attempt r = None \<and> Suc retries < 1000")
    case True
    then obtain v s' where "dual_dequeue_loop dbg (Suc retries) rs s = (Inr (Returned v), s')"
      using Cons.IH [of "Suc retries" s] Cons.prems by auto
    then show ?thesis using True by (auto simp: Let_def m)
  next
    case False
    then show ?thesis using Cons.prems(1) by (auto simp: Let_def m split: option.split)
  qed
qed simp

lemma dual_enqueue_loop_spins:
  "retries < 1000 \<Longrightarrow> \<forall>r \<in> set rs. \<not> attempt r \<Longrightarrow> dual_enqueue_loop dbg retries rs s = (Inr Running, s)"
  by (induction rs) auto

text \<open>
  C37: an exit request releases consumers. Once other threads have set the exit flag, a blocking
  dequeue returns after at most as many attempts as the class's retry threshold, whatever the
  attempts find.
\<close>
theorem sleeping_dequeue_exits:
  assumes "\<forall>r \<in> set rs. clock_ok r \<and> exit_seen r"
  shows "(100000 \<le> length rs \<longrightarrow> (\<exists>v s'. mpmc_sleeping_dequeue dbg rs s = (Inr (Returned v), s'))) \<and>
    (5000000 \<le> length rs \<longrightarrow> (\<exists>v s'. spsc_dequeue_sleeping dbg rs s = (Inr (Returned v), s'))) \<and>
    (1000 \<le> length rs \<longrightarrow> (\<exists>v s'. dual_dequeue dbg rs d = (Inr (Returned v), s')))"
proof (intro conjI impI)
  show "\<exists>v s'. mpmc_sleeping_dequeue dbg rs s = (Inr (Returned v), s')" if "100000 \<le> length rs"
    unfolding mpmc_sleeping_dequeue_def using that by (intro sleeping_loop_exits assms) auto
  show "\<exists>v s'. spsc_dequeue_sleeping dbg rs s = (Inr (Returned v), s')" if "5000000 \<le> length rs"
    unfolding spsc_dequeue_sleeping_def using that by (intro sleeping_loop_exits assms) auto
  show "\<exists>v s'. dual_dequeue dbg rs d = (Inr (Returned v), s')" if "1000 \<le> length rs"
    unfolding dual_dequeue_def using that by (intro dual_dequeue_loop_exits assms) auto
qed

theorem sleeping_dequeue_exits_witness:
  "\<exists>v s'. dual_dequeue True (replicate 1000 \<lparr>attempt = (None :: nat option), clock_ok = True, posted = 0, exit_seen = True\<rparr>) dual_new
     = (Inr (Returned v), s')"
  using sleeping_dequeue_exits [of "replicate 1000 \<lparr>attempt = (None :: nat option), clock_ok = True, posted = 0, exit_seen = True\<rparr>"
      True sleeping_new dual_new] by simp

text \<open>
  An exit request does not release producers of the dual queue. The retry counter of
  \<open>enqueue\<close> is never incremented: on a queue that stays full the call spins through any number of
  attempts, never goes to sleep and does not return, also after \<open>exit_threads\<close>.
\<close>
theorem dual_enqueue_spins:
  assumes "\<forall>r \<in> set rs. \<not> attempt r"
  shows "\<exists>s'. dual_enqueue dbg rs (dual_exit_threads s) = (Inr Running, s') \<and> du_producer s' = du_producer s \<and> du_exit s'"
  by (simp add: dual_enqueue_def dual_enqueue_loop_spins [OF _ assms] dual_exit_threads_def)

theorem dual_enqueue_spins_witness:
  "fst (dual_enqueue True (replicate 5000 \<lparr>attempt = False, clock_ok = True, posted = 1, exit_seen = True\<rparr>) (dual_exit_threads dual_new))
     = Inr Running"
  using dual_enqueue_spins [of "replicate 5000 \<lparr>attempt = False, clock_ok = True, posted = 1, exit_seen = True\<rparr>" True dual_new] by auto

end
