(* ===== verification/Block_Segment.thy ===== *)
theory Block_Segment
  imports Utils
begin

unbundle bit_operations_syntax

text \<open>
  The segments of the block allocator (\<open>segment.h\<close> of \<open>components/allocator/block\<close>). A segment
  manages a range of logical blocks by a table of ranges in one page of persistent memory. Sizes
  in blocks are 32-bit, slot counts 16-bit, addresses 63-bit.
\<close>

section \<open>The segment\<close>

record seg_range =
  rg_free :: bool
  rg_lba :: nat
  rg_count :: nat

record segment_page =
  sg_magic :: nat
  sg_lba_begin :: nat
  sg_lb_count :: nat
  sg_num_slots :: nat
  sg_slot_tail :: nat
  sg_ranges :: "seg_range list"
  sg_adjacent :: "nat option"

abbreviation SEGMENT_MAGIC :: nat where "SEGMENT_MAGIC \<equiv> 0xABA1EEEE"
abbreviation MSB_64 :: nat where "MSB_64 \<equiv> 2147483648"

text \<open>The sizes of \<open>Segment_page\<close> and of the packed \<open>Range\<close> in bytes.\<close>

definition slot_count :: "size_t \<Rightarrow> size_t" where
  "slot_count memory_size = sub64 memory_size 40 div 12"

text \<open>
  The constructor on a page; \<open>page\<close> is what the page holds and is kept unless the segment is
  initialised.
\<close>

definition segment_new :: "bool \<Rightarrow> size_t \<Rightarrow> nat \<Rightarrow> nat \<Rightarrow> bool \<Rightarrow> segment_page \<Rightarrow> segment_page result" where
  "segment_new dbg page_size lba_begin lb_count initialize page =
     bind_res (assert_res dbg (40 < page_size)) (\<lambda>_.
     if initialize then
       (let n = slot_count page_size mod 2 ^ 16 in
        Inr \<lparr>sg_magic = SEGMENT_MAGIC, sg_lba_begin = lba_begin, sg_lb_count = lb_count, sg_num_slots = n, sg_slot_tail = 1,
          sg_ranges = \<lparr>rg_free = True, rg_lba = (lba_begin AND not64 MSB_64) mod 2 ^ 63, rg_count = lb_count\<rparr>
            # replicate (n - 1) \<lparr>rg_free = False, rg_lba = 0, rg_count = 0\<rparr>,
          sg_adjacent = sg_adjacent page\<rparr>)
     else
       bind_res (assert_res dbg (sg_magic page = SEGMENT_MAGIC)) (\<lambda>_.
       bind_res (assert_res dbg (sg_slot_tail page \<le> sg_num_slots page)) (\<lambda>_. Inr page)))"

text \<open>\<open>size_of_largest\<close> is a 16-bit variable, to which a 32-bit count is assigned.\<close>

fun scan_ranges :: "seg_range list \<Rightarrow> nat \<Rightarrow> nat option \<Rightarrow> nat \<Rightarrow> nat option" where
  "scan_ranges [] i p_largest size_of_largest = p_largest"
| "scan_ranges (r # rs) i p_largest size_of_largest =
     (if rg_free r \<and> size_of_largest < rg_count r then scan_ranges rs (Suc i) (Some i) (rg_count r mod 2 ^ 16)
      else scan_ranges rs (Suc i) p_largest size_of_largest)"

definition scan_largest_free :: "segment_page \<Rightarrow> nat option" where
  "scan_largest_free s = scan_ranges (take (sg_slot_tail s) (sg_ranges s)) 0 None 0"

definition seg_find :: "nat \<Rightarrow> segment_page \<Rightarrow> nat option" where
  "seg_find lba s = List.find (\<lambda>i. rg_lba (sg_ranges s ! i) = lba) [0..<sg_slot_tail s]"

definition next_free_slot :: "(segment_page, nat option) prog" where
  "next_free_slot s =
     (if sg_num_slots s = sg_slot_tail s then (Inr None, s)
      else case List.find (\<lambda>i. rg_count (sg_ranges s ! i) = 0) [0..<sg_slot_tail s] of
        Some i \<Rightarrow> (Inr (Some i), s)
      | None \<Rightarrow> (Inr (Some (sg_slot_tail s)), s\<lparr>sg_slot_tail := Suc (sg_slot_tail s) mod 2 ^ 16\<rparr>))"

definition set_range :: "nat \<Rightarrow> (seg_range \<Rightarrow> seg_range) \<Rightarrow> (segment_page, unit) prog" where
  "set_range i f = update_p (\<lambda>s. s\<lparr>sg_ranges := (sg_ranges s)[i := f (sg_ranges s ! i)]\<rparr>)"

definition allocate_from :: "bool \<Rightarrow> nat \<Rightarrow> nat \<Rightarrow> (segment_page, nat) prog" where
  "allocate_from dbg i lb_count =
     bind_p (get_p (\<lambda>s. sg_ranges s ! i)) (\<lambda>r.
     bind_p (assert_p dbg (rg_free r)) (\<lambda>_.
     bind_p (assert_p dbg (lb_count \<le> rg_count r)) (\<lambda>_.
     if lb_count = rg_count r then
       bind_p (set_range i (\<lambda>r. r\<lparr>rg_free := False\<rparr>)) (\<lambda>_. ret_p i)
     else
       bind_p (get_p (\<lambda>s. sg_num_slots s = sg_slot_tail s)) (\<lambda>full.
       if full then throw_p General_exception
       else
         bind_p next_free_slot (\<lambda>n.
         case n of
           None \<Rightarrow> throw_p Null_deref
         | Some j \<Rightarrow>
             bind_p (set_range j (\<lambda>_. \<lparr>rg_free = False, rg_lba = rg_lba r, rg_count = lb_count mod 2 ^ 32\<rparr>)) (\<lambda>_.
             bind_p (set_range i (\<lambda>r. r\<lparr>rg_count := (rg_count r + 2 ^ 32 - lb_count mod 2 ^ 32) mod 2 ^ 32,
                                        rg_lba := (rg_lba r + lb_count) mod 2 ^ 63\<rparr>)) (\<lambda>_. ret_p j)))))))"

text \<open>
  The status of \<open>alloc\<close> is the address or nothing (\<open>E_EMPTY\<close>). Without a free range it calls
  \<open>dump_info\<close>, which takes the lock that \<open>alloc\<close> holds.
\<close>

definition seg_alloc :: "bool \<Rightarrow> nat \<Rightarrow> (segment_page, nat option) prog" where
  "seg_alloc dbg cnt =
     bind_p (get_p scan_largest_free) (\<lambda>lr.
     case lr of
       None \<Rightarrow> throw_p Blocked
     | Some i \<Rightarrow>
         bind_p (get_p (\<lambda>s. rg_count (sg_ranges s ! i))) (\<lambda>n.
         if n < cnt then ret_p None
         else
           bind_p (allocate_from dbg i cnt) (\<lambda>j.
           bind_p (get_p (\<lambda>s. rg_lba (sg_ranges s ! j))) (\<lambda>lba. ret_p (Some lba)))))"

definition seg_free :: "nat \<Rightarrow> (segment_page, bool) prog" where
  "seg_free lba =
     bind_p (get_p (seg_find lba)) (\<lambda>r.
     case r of
       None \<Rightarrow> ret_p False
     | Some i \<Rightarrow> bind_p (set_range i (\<lambda>r. r\<lparr>rg_free := True\<rparr>)) (\<lambda>_. ret_p True))"

definition max_allocation :: "segment_page \<Rightarrow> nat" where
  "max_allocation s = (case scan_largest_free s of None \<Rightarrow> 0 | Some i \<Rightarrow> rg_count (sg_ranges s ! i))"

section \<open>The table partitions the segment\<close>

definition rblocks :: "seg_range \<Rightarrow> nat multiset" where
  "rblocks r = mset [rg_lba r..<rg_lba r + rg_count r]"

definition seg_table :: "segment_page \<Rightarrow> seg_range list" where
  "seg_table s = take (sg_slot_tail s) (sg_ranges s)"

definition seg_inv :: "nat \<Rightarrow> nat \<Rightarrow> segment_page \<Rightarrow> bool" where
  "seg_inv b n s \<longleftrightarrow> b + n < 2 ^ 62 \<and> n < 2 ^ 32 \<and> sg_num_slots s = length (sg_ranges s) \<and> sg_num_slots s < 2 ^ 16 \<and>
     sg_slot_tail s \<le> sg_num_slots s \<and> (\<forall>r \<in> set (seg_table s). 0 < rg_count r) \<and>
     (\<Sum>r \<in># mset (seg_table s). rblocks r) = mset [b..<b + n]"

definition seg_used :: "segment_page \<Rightarrow> (nat \<times> nat) set" where
  "seg_used s = {(rg_lba r, rg_count r) | r. r \<in> set (seg_table s) \<and> \<not> rg_free r}"

lemma rblocks_le:
  assumes "seg_inv b n s" "r \<in> set (seg_table s)"
  shows "rblocks r \<subseteq># mset [b..<b + n]"
proof -
  obtain m where "mset (seg_table s) = add_mset r m" using assms(2) by (metis insert_DiffM set_mset_mset)
  then have "rblocks r + (\<Sum>r \<in># m. rblocks r) = mset [b..<b + n]" using assms(1) by (simp add: seg_inv_def)
  then show ?thesis by (metis mset_subset_eq_add_left)
qed

lemma rblocks_bounds:
  assumes "seg_inv b n s" "r \<in> set (seg_table s)"
  shows "b \<le> rg_lba r" "rg_lba r + rg_count r \<le> b + n" "0 < rg_count r"
proof -
  show pos: "0 < rg_count r" using assms by (auto simp: seg_inv_def)
  have sub: "{rg_lba r..<rg_lba r + rg_count r} \<subseteq> {b..<b + n}"
    using set_mset_mono [OF rblocks_le [OF assms]] by (simp add: rblocks_def)
  then show "b \<le> rg_lba r" "rg_lba r + rg_count r \<le> b + n" using pos by (auto simp: ivl_subset)
qed

lemma two_elements:
  assumes "i < length xs" "j < length xs" "i \<noteq> j"
  shows "\<exists>m. mset xs = add_mset (xs ! i) (add_mset (xs ! j) m)"
proof -
  have *: "\<exists>m. mset xs = add_mset (xs ! i) (add_mset (xs ! j) m)" if "i < j" "j < length xs" for i j
  proof -
    have "xs = take i xs @ xs ! i # drop (Suc i) xs" using that by (simp add: id_take_nth_drop)
    moreover have "xs ! j \<in> set (drop (Suc i) xs)" using that by (auto simp: in_set_conv_nth intro!: exI [of _ "j - Suc i"])
    then obtain m where "mset (drop (Suc i) xs) = add_mset (xs ! j) m" by (metis insert_DiffM set_mset_mset)
    ultimately have "mset xs = add_mset (xs ! i) (add_mset (xs ! j) (m + mset (take i xs)))"
      by (metis (no_types, lifting) add_mset_add_mset_same_iff mset.simps(2) mset_append union_commute union_mset_add_mset_left)
    then show ?thesis by blast
  qed
  show ?thesis using * [of i j] * [of j i] assms by (metis add_mset_commute linorder_neqE_nat)
qed

lemma rblocks_disjoint:
  assumes "seg_inv b n s" "i < length (seg_table s)" "j < length (seg_table s)" "i \<noteq> j"
  shows "{rg_lba (seg_table s ! i)..<rg_lba (seg_table s ! i) + rg_count (seg_table s ! i)} \<inter>
    {rg_lba (seg_table s ! j)..<rg_lba (seg_table s ! j) + rg_count (seg_table s ! j)} = {}"
proof (rule ccontr)
  let ?t = "seg_table s"
  assume "\<not> ?thesis"
  then obtain x where "x \<in> {rg_lba (?t ! i)..<rg_lba (?t ! i) + rg_count (?t ! i)}" "x \<in> {rg_lba (?t ! j)..<rg_lba (?t ! j) + rg_count (?t ! j)}"
    by blast
  then have x: "x \<in># rblocks (?t ! i)" "x \<in># rblocks (?t ! j)" by (simp_all add: rblocks_def)
  obtain m where "mset ?t = add_mset (?t ! i) (add_mset (?t ! j) m)" using two_elements [OF assms(2-4)] by blast
  then have "rblocks (?t ! i) + (rblocks (?t ! j) + (\<Sum>r \<in># m. rblocks r)) = mset [b..<b + n]"
    using assms(1) by (simp add: seg_inv_def)
  then have "count (rblocks (?t ! i) + (rblocks (?t ! j) + (\<Sum>r \<in># m. rblocks r))) x = count (mset [b..<b + n]) x" by simp
  then have "count (rblocks (?t ! i)) x + count (rblocks (?t ! j)) x \<le> count (mset [b..<b + n]) x" by simp
  moreover have "count (mset [b..<b + n]) x \<le> 1" by (simp add: count_mset_set')
  moreover have "1 \<le> count (rblocks (?t ! i)) x" "1 \<le> count (rblocks (?t ! j)) x" using x by (simp_all add: Suc_le_eq)
  ultimately show False by linarith
qed

lemma scan_ranges_free:
  assumes "scan_ranges rs i p m = Some k"
  shows "p = Some k \<or> (i \<le> k \<and> k - i < length rs \<and> rg_free (rs ! (k - i)) \<and> 0 < rg_count (rs ! (k - i)))"
  using assms
proof (induction rs arbitrary: i p m)
  case (Cons r rs)
  show ?case
  proof (cases "rg_free r \<and> m < rg_count r")
    case True
    then have "Some i = Some k \<or> (Suc i \<le> k \<and> k - Suc i < length rs \<and> rg_free (rs ! (k - Suc i)) \<and> 0 < rg_count (rs ! (k - Suc i)))"
      using Cons.IH [of "Suc i" "Some i" "rg_count r mod 2 ^ 16"] Cons.prems by simp
    then show ?thesis using True by (auto simp: nth_Cons' Suc_le_eq)
  next
    case False
    then have "p = Some k \<or> (Suc i \<le> k \<and> k - Suc i < length rs \<and> rg_free (rs ! (k - Suc i)) \<and> 0 < rg_count (rs ! (k - Suc i)))"
      using Cons.IH [of "Suc i" p m] Cons.prems unfolding scan_ranges.simps if_not_P [OF False] by blast
    then show ?thesis by (auto simp: nth_Cons')
  qed
qed simp

lemma scan_ranges_none:
  assumes "scan_ranges rs i None 0 = None"
  shows "\<forall>r \<in> set rs. rg_free r \<longrightarrow> rg_count r = 0"
proof -
  have some: "scan_ranges rs i (Some k) m \<noteq> None" for rs i k m by (induction rs arbitrary: i k m) auto
  show ?thesis using assms
  proof (induction rs arbitrary: i)
    case (Cons r rs)
    show ?case
    proof (cases "rg_free r \<and> 0 < rg_count r")
      case True
      then show ?thesis using Cons.prems some by simp
    next
      case False
      then have "\<forall>r \<in> set rs. rg_free r \<longrightarrow> rg_count r = 0" using Cons.IH [of "Suc i"] Cons.prems by (auto split: if_splits)
      then show ?thesis using False by auto
    qed
  qed simp
qed

lemma scan_largest_cases:
  assumes "seg_inv b n s"
  obtains (none) "scan_largest_free s = None" "\<forall>r \<in> set (seg_table s). \<not> rg_free r"
  | (some) i where "scan_largest_free s = Some i" "i < sg_slot_tail s" "i < length (sg_ranges s)" "sg_ranges s ! i \<in> set (seg_table s)"
      "seg_table s ! i = sg_ranges s ! i" "rg_free (sg_ranges s ! i)"
proof (cases "scan_largest_free s")
  case None
  then have "\<forall>r \<in> set (seg_table s). rg_free r \<longrightarrow> rg_count r = 0"
    unfolding scan_largest_free_def seg_table_def by (rule scan_ranges_none)
  then show ?thesis using none None assms by (force simp: seg_inv_def)
next
  case (Some i)
  then have "i < length (seg_table s)" "rg_free (seg_table s ! i)"
    using scan_ranges_free [of "seg_table s" 0 None 0 i] by (auto simp: scan_largest_free_def seg_table_def)
  moreover have "seg_table s ! i \<in> set (seg_table s)" by (rule nth_mem) fact
  moreover have "i < sg_slot_tail s" "i < length (sg_ranges s)" "seg_table s ! i = sg_ranges s ! i"
    using calculation(1) by (auto simp: seg_table_def)
  ultimately show ?thesis using some [OF Some] by simp
qed

lemma seg_used_nth:
  "u \<in> seg_used s \<longleftrightarrow> (\<exists>k < length (seg_table s). u = (rg_lba (seg_table s ! k), rg_count (seg_table s ! k)) \<and> \<not> rg_free (seg_table s ! k))"
  by (auto simp: seg_used_def in_set_conv_nth)

lemma seg_table_update:
  "i < sg_slot_tail s \<Longrightarrow> seg_table (s\<lparr>sg_ranges := (sg_ranges s)[i := r]\<rparr>) = (seg_table s)[i := r]"
  by (simp add: seg_table_def take_update_swap)

text \<open>Changing the flag of a range.\<close>

lemma flag_range:
  assumes "seg_inv b n s" "i < sg_slot_tail s" "s' = s\<lparr>sg_ranges := (sg_ranges s)[i := (sg_ranges s ! i)\<lparr>rg_free := f\<rparr>]\<rparr>"
  shows "seg_inv b n s'"
    "seg_used s' = (if f then seg_used s - {(rg_lba (sg_ranges s ! i), rg_count (sg_ranges s ! i))}
      else insert (rg_lba (sg_ranges s ! i), rg_count (sg_ranges s ! i)) (seg_used s))"
proof -
  let ?r = "sg_ranges s ! i"
  have len: "length (seg_table s) = sg_slot_tail s" "seg_table s ! i = ?r" using assms(1,2) by (auto simp: seg_inv_def seg_table_def)
  have t: "seg_table s' = (seg_table s)[i := ?r\<lparr>rg_free := f\<rparr>]" unfolding assms(3) by (rule seg_table_update [OF assms(2)])
  have "image_mset rblocks (mset (seg_table s')) = image_mset rblocks (mset (seg_table s))"
  proof -
    have "rblocks (?r\<lparr>rg_free := f\<rparr>) = rblocks (seg_table s ! i)" by (simp add: rblocks_def len)
    then have "map rblocks (seg_table s') = map rblocks (seg_table s)" unfolding t by (metis list_update_id map_update)
    then show ?thesis by (metis mset_map)
  qed
  moreover have "\<forall>r \<in> set (seg_table s'). 0 < rg_count r"
  proof
    fix x assume "x \<in> set (seg_table s')"
    then have "x = ?r\<lparr>rg_free := f\<rparr> \<or> x \<in> set (seg_table s)" unfolding t using set_update_subset_insert by fast
    moreover have "?r \<in> set (seg_table s)" using len assms(2) by (metis nth_mem)
    ultimately show "0 < rg_count x" using assms(1) by (auto simp: seg_inv_def)
  qed
  ultimately show "seg_inv b n s'" using assms(1) by (simp add: seg_inv_def assms(3))
  have "\<And>k. k < length (seg_table s) \<Longrightarrow> k \<noteq> i \<Longrightarrow> rg_lba (seg_table s ! k) \<noteq> rg_lba ?r"
  proof
    fix k assume k: "k < length (seg_table s)" "k \<noteq> i" "rg_lba (seg_table s ! k) = rg_lba ?r"
    have "0 < rg_count (seg_table s ! k)" "0 < rg_count (seg_table s ! i)"
      using assms(2) k(1) len(1) by (auto intro: rblocks_bounds(3) [OF assms(1)])
    then show False using rblocks_disjoint [OF assms(1) k(1), of i] k assms(2) len by force
  qed
  then have other: "k < length (seg_table s) \<Longrightarrow> k \<noteq> i \<Longrightarrow> (rg_lba (seg_table s ! k), c) \<noteq> (rg_lba ?r, rg_count ?r)" for k c by blast
  have nth: "seg_table s' ! k = (if k = i then ?r\<lparr>rg_free := f\<rparr> else seg_table s ! k)" for k
    using len assms(2) unfolding t by simp
  have i: "i < length (seg_table s)" using len assms(2) by simp
  have used: "u \<in> seg_used s' \<longleftrightarrow> (\<exists>k < length (seg_table s). k \<noteq> i \<and> u = (rg_lba (seg_table s ! k), rg_count (seg_table s ! k)) \<and>
      \<not> rg_free (seg_table s ! k)) \<or> (u = (rg_lba ?r, rg_count ?r) \<and> \<not> f)" for u
    unfolding seg_used_nth nth using i by (auto simp: t)
  show "seg_used s' = (if f then seg_used s - {(rg_lba ?r, rg_count ?r)} else insert (rg_lba ?r, rg_count ?r) (seg_used s))"
  proof (rule set_eqI)
    fix u
    have old: "u \<in> seg_used s \<longleftrightarrow> (\<exists>k < length (seg_table s). k \<noteq> i \<and> u = (rg_lba (seg_table s ! k), rg_count (seg_table s ! k)) \<and>
        \<not> rg_free (seg_table s ! k)) \<or> (u = (rg_lba ?r, rg_count ?r) \<and> \<not> rg_free ?r)"
      unfolding seg_used_nth using i len(2) by metis
    show "u \<in> seg_used s' \<longleftrightarrow> u \<in> (if f then seg_used s - {(rg_lba ?r, rg_count ?r)} else insert (rg_lba ?r, rg_count ?r) (seg_used s))"
      using used [of u] old other by (cases f) auto
  qed
qed

lemma find_none: "\<forall>i \<in> set xs. \<not> P i \<Longrightarrow> List.find P xs = None"
  by (induction xs) auto

text \<open>Cutting a range in two.\<close>

lemma split_range:
  assumes inv: "seg_inv b n s" and i: "i < sg_slot_tail s" and room: "sg_slot_tail s < sg_num_slots s"
    and c: "0 < c" "c < rg_count (sg_ranges s ! i)"
    and s': "s' = s\<lparr>sg_slot_tail := Suc (sg_slot_tail s), sg_ranges := (sg_ranges s)[sg_slot_tail s := \<lparr>rg_free = False, rg_lba = rg_lba (sg_ranges s ! i), rg_count = c\<rparr>,
        i := (sg_ranges s ! i)\<lparr>rg_count := rg_count (sg_ranges s ! i) - c, rg_lba := rg_lba (sg_ranges s ! i) + c\<rparr>]\<rparr>"
    and free: "rg_free (sg_ranges s ! i)"
  shows "seg_inv b n s'" "seg_used s' = insert (rg_lba (sg_ranges s ! i), c) (seg_used s)"
proof -
  let ?r = "sg_ranges s ! i" and ?t = "seg_table s"
  let ?r1 = "?r\<lparr>rg_count := rg_count ?r - c, rg_lba := rg_lba ?r + c\<rparr>"
  let ?r2 = "\<lparr>rg_free = False, rg_lba = rg_lba ?r, rg_count = c\<rparr>"
  have len: "length ?t = sg_slot_tail s" "?t ! i = ?r" "i < length ?t" using inv i by (auto simp: seg_inv_def seg_table_def)
  have tail: "sg_slot_tail s < length (sg_ranges s)" using inv room by (simp add: seg_inv_def)
  have t: "seg_table s' = ?t[i := ?r1] @ [?r2]"
    using i tail unfolding s' by (simp add: seg_table_def take_Suc_conv_app_nth take_update_swap list_update_append)
  have split: "rblocks ?r = rblocks ?r1 + rblocks ?r2"
  proof -
    have "[rg_lba ?r..<rg_lba ?r + rg_count ?r] = [rg_lba ?r..<rg_lba ?r + c] @ [rg_lba ?r + c..<rg_lba ?r + rg_count ?r]"
      using c(2) upt_add_eq_append [of "rg_lba ?r" "rg_lba ?r + c" "rg_count ?r - c"] by simp
    then show ?thesis using c(2) by (simp add: rblocks_def del: mset_upt)
  qed
  obtain m where m: "mset ?t = add_mset ?r m" using len by (metis insert_DiffM nth_mem set_mset_mset)
  then have "mset (seg_table s') = add_mset ?r1 (add_mset ?r2 m)" unfolding t using len by (simp add: mset_update)
  then have "(\<Sum>r \<in># mset (seg_table s'). rblocks r) = (\<Sum>r \<in># mset ?t. rblocks r)" using m split by simp
  moreover have "\<forall>x \<in> set (seg_table s'). 0 < rg_count x"
  proof
    fix x assume "x \<in> set (seg_table s')"
    then have "x = ?r1 \<or> x = ?r2 \<or> x \<in> set ?t" unfolding t using set_update_subset_insert by fastforce
    then show "0 < rg_count x" using inv c by (auto simp: seg_inv_def)
  qed
  ultimately show "seg_inv b n s'" using inv room unfolding seg_inv_def by (simp add: s')
  have nth: "?t[i := ?r1] ! k = (if k = i then ?r1 else ?t ! k)" for k using len(3) by simp
  have "u \<in> seg_used s' \<longleftrightarrow> u = (rg_lba ?r, c) \<or> u \<in> seg_used s" for u
  proof -
    have "u \<in> seg_used s' \<longleftrightarrow> u = (rg_lba ?r, c) \<or>
        (\<exists>k < length ?t. u = (rg_lba (?t[i := ?r1] ! k), rg_count (?t[i := ?r1] ! k)) \<and> \<not> rg_free (?t[i := ?r1] ! k))"
    proof -
      have "u \<in> seg_used s' \<longleftrightarrow> (\<exists>r \<in> set (?t[i := ?r1] @ [?r2]). u = (rg_lba r, rg_count r) \<and> \<not> rg_free r)"
        unfolding seg_used_def t by blast
      also have "\<dots> \<longleftrightarrow> u = (rg_lba ?r, c) \<or> (\<exists>r \<in> set (?t[i := ?r1]). u = (rg_lba r, rg_count r) \<and> \<not> rg_free r)" by auto
      finally show ?thesis unfolding in_set_conv_nth Bex_def length_list_update by metis
    qed
    also have "\<dots> \<longleftrightarrow> u = (rg_lba ?r, c) \<or> u \<in> seg_used s"
    proof -
      have "(u = (rg_lba (?t[i := ?r1] ! k), rg_count (?t[i := ?r1] ! k)) \<and> \<not> rg_free (?t[i := ?r1] ! k)) \<longleftrightarrow>
          (u = (rg_lba (?t ! k), rg_count (?t ! k)) \<and> \<not> rg_free (?t ! k))" for k
        unfolding nth using free len(2) by (cases "k = i") simp_all
      then show ?thesis unfolding seg_used_nth by simp
    qed
    finally show ?thesis .
  qed
  then show "seg_used s' = insert (rg_lba ?r, c) (seg_used s)" by blast
qed

text \<open>
  The outcomes of an allocation: a range cut from free blocks, a refusal, no slot left for the
  cut, or no free range at all.
\<close>

lemma seg_alloc_cases:
  assumes inv: "seg_inv b n s" and c: "0 < c"
  obtains (ok) lba s' where "seg_alloc dbg c s = (Inr (Some lba), s')" "seg_inv b n s'" "seg_used s' = insert (lba, c) (seg_used s)"
      "\<forall>(l, k) \<in> seg_used s. {l..<l + k} \<inter> {lba..<lba + c} = {}" "b \<le> lba" "lba + c \<le> b + n" "sg_adjacent s' = sg_adjacent s"
  | (refused) "seg_alloc dbg c s = (Inr None, s)"
  | (slots) "seg_alloc dbg c s = (Inl General_exception, s)"
  | (full) "seg_alloc dbg c s = (Inl Blocked, s)" "\<forall>r \<in> set (seg_table s). \<not> rg_free r"
  using inv
proof (cases rule: scan_largest_cases)
  case none
  then show ?thesis using full by (simp add: seg_alloc_def)
next
  case (some i)
  let ?r = "sg_ranges s ! i"
  have bd: "b \<le> rg_lba ?r" "rg_lba ?r + rg_count ?r \<le> b + n" using rblocks_bounds [OF inv some(4)] by simp_all
  have small: "rg_count ?r < 2 ^ 32" "rg_lba ?r + rg_count ?r < 2 ^ 62" using bd inv by (auto simp: seg_inv_def)
  have len: "length (seg_table s) = sg_slot_tail s" using inv by (auto simp: seg_inv_def seg_table_def)
  have apart: "{l..<l + k} \<inter> {rg_lba ?r..<rg_lba ?r + c'} = {}" if u: "(l, k) \<in> seg_used s" and c': "c' \<le> rg_count ?r" for l k c'
  proof -
    obtain j where j: "j < length (seg_table s)" "l = rg_lba (seg_table s ! j)" "k = rg_count (seg_table s ! j)" "\<not> rg_free (seg_table s ! j)"
      using u by (auto simp: seg_used_nth)
    then have "j \<noteq> i" using some(5,6) by auto
    then have "{l..<l + k} \<inter> {rg_lba ?r..<rg_lba ?r + rg_count ?r} = {}"
      using rblocks_disjoint [OF inv j(1), of i] some(2,5) len j(2,3) by simp
    moreover have "{rg_lba ?r..<rg_lba ?r + c'} \<subseteq> {rg_lba ?r..<rg_lba ?r + rg_count ?r}" using c' by auto
    ultimately show ?thesis by blast
  qed
  consider "rg_count ?r < c" | (exact) "rg_count ?r = c" | (noslot) "c < rg_count ?r" "sg_num_slots s = sg_slot_tail s"
    | (split) "c < rg_count ?r" "sg_slot_tail s < sg_num_slots s" using inv by (fastforce simp: seg_inv_def)
  then show ?thesis
  proof cases
    case 1
    then show ?thesis using refused some(1) by (simp add: seg_alloc_def)
  next
    case exact
    let ?s = "s\<lparr>sg_ranges := (sg_ranges s)[i := ?r\<lparr>rg_free := False\<rparr>]\<rparr>"
    have "seg_alloc dbg c s = (Inr (Some (rg_lba ?r)), ?s)"
      using some(1,3,6) exact by (simp add: seg_alloc_def allocate_from_def set_range_def)
    moreover note flag_range [OF inv some(2), of ?s False]
    moreover have "\<forall>(l, k) \<in> seg_used s. {l..<l + k} \<inter> {rg_lba ?r..<rg_lba ?r + c} = {}" using apart exact by blast
    ultimately show ?thesis using bd exact by (intro ok [of "rg_lba ?r" ?s]) simp_all
  next
    case noslot
    then show ?thesis using slots some(1,6) by (simp add: seg_alloc_def allocate_from_def)
  next
    case split
    let ?s = "s\<lparr>sg_slot_tail := Suc (sg_slot_tail s), sg_ranges := (sg_ranges s)[sg_slot_tail s := \<lparr>rg_free = False, rg_lba = rg_lba ?r, rg_count = c\<rparr>,
        i := ?r\<lparr>rg_count := rg_count ?r - c, rg_lba := rg_lba ?r + c\<rparr>]\<rparr>"
    have tail: "sg_slot_tail s < length (sg_ranges s)" "Suc (sg_slot_tail s) < 2 ^ 16" using inv split by (auto simp: seg_inv_def)
    have "sg_ranges s ! k \<in> set (seg_table s)" if "k < sg_slot_tail s" for k
      using that tail len by (auto simp: seg_table_def in_set_conv_nth)
    then have "List.find (\<lambda>i. rg_count (sg_ranges s ! i) = 0) [0..<sg_slot_tail s] = None"
      using inv by (intro find_none) (auto simp: seg_inv_def)
    then have slot: "next_free_slot s = (Inr (Some (sg_slot_tail s)), s\<lparr>sg_slot_tail := Suc (sg_slot_tail s)\<rparr>)"
      using split(2) tail(2) by (simp add: next_free_slot_def)
    have arith: "(rg_count ?r + 2 ^ 32 - c mod 2 ^ 32) mod 2 ^ 32 = rg_count ?r - c" "(rg_lba ?r + c) mod 2 ^ 63 = rg_lba ?r + c" "c mod 2 ^ 32 = c"
      using split(1) small by (auto simp: mod_if)
    have ne: "sg_slot_tail s \<noteq> i" using some(2) by simp
    have "allocate_from dbg i c s = (Inr (sg_slot_tail s), ?s)"
      using some(6) split slot arith ne by (simp add: allocate_from_def set_range_def)
    then have "seg_alloc dbg c s = (Inr (Some (rg_lba ?r)), ?s)"
      using some(1,3) split(1) tail(1) ne by (simp add: seg_alloc_def)
    moreover note split_range [OF inv some(2) split(2) c split(1) refl some(6)]
    moreover have "\<forall>(l, k) \<in> seg_used s. {l..<l + k} \<inter> {rg_lba ?r..<rg_lba ?r + c} = {}" using apart split(1) less_imp_le by blast
    ultimately show ?thesis using bd split(1) by (intro ok [of "rg_lba ?r" ?s]) simp_all
  qed
qed

lemma seg_free_run:
  assumes inv: "seg_inv b n s" and used: "(lba, c) \<in> seg_used s"
  shows "\<exists>s'. seg_free lba s = (Inr True, s') \<and> seg_inv b n s' \<and> seg_used s' = seg_used s - {(lba, c)} \<and> sg_adjacent s' = sg_adjacent s"
proof -
  have len: "length (seg_table s) = sg_slot_tail s" "\<And>k. k < sg_slot_tail s \<Longrightarrow> seg_table s ! k = sg_ranges s ! k"
    using inv by (auto simp: seg_inv_def seg_table_def)
  obtain j where j: "j < sg_slot_tail s" "lba = rg_lba (sg_ranges s ! j)" "c = rg_count (sg_ranges s ! j)"
    using used len by (auto simp: seg_used_nth)
  have uniq: "k = j" if "k < sg_slot_tail s" "rg_lba (sg_ranges s ! k) = lba" for k
  proof (rule ccontr)
    assume "k \<noteq> j"
    then have "{lba..<lba + rg_count (sg_ranges s ! k)} \<inter> {lba..<lba + rg_count (sg_ranges s ! j)} = {}"
      using rblocks_disjoint [OF inv, of k j] that j len by simp
    moreover have "0 < rg_count (sg_ranges s ! k)" "0 < rg_count (sg_ranges s ! j)"
      using rblocks_bounds(3) [OF inv] nth_mem len that(1) j(1) by metis+
    ultimately show False by auto
  qed
  have "seg_find lba s = Some j"
    unfolding seg_find_def find_Some_iff
  proof (rule exI [of _ j], intro conjI allI impI)
    show "j < length [0..<sg_slot_tail s]" "j = [0..<sg_slot_tail s] ! j" using j(1) by simp_all
    show "rg_lba (sg_ranges s ! ([0..<sg_slot_tail s] ! j)) = lba" using j(1,2) by simp
    fix k assume "k < j"
    then show "rg_lba (sg_ranges s ! ([0..<sg_slot_tail s] ! k)) \<noteq> lba" using uniq [of k] j(1) by fastforce
  qed
  then show ?thesis
    using flag_range [OF inv j(1), of _ True] j by (auto simp: seg_free_def set_range_def)
qed

lemma seg_free_unknown: "(\<And>k. k < sg_slot_tail s \<Longrightarrow> rg_lba (sg_ranges s ! k) \<noteq> lba) \<Longrightarrow> seg_free lba s = (Inr False, s)"
  by (simp add: seg_free_def seg_find_def find_none)

lemma segment_new_inv:
  assumes "lba < 2 ^ 31" "0 < n" "n < 2 ^ 31"
  shows "\<exists>s. segment_new dbg 4096 lba n True page = Inr s \<and> seg_inv lba n s \<and> seg_used s = {} \<and>
    sg_ranges s ! 0 = \<lparr>rg_free = True, rg_lba = lba, rg_count = n\<rparr> \<and> sg_slot_tail s = 1 \<and> sg_num_slots s = 338"
proof -
  have lba: "take_bit 31 lba = lba" using assms(1) by (simp add: take_bit_eq_mod)
  have "lba AND not64 MSB_64 = (lba AND mask 31) AND not64 MSB_64" using lba by (simp only: take_bit_eq_mask)
  also have "\<dots> = lba AND (not64 MSB_64 AND mask 31)" by (simp only: and.assoc and.commute and.left_commute)
  also have "not64 MSB_64 AND mask 31 = mask 31"
    unfolding take_bit_eq_mask [symmetric] by (simp add: not64_def take_bit_eq_mod mask_eq_exp_minus_1)
  also have "lba AND mask 31 = lba" using lba by (simp only: take_bit_eq_mask)
  finally have "lba AND not64 MSB_64 = lba" .
  then have a: "(lba AND not64 MSB_64) mod 2 ^ 63 = lba" using assms(1) by simp
  have "slot_count 4096 = 338" by (simp add: slot_count_def sub64_def)
  then show ?thesis
    using assms a by (simp add: segment_new_def Let_def seg_inv_def seg_used_def seg_table_def rblocks_def)
qed

lemma max_allocation_le:
  assumes "seg_inv b n s"
  shows "max_allocation s \<le> n"
  using assms
proof (cases rule: scan_largest_cases)
  case (some i)
  then show ?thesis using rblocks_bounds [OF assms some(4)] by (simp add: max_allocation_def)
qed (simp add: max_allocation_def)

end
