(* ===== verification/Block_Allocator.thy ===== *)
theory Block_Allocator
  imports Block_Segment Mpmc_Sequential
begin

text \<open>
  The block allocator of \<open>components/allocator/block\<close> (\<open>block_allocator.cpp\<close>): segments of
  \<open>LBA_RANGE_PER_SEGMENT\<close> blocks in bins by the logarithm of their largest free range, each bin a
  lock-free queue of segments. The segment pointers are indices; the memory pages come from the
  persistent memory component, which says whether it reuses an existing area.
\<close>

section \<open>The allocator\<close>

abbreviation PER_SEGMENT_FOOTPRINT :: nat where "PER_SEGMENT_FOOTPRINT \<equiv> 4096"
abbreviation LBA_RANGE_PER_SEGMENT :: nat where "LBA_RANGE_PER_SEGMENT \<equiv> 524288"

record blk_allocator =
  ba_segments :: "segment_page list"
  ba_bins :: "nat mpmc list"
  ba_last_bin :: nat

definition bin_of_size :: "nat \<Rightarrow> nat result" where
  "bin_of_size sz = (if sz = 0 then Inl Undefined_behaviour else Inr (64 - clzl sz))"

text \<open>\<open>1 << bin\<close> on a 32-bit signed integer, converted to 64 bits.\<close>

definition bin_to_size :: "nat \<Rightarrow> nat result" where
  "bin_to_size bin = (if bin < 31 then Inr (2 ^ bin) else if bin = 31 then Inr (W64 - 2 ^ 31) else Inl Undefined_behaviour)"

definition bin_p :: "nat \<Rightarrow> (nat mpmc, 'a) prog \<Rightarrow> (blk_allocator, 'a) prog" where
  "bin_p b m s =
     (if b < length (ba_bins s) then (let (r, q) = m (ba_bins s ! b) in (r, s\<lparr>ba_bins := (ba_bins s)[b := q]\<rparr>))
      else (Inl Undefined_behaviour, s))"

definition seg_p :: "nat \<Rightarrow> (segment_page, 'a) prog \<Rightarrow> (blk_allocator, 'a) prog" where
  "seg_p i m s =
     (if i < length (ba_segments s) then (let (r, g) = m (ba_segments s ! i) in (r, s\<lparr>ba_segments := (ba_segments s)[i := g]\<rparr>))
      else (Inl Undefined_behaviour, s))"

section \<open>Construction\<close>

text \<open>The debug option clears the pages also when the area is reused.\<close>

definition zero_page :: segment_page where
  "zero_page = \<lparr>sg_magic = 0, sg_lba_begin = 0, sg_lb_count = 0, sg_num_slots = 0, sg_slot_tail = 0, sg_ranges = [], sg_adjacent = None\<rparr>"

fun make_segments :: "bool \<Rightarrow> bool \<Rightarrow> nat \<Rightarrow> nat \<Rightarrow> segment_page list result" where
  "make_segments dbg reused i 0 = Inr []"
| "make_segments dbg reused i (Suc m) =
     bind_res (segment_new dbg PER_SEGMENT_FOOTPRINT (i * LBA_RANGE_PER_SEGMENT) LBA_RANGE_PER_SEGMENT (\<not> reused) zero_page) (\<lambda>s.
     bind_res (make_segments dbg reused (Suc i) m) (\<lambda>ss.
     Inr (s\<lparr>sg_adjacent := if m = 0 then None else Some (Suc i)\<rparr> # ss)))"

fun make_bins :: "bool \<Rightarrow> nat \<Rightarrow> (nat \<Rightarrow> nat) \<Rightarrow> nat \<Rightarrow> nat mpmc list result" where
  "make_bins dbg cap junk 0 = Inr []"
| "make_bins dbg cap junk (Suc m) =
     bind_res (mpmc_init dbg cap junk) (\<lambda>q. bind_res (make_bins dbg cap junk m) (\<lambda>qs. Inr (q # qs)))"

fun push_segments :: "nat \<Rightarrow> nat list \<Rightarrow> (blk_allocator, unit) prog" where
  "push_segments b [] = ret_p ()"
| "push_segments b [i] = bind_p (bin_p b (mpmc_enqueue i)) (\<lambda>_. ret_p ())"
| "push_segments b (i # is) =
     bind_p (bin_p b (mpmc_enqueue i)) (\<lambda>ok. if ok then push_segments b is else throw_p Logic_exception)"

definition block_allocator_new :: "bool \<Rightarrow> nat \<Rightarrow> bool \<Rightarrow> (nat \<Rightarrow> nat) \<Rightarrow> blk_allocator result" where
  "block_allocator_new dbg max_lba reused junk =
     bind_res (assert_res dbg (0 < max_lba)) (\<lambda>_.
     bind_res (bin_of_size max_lba) (\<lambda>last_bin.
     let num_segments = max_lba div LBA_RANGE_PER_SEGMENT + 1 in
     bind_res (round_up_log2 num_segments) (\<lambda>cap.
     bind_res (make_bins dbg cap junk (last_bin + 2)) (\<lambda>bins.
     bind_res (make_segments dbg reused 0 num_segments) (\<lambda>segs.
     bind_res (fst (bind_p (push_segments last_bin [0..<num_segments]) (\<lambda>_. get_p (\<lambda>s. s))
       \<lparr>ba_segments = segs, ba_bins = bins, ba_last_bin = last_bin\<rparr>)) (\<lambda>s.
     bind_res (assert_res dbg (max_lba < num_segments * LBA_RANGE_PER_SEGMENT)) (\<lambda>_. Inr s)))))))"

section \<open>Operations\<close>

text \<open>
  One pass over the segments of bin \<open>b\<close>, from \<open>i\<close> until \<open>marker\<close> comes up again. The loop is
  given the number of rounds after which it is taken not to end.
\<close>

fun try_bin :: "nat \<Rightarrow> bool \<Rightarrow> nat \<Rightarrow> nat \<Rightarrow> nat \<Rightarrow> nat \<Rightarrow> (blk_allocator, (nat \<times> nat) option) prog" where
  "try_bin 0 dbg cnt b marker i = throw_p Diverges"
| "try_bin (Suc n) dbg cnt b marker i =
     bind_p (seg_p i (seg_alloc dbg cnt)) (\<lambda>r.
     case r of
       Some lba \<Rightarrow>
         bind_p (seg_p i (get_p max_allocation)) (\<lambda>new_max.
         bind_p (lift_p (bin_of_size new_max)) (\<lambda>bin.
         bind_p (bin_p bin (mpmc_enqueue i)) (\<lambda>ok.
         if ok then ret_p (Some (lba, i)) else throw_p Logic_exception)))
     | None \<Rightarrow>
         bind_p (bin_p b (mpmc_enqueue i)) (\<lambda>ok.
         if \<not> ok then throw_p Logic_exception
         else
           bind_p (bin_p b mpmc_dequeue) (\<lambda>d.
           let i' = (case d of Some x \<Rightarrow> x | None \<Rightarrow> i) in
           if i' = marker then ret_p None else try_bin n dbg cnt b marker i')))"

fun alloc_from_bins :: "bool \<Rightarrow> nat \<Rightarrow> nat \<Rightarrow> (blk_allocator, nat \<times> nat) prog" where
  "alloc_from_bins dbg cnt 0 = throw_p General_exception"
| "alloc_from_bins dbg cnt (Suc b) =
     bind_p (lift_p (bin_to_size (Suc b))) (\<lambda>size.
     if size < cnt then throw_p General_exception
     else
       bind_p (bin_p (Suc b) mpmc_empty) (\<lambda>e.
       if e then alloc_from_bins dbg cnt b
       else
         bind_p (bin_p (Suc b) mpmc_dequeue) (\<lambda>d.
         case d of
           None \<Rightarrow> throw_p Undefined_behaviour
         | Some i \<Rightarrow>
             bind_p (get_p (\<lambda>s. length (ba_segments s) + 1)) (\<lambda>rounds.
             bind_p (try_bin rounds dbg cnt (Suc b) i i) (\<lambda>r.
             case r of
               Some x \<Rightarrow> ret_p x
             | None \<Rightarrow> alloc_from_bins dbg cnt b)))))"

definition ba_alloc :: "bool \<Rightarrow> nat \<Rightarrow> (blk_allocator, nat \<times> nat) prog" where
  "ba_alloc dbg cnt = bind_p (get_p ba_last_bin) (\<lambda>b. alloc_from_bins dbg cnt b)"

fun free_walk :: "nat \<Rightarrow> nat \<Rightarrow> nat option \<Rightarrow> (blk_allocator, unit) prog" where
  "free_walk 0 lba i = throw_p Diverges"
| "free_walk (Suc n) lba None = throw_p API_exception"
| "free_walk (Suc n) lba (Some i) =
     bind_p (seg_p i (seg_free lba)) (\<lambda>ok.
     if ok then ret_p ()
     else bind_p (seg_p i (get_p sg_adjacent)) (\<lambda>next. free_walk n lba next))"

definition ba_free :: "nat \<Rightarrow> nat option \<Rightarrow> (blk_allocator, unit) prog" where
  "ba_free lba handle =
     (case handle of
        Some i \<Rightarrow> bind_p (seg_p i (seg_free lba)) (\<lambda>ok. if ok then ret_p () else throw_p General_exception)
      | None \<Rightarrow> bind_p (get_p (\<lambda>s. length (ba_segments s) + 1)) (\<lambda>n. free_walk n lba (Some 0)))"

definition ba_resize :: "nat \<Rightarrow> nat \<Rightarrow> (blk_allocator, int) prog" where
  "ba_resize lba sz = ret_p (- 1)"

definition ba_get_free_capacity :: "blk_allocator \<Rightarrow> nat" where
  "ba_get_free_capacity s = 0"

definition ba_get_capacity :: "blk_allocator \<Rightarrow> nat" where
  "ba_get_capacity s = 0"

section \<open>The invariant\<close>

lemma run_bind_bool [simp]:
  "m s = (Inr True, s') \<Longrightarrow> bind_p m f s = f True s'"
  "m s = (Inr False, s') \<Longrightarrow> bind_p m f s = f False s'"
  by (simp_all add: bind_p_def)

text \<open>
  Each segment partitions its own range of blocks, and each segment is in at most one bin:
  \<open>l b\<close> lists the segments of bin \<open>b\<close>.
\<close>

definition bins_ok :: "nat \<Rightarrow> nat \<Rightarrow> (nat \<Rightarrow> nat list) \<Rightarrow> blk_allocator \<Rightarrow> bool" where
  "bins_ok k n l s \<longleftrightarrow> k < 64 \<and> n \<le> 2 ^ k \<and> 21 \<le> length (ba_bins s) \<and>
     (\<forall>b < length (ba_bins s). mpmc_rep k (ba_bins s ! b) (l b) \<and> distinct (l b) \<and> set (l b) \<subseteq> {..< n}) \<and>
     (\<forall>b c. b < length (ba_bins s) \<longrightarrow> c < length (ba_bins s) \<longrightarrow> b \<noteq> c \<longrightarrow> set (l b) \<inter> set (l c) = {})"

definition segs_ok :: "nat \<Rightarrow> blk_allocator \<Rightarrow> bool" where
  "segs_ok n s \<longleftrightarrow> length (ba_segments s) = n \<and>
     (\<forall>i < n. seg_inv (i * LBA_RANGE_PER_SEGMENT) LBA_RANGE_PER_SEGMENT (ba_segments s ! i) \<and>
       sg_adjacent (ba_segments s ! i) = (if Suc i < n then Some (Suc i) else None))"

definition ba_inv :: "nat \<Rightarrow> nat \<Rightarrow> blk_allocator \<Rightarrow> bool" where
  "ba_inv k n s \<longleftrightarrow> segs_ok n s \<and> ba_last_bin s < 31 \<and> ba_last_bin s < length (ba_bins s) \<and> (\<exists>l. bins_ok k n l s)"

definition ba_used :: "blk_allocator \<Rightarrow> (nat \<times> nat) set" where
  "ba_used s = (\<Union>g \<in> set (ba_segments s). seg_used g)"

lemma ba_used_iff: "u \<in> ba_used s \<longleftrightarrow> (\<exists>i < length (ba_segments s). u \<in> seg_used (ba_segments s ! i))"
  unfolding ba_used_def UN_iff in_set_conv_nth Bex_def by blast

lemma seg_used_bounds:
  assumes "seg_inv b n g" "(l, c) \<in> seg_used g"
  shows "b \<le> l" "l + c \<le> b + n" "0 < c"
  using assms(2) rblocks_bounds [OF assms(1)] by (auto simp: seg_used_def)

text \<open>Ranges of different segments are apart.\<close>

lemma segments_apart:
  assumes "i * LBA_RANGE_PER_SEGMENT \<le> x" "x + c \<le> i * LBA_RANGE_PER_SEGMENT + LBA_RANGE_PER_SEGMENT"
    "j * LBA_RANGE_PER_SEGMENT \<le> y" "y + d \<le> j * LBA_RANGE_PER_SEGMENT + LBA_RANGE_PER_SEGMENT" "i \<noteq> j"
  shows "{x..<x + c} \<inter> {y..<y + d} = {}"
proof -
  consider "Suc i \<le> j" | "Suc j \<le> i" using assms(5) by linarith
  then have "x + c \<le> y \<or> y + d \<le> x" using assms(1-4) by cases linarith+
  then show ?thesis by auto
qed

subsection \<open>Bins\<close>

lemma bins_okD:
  assumes "bins_ok k n l s" "b < length (ba_bins s)"
  shows "mpmc_rep (k mod 64) (ba_bins s ! b) (l b)" "distinct (l b)" "set (l b) \<subseteq> {..< n}" "n \<le> 2 ^ (k mod 64)"
  using assms by (auto simp: bins_ok_def)

lemma bins_ok_update:
  assumes "bins_ok k n l s" "b < length (ba_bins s)" "mpmc_rep k q xs" "distinct xs" "set xs \<subseteq> {..< n}"
    "\<And>c. c < length (ba_bins s) \<Longrightarrow> c \<noteq> b \<Longrightarrow> set xs \<inter> set (l c) = {}"
  shows "bins_ok k n (l(b := xs)) (s\<lparr>ba_bins := (ba_bins s)[b := q]\<rparr>)"
  using assms unfolding bins_ok_def by (auto simp: nth_list_update)

lemma bin_enqueue:
  assumes ok: "bins_ok k n l s" and b: "b < length (ba_bins s)" and i: "i < n" "\<And>c. c < length (ba_bins s) \<Longrightarrow> i \<notin> set (l c)"
  shows "\<exists>q. bin_p b (mpmc_enqueue i) s = (Inr True, s\<lparr>ba_bins := (ba_bins s)[b := q]\<rparr>) \<and>
    bins_ok k n (l(b := l b @ [i])) (s\<lparr>ba_bins := (ba_bins s)[b := q]\<rparr>)"
proof -
  note D = bins_okD [OF ok b]
  have k: "k mod 64 = k" using ok by (simp add: bins_ok_def)
  have "set (l b) \<subset> {..< n}" using D(3) i b by auto
  then have "length (l b) < n" using D(2) psubset_card_mono [of "{..< n}" "set (l b)"] by (simp add: distinct_card)
  then have "length (l b) < 2 ^ (k mod 64)" using D(4) by linarith
  from mpmc_seq.enq_room [OF D(1) this, of i]
  obtain q where q: "mpmc_enqueue i (ba_bins s ! b) = (Inr True, q)" "mpmc_rep k q (l b @ [i])" unfolding k by blast
  have "bins_ok k n (l(b := l b @ [i])) (s\<lparr>ba_bins := (ba_bins s)[b := q]\<rparr>)"
    by (rule bins_ok_update [OF ok b q(2)]) (use D i b ok in \<open>auto simp: bins_ok_def\<close>)
  then show ?thesis using q(1) b by (auto simp: bin_p_def)
qed

lemma bin_dequeue:
  assumes ok: "bins_ok k n l s" and b: "b < length (ba_bins s)" and l: "l b = x # xs"
  shows "\<exists>q. bin_p b mpmc_dequeue s = (Inr (Some x), s\<lparr>ba_bins := (ba_bins s)[b := q]\<rparr>) \<and>
    bins_ok k n (l(b := xs)) (s\<lparr>ba_bins := (ba_bins s)[b := q]\<rparr>)"
proof -
  note D = bins_okD [OF ok b]
  have k: "k mod 64 = k" using ok by (simp add: bins_ok_def)
  from mpmc_seq.deq_front [of k "ba_bins s ! b" x xs] D(1) l
  obtain q where q: "mpmc_dequeue (ba_bins s ! b) = (Inr (Some x), q)" "mpmc_rep k q xs" unfolding k by metis
  have "set (l b) \<inter> set (l c) = {}" if "c < length (ba_bins s)" "c \<noteq> b" for c using ok b that unfolding bins_ok_def by blast
  then have "bins_ok k n (l(b := xs)) (s\<lparr>ba_bins := (ba_bins s)[b := q]\<rparr>)"
    by (intro bins_ok_update [OF ok b q(2)]) (use D l in auto)
  then show ?thesis using q(1) b by (auto simp: bin_p_def)
qed

lemma bin_empty:
  assumes ok: "bins_ok k n l s" and b: "b < length (ba_bins s)"
  shows "bin_p b mpmc_empty s = (Inr (l b = []), s)"
  using mpmc_seq.emp_iff [OF bins_okD(1) [OF ok b]] b by (simp add: bin_p_def)

lemma bins_ok_segments [simp]: "bins_ok k n l (s\<lparr>ba_segments := g\<rparr>) = bins_ok k n l s"
  by (simp add: bins_ok_def)

lemma segs_ok_bins [simp]: "segs_ok n (s\<lparr>ba_bins := q\<rparr>) = segs_ok n s"
  by (simp add: segs_ok_def)

lemma ba_used_bins [simp]: "ba_used (s\<lparr>ba_bins := q\<rparr>) = ba_used s"
  by (simp add: ba_used_def)

subsection \<open>Allocation\<close>

text \<open>What an allocation of \<open>c\<close> blocks leaves alone, what it takes, and how it can fail.\<close>

definition ba_kept :: "nat \<Rightarrow> nat \<Rightarrow> blk_allocator \<Rightarrow> blk_allocator \<Rightarrow> bool" where
  "ba_kept k n s s' \<longleftrightarrow> segs_ok n s' \<and> (\<exists>l. bins_ok k n l s') \<and> ba_last_bin s' = ba_last_bin s \<and> length (ba_bins s') = length (ba_bins s)"

fun ba_took :: "nat \<Rightarrow> blk_allocator \<Rightarrow> blk_allocator \<Rightarrow> nat \<times> nat \<Rightarrow> bool" where
  "ba_took c s s' (lba, i) \<longleftrightarrow> i < length (ba_segments s') \<and> (lba, c) \<in> seg_used (ba_segments s' ! i) \<and>
     ba_used s' = insert (lba, c) (ba_used s) \<and> (\<forall>(l, d) \<in> ba_used s. {l..<l + d} \<inter> {lba..<lba + c} = {})"

definition ba_failed :: "blk_allocator \<Rightarrow> blk_allocator \<Rightarrow> exn \<Rightarrow> bool" where
  "ba_failed s s' e \<longleftrightarrow> (e \<in> {General_exception, Blocked} \<and> ba_segments s' = ba_segments s) \<or>
     (e = Undefined_behaviour \<and> (\<exists>g \<in> set (ba_segments s'). max_allocation g = 0))"

lemma ba_took_bins: "ba_took c s (t\<lparr>ba_bins := q\<rparr>) x = ba_took c s t x" "ba_took c (s\<lparr>ba_bins := q\<rparr>) t x = ba_took c s t x"
  by (cases x; simp)+

lemma seg_step_alloc:
  assumes segs: "segs_ok n s" and i: "i < n" and c: "0 < c"
  obtains (ok) lba g where "seg_p i (seg_alloc dbg c) s = (Inr (Some lba), s\<lparr>ba_segments := (ba_segments s)[i := g]\<rparr>)"
      "segs_ok n (s\<lparr>ba_segments := (ba_segments s)[i := g]\<rparr>)" "ba_took c s (s\<lparr>ba_segments := (ba_segments s)[i := g]\<rparr>) (lba, i)"
  | (refused) "seg_p i (seg_alloc dbg c) s = (Inr None, s)"
  | (failed) e where "seg_p i (seg_alloc dbg c) s = (Inl e, s)" "e \<in> {General_exception, Blocked}"
proof -
  let ?g = "ba_segments s ! i" and ?R = "LBA_RANGE_PER_SEGMENT"
  have len: "i < length (ba_segments s)" and inv: "\<And>j. j < n \<Longrightarrow> seg_inv (j * ?R) ?R (ba_segments s ! j)"
    using segs i by (auto simp: segs_ok_def)
  have same: "s\<lparr>ba_segments := (ba_segments s)[i := ?g]\<rparr> = s" by simp
  show ?thesis
    using inv [OF i] c
  proof (cases rule: seg_alloc_cases [where dbg = dbg])
    case (ok lba g)
    let ?s = "s\<lparr>ba_segments := (ba_segments s)[i := g]\<rparr>"
    have "segs_ok n ?s" using segs ok i by (auto simp: segs_ok_def nth_list_update)
    moreover have "ba_used ?s = insert (lba, c) (ba_used s)"
      unfolding set_eq_iff ba_used_iff insert_iff using ok(3) len by (auto simp: nth_list_update split: if_splits)
    moreover have "{l..<l + d} \<inter> {lba..<lba + c} = {}" if "(l, d) \<in> ba_used s" for l d
    proof -
      from that obtain j where j: "j < n" "(l, d) \<in> seg_used (ba_segments s ! j)" using segs unfolding ba_used_iff segs_ok_def by blast
      show ?thesis
      proof (cases "j = i")
        case True
        then show ?thesis using j(2) ok(4) by blast
      next
        case False
        then show ?thesis using seg_used_bounds [OF inv [OF j(1)] j(2)] ok(5,6) by (intro segments_apart) auto
      qed
    qed
    ultimately show ?thesis using ok len by (intro that(1) [of lba g]) (auto simp: seg_p_def)
  next
    case refused
    then show ?thesis using len same by (intro that(2)) (simp add: seg_p_def)
  next
    case slots
    then show ?thesis using len same by (intro that(3) [of General_exception]) (simp_all add: seg_p_def)
  next
    case full
    then show ?thesis using len same by (intro that(3) [of Blocked]) (simp_all add: seg_p_def)
  qed
qed

lemma bin_of_size_le:
  assumes "0 < m" "m \<le> LBA_RANGE_PER_SEGMENT"
  shows "\<exists>b. bin_of_size m = Inr b \<and> b < 21"
proof -
  have "bit_length m \<le> 20" by (rule bit_length_le) (use assms(2) in simp)
  moreover have "bin_of_size m = Inr (bit_length m)" using assms by (simp add: bin_of_size_def fsmsb_clzl)
  ultimately show ?thesis by simp
qed

lemma try_bin_outcome:
  assumes "bins_ok k n l s" "segs_ok n s" "0 < c" "i < n" "\<And>x. x < length (ba_bins s) \<Longrightarrow> i \<notin> set (l x)" "b < length (ba_bins s)"
    "marker = i \<and> length (l b) < fuel \<or> (\<exists>xs ys. l b = xs @ marker # ys \<and> length xs < fuel)"
  shows "case try_bin fuel dbg c b marker i s of
      (Inr (Some x), s') \<Rightarrow> ba_kept k n s s' \<and> ba_took c s s' x
    | (Inr None, s') \<Rightarrow> ba_kept k n s s' \<and> ba_segments s' = ba_segments s
    | (Inl e, s') \<Rightarrow> ba_kept k n s s' \<and> ba_failed s s' e"
  using assms
proof (induction fuel arbitrary: l s i)
  case (Suc fuel)
  note prems = Suc.prems
  have kept: "ba_kept k n s s" using prems(1,2) by (auto simp: ba_kept_def)
  show ?case
    using prems(2,4,3)
  proof (cases rule: seg_step_alloc [where dbg = dbg])
    case (ok lba g)
    let ?s = "s\<lparr>ba_segments := (ba_segments s)[i := g]\<rparr>"
    let ?m = "max_allocation (ba_segments ?s ! i)"
    have len: "i < length (ba_segments ?s)" using prems(2,4) by (simp add: segs_ok_def)
    have m: "?m \<le> LBA_RANGE_PER_SEGMENT" using ok(2) prems(4) by (intro max_allocation_le) (auto simp: segs_ok_def)
    have bk: "bins_ok k n l ?s" using prems(1) by simp
    show ?thesis
    proof (cases "?m = 0")
      case True
      have "ba_segments ?s ! i \<in> set (ba_segments ?s)" using len by (rule nth_mem)
      then have "ba_kept k n s ?s" "ba_failed s ?s Undefined_behaviour"
        using ok(2) bk True unfolding ba_kept_def ba_failed_def by auto
      then show ?thesis using ok(1) len True by (simp add: seg_p_def bin_of_size_def)
    next
      case False
      then obtain bin where bin: "bin_of_size ?m = Inr bin" "bin < 21" using bin_of_size_le m by blast
      then have lb: "bin < length (ba_bins ?s)" using bk by (auto simp: bins_ok_def)
      obtain q where q: "bin_p bin (mpmc_enqueue i) ?s = (Inr True, ?s\<lparr>ba_bins := (ba_bins ?s)[bin := q]\<rparr>)"
        "bins_ok k n (l(bin := l bin @ [i])) (?s\<lparr>ba_bins := (ba_bins ?s)[bin := q]\<rparr>)"
        using bin_enqueue [OF bk lb prems(4)] prems(5) by auto
      let ?t = "?s\<lparr>ba_bins := (ba_bins ?s)[bin := q]\<rparr>"
      have "ba_kept k n s ?t" unfolding ba_kept_def using ok(2) q(2) by auto
      moreover have "ba_took c s ?t (lba, i)" using ok(3) by (simp only: ba_took_bins)
      moreover have "try_bin (Suc fuel) dbg c b marker i s = (Inr (Some (lba, i)), ?t)"
        using ok(1) len q(1) bin(1) by (simp add: seg_p_def)
      ultimately show ?thesis by (simp del: try_bin.simps ba_took.simps)
    qed
  next
    case refused
    obtain q where q: "bin_p b (mpmc_enqueue i) s = (Inr True, s\<lparr>ba_bins := (ba_bins s)[b := q]\<rparr>)"
      "bins_ok k n (l(b := l b @ [i])) (s\<lparr>ba_bins := (ba_bins s)[b := q]\<rparr>)"
      using bin_enqueue [OF prems(1,6,4,5)] by blast
    let ?s = "s\<lparr>ba_bins := (ba_bins s)[b := q]\<rparr>"
    obtain x xs where x: "l b @ [i] = x # xs" by (cases "l b") auto
    obtain q' where q': "bin_p b mpmc_dequeue ?s = (Inr (Some x), ?s\<lparr>ba_bins := (ba_bins ?s)[b := q']\<rparr>)"
      "bins_ok k n ((l(b := l b @ [i]))(b := xs)) (?s\<lparr>ba_bins := (ba_bins ?s)[b := q']\<rparr>)"
      using bin_dequeue [OF q(2), of b x xs] prems(6) x by auto
    let ?t = "s\<lparr>ba_bins := (ba_bins s)[b := q']\<rparr>"
    have t: "?s\<lparr>ba_bins := (ba_bins ?s)[b := q']\<rparr> = ?t" by simp
    have bt: "bins_ok k n (l(b := xs)) ?t" using q'(2) unfolding t by simp
    have run: "try_bin (Suc fuel) dbg c b marker i s = (if x = marker then (Inr None, ?t) else try_bin fuel dbg c b marker x ?t)"
      using refused q(1) q'(1) unfolding t by simp
    show ?thesis
    proof (cases "x = marker")
      case True
      have "ba_kept k n s ?t" unfolding ba_kept_def using bt prems(2) by auto
      then show ?thesis unfolding run using True by simp
    next
      case False
      have dist: "distinct (l b @ [i])" "set (l b @ [i]) \<subseteq> {..< n}"
        using bins_okD(2,3) [OF q(2), of b] prems(6) by simp_all
      have 1: "x < n" using dist(2) x by auto
      have 2: "x \<notin> set ((l(b := xs)) y)" if "y < length (ba_bins ?t)" for y
      proof (cases "y = b")
        case True
        then show ?thesis using dist(1) x by auto
      next
        case False
        have "x = i \<or> x \<in> set (l b)" using x by (metis append_Cons append_Nil in_set_conv_decomp insertE list.set_intros(1) set_ConsD rotate1.simps(2) set_rotate1)
        moreover have "set (l b) \<inter> set (l y) = {}" using prems(1,6) that False unfolding bins_ok_def by auto
        ultimately show ?thesis using False prems(5) [of y] that by auto
      qed
      have 3: "marker = x \<and> length ((l(b := xs)) b) < fuel \<or> (\<exists>us vs. (l(b := xs)) b = us @ marker # vs \<and> length us < fuel)"
      proof (cases "marker = i")
        case True
        then obtain us where us: "l b = x # us" "xs = us @ [i]" using False x by (cases "l b") auto
        then have "length us < fuel"
        proof -
          have "marker \<notin> set (l b)" using True prems(5,6) by blast
          then have "length (l b) < Suc fuel" using prems(7) by auto
          then show ?thesis using us by simp
        qed
        then show ?thesis using us True by auto
      next
        case mi: False
        then obtain us vs where us: "l b = us @ marker # vs" "length us < Suc fuel" using prems(7) by blast
        then obtain us' where "us = x # us'" using False x by (cases us) auto
        then have "xs = us' @ marker # (vs @ [i])" "length us' < fuel" using us x by auto
        then show ?thesis by fastforce
      qed
      have "segs_ok n ?t" "b < length (ba_bins ?t)" using prems(2,6) by simp_all
      note IH = Suc.IH [OF bt this(1) prems(3) 1 2 this(2) 3]
      have same: "ba_segments ?t = ba_segments s" "ba_used ?t = ba_used s" "ba_last_bin ?t = ba_last_bin s" "length (ba_bins ?t) = length (ba_bins s)"
        by simp_all
      have "ba_kept k n ?t u = ba_kept k n s u" "ba_failed ?t u e = ba_failed s u e" "ba_took c ?t u y = ba_took c s u y" for u e y
        by (simp_all add: ba_kept_def ba_failed_def) (cases y; simp)
      then show ?thesis using IH False unfolding run by (simp only: if_False same(1))
    qed
  next
    case (failed e)
    then show ?thesis using kept by (auto simp: ba_failed_def)
  qed
qed simp

lemma same_segments:
  assumes "ba_segments t = ba_segments s"
  shows "ba_used t = ba_used s" "ba_failed t u e = ba_failed s u e" "ba_took c t u x = ba_took c s u x"
  using assms by (simp_all add: ba_used_def ba_failed_def) (cases x; simp add: ba_used_def)

lemma ba_kept_trans: "ba_kept k n s t \<Longrightarrow> ba_kept k n t u \<Longrightarrow> ba_kept k n s u"
  by (simp add: ba_kept_def)

lemma alloc_from_bins_outcome:
  assumes "bins_ok k n l s" "segs_ok n s" "0 < c" "b < length (ba_bins s)" "b < 31"
  shows "case alloc_from_bins dbg c b s of
      (Inr x, s') \<Rightarrow> ba_kept k n s s' \<and> ba_took c s s' x
    | (Inl e, s') \<Rightarrow> ba_kept k n s s' \<and> ba_failed s s' e"
  using assms
proof (induction b arbitrary: l s)
  case 0
  then show ?case by (auto simp: ba_kept_def ba_failed_def)
next
  case (Suc b)
  note prems = Suc.prems
  have size: "bin_to_size (Suc b) = Inr (2 ^ Suc b)" using prems(5) by (simp add: bin_to_size_def)
  have here: "ba_kept k n s s" "ba_failed s s General_exception" using prems(1,2) by (auto simp: ba_kept_def ba_failed_def)
  note emp = bin_empty [OF prems(1,4)]
  consider "2 ^ Suc b < c" | "c \<le> 2 ^ Suc b" "l (Suc b) = []" | x xs where "c \<le> 2 ^ Suc b" "l (Suc b) = x # xs"
    by (cases "l (Suc b)") force+
  then show ?case
  proof cases
    case 1
    then show ?thesis using here size by simp
  next
    case 2
    then have "alloc_from_bins dbg c (Suc b) s = alloc_from_bins dbg c b s" using emp size by simp
    then show ?thesis using Suc.IH [OF prems(1,2,3)] prems(4,5) by simp
  next
    case (3 x xs)
    obtain q where q: "bin_p (Suc b) mpmc_dequeue s = (Inr (Some x), s\<lparr>ba_bins := (ba_bins s)[Suc b := q]\<rparr>)"
      "bins_ok k n (l(Suc b := xs)) (s\<lparr>ba_bins := (ba_bins s)[Suc b := q]\<rparr>)"
      using bin_dequeue [OF prems(1,4) 3(2)] by blast
    let ?t = "s\<lparr>ba_bins := (ba_bins s)[Suc b := q]\<rparr>"
    let ?l = "l(Suc b := xs)"
    have D: "distinct (x # xs)" "set (x # xs) \<subseteq> {..< n}" using bins_okD(2,3) [OF prems(1,4)] 3(2) by simp_all
    have 4: "x \<notin> set (?l y)" if "y < length (ba_bins ?t)" for y
    proof (cases "y = Suc b")
      case False
      have "set (l (Suc b)) \<inter> set (l y) = {}" using prems(1,4) that False unfolding bins_ok_def by auto
      then show ?thesis using False 3(2) by auto
    qed (use D in simp)
    have "length xs \<le> n" using D by (metis card_lessThan card_mono distinct.simps(2) distinct_card finite_lessThan insert_subset list.simps(15))
    then have 5: "x = x \<and> length (?l (Suc b)) < length (ba_segments ?t) + 1 \<or> (\<exists>us vs. ?l (Suc b) = us @ x # vs \<and> length us < length (ba_segments ?t) + 1)"
      using prems(2) by (simp add: segs_ok_def)
    have 6: "segs_ok n ?t" "x < n" "Suc b < length (ba_bins ?t)" using prems(2,4) D(2) by auto
    have same: "ba_segments ?t = ba_segments s" "ba_kept k n s u = ba_kept k n ?t u" for u by (simp_all add: ba_kept_def)
    note T = try_bin_outcome [OF q(2) 6(1) prems(3) 6(2) 4 6(3) 5, of dbg]
    have run: "alloc_from_bins dbg c (Suc b) s =
        bind_p (try_bin (length (ba_segments ?t) + 1) dbg c (Suc b) x x)
          (\<lambda>r. case r of Some y \<Rightarrow> ret_p y | None \<Rightarrow> alloc_from_bins dbg c b) ?t"
      using 3 size emp q(1) by (simp del: try_bin.simps)
    obtain r u where ru: "try_bin (length (ba_segments ?t) + 1) dbg c (Suc b) x x ?t = (r, u)" by fastforce
    note T' = T [unfolded ru]
    show ?thesis
    proof (cases r)
      case (Inl e)
      have "alloc_from_bins dbg c (Suc b) s = (Inl e, u)" unfolding run using ru Inl by (simp del: try_bin.simps)
      then show ?thesis using T' Inl by (simp add: same(2) same_segments(2) [OF same(1)])
    next
      case (Inr v)
      show ?thesis
      proof (cases v)
        case (Some y)
        have "alloc_from_bins dbg c (Suc b) s = (Inr y, u)" unfolding run using ru Inr Some by (simp del: try_bin.simps)
        then show ?thesis using T' Inr Some by (simp add: same(2) same_segments(3) [OF same(1)] del: ba_took.simps)
      next
        case None
        have u: "ba_kept k n ?t u" "ba_segments u = ba_segments s" using T' Inr None by simp_all
        then obtain l' where l': "bins_ok k n l' u" "segs_ok n u" "b < length (ba_bins u)" using 6(3) by (auto simp: ba_kept_def)
        have eq: "alloc_from_bins dbg c (Suc b) s = alloc_from_bins dbg c b u"
          unfolding run using ru Inr None by (simp del: try_bin.simps)
        have "ba_kept k n s u" using u(1) same(2) by simp
        then show ?thesis
          using Suc.IH [OF l'(1,2) prems(3) l'(3)] prems(5) ba_kept_trans [of k n s u] unfolding eq
          by (auto simp: same_segments(2,3) [OF u(2)] simp del: ba_took.simps split: prod.splits sum.splits)
      qed
    qed
  qed
qed

lemma ba_alloc_outcome:
  assumes "ba_inv k n s" "0 < c"
  shows "case ba_alloc dbg c s of
      (Inr x, s') \<Rightarrow> ba_inv k n s' \<and> ba_took c s s' x
    | (Inl e, s') \<Rightarrow> ba_inv k n s' \<and> ba_failed s s' e"
proof -
  obtain l where l: "bins_ok k n l s" "segs_ok n s" "ba_last_bin s < length (ba_bins s)" "ba_last_bin s < 31"
    using assms(1) by (auto simp: ba_inv_def)
  have "ba_kept k n s s' \<Longrightarrow> ba_inv k n s'" for s' using l by (auto simp: ba_kept_def ba_inv_def)
  then show ?thesis
    using alloc_from_bins_outcome [OF l(1,2) assms(2) l(3,4), of dbg]
    by (auto simp: ba_alloc_def simp del: ba_took.simps split: prod.splits sum.splits)
qed

subsection \<open>Release\<close>

lemma seg_step_free:
  assumes segs: "segs_ok n s" and i: "i < n" and u: "(lba, c) \<in> seg_used (ba_segments s ! i)"
  obtains g where "seg_p i (seg_free lba) s = (Inr True, s\<lparr>ba_segments := (ba_segments s)[i := g]\<rparr>)"
    "segs_ok n (s\<lparr>ba_segments := (ba_segments s)[i := g]\<rparr>)" "ba_used (s\<lparr>ba_segments := (ba_segments s)[i := g]\<rparr>) = ba_used s - {(lba, c)}"
proof -
  let ?R = "LBA_RANGE_PER_SEGMENT"
  have len: "i < length (ba_segments s)" "length (ba_segments s) = n" and inv: "\<And>j. j < n \<Longrightarrow> seg_inv (j * ?R) ?R (ba_segments s ! j)"
    using segs i by (auto simp: segs_ok_def)
  obtain g where g: "seg_free lba (ba_segments s ! i) = (Inr True, g)" "seg_inv (i * ?R) ?R g" "seg_used g = seg_used (ba_segments s ! i) - {(lba, c)}"
    "sg_adjacent g = sg_adjacent (ba_segments s ! i)" using seg_free_run [OF inv [OF i] u] by blast
  let ?s = "s\<lparr>ba_segments := (ba_segments s)[i := g]\<rparr>"
  have other: "(lba, c) \<notin> seg_used (ba_segments s ! j)" if "j < n" "j \<noteq> i" for j
  proof
    assume v: "(lba, c) \<in> seg_used (ba_segments s ! j)"
    have "{lba..<lba + c} \<inter> {lba..<lba + c} = {}"
      using seg_used_bounds [OF inv [OF i] u] seg_used_bounds [OF inv [OF that(1)] v] that(2) by (intro segments_apart [of i _ _ j]) auto
    then show False using seg_used_bounds(3) [OF inv [OF i] u] by simp
  qed
  have "ba_used ?s = ba_used s - {(lba, c)}"
  proof (rule set_eqI)
    fix x
    have "x \<in> ba_used ?s \<longleftrightarrow> (\<exists>j < n. x \<in> seg_used (if j = i then g else ba_segments s ! j))"
      unfolding ba_used_iff using len by (auto simp: nth_list_update)
    also have "\<dots> \<longleftrightarrow> (\<exists>j < n. x \<in> seg_used (ba_segments s ! j)) \<and> x \<noteq> (lba, c)"
    proof
      assume "\<exists>j < n. x \<in> seg_used (if j = i then g else ba_segments s ! j)"
      then obtain j where "j < n" "x \<in> seg_used (if j = i then g else ba_segments s ! j)" by blast
      then show "(\<exists>j < n. x \<in> seg_used (ba_segments s ! j)) \<and> x \<noteq> (lba, c)"
        using g(3) other [of j] by (cases "j = i") auto
    next
      assume "(\<exists>j < n. x \<in> seg_used (ba_segments s ! j)) \<and> x \<noteq> (lba, c)"
      then obtain j where j: "j < n" "x \<in> seg_used (ba_segments s ! j)" "x \<noteq> (lba, c)" by blast
      then have "x \<in> seg_used (if j = i then g else ba_segments s ! j)" using g(3) by (cases "j = i") auto
      then show "\<exists>j < n. x \<in> seg_used (if j = i then g else ba_segments s ! j)" using j(1) by blast
    qed
    finally show "x \<in> ba_used ?s \<longleftrightarrow> x \<in> ba_used s - {(lba, c)}" unfolding Diff_iff ba_used_iff len(2) by blast
  qed
  moreover have "segs_ok n ?s" using segs g i by (auto simp: segs_ok_def nth_list_update)
  ultimately show ?thesis using g(1) len by (intro that [of g]) (auto simp: seg_p_def)
qed

lemma free_walk_run:
  assumes "segs_ok n s" "i < n" "(lba, c) \<in> seg_used (ba_segments s ! i)" "j \<le> i" "i - j < fuel"
  shows "\<exists>g. free_walk fuel lba (Some j) s = (Inr (), s\<lparr>ba_segments := (ba_segments s)[i := g]\<rparr>) \<and>
    segs_ok n (s\<lparr>ba_segments := (ba_segments s)[i := g]\<rparr>) \<and> ba_used (s\<lparr>ba_segments := (ba_segments s)[i := g]\<rparr>) = ba_used s - {(lba, c)}"
  using assms(4,5)
proof (induction fuel arbitrary: j)
  case (Suc fuel)
  let ?R = "LBA_RANGE_PER_SEGMENT"
  have len: "length (ba_segments s) = n" and inv: "\<And>j. j < n \<Longrightarrow> seg_inv (j * ?R) ?R (ba_segments s ! j)"
    and adj: "sg_adjacent (ba_segments s ! j) = (if Suc j < n then Some (Suc j) else None)"
    using assms(1,2) Suc.prems(1) by (auto simp: segs_ok_def)
  show ?case
  proof (cases "j = i")
    case True
    obtain g where "seg_p i (seg_free lba) s = (Inr True, s\<lparr>ba_segments := (ba_segments s)[i := g]\<rparr>)"
      "segs_ok n (s\<lparr>ba_segments := (ba_segments s)[i := g]\<rparr>)" "ba_used (s\<lparr>ba_segments := (ba_segments s)[i := g]\<rparr>) = ba_used s - {(lba, c)}"
      by (rule seg_step_free [OF assms(1-3)])
    then show ?thesis using True by auto
  next
    case False
    then have j: "j < i" "j < n" using Suc.prems(1) assms(2) by simp_all
    let ?g = "ba_segments s ! j"
    have "rg_lba (sg_ranges ?g ! k) \<noteq> lba" if "k < sg_slot_tail ?g" for k
    proof
      assume eq: "rg_lba (sg_ranges ?g ! k) = lba"
      have "sg_ranges ?g ! k \<in> set (seg_table ?g)"
        using that inv [OF j(2)] by (auto simp: seg_table_def seg_inv_def in_set_conv_nth)
      note b = rblocks_bounds [OF inv [OF j(2)] this] and b' = seg_used_bounds [OF inv [OF assms(2)] assms(3)]
      have "Suc j * ?R \<le> i * ?R" using j(1) by (intro mult_le_mono1) simp
      then show False using b b' eq by simp
    qed
    then have "seg_p j (seg_free lba) s = (Inr False, s)" using seg_free_unknown len j(2) by (simp add: seg_p_def)
    moreover have "seg_p j (get_p sg_adjacent) s = (Inr (Some (Suc j)), s)" using adj len j assms(2) by (simp add: seg_p_def)
    ultimately have "free_walk (Suc fuel) lba (Some j) s = free_walk fuel lba (Some (Suc j)) s" by simp
    then show ?thesis using Suc.IH [of "Suc j"] Suc.prems j(1) by auto
  qed
qed simp

lemma ba_free_outcome:
  assumes "ba_inv k n s" "i < length (ba_segments s)" "(lba, c) \<in> seg_used (ba_segments s ! i)" "h = Some i \<or> h = None"
  shows "\<exists>s'. ba_free lba h s = (Inr (), s') \<and> ba_inv k n s' \<and> ba_used s' = ba_used s - {(lba, c)}"
proof -
  have segs: "segs_ok n s" "i < n" using assms(1,2) by (auto simp: ba_inv_def segs_ok_def)
  obtain g where g: "seg_p i (seg_free lba) s = (Inr True, s\<lparr>ba_segments := (ba_segments s)[i := g]\<rparr>)"
    "segs_ok n (s\<lparr>ba_segments := (ba_segments s)[i := g]\<rparr>)" "ba_used (s\<lparr>ba_segments := (ba_segments s)[i := g]\<rparr>) = ba_used s - {(lba, c)}"
    by (rule seg_step_free [OF segs assms(3)])
  obtain g' where g': "free_walk (length (ba_segments s) + 1) lba (Some 0) s = (Inr (), s\<lparr>ba_segments := (ba_segments s)[i := g']\<rparr>)"
    "segs_ok n (s\<lparr>ba_segments := (ba_segments s)[i := g']\<rparr>)" "ba_used (s\<lparr>ba_segments := (ba_segments s)[i := g']\<rparr>) = ba_used s - {(lba, c)}"
    using free_walk_run [OF segs assms(3), of 0 "length (ba_segments s) + 1"] assms(2) by auto
  have keep: "ba_inv k n (s\<lparr>ba_segments := x\<rparr>)" if "segs_ok n (s\<lparr>ba_segments := x\<rparr>)" for x
    using assms(1) that by (auto simp: ba_inv_def)
  show ?thesis using assms(4)
  proof
    assume "h = Some i"
    then show ?thesis using g keep [OF g(2)] by (simp add: ba_free_def)
  next
    assume "h = None"
    then show ?thesis using g' keep [OF g'(2)] by (simp add: ba_free_def del: free_walk.simps)
  qed
qed

subsection \<open>A new allocator\<close>

definition fresh_segment :: "nat \<Rightarrow> nat option \<Rightarrow> segment_page \<Rightarrow> bool" where
  "fresh_segment i adj g \<longleftrightarrow> seg_inv (i * LBA_RANGE_PER_SEGMENT) LBA_RANGE_PER_SEGMENT g \<and> seg_used g = {} \<and> sg_adjacent g = adj \<and>
     sg_slot_tail g = 1 \<and> sg_num_slots g = 338 \<and>
     sg_ranges g ! 0 = \<lparr>rg_free = True, rg_lba = i * LBA_RANGE_PER_SEGMENT, rg_count = LBA_RANGE_PER_SEGMENT\<rparr>"

lemma make_segments_ok:
  assumes "(i + m) * LBA_RANGE_PER_SEGMENT \<le> 2 ^ 31"
  shows "\<exists>gs. make_segments dbg False i m = Inr gs \<and> length gs = m \<and>
    (\<forall>j < m. fresh_segment (i + j) (if Suc j < m then Some (Suc (i + j)) else None) (gs ! j))"
  using assms
proof (induction m arbitrary: i)
  case (Suc m)
  let ?R = "LBA_RANGE_PER_SEGMENT"
  have lt: "i * ?R < 2 ^ 31" using Suc.prems by simp
  obtain g where g: "segment_new dbg PER_SEGMENT_FOOTPRINT (i * ?R) ?R True zero_page = Inr g" "seg_inv (i * ?R) ?R g" "seg_used g = {}"
    "sg_ranges g ! 0 = \<lparr>rg_free = True, rg_lba = i * ?R, rg_count = ?R\<rparr>" "sg_slot_tail g = 1" "sg_num_slots g = 338"
    using segment_new_inv [OF lt, of ?R dbg zero_page] by auto
  let ?g = "g\<lparr>sg_adjacent := if m = 0 then None else Some (Suc i)\<rparr>"
  have g': "fresh_segment i (if Suc 0 < Suc m then Some (Suc i) else None) ?g"
    using g by (simp add: fresh_segment_def seg_inv_def seg_used_def seg_table_def)
  have "(Suc i + m) * ?R \<le> 2 ^ 31" using Suc.prems by simp
  from Suc.IH [OF this] obtain gs where gs: "make_segments dbg False (Suc i) m = Inr gs" "length gs = m"
    "\<forall>j < m. fresh_segment (Suc i + j) (if Suc j < m then Some (Suc (Suc i + j)) else None) (gs ! j)" by blast
  have "make_segments dbg False i (Suc m) = Inr (?g # gs)" using g(1) gs(1) by simp
  moreover have "fresh_segment (i + j) (if Suc j < Suc m then Some (Suc (i + j)) else None) ((?g # gs) ! j)" if "j < Suc m" for j
  proof (cases j)
    case 0
    then show ?thesis using g' by (cases m) simp_all
  next
    case (Suc j')
    then have "fresh_segment (Suc i + j') (if Suc j' < m then Some (Suc (Suc i + j')) else None) (gs ! j')" using that gs(3) by simp
    then show ?thesis using Suc by (auto split: if_splits)
  qed
  ultimately show ?case using gs(2) by (intro exI [of _ "?g # gs"]) simp
qed simp

lemma make_bins_ok:
  assumes "k < 64"
  shows "\<exists>qs. make_bins dbg (2 ^ k) junk m = Inr qs \<and> length qs = m \<and> (\<forall>b < m. mpmc_rep k (qs ! b) [])"
proof (induction m)
  case (Suc m)
  obtain q where "mpmc_init dbg (2 ^ k) junk = Inr q" using mpmc_init_eq [OF refl assms, of dbg junk] by simp
  moreover have "mpmc_rep k q []" by (rule mpmc_at_new [OF assms calculation])
  ultimately show ?case using Suc by (auto simp: nth_Cons')
qed simp

lemma push_segments_ok:
  assumes "bins_ok k n l s" "b < length (ba_bins s)" "set is \<subseteq> {..< n}" "distinct is" "\<And>c i. c < length (ba_bins s) \<Longrightarrow> i \<in> set is \<Longrightarrow> i \<notin> set (l c)"
  shows "\<exists>bins. push_segments b is s = (Inr (), s\<lparr>ba_bins := bins\<rparr>) \<and> length bins = length (ba_bins s) \<and> bins_ok k n (l(b := l b @ is)) (s\<lparr>ba_bins := bins\<rparr>)"
  using assms
proof (induction b "is" arbitrary: s l rule: push_segments.induct)
  case (1 b)
  then show ?case by (intro exI [of _ "ba_bins s"]) simp
next
  case (2 b i)
  then obtain q where "bin_p b (mpmc_enqueue i) s = (Inr True, s\<lparr>ba_bins := (ba_bins s)[b := q]\<rparr>)"
    "bins_ok k n (l(b := l b @ [i])) (s\<lparr>ba_bins := (ba_bins s)[b := q]\<rparr>)" using bin_enqueue [of k n l s b i] by auto
  then show ?case by (intro exI [of _ "(ba_bins s)[b := q]"]) (simp add: fun_upd_def)
next
  case (3 b i j "is")
  obtain q where q: "bin_p b (mpmc_enqueue i) s = (Inr True, s\<lparr>ba_bins := (ba_bins s)[b := q]\<rparr>)"
    "bins_ok k n (l(b := l b @ [i])) (s\<lparr>ba_bins := (ba_bins s)[b := q]\<rparr>)"
    using bin_enqueue [OF "3.prems"(1,2), of i] "3.prems"(3,5) by auto
  have "\<exists>bins. push_segments b (j # is) (s\<lparr>ba_bins := (ba_bins s)[b := q]\<rparr>) = (Inr (), s\<lparr>ba_bins := bins\<rparr>) \<and>
      length bins = length (ba_bins s) \<and> bins_ok k n (l(b := l b @ i # j # is)) (s\<lparr>ba_bins := bins\<rparr>)"
  proof -
    let ?l = "l(b := l b @ [i])" and ?t = "s\<lparr>ba_bins := (ba_bins s)[b := q]\<rparr>"
    have new: "c < length (ba_bins ?t) \<Longrightarrow> x \<in> set (j # is) \<Longrightarrow> x \<notin> set (?l c)" for c x
      using "3.prems"(4) "3.prems"(5) [of c x] by auto
    have upd: "?l(b := ?l b @ j # is) = l(b := l b @ i # j # is)" by simp
    have "b < length (ba_bins ?t)" "set (j # is) \<subseteq> {..< n}" "distinct (j # is)" using "3.prems"(2,3,4) by simp_all
    from "3.IH" [OF TrueI q(2) this new]
    obtain bins where "push_segments b (j # is) ?t = (Inr (), ?t\<lparr>ba_bins := bins\<rparr>)" "length bins = length (ba_bins ?t)"
      "bins_ok k n (?l(b := ?l b @ j # is)) (?t\<lparr>ba_bins := bins\<rparr>)" by blast
    then show ?thesis unfolding upd by (intro exI [of _ bins]) simp
  qed
  then obtain bins where "push_segments b (j # is) (s\<lparr>ba_bins := (ba_bins s)[b := q]\<rparr>) = (Inr (), s\<lparr>ba_bins := bins\<rparr>)"
    "length bins = length (ba_bins s)" "bins_ok k n (l(b := l b @ i # j # is)) (s\<lparr>ba_bins := bins\<rparr>)" by blast
  then show ?case using q(1) by (intro exI [of _ bins]) (simp add: fun_upd_def)
qed

lemma block_allocator_new_ok:
  assumes m: "2 ^ 18 \<le> max_lba" "max_lba < 2 ^ 30" and n: "n = max_lba div LBA_RANGE_PER_SEGMENT + 1"
  shows "\<exists>k s. block_allocator_new dbg max_lba False junk = Inr s \<and> segs_ok n s \<and> ba_used s = {} \<and> ba_last_bin s = bit_length max_lba \<and>
    length (ba_bins s) = bit_length max_lba + 2 \<and> bit_length max_lba \<in> {19..30} \<and>
    bins_ok k n ((\<lambda>_. [])(bit_length max_lba := [0..<n])) s \<and>
    (\<forall>i < n. fresh_segment i (if Suc i < n then Some (Suc i) else None) (ba_segments s ! i))"
proof -
  let ?R = "LBA_RANGE_PER_SEGMENT" and ?b = "bit_length max_lba"
  have b: "?b \<le> 30" "19 \<le> ?b"
  proof -
    show "?b \<le> 30" by (rule bit_length_le) (use m in simp)
    have "max_lba < 2 ^ ?b" by (rule bit_length_upper)
    then have "(2::nat) ^ 18 < 2 ^ ?b" using m(1) by linarith
    then show "19 \<le> ?b" using power_strict_increasing_iff [of "2::nat" 18 ?b] by simp
  qed
  have small: "n \<le> 2048" using m(2) n by simp
  have bin: "bin_of_size max_lba = Inr ?b" using m by (simp add: bin_of_size_def fsmsb_clzl)
  obtain k where k: "round_up_log2 n = Inr (2 ^ k)" "n \<le> 2 ^ k" "k \<le> 11"
  proof -
    have "0 < n" "n \<le> 2 ^ 63" using n small by simp_all
    from round_up_log2_least [OF this] obtain k where "round_up_log2 n = Inr (2 ^ k)" "n \<le> 2 ^ k" "\<forall>j. n \<le> 2 ^ j \<longrightarrow> k \<le> j" by blast
    moreover have "n \<le> 2 ^ 11" using small by simp
    ultimately show ?thesis using that by blast
  qed
  have k64: "k < 64" using k(3) by simp
  obtain qs where qs: "make_bins dbg (2 ^ k) junk (?b + 2) = Inr qs" "length qs = ?b + 2" "\<forall>c < ?b + 2. mpmc_rep k (qs ! c) []"
    using make_bins_ok [OF k64] by blast
  have "(0 + n) * ?R \<le> 2 ^ 31" using small by simp
  from make_segments_ok [OF this, of dbg, unfolded add_0] obtain gs where gs: "make_segments dbg False 0 n = Inr gs" "length gs = n"
    "\<forall>j < n. fresh_segment j (if Suc j < n then Some (Suc j) else None) (gs ! j)" by auto
  let ?s = "\<lparr>ba_segments = gs, ba_bins = qs, ba_last_bin = ?b\<rparr>"
  have ok: "bins_ok k n (\<lambda>_. []) ?s" using k64 k(2) qs(2,3) b(2) by (simp add: bins_ok_def)
  obtain bins where bins: "push_segments ?b [0..<n] ?s = (Inr (), ?s\<lparr>ba_bins := bins\<rparr>)" "length bins = ?b + 2"
    "bins_ok k n ((\<lambda>_. [])(?b := [0..<n])) (?s\<lparr>ba_bins := bins\<rparr>)"
  proof -
    have "?b < length (ba_bins ?s)" "set [0..<n] \<subseteq> {..< n}" "distinct [0..<n]" using qs(2) by auto
    from push_segments_ok [OF ok this] that qs(2) show ?thesis by fastforce
  qed
  have "max_lba < n * ?R" using n mod_less_divisor [of ?R max_lba] div_mult_mod_eq [of max_lba ?R] by linarith
  then have "block_allocator_new dbg max_lba False junk = Inr (?s\<lparr>ba_bins := bins\<rparr>)"
    using m(1) bin k(1) qs(1) gs(1) bins(1) n by (simp add: block_allocator_new_def Let_def assert_res_def)
  moreover have "segs_ok n ?s" "ba_used ?s = {}"
    using gs(2,3) by (auto simp: segs_ok_def fresh_segment_def ba_used_def in_set_conv_nth)
  ultimately show ?thesis using bins(2,3) b gs(3)
    by (intro exI [of _ k] exI [of _ "?s\<lparr>ba_bins := bins\<rparr>"]) (auto simp: ba_used_def segs_ok_def)
qed

section \<open>Properties\<close>

text \<open>The life of an allocator: created on new memory, then used for allocations and releases of live ranges.\<close>

inductive ba_reach :: "nat \<Rightarrow> blk_allocator \<Rightarrow> bool" for max_lba where
  ba_create: "block_allocator_new dbg max_lba False junk = Inr s \<Longrightarrow> ba_reach max_lba s"
| ba_allocate: "ba_reach max_lba s \<Longrightarrow> 0 < c \<Longrightarrow> ba_reach max_lba (snd (ba_alloc dbg c s))"
| ba_release: "ba_reach max_lba s \<Longrightarrow> i < length (ba_segments s) \<Longrightarrow> (lba, c) \<in> seg_used (ba_segments s ! i) \<Longrightarrow>
     h = Some i \<or> h = None \<Longrightarrow> ba_reach max_lba (snd (ba_free lba h s))"

lemma ba_reach_inv:
  assumes "ba_reach m s" "2 ^ 18 \<le> m" "m < 2 ^ 30"
  shows "\<exists>k. ba_inv k (m div LBA_RANGE_PER_SEGMENT + 1) s"
  using assms(1)
proof (induction rule: ba_reach.induct)
  case (ba_create dbg junk s)
  obtain k s' where "block_allocator_new dbg m False junk = Inr s'" "segs_ok (m div LBA_RANGE_PER_SEGMENT + 1) s'" "ba_last_bin s' = bit_length m"
    "length (ba_bins s') = bit_length m + 2" "bit_length m \<in> {19..30}"
    "bins_ok k (m div LBA_RANGE_PER_SEGMENT + 1) ((\<lambda>_. [])(bit_length m := [0..<m div LBA_RANGE_PER_SEGMENT + 1])) s'"
    using block_allocator_new_ok [OF assms(2,3) refl, of dbg junk] by blast
  then show ?case using ba_create by (auto simp: ba_inv_def)
next
  case (ba_allocate s c dbg)
  then obtain k where "ba_inv k (m div LBA_RANGE_PER_SEGMENT + 1) s" by blast
  from ba_alloc_outcome [OF this ba_allocate.hyps(2), of dbg] show ?case by (auto split: prod.splits sum.splits)
next
  case (ba_release s i lba c h)
  then obtain k where "ba_inv k (m div LBA_RANGE_PER_SEGMENT + 1) s" by blast
  from ba_free_outcome [OF this ba_release.hyps(2-4)] show ?case by auto
qed

lemma ba_used_disjoint:
  assumes "segs_ok n s" "(x, c) \<in> ba_used s" "(y, d) \<in> ba_used s" "(x, c) \<noteq> (y, d)"
  shows "{x..<x + c} \<inter> {y..<y + d} = {}"
proof -
  let ?R = "LBA_RANGE_PER_SEGMENT"
  have inv: "\<And>j. j < n \<Longrightarrow> seg_inv (j * ?R) ?R (ba_segments s ! j)" and len: "length (ba_segments s) = n"
    using assms(1) by (auto simp: segs_ok_def)
  obtain i j where ij: "i < n" "(x, c) \<in> seg_used (ba_segments s ! i)" "j < n" "(y, d) \<in> seg_used (ba_segments s ! j)"
    using assms(2,3) unfolding ba_used_iff len by blast
  show ?thesis
  proof (cases "i = j")
    case False
    then show ?thesis using seg_used_bounds [OF inv [OF ij(1)] ij(2)] seg_used_bounds [OF inv [OF ij(3)] ij(4)] by (intro segments_apart) auto
  next
    case True
    let ?t = "seg_table (ba_segments s ! i)"
    obtain p q where p: "p < length ?t" "(x, c) = (rg_lba (?t ! p), rg_count (?t ! p))" and q: "q < length ?t" "(y, d) = (rg_lba (?t ! q), rg_count (?t ! q))"
      using ij(2,4) True unfolding seg_used_nth by blast
    then have "p \<noteq> q" using assms(4) by auto
    then show ?thesis using rblocks_disjoint [OF inv [OF ij(1)] p(1) q(1)] p(2) q(2) by simp
  qed
qed



lemma alloc_all_empty:
  "bins_ok k n (\<lambda>_. []) s \<Longrightarrow> b < length (ba_bins s) \<Longrightarrow> b < 31 \<Longrightarrow> alloc_from_bins dbg c b s = (Inl General_exception, s)"
proof (induction b)
  case (Suc b)
  then show ?case using bin_empty [OF Suc.prems(1,2)] by (simp add: bin_to_size_def)
qed simp

lemma first_two:
  assumes "Suc 0 < length xs"
  shows "take (Suc 0) xs = [xs ! 0]" "take (Suc (Suc 0)) xs = [xs ! 0, xs ! Suc 0]"
  using assms by (cases xs; cases "tl xs"; simp)+

text \<open>The first block of a fresh segment.\<close>

lemma fresh_segment_alloc:
  assumes "fresh_segment 0 adj g"
  shows "\<exists>g1. seg_alloc dbg 1 g = (Inr (Some 0), g1) \<and> max_allocation g1 = 524287 \<and> seg_alloc dbg 524288 g1 = (Inr None, g1)"
proof -
  let ?r = "\<lparr>rg_free = True, rg_lba = 0, rg_count = LBA_RANGE_PER_SEGMENT\<rparr>"
  have g: "sg_slot_tail g = Suc 0" "sg_num_slots g = 338" "sg_ranges g ! 0 = ?r" "length (sg_ranges g) = 338"
    using assms by (simp_all add: fresh_segment_def seg_inv_def)
  have scan: "scan_largest_free g = Some 0" using g by (simp add: scan_largest_free_def first_two)
  have slot: "next_free_slot g = (Inr (Some (Suc 0)), g\<lparr>sg_slot_tail := Suc (Suc 0)\<rparr>)" using g by (simp add: next_free_slot_def)
  let ?g = "g\<lparr>sg_slot_tail := Suc (Suc 0), sg_ranges := (sg_ranges g)[Suc 0 := \<lparr>rg_free = False, rg_lba = 0, rg_count = 1\<rparr>,
      0 := \<lparr>rg_free = True, rg_lba = 1, rg_count = 524287\<rparr>]\<rparr>"
  have "allocate_from dbg 0 1 g = (Inr (Suc 0), ?g)"
    using g slot by (simp add: allocate_from_def set_range_def)
  then have "seg_alloc dbg 1 g = (Inr (Some 0), ?g)" using g scan by (simp add: seg_alloc_def)
  moreover have scan': "scan_largest_free ?g = Some 0" using g by (simp add: scan_largest_free_def first_two)
  moreover have "max_allocation ?g = 524287" using scan' g by (simp add: max_allocation_def)
  moreover have "seg_alloc dbg 524288 ?g = (Inr None, ?g)" using scan' g by (simp add: seg_alloc_def)
  ultimately show ?thesis by blast
qed

text \<open>
  C34: a refused request loses a segment. A pass over a bin in which no segment can serve the
  request takes the first segment out a second time to recognise the end of the pass and does not
  put it back. On a device of one segment, after one block has been allocated, a request for more
  than what is left fails and from then on every request fails, although all the other blocks of
  the segment are free.
\<close>
theorem block_allocator_loses_segment:
  "\<exists>s0 s1 s2. block_allocator_new dbg 300000 False junk = Inr s0 \<and> ba_alloc dbg 1 s0 = (Inr (0, 0), s1) \<and>
     ba_alloc dbg 524288 s1 = (Inl General_exception, s2) \<and> max_allocation (ba_segments s2 ! 0) = 524287 \<and>
     (\<forall>c. ba_alloc dbg c s2 = (Inl General_exception, s2))"
proof -
  have n: "(1::nat) = 300000 div LBA_RANGE_PER_SEGMENT + 1" by simp
  obtain k s0 where s0: "block_allocator_new dbg 300000 False junk = Inr s0" "segs_ok 1 s0" "ba_last_bin s0 = bit_length 300000"
    "length (ba_bins s0) = bit_length 300000 + 2" "bit_length 300000 \<in> {19..30}" "bins_ok k 1 ((\<lambda>_. [])(bit_length 300000 := [0..<1])) s0"
    "\<forall>i < 1. fresh_segment i (if Suc i < 1 then Some (Suc i) else None) (ba_segments s0 ! i)"
    using block_allocator_new_ok [OF _ _ n, of dbg junk] by auto
  have "bit_length 300000 \<le> 19" by (rule bit_length_le) simp
  then have bl: "bit_length 300000 = 19" using s0(5) by simp
  let ?E = "(\<lambda>_. []) :: nat \<Rightarrow> nat list"
  have len: "length (ba_bins s0) = 21" "length (ba_segments s0) = 1" using s0(2,4) bl by (simp_all add: segs_ok_def)
  have bin: "bin_to_size (Suc 18) = Inr 524288" "bin_of_size 524287 = Inr 19" "bin_to_size (Suc 17) = Inr 262144"
  proof -
    have "bit_length 524287 \<le> 19" by (rule bit_length_le) simp
    moreover have "\<not> bit_length 524287 \<le> 18" using bit_length_upper [of 524287] power_increasing [of "bit_length 524287" 18 "2::nat"] by auto
    ultimately have "bit_length 524287 = 19" by simp
    then show "bin_of_size 524287 = Inr 19" by (simp add: bin_of_size_def fsmsb_clzl)
  qed (simp_all add: bin_to_size_def)
  obtain g1 where g1: "seg_alloc dbg 1 (ba_segments s0 ! 0) = (Inr (Some 0), g1)" "max_allocation g1 = 524287" "seg_alloc dbg 524288 g1 = (Inr None, g1)"
    using fresh_segment_alloc [of None "ba_segments s0 ! 0" dbg] s0(7) by auto
  have pop: "\<exists>q. bin_p 19 mpmc_empty s = (Inr False, s) \<and> bin_p 19 mpmc_dequeue s = (Inr (Some 0), s\<lparr>ba_bins := q\<rparr>) \<and>
      length q = 21 \<and> bins_ok k 1 ?E (s\<lparr>ba_bins := q\<rparr>)" if a: "bins_ok k 1 (?E(19 := [0])) s" and b: "length (ba_bins s) = 21" for s
  proof -
    obtain q where "bin_p 19 mpmc_dequeue s = (Inr (Some 0), s\<lparr>ba_bins := (ba_bins s)[19 := q]\<rparr>)"
      "bins_ok k 1 ((?E(19 := [0]))(19 := [])) (s\<lparr>ba_bins := (ba_bins s)[19 := q]\<rparr>)"
      using bin_dequeue [OF a, of 19 0 "[]"] b by auto
    then show ?thesis using bin_empty [OF a, of 19] b by (intro exI [of _ "(ba_bins s)[19 := q]"]) (simp add: fun_upd_idem)
  qed
  have push: "\<exists>q. bin_p 19 (mpmc_enqueue 0) s = (Inr True, s\<lparr>ba_bins := q\<rparr>) \<and> length q = 21 \<and> bins_ok k 1 (?E(19 := [0])) (s\<lparr>ba_bins := q\<rparr>)"
    if a: "bins_ok k 1 ?E s" and b: "length (ba_bins s) = 21" for s
  proof -
    obtain q where "bin_p 19 (mpmc_enqueue 0) s = (Inr True, s\<lparr>ba_bins := (ba_bins s)[19 := q]\<rparr>)"
      "bins_ok k 1 (?E(19 := [0])) (s\<lparr>ba_bins := (ba_bins s)[19 := q]\<rparr>)"
      using bin_enqueue [OF a, of 19 0] b by auto
    then show ?thesis using b by (intro exI [of _ "(ba_bins s)[19 := q]"]) simp
  qed
  obtain q1 where q1: "bin_p 19 mpmc_empty s0 = (Inr False, s0)" "bin_p 19 mpmc_dequeue s0 = (Inr (Some 0), s0\<lparr>ba_bins := q1\<rparr>)" "length q1 = 21"
    "bins_ok k 1 ?E (s0\<lparr>ba_bins := q1\<rparr>)" using pop [of s0] s0(6) bl len by auto
  let ?t1 = "s0\<lparr>ba_bins := q1, ba_segments := [g1]\<rparr>"
  have segs: "(ba_segments s0)[0 := g] = [g]" for g using len(2) by (cases "ba_segments s0") auto
  obtain q2 where q2: "bin_p 19 (mpmc_enqueue 0) ?t1 = (Inr True, ?t1\<lparr>ba_bins := q2\<rparr>)" "length q2 = 21" "bins_ok k 1 (?E(19 := [0])) (?t1\<lparr>ba_bins := q2\<rparr>)"
    using push [of ?t1] q1(3,4) by auto
  let ?s1 = "?t1\<lparr>ba_bins := q2\<rparr>"
  have step1: "ba_alloc dbg 1 s0 = (Inr (0, 0), ?s1)"
    using s0(3) bl q1(1,2) q2(1) g1(1,2) bin(1,2) len segs
    by (simp add: ba_alloc_def seg_p_def alloc_from_bins.simps(2) [of dbg _ 18, simplified])
  obtain q3 where q3: "bin_p 19 mpmc_empty ?s1 = (Inr False, ?s1)" "bin_p 19 mpmc_dequeue ?s1 = (Inr (Some 0), ?s1\<lparr>ba_bins := q3\<rparr>)" "length q3 = 21"
    "bins_ok k 1 ?E (?s1\<lparr>ba_bins := q3\<rparr>)" using pop [of ?s1] q2(2,3) by auto
  obtain q4 where q4: "bin_p 19 (mpmc_enqueue 0) (?s1\<lparr>ba_bins := q3\<rparr>) = (Inr True, ?s1\<lparr>ba_bins := q4\<rparr>)" "length q4 = 21"
    "bins_ok k 1 (?E(19 := [0])) (?s1\<lparr>ba_bins := q4\<rparr>)" using push [OF q3(4)] q3(3) by auto
  obtain q5 where q5: "bin_p 19 mpmc_dequeue (?s1\<lparr>ba_bins := q4\<rparr>) = (Inr (Some 0), ?s1\<lparr>ba_bins := q5\<rparr>)" "length q5 = 21"
    "bins_ok k 1 ?E (?s1\<lparr>ba_bins := q5\<rparr>)" using pop [OF q4(3)] q4(2) by auto
  let ?s2 = "?s1\<lparr>ba_bins := q5\<rparr>"
  have empty: "alloc_from_bins dbg c b ?s2 = (Inl General_exception, ?s2)" if "b < 21" for c b
    using alloc_all_empty [OF q5(3), of b dbg c] q5(2) that by simp
  have refused: "seg_p 0 (seg_alloc dbg 524288) (?s1\<lparr>ba_bins := q3\<rparr>) = (Inr None, ?s1\<lparr>ba_bins := q3\<rparr>)"
    using g1(3) by (simp add: seg_p_def)
  have step2: "ba_alloc dbg 524288 ?s1 = (Inl General_exception, ?s2)"
    using s0(3) bl q3(1,2) q4(1) q5(1) bin(1) empty [of 18] refused
    by (simp add: ba_alloc_def alloc_from_bins.simps(2) [of dbg _ 18, simplified])
  have "ba_alloc dbg c ?s2 = (Inl General_exception, ?s2)" for c
    using s0(3) bl empty [of 19] by (simp add: ba_alloc_def)
  then show ?thesis using s0(1) step1 step2 g1(2)
    by (intro exI [of _ s0] exI [of _ ?s1] exI [of _ ?s2]) simp
qed

end
