(* ===== verification/Dax_Region.thy ===== *)
theory Dax_Region
  imports Prelude
begin

text \<open>
  The region table at the head of a devdax device: \<open>DM_undo_log\<close>, \<open>DM_region\<close> and
  \<open>DM_region_header\<close> of \<open>nupm/src/dax_data.h\<close>.

  The header lives in persistent memory, so an operation is modelled by the stores it performs, in
  program order: the state of a run is the header and the list of stores so far. Reads take the
  header; every write is one store that is both applied and recorded. What a crash leaves behind is
  the header after the first \<open>k\<close> stores. A copy into the undo log is one store.
\<close>

section \<open>Data\<close>

abbreviation (input) GB :: nat where "GB \<equiv> 1073741824"
abbreviation (input) WORD32 :: nat where "WORD32 \<equiv> 4294967296"
abbreviation (input) WORD16 :: nat where "WORD16 \<equiv> 65536"
abbreviation (input) DM_REGION_MAGIC :: nat where "DM_REGION_MAGIC \<equiv> 0xC0070000"
abbreviation (input) DM_REGION_VERSION :: nat where "DM_REGION_VERSION \<equiv> 2"
abbreviation (input) MAX_LOG_COUNT :: nat where "MAX_LOG_COUNT \<equiv> 4"
abbreviation (input) MAX_LOG_SIZE :: nat where "MAX_LOG_SIZE \<equiv> 64"
abbreviation (input) DEFAULT_MAX_REGIONS :: nat where "DEFAULT_MAX_REGIONS \<equiv> 1024"

text \<open>
  The saved bytes of a log entry are 32-bit words, and a pointer into the region table is the
  number of the word it points at: region \<open>r\<close> has its offset at word \<open>4 * r\<close>, its length at
  \<open>4 * r + 1\<close> and the two halves of its identifier at \<open>4 * r + 2\<close> and \<open>4 * r + 3\<close>.
\<close>

record log_entry =
  le_log :: "nat list"
  le_ptr :: nat
  le_length :: nat

record dm_region =
  dr_offset :: nat
  dr_length :: nat
  dr_id :: nat

record dm_header =
  dm_magic :: nat
  dm_version :: nat
  dm_device_size :: size_t
  dm_log :: "log_entry list"
  dm_regions :: "dm_region list"

definition peek :: "dm_header \<Rightarrow> nat \<Rightarrow> nat" where
  "peek h p = (let r = dm_regions h ! (p div 4) in
     if p mod 4 = 0 then dr_offset r else if p mod 4 = 1 then dr_length r
     else if p mod 4 = 2 then dr_id r mod WORD32 else dr_id r div WORD32)"

definition poke :: "nat \<Rightarrow> nat \<Rightarrow> dm_region \<Rightarrow> dm_region" where
  "poke p w r =
     (if p mod 4 = 0 then r\<lparr>dr_offset := w\<rparr> else if p mod 4 = 1 then r\<lparr>dr_length := w\<rparr>
      else if p mod 4 = 2 then r\<lparr>dr_id := dr_id r div WORD32 * WORD32 + w\<rparr> else r\<lparr>dr_id := w * WORD32 + dr_id r mod WORD32\<rparr>)"

definition read_words :: "dm_header \<Rightarrow> nat \<Rightarrow> nat \<Rightarrow> nat list" where
  "read_words h p n = map (peek h) [p..<p + n]"

section \<open>Stores\<close>

datatype dm_store =
    Log_length nat nat
  | Log_ptr nat nat
  | Log_bytes nat "nat list"
  | Region_offset nat nat
  | Region_length nat nat
  | Region_id nat nat
  | Region_word nat nat

definition log_update :: "nat \<Rightarrow> (log_entry \<Rightarrow> log_entry) \<Rightarrow> dm_header \<Rightarrow> dm_header" where
  "log_update i f h = h\<lparr>dm_log := (dm_log h)[i := f (dm_log h ! i)]\<rparr>"

definition region_update :: "nat \<Rightarrow> (dm_region \<Rightarrow> dm_region) \<Rightarrow> dm_header \<Rightarrow> dm_header" where
  "region_update r f h = h\<lparr>dm_regions := (dm_regions h)[r := f (dm_regions h ! r)]\<rparr>"

fun apply_store :: "dm_store \<Rightarrow> dm_header \<Rightarrow> dm_header" where
  "apply_store (Log_length i v) = log_update i (\<lambda>e. e\<lparr>le_length := v\<rparr>)"
| "apply_store (Log_ptr i p) = log_update i (\<lambda>e. e\<lparr>le_ptr := p\<rparr>)"
| "apply_store (Log_bytes i ws) = log_update i (\<lambda>e. e\<lparr>le_log := ws @ drop (length ws) (le_log e)\<rparr>)"
| "apply_store (Region_offset r v) = region_update r (\<lambda>d. d\<lparr>dr_offset := v\<rparr>)"
| "apply_store (Region_length r v) = region_update r (\<lambda>d. d\<lparr>dr_length := v\<rparr>)"
| "apply_store (Region_id r v) = region_update r (\<lambda>d. d\<lparr>dr_id := v\<rparr>)"
| "apply_store (Region_word p w) = region_update (p div 4) (poke p w)"

record dm_exec =
  dx_hdr :: dm_header
  dx_stores :: "dm_store list"

definition pm_store :: "dm_store \<Rightarrow> (dm_exec, unit) prog" where
  "pm_store st = update_p (\<lambda>x. x\<lparr>dx_hdr := apply_store st (dx_hdr x), dx_stores := dx_stores x @ [st]\<rparr>)"

fun each_p :: "('b \<Rightarrow> ('s, unit) prog) \<Rightarrow> 'b list \<Rightarrow> ('s, unit) prog" where
  "each_p f [] = ret_p ()"
| "each_p f (x # xs) = bind_p (f x) (\<lambda>_. each_p f xs)"

section \<open>The undo log\<close>

definition undo_log :: "nat \<Rightarrow> nat \<Rightarrow> (dm_exec, unit) prog" where
  "undo_log ptr len =
     (if MAX_LOG_SIZE < len then throw_p API_exception
      else bind_p (get_p dx_hdr) (\<lambda>h.
        case List.find (\<lambda>i. le_length (dm_log h ! i) = 0) [0..<MAX_LOG_COUNT] of
          None \<Rightarrow> throw_p API_exception
        | Some i \<Rightarrow> each_p pm_store [Log_length i len, Log_ptr i ptr, Log_bytes i (read_words h ptr (len div 4))]))"

definition clear_log :: "(dm_exec, unit) prog" where
  "clear_log = each_p (\<lambda>i. pm_store (Log_length i 0)) [0..<MAX_LOG_COUNT]"

definition undo_entry :: "nat \<Rightarrow> (dm_exec, unit) prog" where
  "undo_entry i = bind_p (get_p (\<lambda>x. dm_log (dx_hdr x) ! i)) (\<lambda>e.
     if 0 < le_length e
     then bind_p (each_p (\<lambda>k. pm_store (Region_word (le_ptr e + k) (le_log e ! k))) [0..<le_length e div 4]) (\<lambda>_.
       pm_store (Log_length i 0))
     else ret_p ())"

definition check_and_undo :: "(dm_exec, unit) prog" where
  "check_and_undo = each_p undo_entry [0..<MAX_LOG_COUNT]"

section \<open>The header\<close>

definition region_initialize :: "size_t \<Rightarrow> dm_region" where
  "region_initialize space_size = \<lparr>dr_offset = 0, dr_length = space_size div GB mod WORD32, dr_id = 0\<rparr>"

text \<open>
  The rebuilding constructor over what the memory holds: it leaves the offsets of the unused
  regions and the bytes of the log entries as they are.
\<close>

definition dm_header_new :: "size_t \<Rightarrow> dm_header \<Rightarrow> dm_header" where
  "dm_header_new device_size mem =
     \<lparr>dm_magic = DM_REGION_MAGIC, dm_version = DM_REGION_VERSION, dm_device_size = device_size,
      dm_log = map (\<lambda>i. (dm_log mem ! i)\<lparr>le_length := 0\<rparr>) [0..<MAX_LOG_COUNT],
      dm_regions = region_initialize (sub64 device_size GB) #
        map (\<lambda>r. \<lparr>dr_offset = dr_offset (dm_regions mem ! r), dr_length = 0, dr_id = 0\<rparr>) [1..<DEFAULT_MAX_REGIONS]\<rparr>"

definition check_magic :: "dm_header \<Rightarrow> bool" where
  "check_magic h \<longleftrightarrow> dm_magic h = DM_REGION_MAGIC \<and> dm_version h = DM_REGION_VERSION"

definition arena_base :: "addr_t \<Rightarrow> addr_t" where
  "arena_base this = add64 this GB"

definition region_addr :: "addr_t \<Rightarrow> nat \<Rightarrow> addr_t" where
  "region_addr this off = add64 (off * GB) (arena_base this)"

definition dm_find_region :: "nat \<Rightarrow> dm_header \<Rightarrow> nat option" where
  "dm_find_region rid h = List.find (\<lambda>r. dr_id (dm_regions h ! r) = rid) [0..<length (dm_regions h)]"

definition dm_get_region :: "addr_t \<Rightarrow> nat \<Rightarrow> dm_header \<Rightarrow> (addr_t \<times> size_t) option result" where
  "dm_get_region this rid h =
     (if rid = 0 then Inl API_exception
      else Inr (map_option (\<lambda>r. (region_addr this (dr_offset (dm_regions h ! r)), dr_length (dm_regions h ! r) * GB)) (dm_find_region rid h)))"

definition dm_erase_region :: "nat \<Rightarrow> (dm_exec, unit) prog" where
  "dm_erase_region rid =
     (if rid = 0 then throw_p API_exception
      else bind_p (get_p (\<lambda>x. dm_find_region rid (dx_hdr x))) (\<lambda>f.
        case f of None \<Rightarrow> throw_p API_exception | Some r \<Rightarrow> pm_store (Region_id r 0)))"

definition tx_atomic_write :: "nat \<Rightarrow> nat \<Rightarrow> (dm_exec, unit) prog" where
  "tx_atomic_write dst rid =
     bind_p (undo_log (4 * dst + 2) 8) (\<lambda>_.
     bind_p (pm_store (Region_id dst rid)) (\<lambda>_. clear_log))"

definition tx_atomic_write2 :: "nat \<Rightarrow> nat \<Rightarrow> nat \<Rightarrow> nat \<Rightarrow> nat \<Rightarrow> nat \<Rightarrow> nat \<Rightarrow> (dm_exec, unit) prog" where
  "tx_atomic_write2 dst0 offset0 size0 dst1 offset1 size1 rid1 =
     bind_p (undo_log (4 * dst0) 16) (\<lambda>_.
     bind_p (undo_log (4 * dst1) 16) (\<lambda>_.
     bind_p (each_p pm_store [Region_offset dst0 offset0, Region_length dst0 size0,
       Region_id dst1 rid1, Region_offset dst1 offset1, Region_length dst1 size1]) (\<lambda>_. clear_log)))"

fun alloc_scan :: "addr_t \<Rightarrow> nat \<Rightarrow> nat \<Rightarrow> nat list \<Rightarrow> (dm_exec, addr_t) prog" where
  "alloc_scan this rid sz [] = throw_p General_exception"
| "alloc_scan this rid sz (r # rs) = bind_p (get_p dx_hdr) (\<lambda>h.
     let reg = dm_regions h ! r in
     if dr_id reg = 0 \<and> sz \<le> dr_length reg then
       if dr_length reg = sz then bind_p (tx_atomic_write r rid) (\<lambda>_. ret_p (region_addr this (dr_offset reg)))
       else
         let changed_length = (dr_length reg - sz) mod WORD16; changed_offset = (dr_offset reg + sz) mod WORD16 in
         case List.find (\<lambda>n. dr_id (dm_regions h ! n) = 0 \<and> dr_length (dm_regions h ! n) = 0) [0..<length (dm_regions h)] of
           Some n \<Rightarrow> bind_p (tx_atomic_write2 n changed_offset changed_length r (dr_offset reg) sz rid) (\<lambda>_.
             ret_p (region_addr this (dr_offset reg)))
         | None \<Rightarrow> alloc_scan this rid sz rs
     else alloc_scan this rid sz rs)"

definition dm_allocate_region :: "addr_t \<Rightarrow> nat \<Rightarrow> nat \<Rightarrow> (dm_exec, addr_t) prog" where
  "dm_allocate_region this rid sz =
     (if rid = 0 then throw_p API_exception
      else bind_p (get_p dx_hdr) (\<lambda>h.
        if dm_find_region rid h \<noteq> None then throw_p Bad_alloc
        else alloc_scan this rid sz [0..<length (dm_regions h)]))"

definition dm_get_max_available :: "dm_header \<Rightarrow> size_t" where
  "dm_get_max_available h = fold (\<lambda>r m. max m (dr_length r)) (dm_regions h) 0 * GB"

section \<open>Runs as lists of stores\<close>

definition dm_does :: "(dm_exec, 'a) prog \<Rightarrow> dm_header \<Rightarrow> dm_store list \<Rightarrow> 'a \<Rightarrow> bool" where
  "dm_does m h sts x \<longleftrightarrow> (\<forall>tr. m \<lparr>dx_hdr = h, dx_stores = tr\<rparr> = (Inr x, \<lparr>dx_hdr = fold apply_store sts h, dx_stores = tr @ sts\<rparr>))"

lemma does_ret [intro]: "dm_does (ret_p x) h [] x"
  by (simp add: dm_does_def)

lemma does_store: "dm_does (pm_store st) h [st] ()"
  by (simp add: dm_does_def pm_store_def)

lemma does_bind:
  assumes "dm_does m h a x" "dm_does (f x) (fold apply_store a h) b y"
  shows "dm_does (bind_p m f) h (a @ b) y"
  using assms by (simp add: dm_does_def)

lemma does_get: "dm_does (f (g h)) h b y \<Longrightarrow> dm_does (bind_p (get_p (\<lambda>x. g (dx_hdr x))) f) h b y"
  by (simp add: dm_does_def)

lemma does_each:
  assumes "\<And>x h. dm_does (f x) h (g x) ()"
  shows "dm_does (each_p f xs) h (concat (map g xs)) ()"
proof (induction xs arbitrary: h)
  case (Cons x xs)
  show ?case unfolding each_p.simps list.map concat.simps by (rule does_bind [OF assms Cons])
qed (simp add: does_ret)

lemma does_stores: "dm_does (each_p pm_store sts) h sts ()"
  using does_each [of pm_store "\<lambda>x. [x]" sts h] does_store by simp

definition entry_stores :: "nat \<Rightarrow> nat \<Rightarrow> nat \<Rightarrow> dm_header \<Rightarrow> dm_store list" where
  "entry_stores i ptr len h = [Log_length i len, Log_ptr i ptr, Log_bytes i (read_words h ptr (len div 4))]"

abbreviation clear_stores :: "dm_store list" where
  "clear_stores \<equiv> [Log_length 0 0, Log_length (Suc 0) 0, Log_length (Suc (Suc 0)) 0, Log_length (Suc (Suc (Suc 0))) 0]"

lemma upt4: "[0..<4] = [0, Suc 0, Suc (Suc 0), Suc (Suc (Suc 0))]"
  by (simp add: eval_nat_numeral)

lemma does_clear: "dm_does clear_log h clear_stores ()"
  using does_each [of "\<lambda>i. pm_store (Log_length i 0)" "\<lambda>i. [Log_length i 0]" "[0..<4]" h] does_store
  by (simp add: clear_log_def upt4)

lemma does_undo_log:
  assumes "List.find (\<lambda>i. le_length (dm_log h ! i) = 0) [0..<4] = Some i" "len \<le> 64"
  shows "dm_does (undo_log ptr len) h (entry_stores i ptr len h) ()"
proof -
  have "dm_does (each_p pm_store (entry_stores i ptr len h)) h (entry_stores i ptr len h) ()" by (rule does_stores)
  then show ?thesis unfolding undo_log_def using assms by (simp add: dm_does_def entry_stores_def)
qed

definition undo_stores :: "nat \<Rightarrow> log_entry \<Rightarrow> dm_store list" where
  "undo_stores i e = (if 0 < le_length e
     then map (\<lambda>k. Region_word (le_ptr e + k) (le_log e ! k)) [0..<le_length e div 4] @ [Log_length i 0] else [])"

lemma does_undo_entry: "dm_does (undo_entry i) h (undo_stores i (dm_log h ! i)) ()"
proof -
  have *: "dm_does (if 0 < le_length e
     then bind_p (each_p (\<lambda>k. pm_store (Region_word (le_ptr e + k) (le_log e ! k))) [0..<le_length e div 4]) (\<lambda>_. pm_store (Log_length i 0))
     else ret_p ()) h (undo_stores i e) ()" for e
  proof (cases "0 < le_length e")
    case True
    have "dm_does (each_p (\<lambda>k. pm_store (Region_word (le_ptr e + k) (le_log e ! k))) [0..<le_length e div 4]) h
        (map (\<lambda>k. Region_word (le_ptr e + k) (le_log e ! k)) [0..<le_length e div 4]) ()"
      using does_each [of "\<lambda>k. pm_store (Region_word (le_ptr e + k) (le_log e ! k))" "\<lambda>k. [Region_word (le_ptr e + k) (le_log e ! k)]"
          "[0..<le_length e div 4]" h] does_store by (simp add: concat_map_singleton)
    from does_bind [OF this does_store] True show ?thesis by (simp add: undo_stores_def)
  next
    case False
    then show ?thesis by (simp add: undo_stores_def does_ret)
  qed
  show ?thesis unfolding undo_entry_def by (rule does_get [where g = "\<lambda>h. dm_log h ! i"]) (rule *)
qed

definition write_words :: "nat \<Rightarrow> nat list \<Rightarrow> nat \<Rightarrow> dm_region list \<Rightarrow> dm_region list" where
  "write_words p ws n rs = fold (\<lambda>k rs. rs[(p + k) div 4 := poke (p + k) (ws ! k) (rs ! ((p + k) div 4))]) [0..<n] rs"

text \<open>What an armed log entry does to the region table when it is applied.\<close>

definition undo_effect :: "log_entry \<Rightarrow> dm_region list \<Rightarrow> dm_region list" where
  "undo_effect e rs = (if 0 < le_length e then write_words (le_ptr e) (le_log e) (le_length e div 4) rs else rs)"

lemma fold_words:
  "fold apply_store (map (\<lambda>k. Region_word (p + k) (ws ! k)) ks) h =
     h\<lparr>dm_regions := fold (\<lambda>k rs. rs[(p + k) div 4 := poke (p + k) (ws ! k) (rs ! ((p + k) div 4))]) ks (dm_regions h)\<rparr>"
  by (induction ks arbitrary: h) (simp_all add: region_update_def)

lemma fold_undo_stores:
  "fold apply_store (undo_stores i e) h =
     h\<lparr>dm_regions := undo_effect e (dm_regions h),
       dm_log := (if 0 < le_length e then (dm_log h)[i := (dm_log h ! i)\<lparr>le_length := 0\<rparr>] else dm_log h)\<rparr>"
  by (simp add: undo_stores_def undo_effect_def write_words_def fold_words log_update_def)

definition dm_reopen :: "dm_header \<Rightarrow> dm_header" where
  "dm_reopen h = dx_hdr (snd (check_and_undo \<lparr>dx_hdr = h, dx_stores = []\<rparr>))"

lemma reopen_effect:
  assumes "dm_log h = [e0, e1, e2, e3]"
  shows "dm_regions (dm_reopen h) = undo_effect e3 (undo_effect e2 (undo_effect e1 (undo_effect e0 (dm_regions h))))"
    "map le_length (dm_log (dm_reopen h)) = [0, 0, 0, 0]"
proof -
  define u where "u i h = fold apply_store (undo_stores i (dm_log h ! i)) h" for i h
  have step: "undo_entry i \<lparr>dx_hdr = h, dx_stores = tr\<rparr> = (Inr (), \<lparr>dx_hdr = u i h, dx_stores = tr @ undo_stores i (dm_log h ! i)\<rparr>)" for i h tr
    using does_undo_entry [of i h] by (simp add: dm_does_def u_def)
  have "dm_reopen h = u 3 (u 2 (u 1 (u 0 h)))"
    unfolding dm_reopen_def check_and_undo_def upt4 by (simp add: step eval_nat_numeral)
  then show "dm_regions (dm_reopen h) = undo_effect e3 (undo_effect e2 (undo_effect e1 (undo_effect e0 (dm_regions h))))"
    "map le_length (dm_log (dm_reopen h)) = [0, 0, 0, 0]"
    using assms by (auto simp: u_def fold_undo_stores eval_nat_numeral)
qed

lemma region_full:
  "(d :: dm_region)\<lparr>dr_offset := o', dr_length := l, dr_id := i\<rparr> = \<lparr>dr_offset = o', dr_length = l, dr_id = i\<rparr>"
  "(d :: dm_region)\<lparr>dr_id := i, dr_offset := o', dr_length := l\<rparr> = \<lparr>dr_offset = o', dr_length = l, dr_id = i\<rparr>"
  by simp_all

lemma write_region:
  assumes "r < length rs" "lo < WORD32"
  shows "write_words (4 * r) (o' # l # lo # hi # ws) 4 rs = rs[r := \<lparr>dr_offset = o', dr_length = l, dr_id = hi * WORD32 + lo\<rparr>]"
proof -
  have d: "(4 * r + 0) div 4 = r" "(4 * r + Suc 0) div 4 = r" "(4 * r + Suc (Suc 0)) div 4 = r" "(4 * r + Suc (Suc (Suc 0))) div 4 = r"
    "(4 * r + 0) mod 4 = 0" "(4 * r + Suc 0) mod 4 = 1" "(4 * r + Suc (Suc 0)) mod 4 = 2" "(4 * r + Suc (Suc (Suc 0))) mod 4 = 3"
    by presburger+
  show ?thesis unfolding write_words_def upt4 fold.simps comp_def id_apply poke_def d using assms by (simp add: region_full)
qed

lemma upt2: "[0..<2] = [0, Suc 0]"
  by (simp add: eval_nat_numeral)

lemma write_id:
  assumes "r < length rs" "lo < WORD32"
  shows "write_words (4 * r + 2) (lo # hi # ws) 2 rs = rs[r := (rs ! r)\<lparr>dr_id := hi * WORD32 + lo\<rparr>]"
proof -
  have d: "(4 * r + 2 + 0) div 4 = r" "(4 * r + 2 + Suc 0) div 4 = r" "(4 * r + 2 + 0) mod 4 = 2" "(4 * r + 2 + Suc 0) mod 4 = 3"
    by presburger+
  show ?thesis unfolding write_words_def upt2 fold.simps comp_def id_apply poke_def d using assms by simp
qed

lemma read_region:
  "read_words h (4 * r) 4 = [dr_offset (dm_regions h ! r), dr_length (dm_regions h ! r), dr_id (dm_regions h ! r) mod WORD32, dr_id (dm_regions h ! r) div WORD32]"
proof -
  have d: "(4 * r) div 4 = r" "(Suc (4 * r)) div 4 = r" "(Suc (Suc (4 * r))) div 4 = r" "(Suc (Suc (Suc (4 * r)))) div 4 = r"
    "(4 * r) mod 4 = 0" "(Suc (4 * r)) mod 4 = 1" "(Suc (Suc (4 * r))) mod 4 = 2" "(Suc (Suc (Suc (4 * r)))) mod 4 = 3"
    by presburger+
  have "[4 * r..<4 * r + 4] = [4 * r, Suc (4 * r), Suc (Suc (4 * r)), Suc (Suc (Suc (4 * r)))]" by (simp add: upt_rec)
  then show ?thesis unfolding read_words_def by (simp add: peek_def d)
qed

lemma read_id:
  "read_words h (4 * r + 2) 2 = [dr_id (dm_regions h ! r) mod WORD32, dr_id (dm_regions h ! r) div WORD32]"
proof -
  have d: "(Suc (Suc (4 * r))) div 4 = r" "(Suc (Suc (Suc (4 * r)))) div 4 = r" "(Suc (Suc (4 * r))) mod 4 = 2" "(Suc (Suc (Suc (4 * r)))) mod 4 = 3"
    by presburger+
  have "[4 * r + 2..<4 * r + 2 + 2] = [Suc (Suc (4 * r)), Suc (Suc (Suc (4 * r)))]" by (simp add: upt_rec)
  then show ?thesis unfolding read_words_def by (simp add: peek_def d)
qed

section \<open>Transactions\<close>

definition dm_clear :: "dm_header \<Rightarrow> bool" where
  "dm_clear h \<longleftrightarrow> map le_length (dm_log h) = [0, 0, 0, 0]"

lemma dm_clear_cases:
  assumes "dm_clear h"
  obtains e0 e1 e2 e3 where "dm_log h = [e0, e1, e2, e3]" "le_length e0 = 0" "le_length e1 = 0" "le_length e2 = 0" "le_length e3 = 0"
  using assms by (auto simp: dm_clear_def)

definition tx1_stores :: "nat \<Rightarrow> nat \<Rightarrow> dm_header \<Rightarrow> dm_store list" where
  "tx1_stores r rid h = entry_stores 0 (4 * r + 2) 8 h @ [Region_id r rid] @ clear_stores"

definition tx2_stores :: "nat \<Rightarrow> nat \<Rightarrow> nat \<Rightarrow> nat \<Rightarrow> nat \<Rightarrow> nat \<Rightarrow> nat \<Rightarrow> dm_header \<Rightarrow> dm_store list" where
  "tx2_stores d0 o0 s0 d1 o1 s1 rid h = entry_stores 0 (4 * d0) 16 h @ entry_stores (Suc 0) (4 * d1) 16 h @
     [Region_offset d0 o0, Region_length d0 s0, Region_id d1 rid, Region_offset d1 o1, Region_length d1 s1] @ clear_stores"

lemma does_tx1:
  assumes "dm_clear h"
  shows "dm_does (tx_atomic_write r rid) h (tx1_stores r rid h) ()"
proof -
  have "List.find (\<lambda>i. le_length (dm_log h ! i) = 0) [0..<4] = Some 0"
    using assms by (auto elim!: dm_clear_cases simp: upt4)
  then have "dm_does (undo_log (4 * r + 2) 8) h (entry_stores 0 (4 * r + 2) 8 h) ()" by (rule does_undo_log) simp
  then show ?thesis unfolding tx_atomic_write_def tx1_stores_def by (rule does_bind [OF _ does_bind [OF does_store does_clear]])
qed

lemma does_tx2:
  assumes "dm_clear h"
  shows "dm_does (tx_atomic_write2 d0 o0 s0 d1 o1 s1 rid) h (tx2_stores d0 o0 s0 d1 o1 s1 rid h) ()"
proof -
  have "List.find (\<lambda>i. le_length (dm_log h ! i) = 0) [0..<4] = Some 0"
    using assms by (auto elim!: dm_clear_cases simp: upt4)
  then have 1: "dm_does (undo_log (4 * d0) 16) h (entry_stores 0 (4 * d0) 16 h) ()" by (rule does_undo_log) simp
  let ?h = "fold apply_store (entry_stores 0 (4 * d0) 16 h) h"
  have "List.find (\<lambda>i. le_length (dm_log ?h ! i) = 0) [0..<4] = Some (Suc 0)"
    using assms by (auto elim!: dm_clear_cases simp: upt4 entry_stores_def log_update_def)
  then have "dm_does (undo_log (4 * d1) 16) ?h (entry_stores (Suc 0) (4 * d1) 16 ?h) ()" by (rule does_undo_log) simp
  moreover have "entry_stores (Suc 0) (4 * d1) 16 ?h = entry_stores (Suc 0) (4 * d1) 16 h"
    by (simp add: entry_stores_def log_update_def read_words_def peek_def)
  ultimately have 2: "dm_does (undo_log (4 * d1) 16) ?h (entry_stores (Suc 0) (4 * d1) 16 h) ()" by simp
  show ?thesis unfolding tx_atomic_write2_def tx2_stores_def
    by (rule does_bind [OF 1 does_bind [OF 2 does_bind [OF does_stores does_clear]]])
qed

lemma tx1_effect:
  assumes "dm_clear h"
  shows "dm_regions (fold apply_store (tx1_stores r rid h) h) = (dm_regions h)[r := (dm_regions h ! r)\<lparr>dr_id := rid\<rparr>]"
    "dm_clear (fold apply_store (tx1_stores r rid h) h)"
  using assms by (auto elim!: dm_clear_cases simp: dm_clear_def tx1_stores_def entry_stores_def log_update_def region_update_def)

lemma tx2_effect:
  assumes "dm_clear h" "d0 \<noteq> d1" "d0 < length (dm_regions h)" "d1 < length (dm_regions h)"
  shows "dm_regions (fold apply_store (tx2_stores d0 o0 s0 d1 o1 s1 rid h) h) =
      (dm_regions h)[d0 := (dm_regions h ! d0)\<lparr>dr_offset := o0, dr_length := s0\<rparr>, d1 := \<lparr>dr_offset = o1, dr_length = s1, dr_id = rid\<rparr>]"
    "dm_clear (fold apply_store (tx2_stores d0 o0 s0 d1 o1 s1 rid h) h)"
  using assms by (auto elim!: dm_clear_cases simp: dm_clear_def tx2_stores_def entry_stores_def log_update_def region_update_def region_full)

section \<open>Crashes\<close>

text \<open>
  The header found after a crash once the first \<open>k\<close> stores of a call have been performed, and
  the points at which the log itself is inconsistent: after an entry has its length but not yet its
  pointer and bytes, and between clearing the first and the second of two entries.
\<close>

definition dm_stores :: "(dm_exec, 'a) prog \<Rightarrow> dm_header \<Rightarrow> dm_store list" where
  "dm_stores m h = dx_stores (snd (m \<lparr>dx_hdr = h, dx_stores = []\<rparr>))"

definition dm_crash :: "(dm_exec, 'a) prog \<Rightarrow> nat \<Rightarrow> dm_header \<Rightarrow> dm_header" where
  "dm_crash m k h = fold apply_store (take k (dm_stores m h)) h"

definition dm_result :: "(dm_exec, 'a) prog \<Rightarrow> dm_header \<Rightarrow> 'a result" where
  "dm_result m h = fst (m \<lparr>dx_hdr = h, dx_stores = []\<rparr>)"

definition dm_after :: "(dm_exec, 'a) prog \<Rightarrow> dm_header \<Rightarrow> dm_header" where
  "dm_after m h = dx_hdr (snd (m \<lparr>dx_hdr = h, dx_stores = []\<rparr>))"

definition torn_points :: "dm_store list \<Rightarrow> nat set" where
  "torn_points sts = (if length sts \<le> 8 then {1, 2} else {1, 2, 4, 5, 12})"

lemma does_run:
  assumes "dm_does m h sts x"
  shows "dm_stores m h = sts" "dm_result m h = Inr x" "dm_after m h = fold apply_store sts h"
  using assms by (simp_all add: dm_does_def dm_stores_def dm_result_def dm_after_def)

lemma reopen_regions:
  assumes "length (dm_log h) = 4"
  shows "dm_regions (dm_reopen h) = fold undo_effect (dm_log h) (dm_regions h)" "dm_clear (dm_reopen h)"
proof -
  obtain e0 e1 e2 e3 where "dm_log h = [e0, e1, e2, e3]" using assms by (auto simp: eval_nat_numeral length_Suc_conv)
  from reopen_effect [OF this] this show "dm_regions (dm_reopen h) = fold undo_effect (dm_log h) (dm_regions h)" "dm_clear (dm_reopen h)"
    by (simp_all add: dm_clear_def)
qed

lemma undo_idle [simp]: "le_length e = 0 \<Longrightarrow> undo_effect e rs = rs"
  by (simp add: undo_effect_def)

lemma tx1_crash:
  assumes clear: "dm_clear h" and r: "r < length (dm_regions h)" and k: "k \<notin> {1, 2}"
  shows "dm_regions (dm_reopen (fold apply_store (take k (tx1_stores r rid h)) h)) =
    (if k \<le> 4 then dm_regions h else dm_regions (fold apply_store (tx1_stores r rid h) h))"
proof -
  obtain e0 e1 e2 e3 where e: "dm_log h = [e0, e1, e2, e3]" "le_length e0 = 0" "le_length e1 = 0" "le_length e2 = 0" "le_length e3 = 0"
    using dm_clear_cases [OF clear] .
  have id: "dr_id x div WORD32 * WORD32 + dr_id x mod WORD32 = dr_id x" for x by simp
  note evals = tx1_stores_def entry_stores_def log_update_def region_update_def reopen_regions undo_effect_def read_id [unfolded add_2_eq_Suc'] write_id [unfolded add_2_eq_Suc'] id e r
  consider "k = 0" | "k = 3" | "k = 4" | "k = 5" | "k = 6" | "k = 7" | "8 \<le> k" using k by (auto simp: not_le) linarith
  then show ?thesis by cases (simp_all add: evals)
qed

lemma tx2_crash:
  assumes clear: "dm_clear h" and d: "d0 < length (dm_regions h)" "d1 < length (dm_regions h)" "d0 \<noteq> d1" and k: "k \<notin> {1, 2, 4, 5, 12}"
  shows "dm_regions (dm_reopen (fold apply_store (take k (tx2_stores d0 o0 s0 d1 o1 s1 rid h)) h)) =
    (if k \<le> 11 then dm_regions h else dm_regions (fold apply_store (tx2_stores d0 o0 s0 d1 o1 s1 rid h) h))"
proof -
  obtain e0 e1 e2 e3 where e: "dm_log h = [e0, e1, e2, e3]" "le_length e0 = 0" "le_length e1 = 0" "le_length e2 = 0" "le_length e3 = 0"
    using dm_clear_cases [OF clear] .
  have id: "dr_id x div WORD32 * WORD32 + dr_id x mod WORD32 = dr_id x" for x by simp
  have whole: "\<lparr>dr_offset = dr_offset x, dr_length = dr_length x, dr_id = dr_id x\<rparr> = x" for x by simp
  have swap: "rs[d1 := x, d0 := y] = rs[d0 := y, d1 := x]" for rs :: "dm_region list" and x y using d(3) by (rule list_update_swap [symmetric])
  note evals = tx2_stores_def entry_stores_def log_update_def region_update_def reopen_regions undo_effect_def read_region write_region id whole e d swap
  have "k = 0 \<or> k = 3 \<or> k = 6 \<or> k = 7 \<or> k = 8 \<or> k = 9 \<or> k = 10 \<or> k = 11 \<or> k = 13 \<or> k = 14 \<or> 15 \<le> k" using k unfolding insert_iff empty_iff by presburger
  then consider "k = 0" | "k = 3" | "k = 6" | "k = 7" | "k = 8" | "k = 9" | "k = 10" | "k = 11" | "k = 13" | "k = 14" | "15 \<le> k" by blast
  then show ?thesis by cases (simp_all add: evals)
qed

section \<open>The table partitions the device\<close>

definition extent :: "dm_region \<Rightarrow> nat set" where
  "extent r = {dr_offset r..<dr_offset r + dr_length r}"

definition table_ok :: "nat \<Rightarrow> dm_region list \<Rightarrow> bool" where
  "table_ok N rs \<longleftrightarrow> (\<forall>i < length rs. extent (rs ! i) \<subseteq> {..< N}) \<and>
     (\<forall>i < length rs. \<forall>j < length rs. i \<noteq> j \<longrightarrow> extent (rs ! i) \<inter> extent (rs ! j) = {} \<and> (dr_id (rs ! i) = dr_id (rs ! j) \<longrightarrow> dr_id (rs ! i) = 0)) \<and>
     (\<forall>g < N. \<exists>i < length rs. g \<in> extent (rs ! i))"

definition dm_inv :: "nat \<Rightarrow> dm_header \<Rightarrow> bool" where
  "dm_inv N h \<longleftrightarrow> N < WORD16 \<and> dm_clear h \<and> table_ok N (dm_regions h)"

text \<open>What is in use: identifiers with their offset and length, and the free units.\<close>

definition dm_used :: "dm_region list \<Rightarrow> nat \<rightharpoonup> nat \<times> nat" where
  "dm_used rs rid = (if rid = 0 then None else map_option (\<lambda>r. (dr_offset r, dr_length r)) (List.find (\<lambda>r. dr_id r = rid) rs))"

definition dm_free :: "dm_region list \<Rightarrow> nat set" where
  "dm_free rs = (\<Union>r \<in> {r \<in> set rs. dr_id r = 0}. extent r)"

lemma dm_used_iff:
  assumes "table_ok N rs"
  shows "dm_used rs rid = Some u \<longleftrightarrow> rid \<noteq> 0 \<and> (\<exists>i < length rs. dr_id (rs ! i) = rid \<and> u = (dr_offset (rs ! i), dr_length (rs ! i)))"
proof -
  have uniq: "i = j" if "i < length rs" "j < length rs" "dr_id (rs ! i) = rid" "dr_id (rs ! j) = rid" "rid \<noteq> 0" for i j
    using assms that unfolding table_ok_def by metis
  show ?thesis
  proof
    assume "dm_used rs rid = Some u"
    then show "rid \<noteq> 0 \<and> (\<exists>i < length rs. dr_id (rs ! i) = rid \<and> u = (dr_offset (rs ! i), dr_length (rs ! i)))"
      by (auto simp: dm_used_def find_Some_iff split: if_splits)
  next
    assume "rid \<noteq> 0 \<and> (\<exists>i < length rs. dr_id (rs ! i) = rid \<and> u = (dr_offset (rs ! i), dr_length (rs ! i)))"
    then obtain i where i: "rid \<noteq> 0" "i < length rs" "dr_id (rs ! i) = rid" "u = (dr_offset (rs ! i), dr_length (rs ! i))" by blast
    have "List.find (\<lambda>r. dr_id r = rid) rs = Some (rs ! i)"
      using i uniq unfolding find_Some_iff by (intro exI [of _ i]) (metis less_irrefl order.strict_trans)
    then show "dm_used rs rid = Some u" using i by (simp add: dm_used_def)
  qed
qed

lemma dm_used_none:
  "dm_used rs rid = None \<longleftrightarrow> rid = 0 \<or> (\<forall>i < length rs. dr_id (rs ! i) \<noteq> rid)"
  by (auto simp: dm_used_def find_None_iff in_set_conv_nth)

lemma dm_free_iff: "g \<in> dm_free rs \<longleftrightarrow> (\<exists>i < length rs. dr_id (rs ! i) = 0 \<and> g \<in> extent (rs ! i))"
  by (auto simp: dm_free_def in_set_conv_nth)

lemma dm_find_region_used:
  assumes "rid \<noteq> 0"
  shows "map_option (\<lambda>r. (dr_offset (dm_regions h ! r), dr_length (dm_regions h ! r))) (dm_find_region rid h) = dm_used (dm_regions h) rid"
proof -
  have "map_option (\<lambda>r. (dr_offset (xs ! (r - n)), dr_length (xs ! (r - n)))) (List.find (\<lambda>r. dr_id (xs ! (r - n)) = rid) [n..<n + length xs]) =
      map_option (\<lambda>r. (dr_offset r, dr_length r)) (List.find (\<lambda>r. dr_id r = rid) xs)" for xs n
  proof (induction xs arbitrary: n)
    case (Cons x xs)
    have c: "[n..<n + length (x # xs)] = n # [Suc n..<Suc n + length xs]" by (simp add: upt_conv_Cons del: upt_Suc)
    have "List.find (\<lambda>r. dr_id ((x # xs) ! (r - n)) = rid) [Suc n..<Suc n + length xs] =
        List.find (\<lambda>r. dr_id (xs ! (r - Suc n)) = rid) [Suc n..<Suc n + length xs]"
      by (rule find_cong) (auto simp: nth_Cons' Suc_le_eq)
    moreover have "map_option (\<lambda>r. (dr_offset ((x # xs) ! (r - n)), dr_length ((x # xs) ! (r - n)))) f =
        map_option (\<lambda>r. (dr_offset (xs ! (r - Suc n)), dr_length (xs ! (r - Suc n)))) f"
      if "f = List.find P [Suc n..<Suc n + length xs]" for f P
    proof (cases f)
      case (Some a)
      then have "List.find P [Suc n..<Suc n + length xs] = Some a" using that by simp
      then have "a \<in> set [Suc n..<Suc n + length xs]" by (auto simp: find_Some_iff simp del: upt_Suc)
      then have "n < a" by auto
      then show ?thesis unfolding Some by (simp add: nth_Cons')
    qed simp
    ultimately show ?case using Cons [of "Suc n"] unfolding c by (auto simp del: upt_Suc)
  qed simp
  from this [of "dm_regions h" 0] show ?thesis using assms by (simp add: dm_find_region_def dm_used_def)
qed

text \<open>Marking a region, and cutting a free region in two with the help of an empty slot.\<close>

lemma mark_region:
  assumes ok: "table_ok N rs" and i: "i < length rs" and rid: "rid = 0 \<or> dm_used rs rid = None"
  shows "table_ok N (rs[i := (rs ! i)\<lparr>dr_id := rid\<rparr>])"
proof -
  have e: "extent (rs[i := (rs ! i)\<lparr>dr_id := rid\<rparr>] ! j) = extent (rs ! j)" if "j < length rs" for j
    using that i by (cases "j = i") (simp_all add: extent_def)
  have d: "dr_id (rs[i := (rs ! i)\<lparr>dr_id := rid\<rparr>] ! j) = (if j = i then rid else dr_id (rs ! j))" if "j < length rs" for j
    using that i by simp
  have n: "rid = 0 \<or> (\<forall>j < length rs. dr_id (rs ! j) \<noteq> rid)" using rid unfolding dm_used_none by auto
  let ?rs = "rs[i := (rs ! i)\<lparr>dr_id := rid\<rparr>]"
  have "\<forall>j < length rs. extent (?rs ! j) \<subseteq> {..< N}" using ok by (simp add: e table_ok_def)
  moreover have "extent (?rs ! j) \<inter> extent (?rs ! k) = {}" if "j < length rs" "k < length rs" "j \<noteq> k" for j k
    unfolding e [OF that(1)] e [OF that(2)] using ok that unfolding table_ok_def by blast
  moreover have "dr_id (?rs ! j) = dr_id (?rs ! k) \<longrightarrow> dr_id (?rs ! j) = 0" if "j < length rs" "k < length rs" "j \<noteq> k" for j k
    unfolding d [OF that(1)] d [OF that(2)] using ok n that unfolding table_ok_def by metis
  moreover have "\<forall>g < N. \<exists>j < length rs. g \<in> extent (?rs ! j)" using ok e unfolding table_ok_def by blast
  ultimately show ?thesis unfolding table_ok_def length_list_update by blast
qed

lemma split_region:
  assumes ok: "table_ok N rs" and r: "r < length rs" and n: "n < length rs" "n \<noteq> r" and empty: "dr_length (rs ! n) = 0" "dr_id (rs ! n) = 0"
    and sz: "sz < dr_length (rs ! r)" and rid: "rid \<noteq> 0" "dm_used rs rid = None"
    and rs': "rs' = rs[n := (rs ! n)\<lparr>dr_offset := dr_offset (rs ! r) + sz, dr_length := dr_length (rs ! r) - sz\<rparr>,
      r := \<lparr>dr_offset = dr_offset (rs ! r), dr_length = sz, dr_id = rid\<rparr>]"
  shows "table_ok N rs'"
proof -
  let ?o = "dr_offset (rs ! r)" and ?l = "dr_length (rs ! r)"
  have len: "length rs' = length rs" using rs' by simp
  have e: "extent (rs' ! j) = (if j = r then {?o..<?o + sz} else if j = n then {?o + sz..<?o + ?l} else extent (rs ! j))" if "j < length rs" for j
    using that r n sz by (simp add: rs' extent_def)
  have d: "dr_id (rs' ! j) = (if j = r then rid else dr_id (rs ! j))" if "j < length rs" for j
    using that r n by (cases "j = n") (simp_all add: rs')
  have old: "extent (rs ! r) = {?o..<?o + sz} \<union> {?o + sz..<?o + ?l}" "extent (rs ! n) = {}" using sz empty by (auto simp: extent_def)
  have fresh: "\<forall>j < length rs. dr_id (rs ! j) \<noteq> rid" using rid unfolding dm_used_none by auto
  have apart: "extent (rs ! i) \<inter> extent (rs ! r) = {}" if "i < length rs" "i \<noteq> r" for i
    using ok that r unfolding table_ok_def by blast
  have "extent (rs' ! i) \<subseteq> {..< N}" if "i < length rs" for i
    using ok that r old unfolding e [OF that] table_ok_def by auto
  moreover have "extent (rs' ! i) \<inter> extent (rs' ! j) = {}" if "i < length rs" "j < length rs" "i \<noteq> j" for i j
  proof -
    have a: "extent (rs ! i) \<inter> extent (rs ! j) = {}" using ok that unfolding table_ok_def by blast
    show ?thesis using a apart [OF that(1)] apart [OF that(2)] that(3) unfolding e [OF that(1)] e [OF that(2)] old by auto
  qed
  moreover have "dr_id (rs' ! i) = dr_id (rs' ! j) \<longrightarrow> dr_id (rs' ! i) = 0" if "i < length rs" "j < length rs" "i \<noteq> j" for i j
    using ok fresh that unfolding d [OF that(1)] d [OF that(2)] table_ok_def by metis
  moreover have "\<exists>i < length rs. g \<in> extent (rs' ! i)" if "g < N" for g
  proof -
    obtain i where i: "i < length rs" "g \<in> extent (rs ! i)" using ok \<open>g < N\<close> unfolding table_ok_def by blast
    show ?thesis
    proof (cases "i = r")
      case True
      then have "g \<in> extent (rs' ! r) \<or> g \<in> extent (rs' ! n)" using i old r n by (simp add: e)
      then show ?thesis using r n by blast
    next
      case False
      moreover have "i \<noteq> n" using i old by auto
      ultimately show ?thesis using i by (intro exI [of _ i]) (simp add: e)
    qed
  qed
  ultimately show ?thesis unfolding table_ok_def len by blast
qed

section \<open>Allocation and release\<close>

text \<open>
  The outcome of the search: an exact fit, a region cut in two, or no store at all.
\<close>

definition spare_slot :: "dm_region list \<Rightarrow> nat option" where
  "spare_slot rs = List.find (\<lambda>n. dr_id (rs ! n) = 0 \<and> dr_length (rs ! n) = 0) [0..<length rs]"

definition region_fits :: "nat \<Rightarrow> dm_region \<Rightarrow> bool" where
  "region_fits sz r \<longleftrightarrow> dr_id r = 0 \<and> sz \<le> dr_length r"

lemma spare_slotD:
  "spare_slot rs = Some n \<Longrightarrow> n < length rs \<and> dr_id (rs ! n) = 0 \<and> dr_length (rs ! n) = 0"
  by (auto simp: spare_slot_def find_Some_iff)

definition scan_outcome :: "addr_t \<Rightarrow> nat \<Rightarrow> nat \<Rightarrow> dm_header \<Rightarrow> nat set \<Rightarrow> (dm_exec, addr_t) prog \<Rightarrow> bool" where
  "scan_outcome this rid sz h R m \<longleftrightarrow>
     (\<exists>r < length (dm_regions h). region_fits sz (dm_regions h ! r) \<and> dr_length (dm_regions h ! r) = sz \<and>
        dm_does m h (tx1_stores r rid h) (region_addr this (dr_offset (dm_regions h ! r)))) \<or>
     (\<exists>r < length (dm_regions h). \<exists>n. region_fits sz (dm_regions h ! r) \<and> sz < dr_length (dm_regions h ! r) \<and> spare_slot (dm_regions h) = Some n \<and>
        dm_does m h
          (tx2_stores n ((dr_offset (dm_regions h ! r) + sz) mod WORD16) ((dr_length (dm_regions h ! r) - sz) mod WORD16) r (dr_offset (dm_regions h ! r)) sz rid h)
          (region_addr this (dr_offset (dm_regions h ! r)))) \<or>
     (\<forall>r \<in> R. region_fits sz (dm_regions h ! r) \<longrightarrow> sz < dr_length (dm_regions h ! r) \<and> spare_slot (dm_regions h) = None) \<and>
        (\<forall>tr. m \<lparr>dx_hdr = h, dx_stores = tr\<rparr> = (Inl General_exception, \<lparr>dx_hdr = h, dx_stores = tr\<rparr>))"

lemma alloc_scan_run:
  "alloc_scan this rid sz (r # ks) \<lparr>dx_hdr = h, dx_stores = tr\<rparr> =
    (if region_fits sz (dm_regions h ! r) then
       if dr_length (dm_regions h ! r) = sz then bind_p (tx_atomic_write r rid) (\<lambda>_. ret_p (region_addr this (dr_offset (dm_regions h ! r))))
       else case spare_slot (dm_regions h) of
           Some n \<Rightarrow> bind_p (tx_atomic_write2 n ((dr_offset (dm_regions h ! r) + sz) mod WORD16) ((dr_length (dm_regions h ! r) - sz) mod WORD16)
             r (dr_offset (dm_regions h ! r)) sz rid) (\<lambda>_. ret_p (region_addr this (dr_offset (dm_regions h ! r))))
         | None \<Rightarrow> alloc_scan this rid sz ks
     else alloc_scan this rid sz ks) \<lparr>dx_hdr = h, dx_stores = tr\<rparr>"
  by (simp add: region_fits_def spare_slot_def Let_def)

lemma does_alloc_cut:
  assumes "dm_clear h" "region_fits sz (dm_regions h ! r)" "sz < dr_length (dm_regions h ! r)" "spare_slot (dm_regions h) = Some n"
  shows "dm_does (alloc_scan this rid sz (r # ks)) h
      (tx2_stores n ((dr_offset (dm_regions h ! r) + sz) mod WORD16) ((dr_length (dm_regions h ! r) - sz) mod WORD16) r (dr_offset (dm_regions h ! r)) sz rid h)
      (region_addr this (dr_offset (dm_regions h ! r)))"
proof -
  let ?r = "dm_regions h ! r"
  let ?t = "tx_atomic_write2 n ((dr_offset ?r + sz) mod WORD16) ((dr_length ?r - sz) mod WORD16) r (dr_offset ?r) sz rid"
  let ?s = "tx2_stores n ((dr_offset ?r + sz) mod WORD16) ((dr_length ?r - sz) mod WORD16) r (dr_offset ?r) sz rid h"
  have "dm_does (bind_p ?t (\<lambda>_. ret_p (region_addr this (dr_offset ?r)))) h (?s @ []) (region_addr this (dr_offset ?r))"
    by (rule does_bind [OF does_tx2 [OF assms(1)] does_ret])
  then show ?thesis unfolding dm_does_def alloc_scan_run using assms by simp
qed

lemma alloc_scan_outcome:
  assumes "dm_clear h" "set ks \<subseteq> {..<length (dm_regions h)}"
  shows "scan_outcome this rid sz h (set ks) (alloc_scan this rid sz ks)"
  using assms(2)
proof (induction ks)
  case Nil
  then show ?case by (simp add: scan_outcome_def)
next
  case (Cons r ks)
  let ?r = "dm_regions h ! r" and ?m = "alloc_scan this rid sz (r # ks)"
  have r: "r < length (dm_regions h)" and IH: "scan_outcome this rid sz h (set ks) (alloc_scan this rid sz ks)" using Cons by simp_all
  consider (skip) "region_fits sz ?r \<longrightarrow> sz < dr_length ?r \<and> spare_slot (dm_regions h) = None"
    | (exact) "region_fits sz ?r" "dr_length ?r = sz" | (cut) n where "region_fits sz ?r" "sz < dr_length ?r" "spare_slot (dm_regions h) = Some n"
    unfolding region_fits_def by (metis not_None_eq order_le_less)
  then show ?case
  proof cases
    case skip
    then have same: "?m \<lparr>dx_hdr = h, dx_stores = tr\<rparr> = alloc_scan this rid sz ks \<lparr>dx_hdr = h, dx_stores = tr\<rparr>" for tr unfolding alloc_scan_run by auto
    show ?thesis using IH skip unfolding scan_outcome_def dm_does_def same by simp
  next
    case exact
    have "dm_does (bind_p (tx_atomic_write r rid) (\<lambda>_. ret_p (region_addr this (dr_offset ?r)))) h (tx1_stores r rid h @ []) (region_addr this (dr_offset ?r))"
      by (rule does_bind [OF does_tx1 [OF assms(1)] does_ret])
    then have "dm_does ?m h (tx1_stores r rid h) (region_addr this (dr_offset ?r))" unfolding dm_does_def alloc_scan_run using exact by simp
    then show ?thesis unfolding scan_outcome_def using r exact by blast
  next
    case cut
    from does_alloc_cut [OF assms(1) this]
    show ?thesis unfolding scan_outcome_def using r cut by blast
  qed
qed

text \<open>The branches of \<open>allocate_region\<close>.\<close>

lemma dm_find_region_None: "rid \<noteq> 0 \<Longrightarrow> dm_find_region rid h = None \<longleftrightarrow> dm_used (dm_regions h) rid = None"
  using dm_find_region_used [of rid h] by (metis option.map_disc_iff)

lemma allocate_region_cases:
  assumes inv: "dm_inv N h" and rid: "rid \<noteq> 0"
  obtains (exists) "dm_used (dm_regions h) rid \<noteq> None" "dm_result (dm_allocate_region this rid sz) h = Inl Bad_alloc"
      "dm_stores (dm_allocate_region this rid sz) h = []" "dm_after (dm_allocate_region this rid sz) h = h"
  | (exact) r where "dm_used (dm_regions h) rid = None" "r < length (dm_regions h)" "region_fits sz (dm_regions h ! r)" "dr_length (dm_regions h ! r) = sz"
      "dm_does (dm_allocate_region this rid sz) h (tx1_stores r rid h) (region_addr this (dr_offset (dm_regions h ! r)))"
  | (cut) r n where "dm_used (dm_regions h) rid = None" "r < length (dm_regions h)" "region_fits sz (dm_regions h ! r)" "sz < dr_length (dm_regions h ! r)"
      "n < length (dm_regions h)" "n \<noteq> r" "dr_id (dm_regions h ! n) = 0" "dr_length (dm_regions h ! n) = 0"
      "dm_does (dm_allocate_region this rid sz) h
        (tx2_stores n (dr_offset (dm_regions h ! r) + sz) (dr_length (dm_regions h ! r) - sz) r (dr_offset (dm_regions h ! r)) sz rid h)
        (region_addr this (dr_offset (dm_regions h ! r)))"
  | (full) "dm_used (dm_regions h) rid = None"
      "\<forall>r \<in> set (dm_regions h). region_fits sz r \<longrightarrow> sz < dr_length r \<and> (\<forall>n \<in> set (dm_regions h). dr_id n = 0 \<longrightarrow> 0 < dr_length n)"
      "dm_result (dm_allocate_region this rid sz) h = Inl General_exception"
      "dm_stores (dm_allocate_region this rid sz) h = []" "dm_after (dm_allocate_region this rid sz) h = h"
proof (cases "dm_used (dm_regions h) rid = None")
  case False
  then have "dm_allocate_region this rid sz \<lparr>dx_hdr = h, dx_stores = []\<rparr> = (Inl Bad_alloc, \<lparr>dx_hdr = h, dx_stores = []\<rparr>)"
    unfolding dm_allocate_region_def using rid by (simp add: dm_find_region_None)
  then show ?thesis using exists False by (simp add: dm_result_def dm_stores_def dm_after_def)
next
  case True
  let ?ks = "[0..<length (dm_regions h)]" and ?m = "dm_allocate_region this rid sz"
  have run: "?m \<lparr>dx_hdr = h, dx_stores = tr\<rparr> = alloc_scan this rid sz ?ks \<lparr>dx_hdr = h, dx_stores = tr\<rparr>" for tr
    using True rid dm_find_region_None [OF rid, of h] by (simp add: dm_allocate_region_def)
  have N: "N < WORD16" and ok: "table_ok N (dm_regions h)" and clear: "dm_clear h" using inv by (simp_all add: dm_inv_def)
  have "scan_outcome this rid sz h (set ?ks) (alloc_scan this rid sz ?ks)" by (rule alloc_scan_outcome [OF clear]) auto
  then consider (1) r where "r < length (dm_regions h)" "region_fits sz (dm_regions h ! r)" "dr_length (dm_regions h ! r) = sz"
      "dm_does ?m h (tx1_stores r rid h) (region_addr this (dr_offset (dm_regions h ! r)))"
    | (2) r n where "r < length (dm_regions h)" "region_fits sz (dm_regions h ! r)" "sz < dr_length (dm_regions h ! r)" "spare_slot (dm_regions h) = Some n"
      "dm_does ?m h (tx2_stores n ((dr_offset (dm_regions h ! r) + sz) mod WORD16) ((dr_length (dm_regions h ! r) - sz) mod WORD16) r (dr_offset (dm_regions h ! r)) sz rid h)
        (region_addr this (dr_offset (dm_regions h ! r)))"
    | (3) "\<forall>r \<in> set ?ks. region_fits sz (dm_regions h ! r) \<longrightarrow> sz < dr_length (dm_regions h ! r) \<and> spare_slot (dm_regions h) = None"
      "\<forall>tr. ?m \<lparr>dx_hdr = h, dx_stores = tr\<rparr> = (Inl General_exception, \<lparr>dx_hdr = h, dx_stores = tr\<rparr>)"
    unfolding scan_outcome_def dm_does_def run by blast
  then show ?thesis
  proof cases
    case 1
    then show ?thesis using exact True by blast
  next
    case 2
    have "extent (dm_regions h ! r) \<subseteq> {..< N}" using ok 2(1) unfolding table_ok_def by blast
    then have "dr_offset (dm_regions h ! r) + dr_length (dm_regions h ! r) \<le> N" using 2(3) by (simp add: extent_def atLeastLessThan_subset_iff lessThan_atLeast0)
    then have "(dr_offset (dm_regions h ! r) + sz) mod WORD16 = dr_offset (dm_regions h ! r) + sz" "(dr_length (dm_regions h ! r) - sz) mod WORD16 = dr_length (dm_regions h ! r) - sz"
      using N 2(3) by simp_all
    moreover have n: "n < length (dm_regions h)" "dr_id (dm_regions h ! n) = 0" "dr_length (dm_regions h ! n) = 0" using spare_slotD [OF 2(4)] by simp_all
    moreover have "n \<noteq> r" using n(3) 2(3) by auto
    ultimately show ?thesis using cut True 2 by simp
  next
    case 3
    have spare: "spare_slot (dm_regions h) = None \<longleftrightarrow> (\<forall>n \<in> set (dm_regions h). dr_id n = 0 \<longrightarrow> 0 < dr_length n)"
      unfolding spare_slot_def find_None_iff all_set_conv_all_nth by auto
    have "\<forall>r \<in> set (dm_regions h). region_fits sz r \<longrightarrow> sz < dr_length r \<and> spare_slot (dm_regions h) = None"
      using 3(1) by (auto simp: in_set_conv_nth)
    note fit = this [unfolded spare]
    have "dm_result ?m h = Inl General_exception" "dm_stores ?m h = []" "dm_after ?m h = h"
      using 3(2) by (simp_all add: dm_result_def dm_stores_def dm_after_def)
    then show ?thesis by (rule full [OF True fit])
  qed
qed

lemma used_update:
  assumes ok: "table_ok N rs" "table_ok N rs'" and len: "length rs' = length rs" and r: "r < length rs" "dr_id (rs ! r) = 0"
    and r': "dr_id (rs' ! r) = rid" "rid \<noteq> 0" "dr_offset (rs' ! r) = off" "dr_length (rs' ! r) = l"
    and other: "\<And>j. j < length rs \<Longrightarrow> j \<noteq> r \<Longrightarrow> dr_id (rs' ! j) = dr_id (rs ! j) \<and> (dr_id (rs ! j) \<noteq> 0 \<longrightarrow> rs' ! j = rs ! j)"
  shows "dm_used rs' = (dm_used rs)(rid \<mapsto> (off, l))"
proof
  fix x
  show "dm_used rs' x = ((dm_used rs)(rid \<mapsto> (off, l))) x"
  proof (cases "x = rid")
    case True
    then show ?thesis using dm_used_iff [OF ok(2)] r(1) r' len by fastforce
  next
    case False
    have "dm_used rs' x = Some u \<longleftrightarrow> dm_used rs x = Some u" for u
      unfolding dm_used_iff [OF ok(1)] dm_used_iff [OF ok(2)] len using False r r' other by metis
    then have "dm_used rs' x = dm_used rs x" by (metis option.exhaust)
    then show ?thesis using False by simp
  qed
qed

lemma free_update:
  assumes ok: "table_ok N rs" and len: "length rs' = length rs" and r: "r < length rs" "dr_id (rs ! r) = 0" and r': "dr_id (rs' ! r) \<noteq> 0"
    and other: "\<And>j. j < length rs \<Longrightarrow> j \<noteq> r \<Longrightarrow> dr_id (rs' ! j) = dr_id (rs ! j) \<and> (j \<noteq> n \<longrightarrow> extent (rs' ! j) = extent (rs ! j))"
    and n: "n < length rs" "n \<noteq> r \<Longrightarrow> dr_id (rs ! n) = 0 \<and> extent (rs ! n) = {} \<and> extent (rs' ! n) = extent (rs ! r) - extent (rs' ! r)"
    and sub: "extent (rs' ! r) \<subseteq> extent (rs ! r)" "n = r \<Longrightarrow> extent (rs' ! r) = extent (rs ! r)"
  shows "dm_free rs' = dm_free rs - extent (rs' ! r)" "extent (rs' ! r) \<subseteq> dm_free rs"
proof -
  have apart: "extent (rs ! j) \<inter> extent (rs ! r) = {}" if "j < length rs" "j \<noteq> r" for j using ok that r(1) unfolding table_ok_def by blast
  show "extent (rs' ! r) \<subseteq> dm_free rs" using sub r by (auto simp: dm_free_iff intro!: exI [of _ r])
  show "dm_free rs' = dm_free rs - extent (rs' ! r)"
  proof (intro set_eqI iffI)
    fix g assume "g \<in> dm_free rs'"
    then obtain j where j: "j < length rs" "dr_id (rs' ! j) = 0" "g \<in> extent (rs' ! j)" by (auto simp: dm_free_iff len)
    then have jr: "j \<noteq> r" using r' by auto
    show "g \<in> dm_free rs - extent (rs' ! r)"
    proof (cases "j = n")
      case True
      then show ?thesis using j jr n r by (auto simp: dm_free_iff)
    next
      case False
      then have "g \<in> extent (rs ! j)" "dr_id (rs ! j) = 0" using j jr other by auto
      then show ?thesis using j(1) apart [OF j(1) jr] sub by (auto simp: dm_free_iff)
    qed
  next
    fix g assume "g \<in> dm_free rs - extent (rs' ! r)"
    then obtain j where j: "j < length rs" "dr_id (rs ! j) = 0" "g \<in> extent (rs ! j)" "g \<notin> extent (rs' ! r)" by (auto simp: dm_free_iff)
    show "g \<in> dm_free rs'"
    proof (cases "j = r")
      case True
      then have "n \<noteq> r" using j sub by auto
      then have "dr_id (rs' ! n) = 0" "g \<in> extent (rs' ! n)" using n True j other by auto
      then show ?thesis using n by (auto simp: dm_free_iff len)
    next
      case False
      moreover have "j \<noteq> n" using j n False by auto
      ultimately show ?thesis using j other by (auto simp: dm_free_iff len)
    qed
  qed
qed

lemma allocate_region_spec:
  fixes this rid sz h
  defines "m \<equiv> dm_allocate_region this rid sz" and "rs \<equiv> dm_regions h"
  assumes inv: "dm_inv N h" and rid: "rid \<noteq> 0"
  shows "dm_inv N (dm_after m h) \<and>
    (case dm_result m h of
       Inr a \<Rightarrow> dm_used rs rid = None \<and> (\<exists>off. a = region_addr this off \<and> {off..<off + sz} \<subseteq> dm_free rs \<and>
         dm_used (dm_regions (dm_after m h)) = (dm_used rs)(rid \<mapsto> (off, sz)) \<and> dm_free (dm_regions (dm_after m h)) = dm_free rs - {off..<off + sz})
     | Inl e \<Rightarrow> dm_after m h = h \<and> (e = Bad_alloc \<and> dm_used rs rid \<noteq> None \<or> e = General_exception \<and> dm_used rs rid = None \<and>
         (\<forall>r \<in> set rs. region_fits sz r \<longrightarrow> sz < dr_length r \<and> (\<forall>n \<in> set rs. dr_id n = 0 \<longrightarrow> 0 < dr_length n))))"
proof -
  have N: "N < WORD16" and ok: "table_ok N rs" and clear: "dm_clear h" using inv by (simp_all add: dm_inv_def rs_def)
  from inv rid show ?thesis
  proof (cases rule: allocate_region_cases [where this = this and sz = sz, case_names exists exact cut full])
    case exists
    then show ?thesis using inv by (simp add: m_def rs_def)
  next
    case full
    then show ?thesis using inv by (simp add: m_def rs_def)
  next
    case (exact r)
    note e = tx1_effect [OF clear, of r rid, folded does_run(3) [OF exact(5)]]
    let ?rs = "rs[r := (rs ! r)\<lparr>dr_id := rid\<rparr>]"
    have ok': "table_ok N ?rs" using mark_region [OF ok] exact(1,2) by (simp add: rs_def)
    have r: "r < length rs" "dr_id (rs ! r) = 0" "dr_length (rs ! r) = sz" using exact by (simp_all add: rs_def region_fits_def)
    have used: "dm_used ?rs = (dm_used rs)(rid \<mapsto> (dr_offset (rs ! r), sz))"
      by (rule used_update [OF ok ok' _ r(1,2)]) (use r rid in simp_all)
    have ext: "extent (?rs ! r) = {dr_offset (rs ! r)..<dr_offset (rs ! r) + sz}" using r by (simp add: extent_def)
    have free: "dm_free ?rs = dm_free rs - extent (?rs ! r)" "extent (?rs ! r) \<subseteq> dm_free rs"
      by (rule free_update [OF ok _ r(1,2), where n = r]; use r rid in \<open>simp add: extent_def\<close>)+
    have "dm_inv N (dm_after m h)" using e ok' N by (simp add: dm_inv_def m_def rs_def)
    moreover have "dm_result m h = Inr (region_addr this (dr_offset (rs ! r)))" using does_run(2) [OF exact(5)] by (simp add: m_def rs_def)
    moreover have "dm_regions (dm_after m h) = ?rs" using e by (simp add: m_def rs_def)
    ultimately show ?thesis using used free exact(1) unfolding ext by (auto simp: rs_def)
  next
    case (cut r n)
    have r: "r < length rs" "dr_id (rs ! r) = 0" "sz < dr_length (rs ! r)" "n < length rs" "n \<noteq> r" "dr_id (rs ! n) = 0" "dr_length (rs ! n) = 0"
      using cut by (simp_all add: rs_def region_fits_def)
    note e = tx2_effect [OF clear r(5) r(4,1) [unfolded rs_def], of "dr_offset (rs ! r) + sz" "dr_length (rs ! r) - sz" "dr_offset (rs ! r)" sz rid,
        folded does_run(3) [OF cut(9), folded rs_def], folded rs_def]
    let ?rs = "rs[n := (rs ! n)\<lparr>dr_offset := dr_offset (rs ! r) + sz, dr_length := dr_length (rs ! r) - sz\<rparr>,
      r := \<lparr>dr_offset = dr_offset (rs ! r), dr_length = sz, dr_id = rid\<rparr>]"
    have ok': "table_ok N ?rs" using split_region [OF ok r(1,4,5,7,6,3) rid _ refl] cut(1) by (simp add: rs_def)
    have nth: "?rs ! j = (if j = r then \<lparr>dr_offset = dr_offset (rs ! r), dr_length = sz, dr_id = rid\<rparr>
        else if j = n then (rs ! n)\<lparr>dr_offset := dr_offset (rs ! r) + sz, dr_length := dr_length (rs ! r) - sz\<rparr> else rs ! j)" for j
      using r by (cases "j = r"; cases "j = n") simp_all
    have used: "dm_used ?rs = (dm_used rs)(rid \<mapsto> (dr_offset (rs ! r), sz))"
      by (rule used_update [OF ok ok' _ r(1,2)]; use r rid in \<open>simp add: nth\<close>)
    have ext: "extent (?rs ! r) = {dr_offset (rs ! r)..<dr_offset (rs ! r) + sz}" by (simp add: nth extent_def)
    have free: "dm_free ?rs = dm_free rs - extent (?rs ! r)" "extent (?rs ! r) \<subseteq> dm_free rs"
      by (rule free_update [OF ok _ r(1,2) _ _ r(4)]; use r rid in \<open>auto simp add: nth extent_def\<close>)+
    have "dm_inv N (dm_after m h)" using e ok' N by (simp add: dm_inv_def m_def)
    moreover have "dm_result m h = Inr (region_addr this (dr_offset (rs ! r)))" using does_run(2) [OF cut(9)] by (simp add: m_def rs_def)
    moreover have "dm_regions (dm_after m h) = ?rs" using e by (simp add: m_def)
    ultimately show ?thesis using used free cut(1) unfolding ext by (auto simp: rs_def)
  qed
qed

lemma erase_region_spec:
  assumes inv: "dm_inv N h" and used: "dm_used (dm_regions h) rid = Some (off, l)"
  shows "\<exists>r < length (dm_regions h). dm_does (dm_erase_region rid) h [Region_id r 0] () \<and> dm_inv N (dm_after (dm_erase_region rid) h) \<and>
    dm_used (dm_regions (dm_after (dm_erase_region rid) h)) = (dm_used (dm_regions h))(rid := None)"
proof -
  let ?rs = "dm_regions h"
  have ok: "table_ok N ?rs" and clear: "dm_clear h" using inv by (simp_all add: dm_inv_def)
  have rid: "rid \<noteq> 0" using used by (auto simp: dm_used_def split: if_splits)
  obtain r where r: "dm_find_region rid h = Some r" using dm_find_region_used [OF rid, of h] used by (cases "dm_find_region rid h") auto
  then have r': "r < length ?rs" "dr_id (?rs ! r) = rid" by (auto simp: dm_find_region_def find_Some_iff)
  have does: "dm_does (dm_erase_region rid) h [Region_id r 0] ()"
    using does_store [of "Region_id r 0" h] r rid by (simp add: dm_does_def dm_erase_region_def)
  let ?rs' = "?rs[r := (?rs ! r)\<lparr>dr_id := 0\<rparr>]"
  have after: "dm_after (dm_erase_region rid) h = h\<lparr>dm_regions := ?rs'\<rparr>" unfolding does_run(3) [OF does] by (simp add: region_update_def)
  have ok': "table_ok N ?rs'" using mark_region [OF ok r'(1), of 0] by simp
  have "dm_used ?rs' x = ((dm_used ?rs)(rid := None)) x" for x
  proof (cases "x = rid")
    case True
    have other: "dr_id (?rs ! j) = rid \<longrightarrow> j = r" if "j < length ?rs" for j using ok that r' rid unfolding table_ok_def by metis
    have "dr_id (?rs' ! j) \<noteq> rid" if j: "j < length ?rs'" for j
    proof (cases "j = r")
      case True
      then have "dr_id (?rs' ! j) = 0" using r'(1) by simp
      then show ?thesis using rid by argo
    next
      case False
      then have "?rs' ! j = ?rs ! j" by simp
      moreover have "dr_id (?rs ! j) \<noteq> rid" using other [OF j [unfolded length_list_update]] False by argo
      ultimately show ?thesis by argo
    qed
    then have "dm_used ?rs' rid = None" unfolding dm_used_none by simp
    then show ?thesis using True by simp
  next
    case False
    have "dm_used ?rs' x = Some u \<longleftrightarrow> dm_used ?rs x = Some u" for u
      unfolding dm_used_iff [OF ok] dm_used_iff [OF ok'] using False r' by (auto simp: nth_list_update)
    then have "dm_used ?rs' x = dm_used ?rs x" by (metis option.exhaust)
    then show ?thesis using False by simp
  qed
  then have "dm_used ?rs' = (dm_used ?rs)(rid := None)" ..
  moreover have "dm_inv N (h\<lparr>dm_regions := ?rs'\<rparr>)" using inv ok' by (simp add: dm_inv_def dm_clear_def)
  ultimately show ?thesis using does r'(1) unfolding after by auto
qed

lemma erase_region_unknown:
  assumes "dm_used (dm_regions h) rid = None"
  shows "dm_erase_region rid \<lparr>dx_hdr = h, dx_stores = tr\<rparr> = (Inl API_exception, \<lparr>dx_hdr = h, dx_stores = tr\<rparr>)"
  using assms dm_find_region_None [of rid h] by (cases "rid = 0") (simp_all add: dm_erase_region_def)

lemma get_region_spec:
  "rid \<noteq> 0 \<Longrightarrow> dm_get_region this rid h = Inr (map_option (\<lambda>(off, l). (region_addr this off, l * GB)) (dm_used (dm_regions h) rid))"
  unfolding dm_find_region_used [symmetric] by (simp add: dm_get_region_def option.map_comp comp_def)

lemma dm_header_new_inv:
  assumes "GB \<le> device_size" "device_size < W64" "N = device_size div GB - 1" "N < WORD16"
  shows "dm_inv N (dm_header_new device_size mem)" "dm_used (dm_regions (dm_header_new device_size mem)) = Map.empty"
    "dm_free (dm_regions (dm_header_new device_size mem)) = {..< N}" "check_magic (dm_header_new device_size mem)"
proof -
  let ?rs = "dm_regions (dm_header_new device_size mem)"
  obtain x where x: "device_size = GB + x" using assms(1) le_Suc_ex by blast
  have "sub64 device_size GB div GB = N" using assms(1-3) unfolding x by (simp add: sub64_nowrap)
  then have hd: "?rs ! 0 = \<lparr>dr_offset = 0, dr_length = N, dr_id = 0\<rparr>" using assms(4) by (simp add: dm_header_new_def region_initialize_def)
  have tl: "dr_length (?rs ! i) = 0" "dr_id (?rs ! i) = 0" if "0 < i" "i < length ?rs" for i
    using that by (cases i; simp add: dm_header_new_def)+
  have len: "length ?rs = 1024" by (simp add: dm_header_new_def)
  have ext: "extent (?rs ! i) = (if i = 0 then {..< N} else {})" if "i < length ?rs" for i
    using that hd tl by (simp add: extent_def lessThan_atLeast0)
  have id: "dr_id (?rs ! i) = 0" if "i < length ?rs" for i using that hd tl by (cases "i = 0") simp_all
  have "table_ok N ?rs" unfolding table_ok_def using ext id len by (auto intro!: exI [of _ 0])
  then show "dm_inv N (dm_header_new device_size mem)" using assms(4) by (simp add: dm_inv_def dm_clear_def dm_header_new_def upt4)
  show "dm_used ?rs = Map.empty" using id by (auto simp: fun_eq_iff dm_used_none)
  show "dm_free ?rs = {..< N}" unfolding set_eq_iff dm_free_iff using ext id len by (auto intro!: exI [of _ 0] split: if_splits)
  show "check_magic (dm_header_new device_size mem)" by (simp add: check_magic_def dm_header_new_def)
qed

text \<open>
  C15: allocation and release are atomic with respect to crashes, apart from the windows in which
  the undo log itself is inconsistent. Whatever the point at which a call of \<open>allocate_region\<close>
  is cut off, other than those of \<open>torn_points\<close>, reopening the device finds the table
  either as before the call or as after it, with the invariant; the same holds for
  \<open>erase_region\<close> at every point.
\<close>
theorem dm_crash_atomic:
  assumes inv: "dm_inv N h" and rid: "rid \<noteq> 0"
  shows "(\<forall>k. k \<notin> torn_points (dm_stores (dm_allocate_region this rid sz) h) \<longrightarrow>
      dm_inv N (dm_reopen (dm_crash (dm_allocate_region this rid sz) k h)) \<and>
      dm_regions (dm_reopen (dm_crash (dm_allocate_region this rid sz) k h)) \<in> {dm_regions h, dm_regions (dm_after (dm_allocate_region this rid sz) h)}) \<and>
    (\<forall>k. dm_inv N (dm_reopen (dm_crash (dm_erase_region rid) k h)) \<and>
      dm_regions (dm_reopen (dm_crash (dm_erase_region rid) k h)) \<in> {dm_regions h, dm_regions (dm_after (dm_erase_region rid) h)})"
proof -
  have N: "N < WORD16" and clear: "dm_clear h" and ok: "table_ok N (dm_regions h)" using inv by (simp_all add: dm_inv_def)
  have len: "length (dm_log (fold apply_store sts h)) = 4" for sts
  proof -
    have "length (dm_log (apply_store st h)) = length (dm_log h)" for st h by (cases st) (simp_all add: log_update_def region_update_def)
    then have "length (dm_log (fold apply_store sts h)) = length (dm_log h)" for h by (induction sts arbitrary: h) simp_all
    then show ?thesis using clear by (auto elim: dm_clear_cases)
  qed
  have one: "dm_inv N (dm_reopen (dm_crash m k h)) \<and> dm_regions (dm_reopen (dm_crash m k h)) \<in> {dm_regions h, dm_regions (dm_after m h)}"
    if "dm_regions (dm_reopen (dm_crash m k h)) \<in> {dm_regions h, dm_regions (dm_after m h)}" "dm_inv N (dm_after m h)"
    for m :: "(dm_exec, 'a) prog" and k
  proof -
    have "dm_clear (dm_reopen (dm_crash m k h))" unfolding dm_crash_def by (rule reopen_regions(2) [OF len])
    then show ?thesis using that inv unfolding dm_inv_def by auto
  qed
  have idle: "dm_regions (dm_reopen h) = dm_regions h" using clear reopen_regions(1) [of h] by (auto elim!: dm_clear_cases)
  let ?m = "dm_allocate_region this rid sz" and ?e = "dm_erase_region rid"
  have alloc: "dm_regions (dm_reopen (dm_crash ?m k h)) \<in> {dm_regions h, dm_regions (dm_after ?m h)}"
    if k: "k \<notin> torn_points (dm_stores ?m h)" for k
    using inv rid
  proof (cases rule: allocate_region_cases [where this = this and sz = sz, case_names exists exact cut full])
    case (exact r)
    note d = does_run [OF exact(5)]
    have "k \<notin> {1, 2}" using k unfolding d by (simp add: torn_points_def tx1_stores_def entry_stores_def)
    then show ?thesis using tx1_crash [OF clear exact(2), of k rid] unfolding dm_crash_def d by simp
  next
    case (cut r n)
    note d = does_run [OF cut(9)]
    have "k \<notin> {1, 2, 4, 5, 12}" using k unfolding d by (simp add: torn_points_def tx2_stores_def entry_stores_def)
    then show ?thesis using tx2_crash [OF clear cut(5,2,6)] unfolding dm_crash_def d by simp
  qed (simp_all add: dm_crash_def idle)
  have inv': "dm_inv N (dm_after ?m h)" using allocate_region_spec [OF inv rid] by blast
  have erase: "dm_inv N (dm_after ?e h) \<and> dm_regions (dm_reopen (dm_crash ?e k h)) \<in> {dm_regions h, dm_regions (dm_after ?e h)}" for k
  proof (cases "dm_used (dm_regions h) rid")
    case None
    then show ?thesis using inv idle erase_region_unknown [OF None, of "[]"] by (simp add: dm_crash_def dm_stores_def dm_after_def)
  next
    case (Some u)
    then obtain r where r: "dm_does ?e h [Region_id r 0] ()" "dm_inv N (dm_after ?e h)"
      using erase_region_spec [OF inv, of rid "fst u" "snd u"] by auto
    have "dm_regions (dm_reopen (fold apply_store (take k [Region_id r 0]) h)) \<in> {dm_regions h, dm_regions (fold apply_store [Region_id r 0] h)}"
    proof (cases k)
      case (Suc j)
      have "dm_regions (dm_reopen (apply_store (Region_id r 0) h)) = dm_regions (apply_store (Region_id r 0) h)"
        using clear reopen_regions(1) [of "apply_store (Region_id r 0) h"] by (auto elim!: dm_clear_cases simp: region_update_def)
      then show ?thesis using Suc by simp
    qed (simp add: idle)
    then show ?thesis using r unfolding dm_crash_def does_run(1,3) [OF r(1)] by simp
  qed
  show ?thesis
  proof (intro conjI allI impI)
    show "dm_inv N (dm_reopen (dm_crash ?m k h))" "dm_regions (dm_reopen (dm_crash ?m k h)) \<in> {dm_regions h, dm_regions (dm_after ?m h)}"
      if "k \<notin> torn_points (dm_stores ?m h)" for k using one [OF alloc [OF that] inv'] by simp_all
    show "dm_inv N (dm_reopen (dm_crash ?e k h))" "dm_regions (dm_reopen (dm_crash ?e k h)) \<in> {dm_regions h, dm_regions (dm_after ?e h)}"
      for k using one [of ?e k] erase [of k] by simp_all
  qed
qed

definition blank_device :: dm_header where
  "blank_device = \<lparr>dm_magic = 0, dm_version = 0, dm_device_size = 0,
     dm_log = replicate 4 \<lparr>le_log = [], le_ptr = 0, le_length = 0\<rparr>,
     dm_regions = replicate 1024 \<lparr>dr_offset = 0, dr_length = 0, dr_id = 0\<rparr>\<rparr>"

theorem dm_crash_atomic_witness:
  "dm_inv 4 (dm_reopen (dm_crash (dm_allocate_region 4096 7 1) 9 (dm_header_new 5368709120 blank_device)))"
  using dm_crash_atomic [of 4 "dm_header_new 5368709120 blank_device" 7 4096 1]
    dm_header_new_inv(1) [of 5368709120 4 blank_device]
  by (simp add: torn_points_def)

lemma upt_three: "[0..<length (a # b # c # rest)] = 0 # Suc 0 # Suc (Suc 0) # [3..<3 + length rest]"
  by (simp add: upt_conv_Cons numeral_3_eq_3 del: upt_Suc)

lemma fresh_table:
  assumes "h = dm_header_new 5368709120 mem"
  obtains r1 r2 rest where "dm_regions h = \<lparr>dr_offset = 0, dr_length = 4, dr_id = 0\<rparr> # r1 # r2 # rest"
    "dr_length r1 = 0" "dr_id r1 = 0" "dr_length r2 = 0" "dr_id r2 = 0" "dm_clear h"
proof -
  have u: "[1..<n] = 1 # 2 # [3..<n]" if "3 \<le> n" for n using that by (simp add: upt_conv_Cons numeral_3_eq_3 numeral_2_eq_2)
  have u: "[1..<1024] = 1 # 2 # [3..<1024]" by (rule u) simp
  have clear: "dm_clear h" using assms by (simp add: dm_clear_def dm_header_new_def upt4)
  have "region_initialize (sub64 5368709120 1073741824) = \<lparr>dr_offset = 0, dr_length = 4, dr_id = 0\<rparr>"
    by (simp add: region_initialize_def sub64_nowrap)
  note regs = arg_cong [OF assms, of dm_regions, unfolded dm_header_new_def u list.map this dm_header.simps]
  show ?thesis by (rule that [OF regs _ _ _ _ clear]) simp_all
qed

text \<open>
  C27: a crash during an allocation can destroy another live region. An entry of the undo log is
  armed by its length before its pointer and bytes are written. When the device is reopened after a
  crash in between, the entry replays what an earlier call saved in it: here the allocation of
  region 8, cut off after its fourth store, undoes the completed allocation of region 7. A crash
  between clearing the two entries of one allocation leaves two free regions that overlap.
\<close>
theorem dm_crash_loses_region:
  "let h0 = dm_header_new 5368709120 mem; h1 = dm_after (dm_allocate_region this 7 1) h0 in
    dm_used (dm_regions h1) 7 = Some (0, 1) \<and>
    dm_used (dm_regions (dm_reopen (dm_crash (dm_allocate_region this 8 1) 4 h1))) 7 = None \<and>
    \<not> table_ok 4 (dm_regions (dm_reopen (dm_crash (dm_allocate_region this 7 1) 12 h0)))"
proof -
  define h0 where "h0 = dm_header_new 5368709120 mem"
  define h1 where "h1 = dm_after (dm_allocate_region this 7 1) h0"
  obtain r1 r2 rest where rs: "dm_regions h0 = \<lparr>dr_offset = 0, dr_length = 4, dr_id = 0\<rparr> # r1 # r2 # rest" (is "_ = ?r0 # _")
    "dr_length r1 = 0" "dr_id r1 = 0" "dr_length r2 = 0" "dr_id r2 = 0" and clear: "dm_clear h0"
    by (rule fresh_table [of h0 mem]) (simp_all add: h0_def)
  have inv: "dm_inv 4 h0" and used: "dm_used (dm_regions h0) = Map.empty"
    using dm_header_new_inv [of 5368709120 4 mem] by (simp_all add: h0_def)
  have run: "dm_does (dm_allocate_region this rid sz) h sts x"
    if "rid \<noteq> 0" "dm_used (dm_regions h) rid = None" "dm_regions h = a # b # c # rest"
      "dm_does (alloc_scan this rid sz (0 # Suc 0 # Suc (Suc 0) # [3..<3 + length rest])) h sts x" for rid sz h sts x a b c
  proof -
    have "dm_find_region rid h = None" using dm_find_region_None that(1,2) by blast
    moreover have "[0..<length (dm_regions h)] = 0 # Suc 0 # Suc (Suc 0) # [3..<3 + length rest]" unfolding that(3) by (rule upt_three)
    ultimately show ?thesis using that(1,4) unfolding dm_allocate_region_def dm_does_def by (simp del: alloc_scan.simps)
  qed
  have spare0: "spare_slot (dm_regions h0) = Some (Suc 0)"
    unfolding spare_slot_def rs(1) upt_three using rs(2-5) by simp
  let ?t0 = "tx2_stores (Suc 0) 1 3 0 0 1 7 h0"
  have does0: "dm_does (dm_allocate_region this 7 1) h0 ?t0 (region_addr this 0)"
    using run [OF _ _ rs(1) does_alloc_cut [OF clear _ _ spare0, of 1 0], of 7] rs(1) used by (simp add: region_fits_def)
  have h1: "h1 = fold apply_store ?t0 h0" using does_run(3) [OF does0] by (simp add: h1_def)
  have regs1: "dm_regions h1 = \<lparr>dr_offset = 0, dr_length = 1, dr_id = 7\<rparr> # r1\<lparr>dr_offset := 1, dr_length := 3\<rparr> # r2 # rest"
    unfolding h1 using tx2_effect(1) [OF clear, of "Suc 0" 0] rs by simp
  have clear1: "dm_clear h1" unfolding h1 using tx2_effect(2) [OF clear, of "Suc 0" 0] rs by simp
  have spare1: "spare_slot (dm_regions h1) = Some (Suc (Suc 0))"
    unfolding spare_slot_def regs1 upt_three using rs(2-5) by simp
  let ?t1 = "tx2_stores (Suc (Suc 0)) 2 2 (Suc 0) 1 1 8 h1"
  have used1: "dm_used (dm_regions h1) 8 = None"
    unfolding regs1 using fun_cong [OF used, of 8] rs by (simp add: dm_used_def)
  have skip: "dm_does (alloc_scan this 8 1 (0 # ks)) h1 sts x" if "dm_does (alloc_scan this 8 1 ks) h1 sts x" for ks sts x
    using that unfolding dm_does_def alloc_scan_run by (simp add: region_fits_def regs1)
  have does1: "dm_does (dm_allocate_region this 8 1) h1 ?t1 (region_addr this 1)"
  proof -
    have r: "region_fits 1 (dm_regions h1 ! Suc 0)" "1 < dr_length (dm_regions h1 ! Suc 0)" "dr_offset (dm_regions h1 ! Suc 0) = 1"
      "(dr_offset (dm_regions h1 ! Suc 0) + 1) mod WORD16 = 2" "(dr_length (dm_regions h1 ! Suc 0) - 1) mod WORD16 = 2"
      using rs by (simp_all add: regs1 region_fits_def)
    show ?thesis
      by (rule run [OF _ used1 regs1 skip [OF does_alloc_cut [OF clear1 r(1,2) spare1, of this 8, unfolded r(4,5), unfolded r(3)]]]) simp
  qed
  obtain e0 e1 e2 e3 where e: "dm_log h0 = [e0, e1, e2, e3]" "le_length e0 = 0" "le_length e1 = 0" "le_length e2 = 0" "le_length e3 = 0"
    using dm_clear_cases [OF clear] .
  note words = read_region [of _ 0, simplified] read_region [of _ "Suc 0", simplified] read_region [of _ "Suc (Suc 0)", simplified]
    write_region [of 0, simplified] write_region [of "Suc 0", simplified] write_region [of "Suc (Suc 0)", simplified]
  have log1: "dm_log h1 = [\<lparr>le_log = dr_offset r1 # 0 # 0 # 0 # drop (Suc (Suc (Suc (Suc 0)))) (le_log e0), le_ptr = 4, le_length = 0\<rparr>,
      \<lparr>le_log = 0 # 4 # 0 # 0 # drop (Suc (Suc (Suc (Suc 0)))) (le_log e1), le_ptr = 0, le_length = 0\<rparr>, e2, e3]"
    unfolding h1 using e rs by (simp add: tx2_stores_def entry_stores_def log_update_def region_update_def words)
  have crash1: "dm_regions (dm_reopen (dm_crash (dm_allocate_region this 8 1) 4 h1)) =
      \<lparr>dr_offset = 0, dr_length = 4, dr_id = 0\<rparr> # r1\<lparr>dr_offset := 1, dr_length := 3\<rparr> # r2 # rest"
    unfolding dm_crash_def does_run(1) [OF does1] using e rs
    by (simp add: tx2_stores_def entry_stores_def log_update_def region_update_def log1 regs1 reopen_regions undo_effect_def words)
  have crash0: "dm_regions (dm_reopen (dm_crash (dm_allocate_region this 7 1) 12 h0)) =
      \<lparr>dr_offset = 0, dr_length = 4, dr_id = 0\<rparr> # r1\<lparr>dr_offset := 1, dr_length := 3\<rparr> # r2 # rest" (is "_ = ?rs")
    unfolding dm_crash_def does_run(1) [OF does0] using e rs
    by (simp add: tx2_stores_def entry_stores_def log_update_def region_update_def reopen_regions undo_effect_def words)
  have "List.find (\<lambda>r. dr_id r = 7) rest = None"
    using fun_cong [OF used, of 7] rs by (simp add: dm_used_def)
  then have "dm_used ?rs 7 = None" using rs by (simp add: dm_used_def)
  moreover have "\<not> table_ok 4 ?rs"
  proof
    assume "table_ok 4 ?rs"
    moreover have "0 < length ?rs" "Suc 0 < length ?rs" "0 \<noteq> Suc 0" by simp_all
    ultimately have "extent (?rs ! 0) \<inter> extent (?rs ! Suc 0) = {}" unfolding table_ok_def by blast
    then show False by (auto simp: extent_def)
  qed
  moreover have "dm_used (dm_regions h1) 7 = Some (0, 1)" unfolding regs1 by (simp add: dm_used_def)
  ultimately show ?thesis unfolding Let_def h0_def [symmetric] h1_def [symmetric] crash0 crash1 by blast
qed

end
