(* ===== verification/Devdax_Manager.thy ===== *)
theory Devdax_Manager
  imports Dax_Region
begin

text \<open>
  \<open>Devdax_manager\<close> of \<open>nupm/src/dax_map.cpp\<close>: the devices of a configuration, each mapped
  at its address with a region header at its start, and the regions created, opened and erased in
  them. What the mapping of a device yields - its size and the header that lies there, or an
  exception - is an argument of the constructor.
\<close>

section \<open>State\<close>

record dax_config =
  dc_path :: string
  dc_addr :: addr_t
  dc_region_id :: nat

record devdax =
  dd_configs :: "dax_config list"
  dd_mapped :: "string \<rightharpoonup> addr_t \<times> size_t"
  dd_hdrs :: "string \<rightharpoonup> dm_header"

section \<open>The instance registry\<close>

definition register_instance :: "string \<Rightarrow> (string list, bool) prog" where
  "register_instance path = bind_p (get_p (\<lambda>reg. path \<in> set reg)) (\<lambda>known.
     if known then ret_p False else bind_p (update_p (\<lambda>reg. path # reg)) (\<lambda>_. ret_p True))"

definition unregister_instance :: "string \<Rightarrow> (string list, unit) prog" where
  "unregister_instance path = update_p (removeAll path)"

section \<open>Construction\<close>

definition dd_map_region :: "bool \<Rightarrow> size_t \<Rightarrow> (string \<Rightarrow> addr_t \<Rightarrow> (size_t \<times> dm_header) result) \<Rightarrow> string \<Rightarrow> addr_t \<Rightarrow> (size_t \<times> dm_header) result" where
  "dd_map_region dbg use_dram mmap path base_addr =
     bind_res (assert_res dbg (base_addr \<noteq> 0)) (\<lambda>_.
     bind_res (assert_res dbg (base_addr mod GB = 0)) (\<lambda>_.
     bind_res (mmap path base_addr) (\<lambda>(sz, mem). Inr (if 0 < use_dram then use_dram else sz, mem))))"

definition recover_metadata :: "size_t \<Rightarrow> bool \<Rightarrow> dm_header \<Rightarrow> dm_header" where
  "recover_metadata p_len force_rebuild rh =
     (if force_rebuild \<or> \<not> check_magic rh then dm_header_new p_len rh else dm_reopen rh)"

fun dd_setup :: "bool \<Rightarrow> size_t \<Rightarrow> (string \<Rightarrow> addr_t \<Rightarrow> (size_t \<times> dm_header) result) \<Rightarrow> bool \<Rightarrow> dax_config list \<Rightarrow> devdax \<Rightarrow> (string list, devdax) prog" where
  "dd_setup dbg use_dram mmap force_reset [] m = ret_p m"
| "dd_setup dbg use_dram mmap force_reset (c # cs) m =
     bind_p (register_instance (dc_path c)) (\<lambda>ok.
     if \<not> ok then throw_p Constructor_exception
     else bind_p (lift_p (dd_map_region dbg use_dram mmap (dc_path c) (dc_addr c))) (\<lambda>(len, mem).
       let force = force_reset \<or> 0 < use_dram in
       dd_setup dbg use_dram mmap force cs
         (m\<lparr>dd_mapped := (dd_mapped m)(dc_path c \<mapsto> (dc_addr c, len)),
            dd_hdrs := (dd_hdrs m)(dc_path c \<mapsto> recover_metadata len force mem)\<rparr>)))"

definition devdax_manager_new :: "bool \<Rightarrow> size_t \<Rightarrow> (string \<Rightarrow> addr_t \<Rightarrow> (size_t \<times> dm_header) result) \<Rightarrow> dax_config list \<Rightarrow> bool \<Rightarrow> (string list, devdax) prog" where
  "devdax_manager_new dbg use_dram mmap cs force_reset =
     dd_setup dbg use_dram mmap force_reset cs \<lparr>dd_configs = cs, dd_mapped = Map.empty, dd_hdrs = Map.empty\<rparr>"

text \<open>The destructor walks the mapped regions; each of them has the path of a configuration.\<close>

definition devdax_manager_delete :: "devdax \<Rightarrow> (string list, unit) prog" where
  "devdax_manager_delete m =
     each_p unregister_instance (filter (\<lambda>p. dd_mapped m p \<noteq> None) (remdups (map dc_path (dd_configs m))))"

section \<open>Operations\<close>

definition lookup_dax_device :: "nat \<Rightarrow> devdax \<Rightarrow> string result" where
  "lookup_dax_device region_id m =
     (case List.find (\<lambda>c. dc_region_id c = region_id) (dd_configs m) of Some c \<Rightarrow> Inr (dc_path c) | None \<Rightarrow> Inl Logic_exception)"

definition dd_base :: "string \<Rightarrow> devdax \<Rightarrow> addr_t" where
  "dd_base path m = (case dd_mapped m path of Some (base, len) \<Rightarrow> base | None \<Rightarrow> 0)"

text \<open>A call of a header operation through the header pointer of a device.\<close>

definition on_header :: "nat \<Rightarrow> (addr_t \<Rightarrow> (dm_exec, 'a) prog) \<Rightarrow> (devdax, 'a) prog" where
  "on_header region_id f =
     bind_p (\<lambda>m. (lookup_dax_device region_id m, m)) (\<lambda>device.
     bind_p (get_p (\<lambda>m. dd_hdrs m device)) (\<lambda>hdr.
     case hdr of
       None \<Rightarrow> throw_p General_exception
     | Some h \<Rightarrow> (\<lambda>m. (dm_result (f (dd_base device m)) h, m\<lparr>dd_hdrs := (dd_hdrs m)(device \<mapsto> dm_after (f (dd_base device m)) h)\<rparr>))))"

definition dd_open_region :: "nat \<Rightarrow> nat \<Rightarrow> devdax \<Rightarrow> (addr_t \<times> size_t) option result" where
  "dd_open_region uuid region_id m =
     bind_res (lookup_dax_device region_id m) (\<lambda>device.
     case dd_hdrs m device of None \<Rightarrow> Inl General_exception | Some h \<Rightarrow> dm_get_region (dd_base device m) uuid h)"

definition dd_create_region :: "nat \<Rightarrow> nat \<Rightarrow> size_t \<Rightarrow> (devdax, addr_t) prog" where
  "dd_create_region uuid region_id sz = on_header region_id (\<lambda>this. dm_allocate_region this uuid ((sz div GB + 1) mod WORD32))"

definition dd_erase_region :: "nat \<Rightarrow> nat \<Rightarrow> (devdax, unit) prog" where
  "dd_erase_region uuid region_id = on_header region_id (\<lambda>_. dm_erase_region uuid)"

definition dd_get_max_available :: "nat \<Rightarrow> devdax \<Rightarrow> size_t result" where
  "dd_get_max_available region_id m =
     bind_res (lookup_dax_device region_id m) (\<lambda>device.
     case dd_hdrs m device of None \<Rightarrow> Inl General_exception | Some h \<Rightarrow> Inr (dm_get_max_available h))"

definition get_devdax_region :: "string \<Rightarrow> devdax \<Rightarrow> addr_t \<times> size_t" where
  "get_devdax_region path m = (case dd_mapped m path of Some r \<Rightarrow> r | None \<Rightarrow> (0, 0))"

section \<open>Invariant\<close>

definition dd_inv :: "devdax \<Rightarrow> bool" where
  "dd_inv m \<longleftrightarrow> (\<forall>c \<in> set (dd_configs m). \<exists>base len h. dd_mapped m (dc_path c) = Some (base, len) \<and> dd_hdrs m (dc_path c) = Some h \<and>
     GB \<le> len \<and> base + len < W64 \<and> dm_inv (len div GB - 1) h)"

lemma lookup_device:
  assumes "dd_inv m" "lookup_dax_device rid m = Inr path"
  obtains base len h where "dd_mapped m path = Some (base, len)" "dd_hdrs m path = Some h" "GB \<le> len" "base + len < W64" "dm_inv (len div GB - 1) h"
    "dd_base path m = base"
proof -
  obtain c where "c \<in> set (dd_configs m)" "dc_path c = path"
    using assms(2) by (auto simp: lookup_dax_device_def find_Some_iff split: option.splits intro: nth_mem)
  then show ?thesis using that assms(1) unfolding dd_inv_def dd_base_def by fastforce
qed

lemma dd_inv_update:
  assumes "dd_inv m" "dd_mapped m path = Some (base, len)" "GB \<le> len" "base + len < W64" "dm_inv (len div GB - 1) h"
  shows "dd_inv (m\<lparr>dd_hdrs := (dd_hdrs m)(path \<mapsto> h)\<rparr>)"
  using assms unfolding dd_inv_def by auto

lemma lookup_update [simp]:
  "lookup_dax_device rid (m\<lparr>dd_hdrs := f\<rparr>) = lookup_dax_device rid m" "dd_base path (m\<lparr>dd_hdrs := f\<rparr>) = dd_base path m"
  by (simp_all add: lookup_dax_device_def dd_base_def)

lemma used_free_apart:
  assumes "table_ok N rs" "dm_used rs u = Some (o', l)"
  shows "{o'..<o' + l} \<inter> dm_free rs = {}"
proof -
  obtain i where i: "i < length rs" "dr_id (rs ! i) = u" "u \<noteq> 0" "(o', l) = (dr_offset (rs ! i), dr_length (rs ! i))"
    using assms dm_used_iff by blast
  have apart: "extent (rs ! i) \<inter> extent (rs ! j) = {}" if "j < length rs" "dr_id (rs ! j) = 0" for j
    using assms(1) i(1,2,3) that unfolding table_ok_def by metis
  have "{o'..<o' + l} = extent (rs ! i)" using i(4) by (simp add: extent_def)
  then show ?thesis using apart by (auto simp: dm_free_iff disjoint_iff)
qed

lemma used_bounds:
  assumes "table_ok N rs" "dm_used rs u = Some (o', l)" "0 < l"
  shows "o' + l \<le> N"
proof -
  obtain i where "i < length rs" "(o', l) = (dr_offset (rs ! i), dr_length (rs ! i))" using assms dm_used_iff by blast
  then have "{o'..<o' + l} \<subseteq> {..< N}" using assms(1) unfolding table_ok_def extent_def by (metis prod.inject)
  then show ?thesis using assms(3) by (simp add: lessThan_atLeast0)
qed

lemma region_addr_nowrap:
  assumes "GB \<le> len" "base + len < W64" "off + l \<le> len div GB - 1"
  shows "region_addr base off = base + GB + off * GB" "base + GB + (off + l) * GB \<le> base + len"
proof -
  have "(off + l + 1) * GB \<le> len div GB * GB" using assms(1,3) by (intro mult_right_mono) (auto simp: le_diff_conv2 div_greater_zero_iff)
  also have "\<dots> \<le> len" by simp
  finally have *: "GB + (off + l) * GB \<le> len" by (simp add: algebra_simps)
  then show "base + GB + (off + l) * GB \<le> base + len" by simp
  have "off * GB \<le> (off + l) * GB" by simp
  then have "base + GB + off * GB < W64" using * assms(2) by linarith
  then show "region_addr base off = base + GB + off * GB" by (simp add: region_addr_def arena_base_def add64_nowrap)
qed

lemma recover_metadata_inv:
  assumes "GB \<le> len" "len < W64" "len div GB - 1 < WORD16" "check_magic mem \<longrightarrow> dm_inv (len div GB - 1) (dm_reopen mem)"
  shows "dm_inv (len div GB - 1) (recover_metadata len force mem)"
  using assms dm_header_new_inv(1) [OF assms(1,2) refl assms(3)] by (simp add: recover_metadata_def)

definition devices_ok :: "size_t \<Rightarrow> (string \<Rightarrow> addr_t \<Rightarrow> (size_t \<times> dm_header) result) \<Rightarrow> bool" where
  "devices_ok use_dram mmap \<longleftrightarrow> (\<forall>path base sz mem. mmap path base = Inr (sz, mem) \<longrightarrow>
     (let len = if 0 < use_dram then use_dram else sz in
      GB \<le> len \<and> base + len < W64 \<and> len div GB - 1 < WORD16 \<and> (check_magic mem \<longrightarrow> dm_inv (len div GB - 1) (dm_reopen mem))))"

lemma dd_setup_inv:
  assumes "devices_ok use_dram mmap" "dd_setup dbg use_dram mmap force cs m reg = (Inr m', reg')"
    "set (dd_configs m) \<subseteq> C \<union> set cs" "\<forall>c \<in> C. \<exists>base len h. dd_mapped m (dc_path c) = Some (base, len) \<and> dd_hdrs m (dc_path c) = Some h \<and>
     GB \<le> len \<and> base + len < W64 \<and> dm_inv (len div GB - 1) h"
  shows "dd_inv m'"
  using assms(2-4)
proof (induction cs arbitrary: force m reg C)
  case Nil
  then show ?case by (auto simp: dd_inv_def)
next
  case (Cons c cs)
  have "\<exists>ok reg1. register_instance (dc_path c) reg = (Inr ok, reg1)"
    by (cases "dc_path c \<in> set reg") (auto simp: register_instance_def)
  then obtain ok reg1 where reg: "register_instance (dc_path c) reg = (Inr ok, reg1)" by blast
  have ok: ok using Cons.prems(1) reg by (cases ok) (simp_all add: bind_p_def)
  obtain len mem where map: "dd_map_region dbg use_dram mmap (dc_path c) (dc_addr c) = Inr (len, mem)"
    using Cons.prems(1) reg ok by (cases "dd_map_region dbg use_dram mmap (dc_path c) (dc_addr c)") (auto simp: bind_p_def)
  let ?force = "force \<or> 0 < use_dram"
  let ?m = "m\<lparr>dd_mapped := (dd_mapped m)(dc_path c \<mapsto> (dc_addr c, len)), dd_hdrs := (dd_hdrs m)(dc_path c \<mapsto> recover_metadata len ?force mem)\<rparr>"
  have next_m: "dd_setup dbg use_dram mmap ?force cs ?m reg1 = (Inr m', reg')"
    using Cons.prems(1) reg ok map by (simp add: bind_p_def Let_def)
  obtain sz where "mmap (dc_path c) (dc_addr c) = Inr (sz, mem)" "len = (if 0 < use_dram then use_dram else sz)"
    using map by (auto simp: dd_map_region_def bind_res_Inr_iff split: prod.splits)
  then have len: "GB \<le> len" "dc_addr c + len < W64" "len div GB - 1 < WORD16" "check_magic mem \<longrightarrow> dm_inv (len div GB - 1) (dm_reopen mem)"
    using assms(1) unfolding devices_ok_def Let_def by blast+
  have "dm_inv (len div GB - 1) (recover_metadata len ?force mem)" by (rule recover_metadata_inv) (use len in auto)
  then have "\<forall>d \<in> insert c C. \<exists>base len h. dd_mapped ?m (dc_path d) = Some (base, len) \<and> dd_hdrs ?m (dc_path d) = Some h \<and>
     GB \<le> len \<and> base + len < W64 \<and> dm_inv (len div GB - 1) h"
    using Cons.prems(3) len by auto
  then show ?case using Cons.IH [OF next_m, of "insert c C"] Cons.prems(2) by auto
qed

lemma devdax_manager_new_inv:
  assumes "devices_ok use_dram mmap" "devdax_manager_new dbg use_dram mmap cs force reg = (Inr m, reg')"
  shows "dd_inv m"
  using dd_setup_inv [OF assms(1) assms(2) [unfolded devdax_manager_new_def], of "{}"] by simp


definition one_device :: devdax where
  "one_device = \<lparr>dd_configs = [\<lparr>dc_path = ''/dev/dax0.0'', dc_addr = 1099511627776, dc_region_id = 0\<rparr>],
     dd_mapped = [''/dev/dax0.0'' \<mapsto> (1099511627776, 5368709120)],
     dd_hdrs = [''/dev/dax0.0'' \<mapsto> dm_header_new 5368709120 blank_device]\<rparr>"


end
