(* ===== verification/Hop_Segments.thy ===== *)
theory Hop_Segments
  imports Prelude
begin

text \<open>
  The bucket coordinates of the hstore hash table (\<open>segment_layout.h\<close>,
  \<open>segment_and_bucket.h\<close>): a table of \<open>n\<close> segments has 128 buckets in each of its first two
  segments and doubles with every further one. A bucket is addressed by its segment and its place
  in it, and the table walks these coordinates through a circular list of segments. The lemmas
  show that every walk is arithmetic on the flat bucket index, modulo the number of buckets.
\<close>

section \<open>Layout\<close>

abbreviation (input) base_segment_size :: nat where "base_segment_size \<equiv> 128"

definition layout_log2 :: "nat \<Rightarrow> nat" where
  "layout_log2 v = 64 - clzl v"

definition ix_high :: "nat \<Rightarrow> nat" where
  "ix_high ix = ix div base_segment_size"

definition ix_low :: "nat \<Rightarrow> nat" where
  "ix_low ix = ix mod base_segment_size"

text \<open>The sizes the segments are allocated with, and the table size kept next to them.\<close>

definition hs_segment_size :: "nat \<Rightarrow> nat" where
  "hs_segment_size si = base_segment_size * 2 ^ ((if si = 0 then 1 else si) - 1)"

definition hs_bucket_count :: "nat \<Rightarrow> nat" where
  "hs_bucket_count n = base_segment_size * 2 ^ (n - 1)"

text \<open>The links of the circular list of segments.\<close>

definition seg_next :: "nat \<Rightarrow> nat \<Rightarrow> nat" where
  "seg_next n si = (if si + 1 = n then 0 else si + 1)"

definition seg_prev :: "nat \<Rightarrow> nat \<Rightarrow> nat" where
  "seg_prev n si = (if si = 0 then n - 1 else si - 1)"

section \<open>Coordinates\<close>

record seg_bucket =
  sb_si :: nat
  sb_bi :: nat

definition make_segment_and_bucket :: "nat \<Rightarrow> seg_bucket" where
  "make_segment_and_bucket ix =
     (let si = (if ix_high ix = 0 then 0 else layout_log2 (ix_high ix));
          bi = (if ix_high ix = 0 then 0 else ix_high ix mod 2 ^ (si - 1)) * base_segment_size + ix_low ix
      in \<lparr>sb_si = si, sb_bi = bi\<rparr>)"

definition make_segment_and_bucket_for_iterator :: "nat \<Rightarrow> nat \<Rightarrow> seg_bucket" where
  "make_segment_and_bucket_for_iterator n ix =
     (let sb = make_segment_and_bucket ix in
      if sb_si sb = n then \<lparr>sb_si = n - 1, sb_bi = hs_segment_size (n - 1)\<rparr> else sb)"

definition make_segment_and_bucket_at_begin :: seg_bucket where
  "make_segment_and_bucket_at_begin = \<lparr>sb_si = 0, sb_bi = 0\<rparr>"

definition make_segment_and_bucket_at_end :: "nat \<Rightarrow> seg_bucket" where
  "make_segment_and_bucket_at_end n =
     (let ix = hs_bucket_count n; si = (if ix_high ix = 0 then 0 else layout_log2 (ix_high ix))
      in \<lparr>sb_si = si - 1, sb_bi = hs_segment_size (si - 1)\<rparr>)"

definition sb_index :: "seg_bucket \<Rightarrow> nat" where
  "sb_index sb = (if sb_si sb = 0 then 0 else base_segment_size * 2 ^ (sb_si sb - 1)) + sb_bi sb"

definition incr_with_wrap :: "nat \<Rightarrow> seg_bucket \<Rightarrow> seg_bucket" where
  "incr_with_wrap n sb =
     (let bi = (sb_bi sb + 1) mod hs_segment_size (sb_si sb)
      in \<lparr>sb_si = (if bi = 0 then seg_next n (sb_si sb) else sb_si sb), sb_bi = bi\<rparr>)"

definition can_incr_without_wrap :: "nat \<Rightarrow> seg_bucket \<Rightarrow> bool" where
  "can_incr_without_wrap n sb \<longleftrightarrow> sb_bi sb \<noteq> hs_segment_size (sb_si sb) \<or> seg_next n (sb_si sb) \<noteq> 0"

definition incr_without_wrap :: "nat \<Rightarrow> seg_bucket \<Rightarrow> seg_bucket" where
  "incr_without_wrap n sb =
     (let bi = sb_bi sb + 1
      in if bi = hs_segment_size (sb_si sb) \<and> seg_next n (sb_si sb) \<noteq> 0
         then \<lparr>sb_si = seg_next n (sb_si sb), sb_bi = 0\<rparr> else sb\<lparr>sb_bi := bi\<rparr>)"

definition add_small :: "nat \<Rightarrow> nat \<Rightarrow> seg_bucket \<Rightarrow> seg_bucket" where
  "add_small n fwd sb =
     (let bi = (sb_bi sb + fwd) mod hs_segment_size (sb_si sb)
      in \<lparr>sb_si = (if bi < sb_bi sb then seg_next n (sb_si sb) else sb_si sb), sb_bi = bi\<rparr>)"

definition subtract_small :: "nat \<Rightarrow> nat \<Rightarrow> seg_bucket \<Rightarrow> seg_bucket" where
  "subtract_small n bkwd sb =
     (if sb_bi sb < bkwd
      then let si = seg_prev n (sb_si sb) in \<lparr>sb_si = si, sb_bi = sub64 (sb_bi sb) bkwd mod hs_segment_size si\<rparr>
      else sb\<lparr>sb_bi := sb_bi sb - bkwd\<rparr>)"

section \<open>Coordinates are indexes\<close>

definition sb_ok :: "nat \<Rightarrow> seg_bucket \<Rightarrow> bool" where
  "sb_ok n sb \<longleftrightarrow> sb_si sb < n \<and> sb_bi sb < hs_segment_size (sb_si sb)"

definition seg_start :: "nat \<Rightarrow> nat" where
  "seg_start si = (if si = 0 then 0 else 128 * 2 ^ (si - 1))"

lemma sb_index_start: "sb_index sb = seg_start (sb_si sb) + sb_bi sb"
  by (simp add: sb_index_def seg_start_def)

lemma seg_start_next: "seg_start si + hs_segment_size si = seg_start (Suc si)"
  by (cases si) (simp_all add: seg_start_def hs_segment_size_def)

lemma seg_start_count: "0 < n \<Longrightarrow> seg_start n = hs_bucket_count n"
  by (simp add: seg_start_def hs_bucket_count_def)

lemma segment_size_ge: "128 \<le> hs_segment_size si"
  by (simp add: hs_segment_size_def)

lemma seg_start_mono: "i \<le> j \<Longrightarrow> seg_start i \<le> seg_start j"
proof (induction j)
  case (Suc j)
  then show ?case using seg_start_next [of j] by (cases "i = Suc j") (auto simp: le_Suc_eq)
qed simp

lemma sb_index_less:
  assumes "sb_ok n sb"
  shows "sb_index sb < hs_bucket_count n"
proof -
  have "sb_index sb < seg_start (Suc (sb_si sb))" using assms seg_start_next [of "sb_si sb"] by (simp add: sb_index_start sb_ok_def)
  also have "\<dots> \<le> seg_start n" using assms by (intro seg_start_mono) (simp add: sb_ok_def)
  finally show ?thesis using assms seg_start_count [of n] by (simp add: sb_ok_def)
qed

lemma layout_log2_eq: "0 < v \<Longrightarrow> v < W64 \<Longrightarrow> layout_log2 v = bit_length v"
  by (simp add: layout_log2_def fsmsb_clzl)

lemma make_segment_and_bucket_ok:
  assumes "0 < n" "n \<le> 32" "ix < hs_bucket_count n"
  shows "sb_ok n (make_segment_and_bucket ix)" "sb_index (make_segment_and_bucket ix) = ix"
proof -
  let ?h = "ix div 128" and ?k = "bit_length (ix div 128)"
  have h: "?h < 2 ^ (n - 1)" using assms(3) by (simp add: hs_bucket_count_def less_mult_imp_div_less mult.commute)
  have "(2::nat) ^ (n - 1) \<le> 2 ^ 31" using assms(2) by (intro power_increasing) auto
  then have h64: "?h < W64" using h by simp
  have split: "ix = ?h * 128 + ix mod 128" by simp
  have "sb_ok n (make_segment_and_bucket ix) \<and> sb_index (make_segment_and_bucket ix) = ix"
  proof (cases "?h = 0")
    case True
    then have "ix < 128" by (simp add: div_eq_0_iff)
    then show ?thesis using assms(1) True
      by (simp add: make_segment_and_bucket_def ix_high_def ix_low_def sb_ok_def sb_index_def hs_segment_size_def)
  next
    case False
    have k: "0 < ?k" using False bit_length_pos [of ?h] by simp
    have up: "?h < 2 ^ ?k" by (rule bit_length_upper)
    have lo: "2 ^ (?k - 1) \<le> ?h" using False bit_length_lower [of ?h] by simp
    have kn: "?k < n" using bit_length_le [OF h] assms(1) k by linarith
    have "(2::nat) ^ ?k = 2 * 2 ^ (?k - 1)" using k by (simp add: power_eq_if)
    then have up2: "?h < 2 * 2 ^ (?k - 1)" using up by linarith
    then have m: "?h mod 2 ^ (?k - 1) = ?h - 2 ^ (?k - 1)" using lo by (metis add_diff_cancel_left' le_add_diff_inverse mod_add_self1 mod_less mult_2 nat_add_left_cancel_less)
    have mk: "make_segment_and_bucket ix = \<lparr>sb_si = ?k, sb_bi = (?h - 2 ^ (?k - 1)) * 128 + ix mod 128\<rparr>"
      using False layout_log2_eq [OF _ h64] m by (simp add: make_segment_and_bucket_def ix_high_def ix_low_def Let_def)
    have "(?h - 2 ^ (?k - 1)) * 128 + ix mod 128 < 128 * 2 ^ (?k - 1)"
      using up2 lo mod_less_divisor [of 128 ix] by (simp add: diff_mult_distrib) linarith
    moreover have "128 * 2 ^ (?k - 1) + ((?h - 2 ^ (?k - 1)) * 128 + ix mod 128) = ix"
      using lo split by (simp add: diff_mult_distrib)
    ultimately show ?thesis using k kn unfolding mk by (simp add: sb_ok_def sb_index_def hs_segment_size_def)
  qed
  then show "sb_ok n (make_segment_and_bucket ix)" "sb_index (make_segment_and_bucket ix) = ix" by simp_all
qed

lemma sb_index_inj:
  assumes "sb_ok n a" "sb_ok n b" "sb_index a = sb_index b"
  shows "a = b"
proof -
  have less: "sb_index x < sb_index y" if "sb_ok n x" "sb_ok n y" "sb_si x < sb_si y" for x y
  proof -
    have "sb_index x < seg_start (Suc (sb_si x))" using that(1) seg_start_next [of "sb_si x"] by (simp add: sb_index_start sb_ok_def)
    also have "\<dots> \<le> seg_start (sb_si y)" using that(3) by (intro seg_start_mono) simp
    finally show ?thesis by (simp add: sb_index_start)
  qed
  have "sb_si a = sb_si b" using less [OF assms(1,2)] less [OF assms(2,1)] assms(3) by (metis less_irrefl linorder_neqE_nat)
  moreover from this have "sb_bi a = sb_bi b" using assms(3) by (simp add: sb_index_start)
  ultimately show ?thesis by simp
qed

lemma wrap_last: "n = Suc si \<Longrightarrow> hs_bucket_count n = seg_start si + hs_segment_size si"
  using seg_start_next [of si] seg_start_count [of n] by simp

lemma add_small_index:
  assumes ok: "sb_ok n sb" and fwd: "fwd < 128"
  shows "sb_ok n (add_small n fwd sb)" "sb_index (add_small n fwd sb) = (sb_index sb + fwd) mod hs_bucket_count n"
proof -
  let ?si = "sb_si sb" and ?bi = "sb_bi sb" and ?S = "hs_segment_size (sb_si sb)"
  have bi: "?si < n" "?bi < ?S" "fwd < ?S" using ok fwd segment_size_ge [of ?si] by (simp_all add: sb_ok_def)
  have "sb_ok n (add_small n fwd sb) \<and> sb_index (add_small n fwd sb) = (sb_index sb + fwd) mod hs_bucket_count n"
  proof (cases "?bi + fwd < ?S")
    case True
    then have r: "add_small n fwd sb = \<lparr>sb_si = ?si, sb_bi = ?bi + fwd\<rparr>" by (simp add: add_small_def)
    have "sb_ok n (add_small n fwd sb)" using True bi by (simp add: r sb_ok_def)
    then show ?thesis using sb_index_less [of n "add_small n fwd sb"] by (simp add: r sb_index_start)
  next
    case False
    then have m: "(?bi + fwd) mod ?S = ?bi + fwd - ?S" using bi by (simp add: le_mod_geq)
    moreover have "?bi + fwd - ?S < ?bi" using bi False by linarith
    ultimately have r: "add_small n fwd sb = \<lparr>sb_si = seg_next n ?si, sb_bi = ?bi + fwd - ?S\<rparr>" by (simp add: add_small_def Let_def)
    have lt: "?bi + fwd - ?S < 128" using bi fwd by linarith
    have idx: "sb_index sb + fwd = seg_start (Suc ?si) + (?bi + fwd - ?S)" using False seg_start_next [of ?si] by (simp add: sb_index_start)
    have ok': "sb_ok n (add_small n fwd sb)" using lt bi segment_size_ge [of "seg_next n ?si"] by (auto simp: r sb_ok_def seg_next_def)
    show ?thesis
    proof (cases "Suc ?si = n")
      case True
      then have "seg_start (Suc ?si) = hs_bucket_count n" using seg_start_count [of n] by auto
      moreover have "?bi + fwd - ?S < hs_bucket_count n" using lt by (simp add: hs_bucket_count_def) (metis less_le_trans le_add1 mult.right_neutral mult_le_mono2 one_le_numeral one_le_power)
      ultimately show ?thesis using ok' True idx by (simp add: r sb_index_start seg_next_def seg_start_def)
    next
      case False
      then show ?thesis using ok' sb_index_less [OF ok'] idx by (simp add: r sb_index_start seg_next_def)
    qed
  qed
  then show "sb_ok n (add_small n fwd sb)" "sb_index (add_small n fwd sb) = (sb_index sb + fwd) mod hs_bucket_count n" by simp_all
qed

lemma incr_with_wrap_add: "sb_ok n sb \<Longrightarrow> incr_with_wrap n sb = add_small n 1 sb"
proof -
  assume ok: "sb_ok n sb"
  have s: "sb_bi sb < hs_segment_size (sb_si sb)" "1 < hs_segment_size (sb_si sb)" using ok segment_size_ge [of "sb_si sb"] by (simp_all add: sb_ok_def)
  show ?thesis
  proof (cases "Suc (sb_bi sb) = hs_segment_size (sb_si sb)")
    case True
    then show ?thesis using s by (simp add: incr_with_wrap_def add_small_def Let_def)
  next
    case False
    then show ?thesis using s by (simp add: incr_with_wrap_def add_small_def Let_def)
  qed
qed

lemma subtract_small_index:
  assumes ok: "sb_ok n sb" and bkwd: "bkwd \<le> 128" and n: "n \<le> 32"
  shows "sb_ok n (subtract_small n bkwd sb)" "sb_index (subtract_small n bkwd sb) = (sb_index sb + hs_bucket_count n - bkwd) mod hs_bucket_count n"
proof -
  let ?si = "sb_si sb" and ?bi = "sb_bi sb" and ?B = "hs_bucket_count n"
  have bi: "?si < n" "?bi < hs_segment_size ?si" using ok by (simp_all add: sb_ok_def)
  have "(1::nat) \<le> 2 ^ (n - 1)" by simp
  then have B: "128 \<le> ?B" unfolding hs_bucket_count_def by linarith
  note less = sb_index_less [OF ok]
  have "sb_ok n (subtract_small n bkwd sb) \<and> sb_index (subtract_small n bkwd sb) = (sb_index sb + ?B - bkwd) mod ?B"
  proof (cases "?bi < bkwd")
    case False
    then have "sb_index sb + ?B - bkwd = ?B + (sb_index sb - bkwd)" by (simp add: sb_index_start)
    then have "(sb_index sb + ?B - bkwd) mod ?B = sb_index sb - bkwd" using less by (metis less_imp_diff_less mod_add_self1 mod_less)
    then show ?thesis using False bi by (simp add: subtract_small_def sb_ok_def sb_index_start)
  next
    case True
    let ?p = "seg_prev n ?si"
    have S: "128 \<le> hs_segment_size ?p" by (rule segment_size_ge)
    have dvd: "hs_segment_size ?p dvd W64"
    proof -
      have "?p < 32" using bi n by (auto simp: seg_prev_def)
      moreover define a where "a = (if ?p = 0 then 1 else ?p) - 1"
      ultimately have "hs_segment_size ?p = 2 ^ (7 + a)" "7 + a \<le> 64" unfolding hs_segment_size_def a_def [symmetric] by (simp add: power_add, simp add: a_def)
      moreover have "(2::nat) ^ a dvd 2 ^ 64" if "a \<le> 64" for a using that by (rule le_imp_power_dvd)
      ultimately have "hs_segment_size ?p dvd 2 ^ 64" by metis
      then show ?thesis by simp
    qed
    let ?S = "hs_segment_size ?p" and ?d = "bkwd - ?bi"
    have d: "0 < ?d" "?d \<le> ?S" using True bkwd S by linarith+
    obtain q where q: "W64 = ?S * q" using dvd by (elim dvdE)
    have "sub64 ?bi bkwd = W64 - ?d" using True bkwd by (simp add: sub64_def)
    also have "\<dots> = ?S * (q - 1) + (?S - ?d)" using d q by (cases q) (simp_all add: algebra_simps)
    finally have "sub64 ?bi bkwd mod ?S = (?S - ?d) mod ?S" by (simp only: mod_mult_self4)
    then have r: "subtract_small n bkwd sb = \<lparr>sb_si = ?p, sb_bi = ?S - ?d\<rparr>" using True d by (simp add: subtract_small_def Let_def)
    have ok': "sb_ok n (subtract_small n bkwd sb)" using d bi unfolding r by (auto simp: sb_ok_def seg_prev_def)
    have "sb_index (subtract_small n bkwd sb) = (sb_index sb + ?B - bkwd) mod ?B"
    proof (cases "?si = 0")
      case si0: True
      then have "seg_start ?p + ?S = ?B" using seg_start_next [of ?p] seg_start_count [of n] bi by (simp add: seg_prev_def)
      then have "sb_index (subtract_small n bkwd sb) = ?B - ?d" using d by (simp add: r sb_index_start)
      also have "\<dots> = sb_index sb + ?B - bkwd" using si0 True B bkwd by (simp add: sb_index_start seg_start_def)
      finally show ?thesis using sb_index_less [OF ok'] by simp
    next
      case si: False
      then have st: "seg_start ?p + ?S = seg_start ?si" using seg_start_next [of ?p] by (simp add: seg_prev_def)
      then have ix: "sb_index (subtract_small n bkwd sb) = sb_index sb - bkwd" using d True by (simp add: r sb_index_start)
      have "bkwd \<le> sb_index sb" using st S bkwd by (simp add: sb_index_start)
      then have "sb_index sb + ?B - bkwd = ?B + (sb_index sb - bkwd)" by simp
      then show ?thesis using ix less by (metis less_imp_diff_less mod_add_self1 mod_less)
    qed
    then show ?thesis using ok' by simp
  qed
  then show "sb_ok n (subtract_small n bkwd sb)" "sb_index (subtract_small n bkwd sb) = (sb_index sb + ?B - bkwd) mod ?B" by simp_all
qed

lemma bit_length_power: "bit_length (2 ^ k) = Suc k"
proof -
  have "bit_length (2 ^ k) \<le> Suc k" by (rule bit_length_le) simp
  moreover have "\<not> bit_length (2 ^ k) \<le> k" using bit_length_upper [of "2 ^ k"] power_increasing [of "bit_length (2 ^ k)" k "2::nat"] by linarith
  ultimately show ?thesis by simp
qed

lemma at_end_coordinates:
  assumes "0 < n" "n \<le> 32"
  shows "make_segment_and_bucket_at_end n = \<lparr>sb_si = n - 1, sb_bi = hs_segment_size (n - 1)\<rparr>"
proof -
  have "(2::nat) ^ (n - 1) \<le> 2 ^ 31" using assms by (intro power_increasing) auto
  then have "layout_log2 (2 ^ (n - 1)) = n" using assms by (simp add: layout_log2_eq bit_length_power)
  then show ?thesis by (simp add: make_segment_and_bucket_at_end_def ix_high_def hs_bucket_count_def Let_def)
qed

text \<open>Stepping without wrap-around runs through the buckets in order and stops at the end position.\<close>

lemma incr_without_wrap_index:
  assumes "sb_ok n sb" "n \<le> 32"
  shows "sb_index (incr_without_wrap n sb) = sb_index sb + 1"
    "incr_without_wrap n sb = (if Suc (sb_index sb) < hs_bucket_count n then incr_with_wrap n sb else make_segment_and_bucket_at_end n)"
proof -
  let ?si = "sb_si sb" and ?bi = "sb_bi sb" and ?S = "hs_segment_size (sb_si sb)"
  have b: "?si < n" "?bi < ?S" using assms(1) by (simp_all add: sb_ok_def)
  have end_n: "make_segment_and_bucket_at_end n = \<lparr>sb_si = n - 1, sb_bi = hs_segment_size (n - 1)\<rparr>" using at_end_coordinates assms(2) b by simp
  consider "Suc ?bi < ?S" | "Suc ?bi = ?S" "Suc ?si < n" | "Suc ?bi = ?S" "Suc ?si = n" using b by linarith
  then have "sb_index (incr_without_wrap n sb) = sb_index sb + 1 \<and>
    incr_without_wrap n sb = (if Suc (sb_index sb) < hs_bucket_count n then incr_with_wrap n sb else make_segment_and_bucket_at_end n)"
  proof cases
    case 1
    then have r: "incr_without_wrap n sb = \<lparr>sb_si = ?si, sb_bi = Suc ?bi\<rparr>" "incr_with_wrap n sb = \<lparr>sb_si = ?si, sb_bi = Suc ?bi\<rparr>"
      by (simp_all add: incr_without_wrap_def incr_with_wrap_def Let_def)
    have "sb_index \<lparr>sb_si = ?si, sb_bi = Suc ?bi\<rparr> < hs_bucket_count n" using 1 b by (intro sb_index_less) (simp add: sb_ok_def)
    then show ?thesis by (simp add: r sb_index_start)
  next
    case 2
    then have r: "incr_without_wrap n sb = \<lparr>sb_si = Suc ?si, sb_bi = 0\<rparr>" "incr_with_wrap n sb = \<lparr>sb_si = Suc ?si, sb_bi = 0\<rparr>"
      by (simp_all add: incr_without_wrap_def incr_with_wrap_def seg_next_def Let_def)
    have "sb_index \<lparr>sb_si = Suc ?si, sb_bi = 0\<rparr> < hs_bucket_count n" using 2 segment_size_ge [of "Suc ?si"] by (intro sb_index_less) (simp add: sb_ok_def)
    moreover have "Suc (sb_index sb) = seg_start (Suc ?si)" using 2 seg_start_next [of ?si] by (simp add: sb_index_start)
    ultimately show ?thesis by (simp add: r sb_index_start)
  next
    case 3
    then have r: "incr_without_wrap n sb = \<lparr>sb_si = ?si, sb_bi = ?S\<rparr>" by (simp add: incr_without_wrap_def seg_next_def Let_def)
    have "Suc (sb_index sb) = hs_bucket_count n" using 3 wrap_last [of n ?si] by (simp add: sb_index_start)
    moreover have "make_segment_and_bucket_at_end n = incr_without_wrap n sb" using 3 end_n by (metis diff_Suc_1 r)
    ultimately show ?thesis using 3 by (simp add: r sb_index_start)
  qed
  then show "sb_index (incr_without_wrap n sb) = sb_index sb + 1"
    "incr_without_wrap n sb = (if Suc (sb_index sb) < hs_bucket_count n then incr_with_wrap n sb else make_segment_and_bucket_at_end n)" by blast+
qed

text \<open>
  C26: The bucket coordinates are a faithful image of the bucket indexes: for every table of up to
  32 segments \<open>make_segment_and_bucket\<close> and \<open>index\<close> are inverse to each other, stepping
  with wrap-around adds one modulo the number of buckets, and the jumps by less than an owner's
  range forward or backward add or subtract the distance modulo the number of buckets.
\<close>
theorem hop_coordinates_exact:
  assumes n: "0 < n" "n \<le> 32"
  shows "(\<forall>ix < hs_bucket_count n. sb_ok n (make_segment_and_bucket ix) \<and> sb_index (make_segment_and_bucket ix) = ix) \<and>
    (\<forall>sb. sb_ok n sb \<longrightarrow> sb_index sb < hs_bucket_count n \<and> make_segment_and_bucket (sb_index sb) = sb \<and>
      sb_ok n (incr_with_wrap n sb) \<and> sb_index (incr_with_wrap n sb) = (sb_index sb + 1) mod hs_bucket_count n \<and>
      (\<forall>d < 64. sb_index (add_small n d sb) = (sb_index sb + d) mod hs_bucket_count n) \<and>
      (\<forall>d \<le> 64. sb_index (subtract_small n d sb) = (sb_index sb + hs_bucket_count n - d) mod hs_bucket_count n))"
proof -
  have "sb_index sb < hs_bucket_count n \<and> make_segment_and_bucket (sb_index sb) = sb \<and>
      sb_ok n (incr_with_wrap n sb) \<and> sb_index (incr_with_wrap n sb) = (sb_index sb + 1) mod hs_bucket_count n \<and>
      (\<forall>d < 64. sb_index (add_small n d sb) = (sb_index sb + d) mod hs_bucket_count n) \<and>
      (\<forall>d \<le> 64. sb_index (subtract_small n d sb) = (sb_index sb + hs_bucket_count n - d) mod hs_bucket_count n)" if ok: "sb_ok n sb" for sb
  proof -
    note mk = make_segment_and_bucket_ok [OF n sb_index_less [OF ok]]
    have "make_segment_and_bucket (sb_index sb) = sb" by (rule sb_index_inj [OF mk(1) ok mk(2)])
    moreover have "sb_index (add_small n d sb) = (sb_index sb + d) mod hs_bucket_count n" if "d < 64" for d
      using add_small_index(2) [OF ok, of d] that by simp
    moreover have "sb_index (subtract_small n d sb) = (sb_index sb + hs_bucket_count n - d) mod hs_bucket_count n" if "d \<le> 64" for d
      using subtract_small_index(2) [OF ok _ n(2), of d] that by simp
    ultimately show ?thesis using sb_index_less [OF ok] add_small_index [OF ok, of 1] incr_with_wrap_add [OF ok] by simp
  qed
  then show ?thesis using make_segment_and_bucket_ok [OF n] by blast
qed

theorem hop_coordinates_exact_witness:
  "sb_ok 3 (make_segment_and_bucket 300) \<and> sb_index (make_segment_and_bucket 300) = 300"
  using hop_coordinates_exact [of 3] by (simp add: hs_bucket_count_def)

end
