(* ===== verification/Hop_Bucket.thy ===== *)
theory Hop_Bucket
  imports Hop_Segments "HOL-Library.Word"
begin

text \<open>
  The parts of a bucket of the hstore hash table (\<open>owner.h\<close>, \<open>content.h\<close>,
  \<open>hash_bucket.h\<close>) and the counters that can be in the middle of a change
  (\<open>value_unstable.h\<close>, \<open>size_control.h\<close>).

  Bit \<open>p\<close> of the owner word of bucket \<open>i\<close> says that the content of bucket \<open>i + p\<close> (modulo
  the table size) belongs to a key that hashes to \<open>i\<close>. The code shifts by amounts that are not
  below the word's width in two places, where the language leaves the result undefined; the
  result of such a shift is an argument of the model (\<open>shl\<close>).
\<close>

unbundle bit_operations_syntax

section \<open>Owner\<close>

type_synonym owner = "64 word"

abbreviation (input) owner_size :: nat where "owner_size \<equiv> 64"

definition mask_from_pos :: "(nat \<Rightarrow> owner) \<Rightarrow> nat \<Rightarrow> owner" where
  "mask_from_pos shl pos = (if pos < owner_size then push_bit pos 1 else shl pos)"

definition mask_all_ones :: "(nat \<Rightarrow> owner) \<Rightarrow> owner" where
  "mask_all_ones shl = mask_from_pos shl owner_size - 1"

text \<open>\<open>__builtin_ctzll\<close>, which the code applies to a word that is not zero.\<close>

definition rightmost_one_pos :: "owner \<Rightarrow> nat" where
  "rightmost_one_pos c = (case List.find (bit c) [0..<owner_size] of Some p \<Rightarrow> p | None \<Rightarrow> owner_size)"

definition owner_insert :: "(nat \<Rightarrow> owner) \<Rightarrow> nat \<Rightarrow> owner \<Rightarrow> owner" where
  "owner_insert shl p v = v OR mask_from_pos shl p"

definition owner_erase :: "(nat \<Rightarrow> owner) \<Rightarrow> nat \<Rightarrow> owner \<Rightarrow> owner" where
  "owner_erase shl p v = v AND NOT (mask_from_pos shl p)"

definition owner_move :: "(nat \<Rightarrow> owner) \<Rightarrow> nat \<Rightarrow> nat \<Rightarrow> owner \<Rightarrow> owner" where
  "owner_move shl dst src v = (v OR mask_from_pos shl dst) AND NOT (mask_from_pos shl src)"

lemma owner_bit_less: "bit (c :: owner) n \<Longrightarrow> n < 64"
  using bit_imp_le_length [of c n] by simp

lemma bit_mask_from_pos: "p < 64 \<Longrightarrow> bit (mask_from_pos shl p) n \<longleftrightarrow> n = p"
  by (auto simp: mask_from_pos_def bit_exp_iff possible_bit_word)

lemma bit_owner_insert: "p < 64 \<Longrightarrow> bit (owner_insert shl p v) n \<longleftrightarrow> bit v n \<or> n = p"
  by (simp add: owner_insert_def bit_or_iff bit_mask_from_pos)

lemma bit_owner_erase: "p < 64 \<Longrightarrow> bit (owner_erase shl p v) n \<longleftrightarrow> bit v n \<and> n \<noteq> p"
  by (auto simp: owner_erase_def bit_and_iff bit_not_iff bit_mask_from_pos possible_bit_word dest: owner_bit_less)

lemma bit_owner_move:
  "dst < 64 \<Longrightarrow> src < 64 \<Longrightarrow> bit (owner_move shl dst src v) n \<longleftrightarrow> (bit v n \<or> n = dst) \<and> n \<noteq> src"
  by (auto simp: owner_move_def bit_or_iff bit_and_iff bit_not_iff bit_mask_from_pos possible_bit_word dest: owner_bit_less)

lemma rightmost_one_pos_bit:
  assumes "c \<noteq> 0"
  shows "bit c (rightmost_one_pos c)" "rightmost_one_pos c < 64"
proof -
  obtain n where n: "bit c n" using assms by (auto simp: bit_eq_iff)
  then have "List.find (bit c) [0..<64] \<noteq> None" using owner_bit_less [OF n] by (auto simp: find_None_iff)
  then obtain p where p: "List.find (bit c) [0..<64] = Some p" by blast
  then have "bit c p" "p < 64" by (auto simp: find_Some_iff)
  then show "bit c (rightmost_one_pos c)" "rightmost_one_pos c < 64" using p by (simp_all add: rightmost_one_pos_def)
qed

section \<open>Content\<close>

datatype content_state = FREE | IN_USE

text \<open>
  The value is \<open>None\<close> where there is no constructed object: before the first construction and
  after a destruction.
\<close>

record ('k, 'v) bucket =
  bk_owner :: owner
  bk_state :: content_state
  bk_value :: "('k \<times> 'v) option"

definition empty_bucket :: "('k, 'v) bucket" where
  "empty_bucket = \<lparr>bk_owner = 0, bk_state = FREE, bk_value = None\<rparr>"

definition content_erase :: "('k, 'v) bucket \<Rightarrow> ('k, 'v) bucket" where
  "content_erase b = (if bk_state b \<noteq> FREE then b\<lparr>bk_value := None, bk_state := FREE\<rparr> else b)"

definition content_share :: "('k, 'v) bucket \<Rightarrow> ('k, 'v) bucket \<Rightarrow> ('k, 'v) bucket" where
  "content_share sr b = b\<lparr>bk_value := bk_value sr\<rparr>"

definition content_construct :: "'k \<times> 'v \<Rightarrow> ('k, 'v) bucket \<Rightarrow> ('k, 'v) bucket" where
  "content_construct kv b = b\<lparr>bk_value := Some kv\<rparr>"

definition state_set :: "content_state \<Rightarrow> ('k, 'v) bucket \<Rightarrow> ('k, 'v) bucket" where
  "state_set st b = b\<lparr>bk_state := st\<rparr>"

section \<open>Unstable counters\<close>

text \<open>
  A counter and the number of changes in progress in one word: the value times \<open>2 ^ N\<close> plus the
  number of changes.
\<close>

definition vu_set_stable :: "nat \<Rightarrow> nat \<Rightarrow> nat" where
  "vu_set_stable N n = (n * 2 ^ N) mod W64"

definition vu_value_not_stable :: "nat \<Rightarrow> nat \<Rightarrow> nat" where
  "vu_value_not_stable N x = x div 2 ^ N"

definition vu_is_stable :: "nat \<Rightarrow> nat \<Rightarrow> bool" where
  "vu_is_stable N x \<longleftrightarrow> x mod 2 ^ N = 0"

definition vu_stabilize :: "nat \<Rightarrow> nat" where
  "vu_stabilize x = sub64 x 1"

definition vu_destabilize :: "nat \<Rightarrow> nat" where
  "vu_destabilize x = add64 x 1"

definition vu_incr :: "nat \<Rightarrow> nat \<Rightarrow> nat" where
  "vu_incr N x = add64 x (2 ^ N)"

definition vu_decr :: "nat \<Rightarrow> nat \<Rightarrow> nat" where
  "vu_decr N x = sub64 x (2 ^ N)"

lemma vu_change:
  assumes "0 < N" "n * 2 ^ N + 2 * 2 ^ N < W64"
  shows "vu_stabilize (vu_destabilize (n * 2 ^ N)) = n * 2 ^ N"
    "vu_stabilize (vu_incr N (vu_destabilize (n * 2 ^ N))) = Suc n * 2 ^ N"
    "0 < n \<Longrightarrow> vu_stabilize (vu_decr N (vu_destabilize (n * 2 ^ N))) = (n - 1) * 2 ^ N"
    "vu_value_not_stable N (n * 2 ^ N) = n" "vu_is_stable N (n * 2 ^ N)" "\<not> vu_is_stable N (vu_destabilize (n * 2 ^ N))"
    "vu_set_stable N n = n * 2 ^ N"
proof -
  define t where "t = (2::nat) ^ N"
  have two: "2 \<le> t" using assms(1) by (cases N) (auto simp: t_def)
  have lt: "n * t + 2 * t < W64" using assms(2) by (simp add: t_def)
  have d: "vu_destabilize (n * t) = n * t + 1" using lt two by (simp add: vu_destabilize_def add64_nowrap)
  have "vu_stabilize (n * t + 1) = n * t" using lt two by (simp add: vu_stabilize_def sub64_nowrap)
  then show "vu_stabilize (vu_destabilize (n * 2 ^ N)) = n * 2 ^ N" using d by (simp add: t_def)
  have "vu_incr N (n * t + 1) = Suc n * t + 1" using lt two by (simp add: vu_incr_def add64_nowrap t_def [symmetric])
  moreover have "vu_stabilize (Suc n * t + 1) = Suc n * t" using lt two by (simp add: vu_stabilize_def sub64_nowrap)
  ultimately show "vu_stabilize (vu_incr N (vu_destabilize (n * 2 ^ N))) = Suc n * 2 ^ N" using d by (simp add: t_def)
  show "vu_stabilize (vu_decr N (vu_destabilize (n * 2 ^ N))) = (n - 1) * 2 ^ N" if n: "0 < n"
  proof -
    obtain m where m: "n = Suc m" using n gr0_implies_Suc by blast
    have "vu_decr N (n * t + 1) = m * t + 1" using lt two m by (simp add: vu_decr_def sub64_nowrap t_def [symmetric])
    moreover have "vu_stabilize (m * t + 1) = m * t" using lt two m by (simp add: vu_stabilize_def sub64_nowrap)
    ultimately show ?thesis using d m by (simp add: t_def)
  qed
  show "vu_value_not_stable N (n * 2 ^ N) = n" by (simp add: vu_value_not_stable_def)
  show "vu_is_stable N (n * 2 ^ N)" by (simp add: vu_is_stable_def)
  have "(n * t + 1) mod t = 1" using two by (metis Suc_1 Suc_le_lessD mod_less mod_mult_self3)
  then show "\<not> vu_is_stable N (vu_destabilize (n * 2 ^ N))" using d by (simp add: vu_is_stable_def t_def)
  show "vu_set_stable N n = n * 2 ^ N" using lt by (simp add: vu_set_stable_def t_def)
qed

end
