(* ===== verification/Hop_Table.thy ===== *)
theory Hop_Table
  imports Hop_Bucket
begin

unbundle bit_operations_syntax

text \<open>
  The hopscotch hash table of the hstore component (\<open>hop_hash.h\<close>, \<open>hop_hash.tcc\<close>,
  \<open>persist_controller.h\<close>, \<open>persist_map.h\<close>). Buckets are addressed by their index;
  \<open>Hop_Segments\<close> shows that the walks over segment coordinates compute the same indexes. Every
  change of the table is the list of stores it performs on persistent memory, in program order, so
  that the states a crash can leave behind are the results of its prefixes. The hash function, the
  results of over-long shifts (\<open>shl\<close>) and whether the allocator has room for a segment
  (\<open>room\<close>) are arguments. Bucket mutexes are not modelled: the operations run one at a time.
\<close>

section \<open>State\<close>

text \<open>
  \<open>hp_buckets\<close> are the buckets of the live segments, \<open>hp_junior\<close> those of the segment that a
  resize in progress is adding (empty otherwise), \<open>hp_count\<close> and \<open>hp_size\<close> the unstable counters
  of segments and elements.
\<close>

record ('k, 'v) hop =
  hp_buckets :: "('k, 'v) bucket list"
  hp_count :: nat
  hp_size :: nat
  hp_junior :: "('k, 'v) bucket list"
  hp_auto_resize :: bool

type_synonym ('k, 'v) hop_store = "('k, 'v) hop \<Rightarrow> ('k, 'v) hop"

abbreviation (input) segment_capacity :: nat where "segment_capacity \<equiv> 32"

definition segment_count :: "('k, 'v) hop \<Rightarrow> nat" where
  "segment_count h = vu_value_not_stable 1 (hp_count h)"

definition bucket_count :: "('k, 'v) hop \<Rightarrow> nat" where
  "bucket_count h = hs_bucket_count (segment_count h)"

definition hop_mask :: "('k, 'v) hop \<Rightarrow> nat" where
  "hop_mask h = bucket_count h - 1"

definition bucket_ix :: "('k, 'v) hop \<Rightarrow> nat \<Rightarrow> nat" where
  "bucket_ix h x = x AND hop_mask h"

definition bucket_expanded_ix :: "('k, 'v) hop \<Rightarrow> nat \<Rightarrow> nat" where
  "bucket_expanded_ix h x = x AND (push_bit 1 (hop_mask h) + 1)"

definition hop_distance_wrapped :: "nat \<Rightarrow> nat \<Rightarrow> nat \<Rightarrow> nat" where
  "hop_distance_wrapped B first lst = ((if lst < first then lst + B else lst) - first) mod 2 ^ 32"

definition bucket_update :: "nat \<Rightarrow> (('k, 'v) bucket \<Rightarrow> ('k, 'v) bucket) \<Rightarrow> ('k, 'v) hop_store" where
  "bucket_update i f h = h\<lparr>hp_buckets := (hp_buckets h)[i := f (hp_buckets h ! i)]\<rparr>"

definition owner_update :: "nat \<Rightarrow> (owner \<Rightarrow> owner) \<Rightarrow> ('k, 'v) hop_store" where
  "owner_update i f = bucket_update i (\<lambda>b. b\<lparr>bk_owner := f (bk_owner b)\<rparr>)"

definition size_update :: "(nat \<Rightarrow> nat) \<Rightarrow> ('k, 'v) hop_store" where
  "size_update f h = h\<lparr>hp_size := f (hp_size h)\<rparr>"

definition run_stores :: "('s \<Rightarrow> 's) list \<Rightarrow> 's \<Rightarrow> 's" where
  "run_stores sts = fold (\<lambda>st. st) sts"

section \<open>Lookup\<close>

fun locate_loop :: "'k \<Rightarrow> ('k, 'v) hop \<Rightarrow> nat \<Rightarrow> nat list \<Rightarrow> nat option result" where
  "locate_loop k h i [] = Inr None"
| "locate_loop k h i (p # ps) =
     (if bit (bk_owner (hp_buckets h ! i)) p
      then let j = (i + p) mod bucket_count h in
        case bk_value (hp_buckets h ! j) of
          None \<Rightarrow> Inl Undefined_behaviour
        | Some (k', v) \<Rightarrow> if k' = k then Inr (Some j) else locate_loop k h i ps
      else locate_loop k h i ps)"

definition locate_key :: "nat \<Rightarrow> 'k \<Rightarrow> ('k, 'v) hop \<Rightarrow> nat option result" where
  "locate_key i k h = locate_loop k h i [0..<owner_size]"

definition hop_at :: "('k \<Rightarrow> nat) \<Rightarrow> 'k \<Rightarrow> ('k, 'v) hop \<Rightarrow> 'v result" where
  "hop_at hf k h = bind_res (locate_key (bucket_ix h (hf k)) k h) (\<lambda>bf.
     case bf of
       None \<Rightarrow> Inl Out_of_range
     | Some j \<Rightarrow> (case bk_value (hp_buckets h ! j) of None \<Rightarrow> Inl Undefined_behaviour | Some (k', v) \<Rightarrow> Inr v))"

definition hop_size :: "bool \<Rightarrow> ('k, 'v) hop \<Rightarrow> nat result" where
  "hop_size dbg h = bind_res (assert_res dbg (vu_is_stable 8 (hp_size h))) (\<lambda>_. Inr (vu_value_not_stable 8 (hp_size h)))"

section \<open>Making room\<close>

definition hop_is_free :: "('k, 'v) hop \<Rightarrow> nat \<Rightarrow> bool" where
  "hop_is_free h i \<longleftrightarrow> bk_state (hp_buckets h ! i) = FREE"

definition nearest_free_bucket :: "nat \<Rightarrow> ('k, 'v) hop \<Rightarrow> nat result" where
  "nearest_free_bucket bi h =
     (case List.find (hop_is_free h) (map (\<lambda>d. (bi + d) mod bucket_count h) [0..<bucket_count h]) of
        Some i \<Rightarrow> Inr i
      | None \<Rightarrow> Inl Range_error)"

text \<open>
  The search for an element to relocate into the free bucket \<open>dst\<close>: the owners that can reach
  \<open>dst\<close>, from the farthest on, with the items that are nearer to the owner than \<open>dst\<close>.
\<close>

definition find_mover :: "(nat \<Rightarrow> owner) \<Rightarrow> nat \<Rightarrow> ('k, 'v) hop \<Rightarrow> (nat \<times> owner) option" where
  "find_mover shl dst h =
     List.find (\<lambda>(ow, c). c \<noteq> 0)
       (map (\<lambda>j. let ow = (dst + bucket_count h - (owner_size - 1) + j) mod bucket_count h
                 in (ow, bk_owner (hp_buckets h ! ow) AND drop_bit j (mask_all_ones shl))) [0..<owner_size - 1])"

definition move_stores :: "(nat \<Rightarrow> owner) \<Rightarrow> nat \<Rightarrow> nat \<Rightarrow> nat \<Rightarrow> nat \<Rightarrow> nat \<Rightarrow> ('k, 'v) hop_store list" where
  "move_stores shl ow src dst q p =
     [\<lambda>h. bucket_update dst (content_share (hp_buckets h ! src)) h,
      size_update vu_destabilize,
      bucket_update src (state_set FREE),
      bucket_update dst (state_set IN_USE),
      owner_update ow (owner_move shl q p),
      bucket_update src content_erase,
      size_update vu_stabilize]"

fun make_space_for_insert :: "nat \<Rightarrow> bool \<Rightarrow> (nat \<Rightarrow> owner) \<Rightarrow> nat \<Rightarrow> nat \<Rightarrow> (('k, 'v) hop, nat) prog" where
  "make_space_for_insert 0 dbg shl bi dst = throw_p Diverges"
| "make_space_for_insert (Suc fuel) dbg shl bi dst =
     bind_p (get_p (\<lambda>h. h)) (\<lambda>h.
     if hop_distance_wrapped (bucket_count h) bi dst < owner_size then ret_p dst
     else case find_mover shl dst h of
         None \<Rightarrow> throw_p Range_error
       | Some (ow, c) \<Rightarrow>
           let p = rightmost_one_pos c; src = (ow + p) mod bucket_count h; q = hop_distance_wrapped (bucket_count h) ow dst in
           bind_p (assert_p dbg (c \<noteq> 0 \<and> hop_is_free h dst \<and> \<not> hop_is_free h src \<and> q < owner_size \<and> p < owner_size)) (\<lambda>_.
           bind_p (update_p (run_stores (move_stores shl ow src dst q p))) (\<lambda>_.
           make_space_for_insert fuel dbg shl bi src)))"

section \<open>Growing\<close>

text \<open>Whether the content of bucket \<open>ix\<close> must move to the new segment, from its owner there.\<close>

definition must_move :: "nat \<Rightarrow> nat \<Rightarrow> nat \<Rightarrow> bool" where
  "must_move B ix ix_owner \<longleftrightarrow>
     \<not> (ix_owner \<le> ix \<and> ix < ix_owner + owner_size) \<and> \<not> (ix < owner_size \<and> B * 2 < ix_owner + owner_size)"

fun resize_pass1 :: "('k \<Rightarrow> nat) \<Rightarrow> ('k, 'v) hop \<Rightarrow> nat list \<Rightarrow> ('k, 'v) bucket list \<Rightarrow> ('k, 'v) bucket list result" where
  "resize_pass1 hf h [] junior = Inr junior"
| "resize_pass1 hf h (ix # ixs) junior =
     (if \<not> hop_is_free h ix
      then case bk_value (hp_buckets h ! ix) of
          None \<Rightarrow> Inl Undefined_behaviour
        | Some (k, v) \<Rightarrow>
            resize_pass1 hf h ixs
              (if must_move (bucket_count h) ix (bucket_expanded_ix h (hf k))
               then junior[ix := state_set IN_USE (content_share (hp_buckets h ! ix) (junior ! ix))] else junior)
      else resize_pass1 hf h ixs junior)"

text \<open>
  The second pass changes both the live segments and the new one; each index contributes the stores
  of one iteration.
\<close>

definition junior_update :: "nat \<Rightarrow> (('k, 'v) bucket \<Rightarrow> ('k, 'v) bucket) \<Rightarrow> ('k, 'v) hop_store" where
  "junior_update i f h = h\<lparr>hp_junior := (hp_junior h)[i := f (hp_junior h ! i)]\<rparr>"

definition resize_pass2_adjust_owner ::
  "('k \<Rightarrow> nat) \<Rightarrow> bool \<Rightarrow> (nat \<Rightarrow> owner) \<Rightarrow> nat \<Rightarrow> 'k \<Rightarrow> ('k, 'v) hop \<Rightarrow> ('k, 'v) hop_store list result" where
  "resize_pass2_adjust_owner hf dbg shl ix k h =
     (let ow = bucket_ix h (hf k); pos = hop_distance_wrapped (bucket_count h) ow ix in
      bind_res (assert_res dbg (pos < owner_size)) (\<lambda>_.
      Inr (if ow \<noteq> bucket_expanded_ix h (hf k)
           then [junior_update ow (\<lambda>b. b\<lparr>bk_owner := owner_insert shl pos (bk_owner b)\<rparr>), owner_update ow (owner_erase shl pos)]
           else [])))"

definition pass2_stores :: "('k \<Rightarrow> nat) \<Rightarrow> bool \<Rightarrow> (nat \<Rightarrow> owner) \<Rightarrow> nat \<Rightarrow> ('k, 'v) hop \<Rightarrow> ('k, 'v) hop_store list result" where
  "pass2_stores hf dbg shl ix h =
     (if bk_state (hp_junior h ! ix) = IN_USE
      then case bk_value (hp_junior h ! ix) of
          None \<Rightarrow> Inl Undefined_behaviour
        | Some (k, v) \<Rightarrow>
            bind_res (resize_pass2_adjust_owner hf dbg shl ix k h) (\<lambda>sts.
            Inr (sts @ [bucket_update ix content_erase, bucket_update ix (state_set FREE)]))
      else if bk_state (hp_buckets h ! ix) = IN_USE
      then case bk_value (hp_buckets h ! ix) of
          None \<Rightarrow> Inl Undefined_behaviour
        | Some (k, v) \<Rightarrow> resize_pass2_adjust_owner hf dbg shl ix k h
      else Inr [])"

fun resize_pass2 :: "('k \<Rightarrow> nat) \<Rightarrow> bool \<Rightarrow> (nat \<Rightarrow> owner) \<Rightarrow> nat list \<Rightarrow> (('k, 'v) hop, unit) prog" where
  "resize_pass2 hf dbg shl [] = ret_p ()"
| "resize_pass2 hf dbg shl (ix # ixs) =
     bind_p (get_p (\<lambda>h. h)) (\<lambda>h.
     bind_p (lift_p (pass2_stores hf dbg shl ix h)) (\<lambda>sts.
     bind_p (update_p (run_stores sts)) (\<lambda>_.
     resize_pass2 hf dbg shl ixs)))"

definition resize_epilog :: "('k, 'v) hop \<Rightarrow> ('k, 'v) hop" where
  "resize_epilog h = h\<lparr>hp_buckets := hp_buckets h @ hp_junior h, hp_junior := [],
     hp_count := vu_set_stable 1 (vu_value_not_stable 1 (hp_count h) + 1)\<rparr>"

definition resize_finish :: "('k \<Rightarrow> nat) \<Rightarrow> bool \<Rightarrow> (nat \<Rightarrow> owner) \<Rightarrow> (('k, 'v) hop, unit) prog" where
  "resize_finish hf dbg shl =
     bind_p (get_p bucket_count) (\<lambda>B.
     bind_p (resize_pass2 hf dbg shl [0..<B]) (\<lambda>_.
     update_p resize_epilog))"

definition hop_resize :: "('k \<Rightarrow> nat) \<Rightarrow> bool \<Rightarrow> (nat \<Rightarrow> owner) \<Rightarrow> (nat \<Rightarrow> bool) \<Rightarrow> (('k, 'v) hop, unit) prog" where
  "hop_resize hf dbg shl room =
     bind_p (get_p (\<lambda>h. h)) (\<lambda>h.
     if \<not> room (bucket_count h) then throw_p Bad_alloc
     else
       bind_p (lift_p (resize_pass1 hf h [0..<bucket_count h] (replicate (bucket_count h) empty_bucket))) (\<lambda>junior.
       bind_p (update_p (\<lambda>h. h\<lparr>hp_junior := junior, hp_count := vu_destabilize (hp_count h)\<rparr>)) (\<lambda>_.
       resize_finish hf dbg shl)))"

section \<open>Insertion and removal\<close>

definition emplace_stores :: "(nat \<Rightarrow> owner) \<Rightarrow> nat \<Rightarrow> nat \<Rightarrow> nat \<Rightarrow> 'k \<times> 'v \<Rightarrow> ('k, 'v) hop_store list" where
  "emplace_stores shl ow dst B kv =
     [bucket_update dst (content_construct kv),
      size_update vu_destabilize,
      bucket_update dst (state_set IN_USE),
      owner_update ow (owner_insert shl (hop_distance_wrapped B ow dst)),
      size_update (vu_incr 8),
      size_update vu_stabilize]"

definition catch_range :: "('s, 'a) prog \<Rightarrow> ('s, 'a) prog \<Rightarrow> ('s, 'a) prog" where
  "catch_range m f s = (case m s of (Inl Range_error, s') \<Rightarrow> f s' | r \<Rightarrow> r)"

definition place :: "bool \<Rightarrow> (nat \<Rightarrow> owner) \<Rightarrow> nat \<Rightarrow> 'k \<times> 'v \<Rightarrow> (('k, 'v) hop, nat) prog" where
  "place dbg shl ow kv =
     bind_p (get_p (\<lambda>h. h)) (\<lambda>h.
     bind_p (lift_p (nearest_free_bucket ow h)) (\<lambda>b.
     bind_p (make_space_for_insert (bucket_count h) dbg shl ow b) (\<lambda>dst.
     bind_p (get_p (\<lambda>h. hop_is_free h dst)) (\<lambda>free.
     bind_p (assert_p dbg free) (\<lambda>_.
     bind_p (update_p (run_stores (emplace_stores shl ow dst (bucket_count h) kv))) (\<lambda>_.
     ret_p dst))))))"

fun hop_emplace_retry :: "nat \<Rightarrow> ('k \<Rightarrow> nat) \<Rightarrow> bool \<Rightarrow> (nat \<Rightarrow> owner) \<Rightarrow> (nat \<Rightarrow> bool) \<Rightarrow> 'k \<Rightarrow> 'v \<Rightarrow> (('k, 'v) hop, nat \<times> bool) prog" where
  "hop_emplace_retry 0 hf dbg shl room k v = throw_p Diverges"
| "hop_emplace_retry (Suc fuel) hf dbg shl room k v =
     bind_p (get_p (\<lambda>h. h)) (\<lambda>h.
     let ow = bucket_ix h (hf k) in
     bind_p (lift_p (locate_key ow k h)) (\<lambda>found.
     case found of
       Some j \<Rightarrow> ret_p (j, False)
     | None \<Rightarrow>
         catch_range (bind_p (place dbg shl ow (k, v)) (\<lambda>dst. ret_p (dst, True)))
           (bind_p (get_p (\<lambda>h. hp_auto_resize h \<and> segment_count h < segment_capacity)) (\<lambda>grow.
            if grow then bind_p (hop_resize hf dbg shl room) (\<lambda>_. hop_emplace_retry fuel hf dbg shl room k v)
            else throw_p Range_error))))"

definition hop_emplace :: "('k \<Rightarrow> nat) \<Rightarrow> bool \<Rightarrow> (nat \<Rightarrow> owner) \<Rightarrow> (nat \<Rightarrow> bool) \<Rightarrow> 'k \<Rightarrow> 'v \<Rightarrow> (('k, 'v) hop, nat \<times> bool) prog" where
  "hop_emplace = hop_emplace_retry (Suc segment_capacity)"

definition erase_stores :: "(nat \<Rightarrow> owner) \<Rightarrow> nat \<Rightarrow> nat \<Rightarrow> ('k, 'v) hop_store list" where
  "erase_stores shl ow src =
     [size_update vu_destabilize,
      owner_update ow (owner_erase shl (sub64 src ow mod 2 ^ 32)),
      bucket_update src content_erase,
      size_update (vu_decr 8),
      size_update vu_stabilize]"

definition hop_erase :: "('k \<Rightarrow> nat) \<Rightarrow> (nat \<Rightarrow> owner) \<Rightarrow> 'k \<Rightarrow> (('k, 'v) hop, nat) prog" where
  "hop_erase hf shl k =
     bind_p (get_p (\<lambda>h. h)) (\<lambda>h.
     let ow = bucket_ix h (hf k) in
     bind_p (lift_p (locate_key ow k h)) (\<lambda>found.
     case found of
       None \<Rightarrow> ret_p 0
     | Some j \<Rightarrow> bind_p (update_p (run_stores (erase_stores shl ow j))) (\<lambda>_. ret_p 1)))"

section \<open>Creation and recovery\<close>

definition hop_new :: "bool \<Rightarrow> (nat \<Rightarrow> bool) \<Rightarrow> nat \<Rightarrow> ('k, 'v) hop result" where
  "hop_new dbg room n =
     (let specified = (if mul64 n 3 div base_segment_size = 0 then 1 else layout_log2 (mul64 3 n div base_segment_size)) in
      bind_res (throw_if (\<exists>i < specified. \<not> room (hs_segment_size i)) Bad_alloc) (\<lambda>_.
      bind_res (assert_res dbg (1 \<le> specified \<and> specified \<le> segment_capacity)) (\<lambda>_.
      Inr \<lparr>hp_buckets = replicate (hs_bucket_count specified) empty_bucket, hp_count = vu_set_stable 1 specified,
           hp_size = 0, hp_junior = [], hp_auto_resize = True\<rparr>)))"

fun owned_mask_loop :: "bool \<Rightarrow> ('k, 'v) hop \<Rightarrow> nat list \<Rightarrow> owner \<Rightarrow> owner result" where
  "owned_mask_loop dbg h [] c = Inr c"
| "owned_mask_loop dbg h (i # is) c =
     (let c' = drop_bit 1 c; v = bk_owner (hp_buckets h ! i) in
      bind_res (assert_res dbg (c' AND v = 0)) (\<lambda>_. owned_mask_loop dbg h is (c' OR v)))"

definition owned_by_owner_mask :: "bool \<Rightarrow> nat \<Rightarrow> ('k, 'v) hop \<Rightarrow> owner result" where
  "owned_by_owner_mask dbg a h =
     owned_mask_loop dbg h (map (\<lambda>d. (a + bucket_count h - d) mod bucket_count h) (rev [0..<owner_size])) 0"

fun recover_states :: "nat list \<Rightarrow> owner \<Rightarrow> nat \<Rightarrow> ('k, 'v) hop \<Rightarrow> nat \<times> ('k, 'v) hop" where
  "recover_states [] m s h = (s, h)"
| "recover_states (i # is) m s h =
     (let m' = drop_bit 1 m OR bk_owner (hp_buckets h ! i); in_use = bit m' 0; st = (if in_use then IN_USE else FREE) in
      recover_states is m' (s + (if in_use then 1 else 0))
        (if bk_state (hp_buckets h ! i) \<noteq> st then bucket_update i (state_set st) h else h))"

definition recover_size :: "bool \<Rightarrow> (('k, 'v) hop, unit) prog" where
  "recover_size dbg =
     bind_p (get_p (\<lambda>h. h)) (\<lambda>h.
     if vu_is_stable 8 (hp_size h) then ret_p ()
     else
       bind_p (lift_p (owned_by_owner_mask dbg 0 h)) (\<lambda>m.
       let (s, h') = recover_states [0..<bucket_count h] (push_bit 1 m) 0 h in
       update_p (\<lambda>_. h'\<lparr>hp_size := vu_set_stable 8 s\<rparr>)))"

text \<open>The constructor on a table found in persistent memory.\<close>

definition hop_reopen :: "('k \<Rightarrow> nat) \<Rightarrow> bool \<Rightarrow> (nat \<Rightarrow> owner) \<Rightarrow> (('k, 'v) hop, unit) prog" where
  "hop_reopen hf dbg shl =
     bind_p (update_p (\<lambda>h. h\<lparr>hp_auto_resize := True\<rparr>)) (\<lambda>_.
     bind_p (get_p (\<lambda>h. vu_is_stable 1 (hp_count h))) (\<lambda>stable.
     bind_p (if stable then ret_p () else resize_finish hf dbg shl) (\<lambda>_.
     recover_size dbg)))"

end
