(* ===== verification/Hop_Invariant.thy ===== *)
theory Hop_Invariant
  imports Hop_Table
begin

text \<open>
  The invariant of the hash table and its preservation by the table's transactions. The core of it
  says that the owner words are determined by the contents: bit \<open>p\<close> of owner \<open>i\<close> is set exactly
  when the bucket \<open>p\<close> further on holds a key that hashes to \<open>i\<close>.
\<close>

section \<open>Distances\<close>

definition hop_dist :: "nat \<Rightarrow> nat \<Rightarrow> nat \<Rightarrow> nat" where
  "hop_dist B i j = (j + B - i) mod B"

lemma hop_dist_less: "0 < B \<Longrightarrow> hop_dist B i j < B"
  by (simp add: hop_dist_def)

lemma add_hop_dist: "i < B \<Longrightarrow> j < B \<Longrightarrow> (i + hop_dist B i j) mod B = j"
proof -
  assume "i < B" "j < B"
  then have "(i + hop_dist B i j) mod B = (i + (j + B - i)) mod B" by (simp add: hop_dist_def mod_add_right_eq)
  also have "i + (j + B - i) = j + B" using \<open>i < B\<close> by simp
  finally show ?thesis using \<open>j < B\<close> by simp
qed

lemma hop_dist_add: "i < B \<Longrightarrow> p < B \<Longrightarrow> hop_dist B i ((i + p) mod B) = p"
proof -
  assume b: "i < B" "p < B"
  show ?thesis
  proof (cases "i + p < B")
    case True
    then show ?thesis using b by (simp add: hop_dist_def)
  next
    case False
    then have "(i + p) mod B = i + p - B" using b by (simp add: le_mod_geq)
    then show ?thesis using b False by (simp add: hop_dist_def)
  qed
qed

lemma add_eq_iff_dist: "i < B \<Longrightarrow> j < B \<Longrightarrow> p < B \<Longrightarrow> (i + p) mod B = j \<longleftrightarrow> p = hop_dist B i j"
  using add_hop_dist hop_dist_add by metis

lemma distance_wrapped_dist:
  assumes "i < B" "j < B" "B \<le> 2 ^ 32"
  shows "hop_distance_wrapped B i j = hop_dist B i j"
proof (cases "j < i")
  case True
  then have "j + B - i < B" using assms(1) by linarith
  then show ?thesis using True assms(3) by (simp add: hop_distance_wrapped_def hop_dist_def)
next
  case False
  then have d: "j + B - i = j - i + B" "j - i < B" using assms by linarith+
  have "(j - i + B) mod B = j - i" using d(2) by simp
  then show ?thesis unfolding hop_dist_def d(1) using d(2) False assms(3) by (simp add: hop_distance_wrapped_def)
qed

section \<open>The core of the invariant\<close>

definition owned_as :: "('k \<Rightarrow> nat) \<Rightarrow> nat \<Rightarrow> nat \<Rightarrow> ('k \<times> 'v) option \<Rightarrow> bool" where
  "owned_as hf B i x \<longleftrightarrow> (\<exists>k v. x = Some (k, v) \<and> hf k mod B = i)"

lemma owned_as_simps [simp]: "\<not> owned_as hf B i None" "owned_as hf B i (Some (k, v)) \<longleftrightarrow> hf k mod B = i"
  by (simp_all add: owned_as_def)

definition hop_core :: "('k \<Rightarrow> nat) \<Rightarrow> nat \<Rightarrow> (nat \<Rightarrow> owner) \<Rightarrow> (nat \<Rightarrow> ('k \<times> 'v) option) \<Rightarrow> bool" where
  "hop_core hf B own used \<longleftrightarrow> 64 \<le> B \<and>
     (\<forall>i < B. \<forall>p < 64. bit (own i) p \<longleftrightarrow> owned_as hf B i (used ((i + p) mod B))) \<and>
     (\<forall>j < B. \<forall>k v. used j = Some (k, v) \<longrightarrow> hop_dist B (hf k mod B) j < 64)"

lemma core_bit:
  assumes "hop_core hf B own used" "i < B" "p < 64"
  shows "bit (own i) p \<longleftrightarrow> owned_as hf B i (used ((i + p) mod B))"
  using assms unfolding hop_core_def by blast

lemma core_near:
  assumes "hop_core hf B own used" "j < B" "used j = Some (k, v)"
  shows "hop_dist B (hf k mod B) j < 64" "bit (own (hf k mod B)) (hop_dist B (hf k mod B) j)"
proof -
  show near: "hop_dist B (hf k mod B) j < 64" using assms unfolding hop_core_def by blast
  have "0 < B" using assms(2) by simp
  then show "bit (own (hf k mod B)) (hop_dist B (hf k mod B) j)"
    using core_bit [OF assms(1) _ near, of "hf k mod B"] assms add_hop_dist [of "hf k mod B" B j] by simp
qed

text \<open>Changing the content of one bucket with the bits that describe it.\<close>

lemma core_update:
  assumes core: "hop_core hf B own used" and j: "j < B"
    and near: "\<And>k v. y = Some (k, v) \<Longrightarrow> hop_dist B (hf k mod B) j < 64"
    and own': "\<And>i p. i < B \<Longrightarrow> p < 64 \<Longrightarrow> bit (own' i) p \<longleftrightarrow> (if (i + p) mod B = j then owned_as hf B i y else bit (own i) p)"
  shows "hop_core hf B own' (used(j := y))"
proof -
  have "bit (own' i) p \<longleftrightarrow> owned_as hf B i ((used(j := y)) ((i + p) mod B))" if "i < B" "p < 64" for i p
    using own' [OF that] core_bit [OF core that] by simp
  moreover have "64 \<le> B" "\<forall>j < B. \<forall>k v. used j = Some (k, v) \<longrightarrow> hop_dist B (hf k mod B) j < 64"
    using core unfolding hop_core_def by blast+
  ultimately show ?thesis using near unfolding hop_core_def by auto
qed

lemma core_insert:
  assumes core: "hop_core hf B own used" and j: "j < B" "used j = None" and near: "hop_dist B (hf k mod B) j < 64"
  shows "hop_core hf B (own(hf k mod B := owner_insert shl (hop_dist B (hf k mod B) j) (own (hf k mod B)))) (used(j := Some (k, v)))"
proof (rule core_update [OF core j(1)])
  fix i p assume ip: "i < B" "p < (64::nat)"
  have B: "64 \<le> B" using core by (simp add: hop_core_def)
  then have p: "p < B" using ip by simp
  have "(i + p) mod B = j \<longrightarrow> \<not> bit (own i) p" using core_bit [OF core ip] j by auto
  then show "bit ((own(hf k mod B := owner_insert shl (hop_dist B (hf k mod B) j) (own (hf k mod B)))) i) p \<longleftrightarrow>
      (if (i + p) mod B = j then owned_as hf B i (Some (k, v)) else bit (own i) p)"
    using add_eq_iff_dist [OF ip(1) j(1) p] near by (auto simp: bit_owner_insert)
qed (use near in auto)

lemma core_erase:
  assumes core: "hop_core hf B own used" and j: "j < B" "used j = Some (k, v)"
  shows "hop_core hf B (own(hf k mod B := owner_erase shl (hop_dist B (hf k mod B) j) (own (hf k mod B)))) (used(j := None))"
proof (rule core_update [OF core j(1)])
  fix i p assume ip: "i < B" "p < (64::nat)"
  have B: "64 \<le> B" using core by (simp add: hop_core_def)
  then have p: "p < B" using ip by simp
  have "(i + p) mod B = j \<longrightarrow> bit (own i) p = (hf k mod B = i)" using core_bit [OF core ip] j by auto
  then show "bit ((own(hf k mod B := owner_erase shl (hop_dist B (hf k mod B) j) (own (hf k mod B)))) i) p \<longleftrightarrow>
      (if (i + p) mod B = j then owned_as hf B i None else bit (own i) p)"
    using add_eq_iff_dist [OF ip(1) j(1) p] core_near(1) [OF core j] by (auto simp: bit_owner_erase)
qed simp

lemma core_cong:
  assumes "hop_core hf B own used" "\<And>i. i < B \<Longrightarrow> own' i = own i" "\<And>i. i < B \<Longrightarrow> used' i = used i"
  shows "hop_core hf B own' used'"
  using assms unfolding hop_core_def by (metis less_le_trans mod_less_divisor zero_less_numeral)

lemma core_move:
  assumes core: "hop_core hf B own used" and src: "src < B" "used src = Some (k, v)" and dst: "dst < B" "used dst = None"
    and near: "hop_dist B (hf k mod B) dst < 64"
  shows "hop_core hf B (own(hf k mod B := owner_move shl (hop_dist B (hf k mod B) dst) (hop_dist B (hf k mod B) src) (own (hf k mod B))))
    (used(dst := Some (k, v), src := None))"
proof -
  let ?o = "hf k mod B" and ?q = "hop_dist B (hf k mod B) dst" and ?p = "hop_dist B (hf k mod B) src"
  have p: "?p < 64" by (rule core_near(1) [OF core src])
  have ne: "src \<noteq> dst" using src dst by auto
  have "hop_core hf B ((own(?o := owner_insert shl ?q (own ?o)))(?o := owner_erase shl ?p (owner_insert shl ?q (own ?o)))) ((used(dst := Some (k, v)))(src := None))"
    using core_erase [OF core_insert [OF core dst near, of shl v] src(1), of k v shl] src ne by simp
  moreover have "owner_erase shl ?p (owner_insert shl ?q (own ?o)) = owner_move shl ?q ?p (own ?o)"
    using p near by (intro bit_word_eqI) (simp add: bit_owner_erase bit_owner_insert bit_owner_move)
  ultimately show ?thesis by simp
qed

section \<open>The table\<close>

definition bk :: "('k, 'v) hop \<Rightarrow> nat \<Rightarrow> ('k, 'v) bucket" where
  "bk h i = hp_buckets h ! i"

definition bk_used :: "('k, 'v) bucket \<Rightarrow> ('k \<times> 'v) option" where
  "bk_used b = (if bk_state b = IN_USE then bk_value b else None)"

definition hop_own :: "('k, 'v) hop \<Rightarrow> nat \<Rightarrow> owner" where
  "hop_own h i = bk_owner (bk h i)"

definition hop_used :: "('k, 'v) hop \<Rightarrow> nat \<Rightarrow> ('k \<times> 'v) option" where
  "hop_used h i = bk_used (bk h i)"

definition hop_in_use :: "('k, 'v) hop \<Rightarrow> nat" where
  "hop_in_use h = length (filter (\<lambda>b. bk_state b = IN_USE) (hp_buckets h))"

text \<open>The map a table stands for.\<close>

definition hop_abs :: "('k, 'v) hop \<Rightarrow> 'k \<rightharpoonup> 'v" where
  "hop_abs h = map_of (List.map_filter bk_used (hp_buckets h))"

text \<open>
  Tables of at most \<open>2 ^ 32\<close> buckets: distances between buckets are computed in 32 bits. Without a
  resize in progress the count of segments is stable.
\<close>

definition hop_shape :: "('k, 'v) hop \<Rightarrow> bool" where
  "hop_shape h \<longleftrightarrow> 1 \<le> segment_count h \<and> segment_count h \<le> 26 \<and> length (hp_buckets h) = bucket_count h"

definition hop_data :: "('k \<Rightarrow> nat) \<Rightarrow> ('k, 'v) hop \<Rightarrow> bool" where
  "hop_data hf h \<longleftrightarrow> hop_core hf (bucket_count h) (hop_own h) (hop_used h) \<and>
     (\<forall>i < bucket_count h. bk_state (bk h i) = IN_USE \<longrightarrow> bk_value (bk h i) \<noteq> None) \<and>
     (\<forall>i < bucket_count h. \<forall>j < bucket_count h. \<forall>k v w. hop_used h i = Some (k, v) \<and> hop_used h j = Some (k, w) \<longrightarrow> i = j)"

definition hop_inv :: "('k \<Rightarrow> nat) \<Rightarrow> ('k, 'v) hop \<Rightarrow> bool" where
  "hop_inv hf h \<longleftrightarrow> hop_shape h \<and> hop_data hf h \<and> hp_count h = 2 * segment_count h \<and> hp_size h = 256 * hop_in_use h \<and> hp_junior h = []"

lemma bk_bucket_update [simp]:
  "bk (bucket_update i f h) j = (if j = i \<and> i < length (hp_buckets h) then f (bk h i) else bk h j)"
  by (cases "i < length (hp_buckets h)") (auto simp: bk_def bucket_update_def list_update_beyond)

lemma bucket_update_fields [simp]:
  "length (hp_buckets (bucket_update i f h)) = length (hp_buckets h)" "hp_count (bucket_update i f h) = hp_count h"
  "hp_size (bucket_update i f h) = hp_size h" "hp_junior (bucket_update i f h) = hp_junior h"
  "hp_auto_resize (bucket_update i f h) = hp_auto_resize h"
  by (simp_all add: bucket_update_def)

lemma size_update_fields [simp]:
  "bk (size_update f h) = bk h" "hp_buckets (size_update f h) = hp_buckets h" "hp_count (size_update f h) = hp_count h"
  "hp_size (size_update f h) = f (hp_size h)" "hp_junior (size_update f h) = hp_junior h"
  "hp_auto_resize (size_update f h) = hp_auto_resize h"
  by (simp_all add: size_update_def bk_def fun_eq_iff)

lemma counts_of_count: "hp_count g = hp_count h \<Longrightarrow> segment_count g = segment_count h \<and> bucket_count g = bucket_count h"
  by (simp add: segment_count_def bucket_count_def)

lemma hop_shape_size:
  assumes "hop_shape h"
  shows "\<exists>m. bucket_count h = 2 ^ m" "128 \<le> bucket_count h" "bucket_count h \<le> 2 ^ 32"
proof -
  obtain n where n: "segment_count h = Suc n" "n \<le> 25" using assms unfolding hop_shape_def by (cases "segment_count h") auto
  then have B: "bucket_count h = 2 ^ (7 + n)" by (simp add: bucket_count_def hs_bucket_count_def power_add)
  then show "\<exists>m. bucket_count h = 2 ^ m" by blast
  have "(2::nat) ^ (7 + n) \<le> 2 ^ 32" by (rule power_increasing) (use n(2) in auto)
  moreover have "(2::nat) ^ 7 \<le> 2 ^ (7 + n)" by (rule power_increasing) auto
  ultimately show "128 \<le> bucket_count h" "bucket_count h \<le> 2 ^ 32" unfolding B by simp_all
qed

lemma nat_and_mask: "(x::nat) AND (2 ^ m - 1) = x mod 2 ^ m"
  by (metis mask_eq_exp_minus_1 take_bit_eq_mask take_bit_eq_mod)

lemma bucket_ix_mod: "hop_shape h \<Longrightarrow> bucket_ix h x = x mod bucket_count h"
  using hop_shape_size(1) [of h] nat_and_mask by (metis bucket_ix_def hop_mask_def)

lemma bucket_expanded_ix_mod: "hop_shape h \<Longrightarrow> bucket_expanded_ix h x = x mod (2 * bucket_count h)"
proof -
  assume "hop_shape h"
  then obtain m where m: "bucket_count h = 2 ^ m" using hop_shape_size(1) by blast
  define t :: nat where "t = 2 ^ m"
  have "1 \<le> t" by (simp add: t_def)
  then have "push_bit 1 (t - 1) + 1 = 2 * t - 1" by (simp add: push_bit_eq_mult)
  then have "push_bit 1 (hop_mask h) + 1 = 2 ^ Suc m - (1::nat)" using m by (simp add: hop_mask_def t_def)
  then show ?thesis using m nat_and_mask [of x "Suc m"] by (simp add: bucket_expanded_ix_def)
qed

subsection \<open>The abstraction\<close>

lemma abs_iff:
  assumes "hop_data hf h" "hop_shape h"
  shows "hop_abs h k = Some v \<longleftrightarrow> (\<exists>j < bucket_count h. hop_used h j = Some (k, v))"
proof -
  let ?xs = "List.map_filter bk_used (hp_buckets h)"
  have len: "length (hp_buckets h) = bucket_count h" using assms(2) by (simp add: hop_shape_def)
  have mem: "(k, v) \<in> set ?xs \<longleftrightarrow> (\<exists>j < bucket_count h. hop_used h j = Some (k, v))" for v
    by (force simp: List.map_filter_def hop_used_def bk_def len [symmetric] in_set_conv_nth)
  have uniq: "v = w" if "(k, v) \<in> set ?xs" "(k, w) \<in> set ?xs" for v w
    using that assms(1) unfolding mem hop_data_def by (metis option.inject prod.inject)
  show ?thesis
  proof
    assume "hop_abs h k = Some v"
    then show "\<exists>j < bucket_count h. hop_used h j = Some (k, v)" using mem map_of_SomeD [of ?xs k v] by (simp add: hop_abs_def)
  next
    assume "\<exists>j < bucket_count h. hop_used h j = Some (k, v)"
    then have m: "(k, v) \<in> set ?xs" using mem by blast
    then obtain w where w: "map_of ?xs k = Some w" using weak_map_of_SomeI by fastforce
    then have "(k, w) \<in> set ?xs" by (rule map_of_SomeD)
    then show "hop_abs h k = Some v" using uniq [OF m] w by (simp add: hop_abs_def)
  qed
qed

lemma abs_None_iff:
  assumes "hop_data hf h" "hop_shape h"
  shows "hop_abs h k = None \<longleftrightarrow> (\<forall>j < bucket_count h. \<forall>v. hop_used h j \<noteq> Some (k, v))"
  using abs_iff [OF assms] by (metis not_None_eq)

lemma abs_eqI:
  assumes "hop_data hf h" "hop_shape h" "\<And>k v. m k = Some v \<longleftrightarrow> (\<exists>j < bucket_count h. hop_used h j = Some (k, v))"
  shows "hop_abs h = m"
proof
  fix k show "hop_abs h k = m k" using abs_iff [OF assms(1,2)] assms(3) by (metis not_None_eq)
qed

subsection \<open>Lookup\<close>

lemma locate_loop_spec:
  assumes d: "hop_data hf h" and i: "i < bucket_count h" and ps: "\<forall>p \<in> set ps. p < 64"
    and k: "hf k mod bucket_count h = i"
  shows "\<exists>r. locate_loop k h i ps = Inr r \<and>
    (case r of Some j \<Rightarrow> j < bucket_count h \<and> (\<exists>v. hop_used h j = Some (k, v))
     | None \<Rightarrow> \<forall>p \<in> set ps. \<forall>v. hop_used h ((i + p) mod bucket_count h) \<noteq> Some (k, v))"
  using ps
proof (induction ps)
  case (Cons p ps)
  let ?j = "(i + p) mod bucket_count h"
  have core: "hop_core hf (bucket_count h) (hop_own h) (hop_used h)" using d by (simp add: hop_data_def)
  have j: "?j < bucket_count h" using i by (simp add: order_le_less_trans [of 0 i])
  obtain r where r: "locate_loop k h i ps = Inr r"
    "case r of Some j \<Rightarrow> j < bucket_count h \<and> (\<exists>v. hop_used h j = Some (k, v))
     | None \<Rightarrow> \<forall>p \<in> set ps. \<forall>v. hop_used h ((i + p) mod bucket_count h) \<noteq> Some (k, v)" using Cons by auto
  have bp: "bit (bk_owner (hp_buckets h ! i)) p \<longleftrightarrow> owned_as hf (bucket_count h) i (hop_used h ?j)"
    using core_bit [OF core i, of p] Cons.prems by (simp add: hop_own_def bk_def)
  show ?case
  proof (cases "bit (bk_owner (hp_buckets h ! i)) p")
    case True
    then obtain k' v where kv: "hop_used h ?j = Some (k', v)" using bp by (auto simp: owned_as_def)
    then have "bk_value (hp_buckets h ! ?j) = Some (k', v)" by (auto simp: hop_used_def bk_used_def bk_def split: if_splits)
    then show ?thesis using True kv r j by (auto simp: Let_def split: option.splits)
  next
    case False
    then have "hop_used h ?j \<noteq> Some (k, v)" for v using bp k by auto
    then show ?thesis using False r by (auto split: option.splits)
  qed
qed simp

lemma locate_key_spec:
  assumes "hop_data hf h" "hop_shape h"
  obtains j v where "locate_key (bucket_ix h (hf k)) k h = Inr (Some j)" "j < bucket_count h" "hop_used h j = Some (k, v)" "hop_abs h k = Some v"
  | "locate_key (bucket_ix h (hf k)) k h = Inr None" "hop_abs h k = None"
proof -
  let ?B = "bucket_count h" and ?i = "hf k mod bucket_count h"
  have B: "128 \<le> ?B" using hop_shape_size(2) [OF assms(2)] .
  then have i: "?i < ?B" by simp
  have ix: "bucket_ix h (hf k) = ?i" by (rule bucket_ix_mod [OF assms(2)])
  have core: "hop_core hf ?B (hop_own h) (hop_used h)" using assms(1) by (simp add: hop_data_def)
  obtain r where r: "locate_loop k h ?i [0..<64] = Inr r"
    "case r of Some j \<Rightarrow> j < ?B \<and> (\<exists>v. hop_used h j = Some (k, v))
     | None \<Rightarrow> \<forall>p \<in> set [0..<64]. \<forall>v. hop_used h ((?i + p) mod ?B) \<noteq> Some (k, v)"
    using locate_loop_spec [OF assms(1) i, of "[0..<64]" k] by auto
  show thesis
  proof (cases r)
    case (Some j)
    then obtain v where v: "j < ?B" "hop_used h j = Some (k, v)" using r(2) by auto
    then have "hop_abs h k = Some v" using abs_iff [OF assms] by blast
    then show thesis using that(1) r(1) Some v ix by (simp add: locate_key_def)
  next
    case None
    have "hop_used h j \<noteq> Some (k, v)" if j: "j < ?B" for j v
    proof
      assume u: "hop_used h j = Some (k, v)"
      then have "hop_dist ?B ?i j < 64" by (rule core_near(1) [OF core j])
      then have "hop_dist ?B ?i j \<in> set [0..<64]" by simp
      moreover have "\<forall>p \<in> set [0..<64]. \<forall>v. hop_used h ((?i + p) mod ?B) \<noteq> Some (k, v)" using r(2) None by simp
      ultimately have "hop_used h ((?i + hop_dist ?B ?i j) mod ?B) \<noteq> Some (k, v)" by blast
      then show False using u add_hop_dist [OF i j] by simp
    qed
    then have "hop_abs h k = None" using abs_None_iff [OF assms] by blast
    then show thesis using that(2) r(1) None ix by (simp add: locate_key_def)
  qed
qed

end
