(* ===== verification/Hop_Contents.thy ===== *)
theory Hop_Contents
  imports Hop_Invariant
begin

text \<open>
  What a change of the owner words and of the contents means for the invariant and for the map the
  table stands for: an element appears, disappears or changes its place.
\<close>

section \<open>Contents\<close>

text \<open>The contents without the counters: the owners describe the contents and no key occurs twice.\<close>

definition hop_content :: "('k \<Rightarrow> nat) \<Rightarrow> nat \<Rightarrow> (nat \<Rightarrow> owner) \<Rightarrow> (nat \<Rightarrow> ('k \<times> 'v) option) \<Rightarrow> bool" where
  "hop_content hf B own used \<longleftrightarrow> hop_core hf B own used \<and>
     (\<forall>i < B. \<forall>j < B. \<forall>k v w. used i = Some (k, v) \<and> used j = Some (k, w) \<longrightarrow> i = j)"

lemma hop_data_content:
  "hop_data hf h \<longleftrightarrow> hop_content hf (bucket_count h) (hop_own h) (hop_used h) \<and>
    (\<forall>i < bucket_count h. bk_state (bk h i) = IN_USE \<longrightarrow> bk_value (bk h i) \<noteq> None)"
  unfolding hop_data_def hop_content_def by blast

lemma content_core: "hop_content hf B own used \<Longrightarrow> hop_core hf B own used"
  by (simp add: hop_content_def)

lemma content_key: "hop_content hf B own used \<Longrightarrow> i < B \<Longrightarrow> j < B \<Longrightarrow> used i = Some (k, v) \<Longrightarrow> used j = Some (k, w) \<Longrightarrow> i = j"
  unfolding hop_content_def by blast

lemma contents_insert:
  assumes c: "hop_content hf B own used" and j: "j < B" "used j = None" and near: "hop_dist B (hf k mod B) j < 64"
    and fresh: "\<And>i w. i < B \<Longrightarrow> used i \<noteq> Some (k, w)"
  shows "hop_content hf B (own(hf k mod B := owner_insert shl (hop_dist B (hf k mod B) j) (own (hf k mod B)))) (used(j := Some (k, v)))"
  using core_insert [OF content_core [OF c] j near] c fresh unfolding hop_content_def by auto

lemma contents_erase:
  assumes c: "hop_content hf B own used" and j: "j < B" "used j = Some (k, v)"
  shows "hop_content hf B (own(hf k mod B := owner_erase shl (hop_dist B (hf k mod B) j) (own (hf k mod B)))) (used(j := None))"
  using core_erase [OF content_core [OF c] j] c unfolding hop_content_def by auto

lemma contents_move:
  assumes c: "hop_content hf B own used" and src: "src < B" "used src = Some (k, v)" and dst: "dst < B" "used dst = None"
    and near: "hop_dist B (hf k mod B) dst < 64"
  shows "hop_content hf B (own(hf k mod B := owner_move shl (hop_dist B (hf k mod B) dst) (hop_dist B (hf k mod B) src) (own (hf k mod B))))
    (used(dst := Some (k, v), src := None))"
proof -
  have "i = j" if "i < B" "j < B" "(used(dst := Some (k, v), src := None)) i = Some (k', x)" "(used(dst := Some (k, v), src := None)) j = Some (k', y)" for i j k' x y
    using that content_key [OF c, of i j k' x y] content_key [OF c src(1), of i k v x] content_key [OF c src(1), of j k v y]
      content_key [OF c, of i src k' x v] content_key [OF c, of j src k' y v] src
    by (auto split: if_splits)
  then show ?thesis using core_move [OF content_core [OF c] src dst near] unfolding hop_content_def by blast
qed

lemma content_cong:
  assumes "hop_content hf B own used" "\<And>i. i < B \<Longrightarrow> own' i = own i" "\<And>i. i < B \<Longrightarrow> used' i = used i"
  shows "hop_content hf B own' used'"
  using core_cong [of hf B own used own' used'] assms unfolding hop_content_def by simp

section \<open>From contents to the invariant\<close>

definition used_count :: "nat \<Rightarrow> (nat \<Rightarrow> 'a option) \<Rightarrow> nat" where
  "used_count B u = card {i. i < B \<and> u i \<noteq> None}"

lemma used_count_cong: "(\<And>i. i < B \<Longrightarrow> u' i = u i) \<Longrightarrow> used_count B u' = used_count B u"
  unfolding used_count_def by (rule arg_cong [where f = card]) auto

lemma used_count_le: "used_count B u \<le> B"
proof -
  have "card {i. i < B \<and> u i \<noteq> None} \<le> card {..<B}" by (rule card_mono) auto
  then show ?thesis by (simp add: used_count_def)
qed

lemma used_count_Some: "j < B \<Longrightarrow> u j = None \<Longrightarrow> used_count B (u(j := Some x)) = Suc (used_count B u)"
proof -
  assume j: "j < B" "u j = None"
  have "{i. i < B \<and> (u(j := Some x)) i \<noteq> None} = insert j {i. i < B \<and> u i \<noteq> None}" using j by auto
  then show ?thesis using j by (simp add: used_count_def)
qed

lemma used_count_None: "j < B \<Longrightarrow> u j \<noteq> None \<Longrightarrow> Suc (used_count B (u(j := None))) = used_count B u"
proof -
  assume j: "j < B" "u j \<noteq> None"
  have "{i. i < B \<and> u i \<noteq> None} = insert j {i. i < B \<and> (u(j := None)) i \<noteq> None}" using j by auto
  then show ?thesis by (simp add: used_count_def)
qed

lemma in_use_count:
  assumes "hop_shape h" "hop_data hf h"
  shows "hop_in_use h = used_count (bucket_count h) (hop_used h)"
proof -
  have len: "length (hp_buckets h) = bucket_count h" using assms(1) by (simp add: hop_shape_def)
  have "{i. i < length (hp_buckets h) \<and> bk_state (hp_buckets h ! i) = IN_USE} = {i. i < bucket_count h \<and> hop_used h i \<noteq> None}"
    using assms(2) unfolding hop_data_def len by (auto simp: hop_used_def bk_used_def bk_def)
  then show ?thesis by (simp add: hop_in_use_def used_count_def length_filter_conv_card)
qed

lemma hop_inv_iff:
  "hop_inv hf h \<longleftrightarrow> hop_shape h \<and> hop_data hf h \<and> hp_count h = 2 * segment_count h \<and>
    hp_size h = 256 * used_count (bucket_count h) (hop_used h) \<and> hp_junior h = []"
  using in_use_count unfolding hop_inv_def by metis

lemma hop_invD:
  assumes "hop_inv hf h"
  shows "hop_shape h" "hop_data hf h" "hop_content hf (bucket_count h) (hop_own h) (hop_used h)"
    "hp_size h = used_count (bucket_count h) (hop_used h) * 2 ^ 8" "length (hp_buckets h) = bucket_count h"
  using assms unfolding hop_inv_iff hop_data_content by (simp_all add: hop_shape_def)

text \<open>Stepping from a table to one of the same size.\<close>

definition same_table :: "('k, 'v) hop \<Rightarrow> ('k, 'v) hop \<Rightarrow> bool" where
  "same_table h g \<longleftrightarrow> hp_count g = hp_count h \<and> length (hp_buckets g) = length (hp_buckets h) \<and> hp_junior g = hp_junior h \<and>
     hp_auto_resize g = hp_auto_resize h"

lemma same_table_refl [simp]: "same_table h h"
  by (simp add: same_table_def)

lemma same_table_trans: "same_table h g \<Longrightarrow> same_table g f \<Longrightarrow> same_table h f"
  by (simp add: same_table_def)

lemma same_table_counts:
  assumes "same_table h g"
  shows "bucket_count g = bucket_count h" "segment_count g = segment_count h" "hop_shape g \<longleftrightarrow> hop_shape h"
  using assms counts_of_count [of g h] by (simp_all add: same_table_def hop_shape_def)

lemma data_step:
  assumes same: "same_table h g" and c: "hop_content hf (bucket_count h) own' used'"
    and own: "\<And>i. i < bucket_count h \<Longrightarrow> hop_own g i = own' i" and used: "\<And>i. i < bucket_count h \<Longrightarrow> hop_used g i = used' i"
    and val: "\<And>i. i < bucket_count h \<Longrightarrow> bk_state (bk g i) = IN_USE \<Longrightarrow> bk_value (bk g i) \<noteq> None"
  shows "hop_data hf g"
  using content_cong [OF c own used] val same_table_counts(1) [OF same] by (simp add: hop_data_content)

lemma inv_step:
  assumes inv: "hop_inv hf h" and same: "same_table h g" and d: "hop_data hf g"
    and size: "hp_size g = 256 * used_count (bucket_count h) (hop_used g)"
  shows "hop_inv hf g"
  using assms same_table_counts [OF same] unfolding hop_inv_iff by (simp add: same_table_def)

lemma ex_bucket_upd:
  assumes "\<And>i. i < B \<Longrightarrow> u' i = (u(j := y)) i" "j < (B::nat)"
  shows "(\<exists>i < B. u' i = x) \<longleftrightarrow> y = x \<or> (\<exists>i < B. i \<noteq> j \<and> u i = x)"
  using assms by (metis fun_upd_apply)

lemma abs_insert:
  assumes h: "hop_data hf h" "hop_shape h" and g: "hop_data hf g" "same_table h g"
    and u: "\<And>i. i < bucket_count h \<Longrightarrow> hop_used g i = ((hop_used h)(j := Some (k, v))) i"
    and j: "j < bucket_count h" "hop_used h j = None" and fresh: "hop_abs h k = None"
  shows "hop_abs g = (hop_abs h)(k \<mapsto> v)"
proof (rule abs_eqI [OF g(1)])
  note c = same_table_counts [OF g(2)]
  show "hop_shape g" using c h by simp
  fix k' v'
  have ex: "(\<exists>i < bucket_count h. hop_used g i = x) \<longleftrightarrow> Some (k, v) = x \<or> (\<exists>i < bucket_count h. i \<noteq> j \<and> hop_used h i = x)" for x
    by (rule ex_bucket_upd) (use u j in simp_all)
  have "hop_used h i \<noteq> Some (k, w)" if "i < bucket_count h" for i w using that fresh abs_None_iff [OF h] by blast
  then show "((hop_abs h)(k \<mapsto> v)) k' = Some v' \<longleftrightarrow> (\<exists>i < bucket_count g. hop_used g i = Some (k', v'))"
    using abs_iff [OF h, of k' v'] j unfolding c(1) ex by (cases "k' = k") auto
qed

lemma abs_erase:
  assumes h: "hop_data hf h" "hop_shape h" and g: "hop_data hf g" "same_table h g"
    and u: "\<And>i. i < bucket_count h \<Longrightarrow> hop_used g i = ((hop_used h)(j := None)) i"
    and j: "j < bucket_count h" "hop_used h j = Some (k, v)"
  shows "hop_abs g = (hop_abs h)(k := None)"
proof (rule abs_eqI [OF g(1)])
  note c = same_table_counts [OF g(2)]
  show "hop_shape g" using c h by simp
  fix k' v'
  have ex: "(\<exists>i < bucket_count h. hop_used g i = x) \<longleftrightarrow> None = x \<or> (\<exists>i < bucket_count h. i \<noteq> j \<and> hop_used h i = x)" for x
    by (rule ex_bucket_upd) (use u j in simp_all)
  have key: "i = j" if a: "i < bucket_count h" "hop_used h i = Some (k, w)" for i w
    using content_key [OF _ a(1) j(1) a(2) j(2)] h(1) unfolding hop_data_content by blast
  show "((hop_abs h)(k := None)) k' = Some v' \<longleftrightarrow> (\<exists>i < bucket_count g. hop_used g i = Some (k', v'))"
  proof (cases "k' = k")
    case True
    have "\<not> (\<exists>i < bucket_count h. i \<noteq> j \<and> hop_used h i = Some (k, v'))" using key by blast
    then show ?thesis using True unfolding c(1) ex by simp
  next
    case False
    then show ?thesis using abs_iff [OF h, of k' v'] j(2) unfolding c(1) ex by auto
  qed
qed

lemma abs_move:
  assumes h: "hop_data hf h" "hop_shape h" and g: "hop_data hf g" "same_table h g"
    and u: "\<And>i. i < bucket_count h \<Longrightarrow> hop_used g i = ((hop_used h)(dst := hop_used h src, src := None)) i"
    and j: "src < bucket_count h" "dst < bucket_count h" "hop_used h dst = None"
  shows "hop_abs g = hop_abs h"
proof (rule abs_eqI [OF g(1)])
  note c = same_table_counts [OF g(2)]
  show "hop_shape g" using c h by simp
  fix k' v'
  show "hop_abs h k' = Some v' \<longleftrightarrow> (\<exists>i < bucket_count g. hop_used g i = Some (k', v'))"
  proof
    assume "hop_abs h k' = Some v'"
    then obtain i where i: "i < bucket_count h" "hop_used h i = Some (k', v')" using abs_iff [OF h] by blast
    show "\<exists>i < bucket_count g. hop_used g i = Some (k', v')"
    proof (cases "i = src")
      case True
      then have "src \<noteq> dst" using i j by auto
      then have "hop_used g dst = Some (k', v')" using u [OF j(2)] True i by simp
      then show ?thesis using j c by auto
    next
      case False
      then have "hop_used g i = Some (k', v')" using u [OF i(1)] i j by (cases "i = dst") auto
      then show ?thesis using i c by auto
    qed
  next
    assume "\<exists>i < bucket_count g. hop_used g i = Some (k', v')"
    then show "hop_abs h k' = Some v'" using abs_iff [OF h] u j unfolding c(1) by (auto split: if_splits)
  qed
qed

end
