(* ===== verification/Hop_Operations.thy ===== *)
theory Hop_Operations
  imports Hop_Contents
begin

text \<open>
  The operations of the hash table keep its invariant and act on the map it stands for as the
  operations of a map do: lookup, insertion with its relocations, and removal.
\<close>

section \<open>Transactions\<close>

lemma run_stores_simps [simp]: "run_stores [] h = h" "run_stores (st # sts) h = run_stores sts (st h)"
  by (simp_all add: run_stores_def)

lemma run_stores_append: "run_stores (xs @ ys) h = run_stores ys (run_stores xs h)"
  by (simp add: run_stores_def)

lemmas store_defs = owner_update_def state_set_def content_erase_def content_share_def content_construct_def

lemma size_change:
  assumes "hp_size h = c * 2 ^ 8" "c \<le> 2 ^ 32"
  shows "vu_stabilize (vu_destabilize (hp_size h)) = c * 2 ^ 8"
    "vu_stabilize (vu_incr 8 (vu_destabilize (hp_size h))) = Suc c * 2 ^ 8"
    "0 < c \<Longrightarrow> vu_stabilize (vu_decr 8 (vu_destabilize (hp_size h))) = (c - 1) * 2 ^ 8"
proof -
  have "c * 2 ^ 8 + 2 * 2 ^ 8 < W64" using assms(2) by simp
  from vu_change [OF _ this] assms(1)
  show "vu_stabilize (vu_destabilize (hp_size h)) = c * 2 ^ 8"
    "vu_stabilize (vu_incr 8 (vu_destabilize (hp_size h))) = Suc c * 2 ^ 8"
    "0 < c \<Longrightarrow> vu_stabilize (vu_decr 8 (vu_destabilize (hp_size h))) = (c - 1) * 2 ^ 8" by simp_all
qed

subsection \<open>Insertion\<close>

lemma emplace_effect:
  fixes shl and kv :: "'k \<times> 'v"
  assumes len: "length (hp_buckets h) = B" and b: "ow < B" "dst < B"
  defines "g \<equiv> run_stores (emplace_stores shl ow dst B kv) h"
  shows "same_table h g" "hop_own g = (hop_own h)(ow := owner_insert shl (hop_distance_wrapped B ow dst) (hop_own h ow))"
    "hop_used g = (hop_used h)(dst := Some kv)" "hp_size g = vu_stabilize (vu_incr 8 (vu_destabilize (hp_size h)))"
    "bk_state (bk g i) = IN_USE \<Longrightarrow> bk_value (bk g i) \<noteq> None \<or> (bk_state (bk h i) = IN_USE \<and> bk_value (bk h i) = None)"
  using assms
  by (auto simp: g_def emplace_stores_def same_table_def store_defs hop_own_def hop_used_def bk_used_def fun_eq_iff split: if_splits)

lemma emplace_stores_correct:
  fixes shl and v :: 'v
  assumes inv: "hop_inv hf h" and free: "dst < bucket_count h" "hop_used h dst = None"
    and near: "hop_dist (bucket_count h) (hf k mod bucket_count h) dst < 64" and fresh: "hop_abs h k = None"
  defines "g \<equiv> run_stores (emplace_stores shl (hf k mod bucket_count h) dst (bucket_count h) (k, v)) h"
  shows "hop_inv hf g" "hop_abs g = (hop_abs h)(k \<mapsto> v)" "same_table h g"
proof -
  let ?B = "bucket_count h" and ?o = "hf k mod bucket_count h"
  note h = hop_invD [OF inv]
  have B: "?B \<le> 2 ^ 32" using hop_shape_size(3) [OF h(1)] .
  have o: "?o < ?B" using free(1) by (simp add: order_le_less_trans [of 0 dst])
  note e = emplace_effect [OF h(5) o free(1), of shl "(k, v)", folded g_def]
  have dist: "hop_distance_wrapped ?B ?o dst = hop_dist ?B ?o dst" by (rule distance_wrapped_dist [OF o free(1) B])
  have "hop_used h i \<noteq> Some (k, w)" if "i < ?B" for i w using that fresh abs_None_iff [OF h(2,1)] by blast
  then have "hop_content hf ?B (hop_own g) (hop_used g)"
    unfolding e(2,3) dist using contents_insert [OF h(3) free near] by blast
  moreover have "bk_state (bk g i) = IN_USE \<Longrightarrow> bk_value (bk g i) \<noteq> None" if "i < ?B" for i
    using e(5) [of i] h(2) that unfolding hop_data_def by blast
  ultimately have d: "hop_data hf g" using data_step [OF e(1), of hf "hop_own g" "hop_used g"] by blast
  show "same_table h g" by (rule e(1))
  have "used_count ?B (hop_used g) = Suc (used_count ?B (hop_used h))" unfolding e(3) by (rule used_count_Some [where u = "hop_used h"]) (use free in auto)
  then have "hp_size g = 256 * used_count ?B (hop_used g)"
    using e(4) size_change(2) [OF h(4)] used_count_le [of ?B "hop_used h"] B by simp
  then show "hop_inv hf g" using inv_step [OF inv e(1) d] by blast
  show "hop_abs g = (hop_abs h)(k \<mapsto> v)" by (rule abs_insert [OF h(2,1) d e(1) _ free fresh]) (simp add: e(3))
qed

subsection \<open>Relocation\<close>

lemma move_effect:
  fixes shl and q p :: nat
  assumes len: "length (hp_buckets h) = B" and b: "ow < B" "src < B" "dst < B"
    and st: "bk_state (bk h src) = IN_USE" "bk_state (bk h dst) = FREE"
  defines "g \<equiv> run_stores (move_stores shl ow src dst q p) h"
  shows "same_table h g" "hop_own g = (hop_own h)(ow := owner_move shl q p (hop_own h ow))"
    "hop_used g = (hop_used h)(dst := hop_used h src, src := None)" "hp_size g = vu_stabilize (vu_destabilize (hp_size h))"
    "bk_state (bk g i) = IN_USE \<Longrightarrow> i = dst \<and> bk_value (bk g i) = bk_value (bk h src) \<or> bk_state (bk h i) = IN_USE \<and> bk_value (bk g i) = bk_value (bk h i)"
    "bk_state (bk g src) = FREE"
proof -
  have ne: "src \<noteq> dst" using st by auto
  show "same_table h g" "hop_own g = (hop_own h)(ow := owner_move shl q p (hop_own h ow))"
    "hop_used g = (hop_used h)(dst := hop_used h src, src := None)" "hp_size g = vu_stabilize (vu_destabilize (hp_size h))"
    "bk_state (bk g i) = IN_USE \<Longrightarrow> i = dst \<and> bk_value (bk g i) = bk_value (bk h src) \<or> bk_state (bk h i) = IN_USE \<and> bk_value (bk g i) = bk_value (bk h i)"
    "bk_state (bk g src) = FREE"
    using assms ne
    by (auto simp: g_def move_stores_def same_table_def store_defs hop_own_def hop_used_def bk_used_def fun_eq_iff bk_def [symmetric] split: if_splits)
qed

lemma used_SomeD: "hop_used h i = Some x \<Longrightarrow> bk_state (bk h i) = IN_USE \<and> bk_value (bk h i) = Some x"
  by (auto simp: hop_used_def bk_used_def split: if_splits)

lemma used_None_iff: "hop_data hf h \<Longrightarrow> i < bucket_count h \<Longrightarrow> hop_used h i = None \<longleftrightarrow> bk_state (bk h i) = FREE"
  unfolding hop_data_def by (cases "bk_state (bk h i)") (auto simp: hop_used_def bk_used_def)

lemma move_stores_correct:
  fixes shl
  assumes inv: "hop_inv hf h" and src: "src < bucket_count h" "hop_used h src = Some (k, v)"
    and dst: "dst < bucket_count h" "hop_used h dst = None"
    and near: "hop_dist (bucket_count h) (hf k mod bucket_count h) dst < 64"
  defines "g \<equiv> run_stores (move_stores shl (hf k mod bucket_count h) src dst
    (hop_dist (bucket_count h) (hf k mod bucket_count h) dst) (hop_dist (bucket_count h) (hf k mod bucket_count h) src)) h"
  shows "hop_inv hf g" "hop_abs g = hop_abs h" "same_table h g" "hop_used g src = None"
proof -
  let ?B = "bucket_count h" and ?o = "hf k mod bucket_count h"
  note h = hop_invD [OF inv]
  have B: "?B \<le> 2 ^ 32" using hop_shape_size(3) [OF h(1)] .
  have o: "?o < ?B" using src(1) by (simp add: order_le_less_trans [of 0 src])
  have st: "bk_state (bk h src) = IN_USE" "bk_state (bk h dst) = FREE" "bk_value (bk h src) = Some (k, v)"
    using used_SomeD [OF src(2)] used_None_iff [OF h(2) dst(1)] dst(2) by auto
  note e = move_effect [OF h(5) o src(1) dst(1) st(1,2), of shl "hop_dist ?B ?o dst" "hop_dist ?B ?o src", folded g_def]
  have c: "hop_content hf ?B (hop_own g) (hop_used g)"
    unfolding e(2,3) src(2) by (rule contents_move [OF h(3) src dst near])
  have "bk_state (bk g i) = IN_USE \<Longrightarrow> bk_value (bk g i) \<noteq> None" if i: "i < ?B" for i
    using e(5) [of i] h(2) i st(3) unfolding hop_data_def by auto
  then have d: "hop_data hf g" using data_step [OF e(1) c] by blast
  show "same_table h g" "hop_used g src = None" by (rule e(1), simp add: e(3))
  have "src \<noteq> dst" using src dst by auto
  have "Suc (used_count ?B (hop_used g)) = used_count ?B ((hop_used h)(dst := Some (k, v)))"
    unfolding e(3) src(2) by (rule used_count_None) (use src \<open>src \<noteq> dst\<close> in auto)
  also have "\<dots> = Suc (used_count ?B (hop_used h))" by (rule used_count_Some) (use dst in auto)
  finally have "hp_size g = 256 * used_count ?B (hop_used g)"
    using e(4) size_change(1) [OF h(4)] used_count_le [of ?B "hop_used h"] B by simp
  then show "hop_inv hf g" using inv_step [OF inv e(1) d] by blast
  show "hop_abs g = hop_abs h" by (rule abs_move [OF h(2,1) d e(1) _ src(1) dst]) (simp add: e(3))
qed

section \<open>Making room\<close>

lemma nat_mod_add_cancel: "((a::nat) + d) mod m = (b + d) mod m \<longleftrightarrow> a mod m = b mod m"
proof -
  have "(int a + int d) mod int m = (int b + int d) mod int m \<longleftrightarrow> int a mod int m = int b mod int m"
    by (simp add: mod_eq_dvd_iff)
  then show ?thesis by (metis of_nat_add of_nat_eq_iff of_nat_mod)
qed

lemma hop_dist_back:
  assumes "i < B" "x < B" "q < B" "p \<le> q" "q - p \<le> hop_dist B i ((x + q) mod B)"
  shows "hop_dist B i ((x + p) mod B) = hop_dist B i ((x + q) mod B) - (q - p)"
proof -
  let ?D = "hop_dist B i ((x + q) mod B)"
  have "0 < B" using assms(1) by simp
  then have "(i + ?D) mod B = (x + q) mod B" using add_hop_dist [OF assms(1)] by simp
  moreover have "i + ?D = (i + (?D - (q - p))) + (q - p)" "x + q = (x + p) + (q - p)" using assms by simp_all
  ultimately have "(i + (?D - (q - p))) mod B = (x + p) mod B" by (metis nat_mod_add_cancel)
  moreover have "?D - (q - p) < B" using hop_dist_less [OF \<open>0 < B\<close>, of i "(x + q) mod B"] by simp
  ultimately show ?thesis using hop_dist_add [OF assms(1)] by metis
qed

lemma nearest_free_bucket_spec:
  assumes inv: "hop_inv hf h" and bi: "bi < bucket_count h"
  obtains i where "nearest_free_bucket bi h = Inr i" "i < bucket_count h" "hop_used h i = None"
  | "nearest_free_bucket bi h = Inl Range_error" "\<forall>i < bucket_count h. hop_used h i \<noteq> None"
proof (cases "List.find (hop_is_free h) (map (\<lambda>d. (bi + d) mod bucket_count h) [0..<bucket_count h])")
  case None
  have "hop_used h i \<noteq> None" if i: "i < bucket_count h" for i
  proof -
    have "0 < bucket_count h" using i by simp
    then have "hop_dist (bucket_count h) bi i \<in> set [0..<bucket_count h]" using hop_dist_less by simp
    moreover have "i = (bi + hop_dist (bucket_count h) bi i) mod bucket_count h" using add_hop_dist [OF bi i] by simp
    ultimately have "i \<in> set (map (\<lambda>d. (bi + d) mod bucket_count h) [0..<bucket_count h])" by force
    then have "\<not> hop_is_free h i" using None unfolding find_None_iff by blast
    then show ?thesis using used_None_iff [OF hop_invD(2) [OF inv] i] by (simp add: hop_is_free_def bk_def)
  qed
  then show thesis using that(2) None by (simp add: nearest_free_bucket_def)
next
  case (Some i)
  then have "hop_is_free h i" "i < bucket_count h" using bi by (auto simp: find_Some_iff order_le_less_trans [of 0 bi])
  then show thesis using that(1) Some used_None_iff [OF hop_invD(2) [OF inv], of i] by (simp add: nearest_free_bucket_def hop_is_free_def bk_def)
qed

text \<open>What the search for a relocation finds: an element nearer to its owner than the free bucket.\<close>

lemma find_mover_spec:
  assumes inv: "hop_inv hf h" and dst: "dst < bucket_count h" "hop_used h dst = None"
    and found: "find_mover shl dst h = Some (ow, c)"
  defines "p \<equiv> rightmost_one_pos c"
  obtains k v q where "c \<noteq> 0" "p < 64" "ow < bucket_count h" "hop_used h ((ow + p) mod bucket_count h) = Some (k, v)"
    "hf k mod bucket_count h = ow" "q < 64" "p < q" "(ow + q) mod bucket_count h = dst"
proof -
  let ?B = "bucket_count h"
  note h = hop_invD [OF inv]
  have B: "128 \<le> ?B" using hop_shape_size(2) [OF h(1)] .
  obtain j where j: "j < 63" "ow = (dst + ?B - 63 + j) mod ?B" "c = hop_own h ow AND drop_bit j (mask_all_ones shl)" "c \<noteq> 0"
    using found unfolding find_mover_def find_Some_iff by (auto simp: Let_def hop_own_def bk_def)
  have p: "bit c p" "p < 64" using rightmost_one_pos_bit [OF j(4)] by (simp_all add: p_def)
  have bp: "bit (hop_own h ow) p" "bit (mask_all_ones shl) (j + p)" using p(1) unfolding j(3) by (simp_all add: bit_and_iff bit_drop_bit_eq)
  have le: "p \<le> 63 - j" using owner_bit_less [OF bp(2)] by simp
  have ow: "ow < ?B" using B j(2) by simp
  have "(ow + (63 - j)) mod ?B = (dst + ?B - 63 + j + (63 - j)) mod ?B" unfolding j(2) by (simp add: mod_add_left_eq)
  also have "dst + ?B - 63 + j + (63 - j) = dst + ?B" using B j(1) by simp
  finally have q: "(ow + (63 - j)) mod ?B = dst" using dst(1) by simp
  have own: "owned_as hf ?B ow (hop_used h ((ow + p) mod ?B))" using core_bit [OF content_core [OF h(3)] ow p(2)] bp(1) by simp
  then obtain k v where kv: "hop_used h ((ow + p) mod ?B) = Some (k, v)" "hf k mod ?B = ow" by (auto simp: owned_as_def)
  have "p \<noteq> 63 - j" using kv(1) q dst(2) by auto
  then have "p < 63 - j" using le by simp
  then show thesis using that [OF j(4) p(2) ow kv, of "63 - j"] q by simp
qed

lemma make_space_move:
  fixes shl and fuel :: nat and dbg :: bool
  assumes inv: "hop_inv hf h" and bi: "bi < bucket_count h" and dst: "dst < bucket_count h" "hop_used h dst = None"
    and far: "\<not> hop_dist (bucket_count h) bi dst < 64" and found: "find_mover shl dst h = Some (ow, c)"
  obtains k v src where "src < bucket_count h" "hop_used h src = Some (k, v)" "hop_dist (bucket_count h) (hf k mod bucket_count h) dst < 64"
    "hop_dist (bucket_count h) bi src < hop_dist (bucket_count h) bi dst"
    "make_space_for_insert (Suc fuel) dbg shl bi dst h = make_space_for_insert fuel dbg shl bi src
      (run_stores (move_stores shl (hf k mod bucket_count h) src dst (hop_dist (bucket_count h) (hf k mod bucket_count h) dst)
        (hop_dist (bucket_count h) (hf k mod bucket_count h) src)) h)"
proof -
  let ?B = "bucket_count h"
  note h = hop_invD [OF inv]
  have B: "?B \<le> 2 ^ 32" "128 \<le> ?B" using hop_shape_size(2,3) [OF h(1)] by simp_all
  define p where "p = rightmost_one_pos c"
  obtain k v q where m: "c \<noteq> 0" "p < 64" "ow < ?B" "hop_used h ((ow + p) mod ?B) = Some (k, v)"
    "hf k mod ?B = ow" "q < 64" "p < q" "(ow + q) mod ?B = dst"
    using find_mover_spec [OF inv dst found] unfolding p_def by metis
  define src where "src = (ow + p) mod ?B"
  have src: "src < ?B" "hop_used h src = Some (k, v)" using m(3,4) B by (simp_all add: src_def)
  have pd: "hop_dist ?B ow src = p" "hop_dist ?B ow dst = q"
    using hop_dist_add [OF m(3), of p] hop_dist_add [OF m(3), of q] m(2,6,8) B by (simp_all add: src_def)
  have "hop_dist ?B bi src = hop_dist ?B bi dst - (q - p)"
    using hop_dist_back [OF bi m(3), of q p] m B far unfolding src_def by simp
  then have closer: "hop_dist ?B bi src < hop_dist ?B bi dst" using far m(7) by simp
  have w: "hop_distance_wrapped ?B ow dst = q" "hop_distance_wrapped ?B bi dst = hop_dist ?B bi dst"
    using distance_wrapped_dist [OF _ dst(1) B(1)] m(3) bi pd by simp_all
  have st: "hop_is_free h dst" "\<not> hop_is_free h src"
    using used_None_iff [OF h(2) dst(1)] dst(2) used_SomeD [OF src(2)] by (simp_all add: hop_is_free_def bk_def)
  have "make_space_for_insert (Suc fuel) dbg shl bi dst h = make_space_for_insert fuel dbg shl bi src (run_stores (move_stores shl ow src dst q p) h)"
    using far w found st m(1,2,6) by (simp add: Let_def p_def [symmetric] src_def [symmetric] assert_res_holds)
  then show thesis using that [OF src _ closer] m(5,6) pd by simp
qed

lemma make_space_near:
  assumes "hop_inv hf h" "bi < bucket_count h" "dst < bucket_count h" "hop_dist (bucket_count h) bi dst < 64 \<or> find_mover shl dst h = None"
  shows "make_space_for_insert (Suc fuel) dbg shl bi dst h = (if hop_dist (bucket_count h) bi dst < 64 then Inr dst else Inl Range_error, h)"
  using assms distance_wrapped_dist [OF assms(2,3) hop_shape_size(3) [OF hop_invD(1) [OF assms(1)]]] by auto

lemma make_space_correct:
  assumes "hop_inv hf h" "bi < bucket_count h" "dst < bucket_count h" "hop_used h dst = None"
    and "hop_dist (bucket_count h) bi dst < fuel"
  shows "\<exists>r g. make_space_for_insert fuel dbg shl bi dst h = (r, g) \<and> hop_inv hf g \<and> hop_abs g = hop_abs h \<and> same_table h g \<and>
    (r = Inl Range_error \<or> (\<exists>d < bucket_count h. r = Inr d \<and> hop_used g d = None \<and> hop_dist (bucket_count h) bi d < 64))"
  using assms
proof (induction fuel arbitrary: h dst)
  case (Suc fuel)
  let ?B = "bucket_count h"
  show ?case
  proof (cases "hop_dist ?B bi dst < 64 \<or> find_mover shl dst h = None")
    case True
    then show ?thesis using make_space_near [OF Suc.prems(1-3) True, of fuel dbg] Suc.prems by auto
  next
    case False
    then obtain ow c where far: "\<not> hop_dist ?B bi dst < 64" "find_mover shl dst h = Some (ow, c)" by auto
    obtain k v src where m: "src < ?B" "hop_used h src = Some (k, v)" "hop_dist ?B (hf k mod ?B) dst < 64" "hop_dist ?B bi src < hop_dist ?B bi dst"
      "make_space_for_insert (Suc fuel) dbg shl bi dst h = make_space_for_insert fuel dbg shl bi src
        (run_stores (move_stores shl (hf k mod ?B) src dst (hop_dist ?B (hf k mod ?B) dst) (hop_dist ?B (hf k mod ?B) src)) h)"
      using make_space_move [OF Suc.prems(1-4) far] by metis
    define g where "g = run_stores (move_stores shl (hf k mod ?B) src dst (hop_dist ?B (hf k mod ?B) dst) (hop_dist ?B (hf k mod ?B) src)) h"
    note mv = move_stores_correct [OF Suc.prems(1) m(1,2) Suc.prems(3,4) m(3), of shl, folded g_def]
    note same = same_table_counts [OF mv(3)]
    have "hop_dist (bucket_count g) bi src < fuel" using Suc.prems(5) m(4) same by simp
    then obtain r f where rf: "make_space_for_insert fuel dbg shl bi src g = (r, f)" "hop_inv hf f" "hop_abs f = hop_abs g" "same_table g f"
      "r = Inl Range_error \<or> (\<exists>d < ?B. r = Inr d \<and> hop_used f d = None \<and> hop_dist ?B bi d < 64)"
      using Suc.IH [of g src] mv Suc.prems(2) m(1) unfolding same by blast
    then show ?thesis using mv same_table_trans [OF mv(3) rf(4)] m(5) g_def by auto
  qed
qed simp

section \<open>Removal and lookup\<close>

text \<open>
  Removal takes the position in the owner word from the difference of the two indexes, which is
  negative when the neighbourhood wraps around the end of the table. The result is right where a
  shift takes its amount modulo 64, as the x86 instruction does. The shift by 64 itself, which the
  mask of all ones needs, may have any result.
\<close>

lemma erase_position:
  assumes shl: "\<And>p. 64 < p \<Longrightarrow> shl p = push_bit (p mod 64) 1"
    and B: "B dvd 2 ^ 32" "64 dvd B" "64 < B" and b: "ow < B" "src < B" and near: "hop_dist B ow src < 64"
  shows "mask_from_pos shl (sub64 src ow mod 2 ^ 32) = mask_from_pos shl (hop_dist B ow src)"
proof -
  have m: "mask_from_pos shl p = push_bit (p mod 64) 1" if "p \<noteq> 64" for p
    using shl [of p] that by (cases "p < 64") (simp_all add: mask_from_pos_def)
  have "B \<le> 2 ^ 32" using B(1) by (auto dest: dvd_imp_le)
  then have lt: "src < W64" "ow < W64" using b by simp_all
  obtain x where x: "(2::nat) ^ 32 = B * x" using B(1) by (auto simp: dvd_def)
  then have W: "W64 = B * (x * 2 ^ 32)" by (simp add: mult.assoc [symmetric] x [symmetric])
  have "(sub64 src ow mod 2 ^ 32) mod B = sub64 src ow mod B" using B(1) by (rule mod_mod_cancel)
  also have "\<dots> = (src + B - ow) mod B"
  proof -
    have "sub64 src ow mod B = (src + W64 - ow) mod B"
    proof -
      have "B dvd W64" unfolding W by (rule dvd_triv_left)
      then show ?thesis using lt by (simp add: sub64_def mod_mod_cancel)
    qed
    moreover have "src + W64 - ow = (src + B - ow) + B * (x * 2 ^ 32 - 1)"
    proof -
      have "0 < x" using x by (cases x) simp_all
      then obtain z where z: "x * 2 ^ 32 = Suc z" by (metis gr0_implies_Suc nat_0_less_mult_iff zero_less_numeral zero_less_power)
      show ?thesis using W b unfolding z by simp
    qed
    ultimately show ?thesis by simp
  qed
  finally have e: "(sub64 src ow mod 2 ^ 32) mod B = hop_dist B ow src" by (simp add: hop_dist_def)
  then have "(sub64 src ow mod 2 ^ 32) mod 64 = hop_dist B ow src mod 64" using B(2) by (metis mod_mod_cancel)
  moreover have "sub64 src ow mod 2 ^ 32 \<noteq> 64" using e near B(3) by (metis mod_less nat_neq_iff)
  ultimately show ?thesis using m near by simp
qed

lemma erase_effect:
  fixes shl
  assumes len: "length (hp_buckets h) = B" and b: "ow < B" "src < B" and st: "bk_state (bk h src) = IN_USE"
  defines "g \<equiv> run_stores (erase_stores shl ow src) h"
  shows "same_table h g" "hop_own g = (hop_own h)(ow := owner_erase shl (sub64 src ow mod 2 ^ 32) (hop_own h ow))"
    "hop_used g = (hop_used h)(src := None)" "hp_size g = vu_stabilize (vu_decr 8 (vu_destabilize (hp_size h)))"
    "bk_state (bk g i) = IN_USE \<Longrightarrow> bk_state (bk h i) = IN_USE \<and> bk_value (bk g i) = bk_value (bk h i)"
  using assms
  by (auto simp: g_def erase_stores_def same_table_def store_defs hop_own_def hop_used_def bk_used_def fun_eq_iff split: if_splits)

lemma shape_dvd:
  assumes "hop_shape h"
  shows "bucket_count h dvd 2 ^ 32" "64 dvd bucket_count h" "64 < bucket_count h"
proof -
  obtain m where m: "bucket_count h = 2 ^ m" using hop_shape_size(1) [OF assms] by blast
  have "m \<le> 32" using hop_shape_size(3) [OF assms] m by (metis one_less_numeral_iff power_le_imp_le_exp semiring_norm(76))
  then show "bucket_count h dvd 2 ^ 32" unfolding m by (rule le_imp_power_dvd)
  have "\<not> m < 6" using hop_shape_size(2) [OF assms] m power_strict_increasing [of m 6 "2::nat"] by auto
  then have "(2::nat) ^ 6 dvd 2 ^ m" by (intro le_imp_power_dvd) simp
  then show "64 dvd bucket_count h" using m by simp
  show "64 < bucket_count h" using hop_shape_size(2) [OF assms] by simp
qed

lemma erase_stores_correct:
  assumes shl: "\<And>p. 64 < p \<Longrightarrow> shl p = push_bit (p mod 64) 1"
    and inv: "hop_inv hf h" and src: "src < bucket_count h" "hop_used h src = Some (k, v)"
  defines "g \<equiv> run_stores (erase_stores shl (hf k mod bucket_count h) src) h"
  shows "hop_inv hf g" "hop_abs g = (hop_abs h)(k := None)" "same_table h g"
proof -
  let ?B = "bucket_count h" and ?o = "hf k mod bucket_count h"
  note h = hop_invD [OF inv]
  have B: "?B \<le> 2 ^ 32" using hop_shape_size(3) [OF h(1)] .
  have o: "?o < ?B" using src(1) by (simp add: order_le_less_trans [of 0 src])
  note e = erase_effect [OF h(5) o src(1) conjunct1 [OF used_SomeD [OF src(2)]], of shl, folded g_def]
  have "owner_erase shl (sub64 src ?o mod 2 ^ 32) = owner_erase shl (hop_dist ?B ?o src)"
    using erase_position [OF shl shape_dvd [OF h(1)] o src(1) core_near(1) [OF content_core [OF h(3)] src]] by (auto simp: owner_erase_def fun_eq_iff)
  then have c: "hop_content hf ?B (hop_own g) (hop_used g)"
    unfolding e(2,3) using contents_erase [OF h(3) src, of shl] by simp
  have "bk_state (bk g i) = IN_USE \<Longrightarrow> bk_value (bk g i) \<noteq> None" if i: "i < ?B" for i
    using e(5) [of i] h(2) i unfolding hop_data_def by auto
  then have d: "hop_data hf g" using data_step [OF e(1) c] by blast
  show "same_table h g" by (rule e(1))
  have "Suc (used_count ?B (hop_used g)) = used_count ?B (hop_used h)"
    unfolding e(3) by (rule used_count_None) (use src in auto)
  then have "hp_size g = 256 * used_count ?B (hop_used g)"
    using e(4) size_change(3) [OF h(4)] used_count_le [of ?B "hop_used h"] B by simp
  then show "hop_inv hf g" using inv_step [OF inv e(1) d] by blast
  show "hop_abs g = (hop_abs h)(k := None)" by (rule abs_erase [OF h(2,1) d e(1) _ src]) (simp add: e(3))
qed

lemma hop_erase_correct:
  assumes shl: "\<And>p. 64 < p \<Longrightarrow> shl p = push_bit (p mod 64) 1" and inv: "hop_inv hf h"
  shows "\<exists>g. hop_erase hf shl k h = (Inr (if hop_abs h k = None then 0 else 1), g) \<and> hop_inv hf g \<and>
    hop_abs g = (hop_abs h)(k := None) \<and> same_table h g"
proof -
  note h = hop_invD [OF inv]
  have ix: "bucket_ix h (hf k) = hf k mod bucket_count h" by (rule bucket_ix_mod [OF h(1)])
  from h(2,1) show ?thesis
  proof (cases rule: locate_key_spec [where k = k, case_names found absent])
    case (found j v)
    note e = erase_stores_correct [OF shl inv found(2,3)]
    show ?thesis using found(1,4) e unfolding ix by (simp add: hop_erase_def ix)
  next
    case absent
    then show ?thesis using inv by (auto simp: hop_erase_def fun_upd_idem_iff intro!: exI [of _ h])
  qed
qed

lemma hop_at_correct:
  assumes inv: "hop_inv hf h"
  shows "hop_at hf k h = (case hop_abs h k of Some v \<Rightarrow> Inr v | None \<Rightarrow> Inl Out_of_range)"
proof -
  note h = hop_invD [OF inv]
  from h(2,1) show ?thesis
  proof (cases rule: locate_key_spec [where k = k, case_names found absent])
    case (found j v)
    then show ?thesis using used_SomeD [OF found(3)] by (simp add: hop_at_def bk_def)
  next
    case absent
    then show ?thesis by (simp add: hop_at_def)
  qed
qed

text \<open>The number of elements is the number of keys.\<close>

lemma used_count_keys:
  assumes "hop_data hf h" "hop_shape h"
  shows "used_count (bucket_count h) (hop_used h) = card (dom (hop_abs h))"
proof -
  let ?U = "{i. i < bucket_count h \<and> hop_used h i \<noteq> None}"
  have c: "hop_content hf (bucket_count h) (hop_own h) (hop_used h)" using assms(1) by (simp add: hop_data_content)
  have "bij_betw (\<lambda>i. fst (the (hop_used h i))) ?U (dom (hop_abs h))"
  proof (rule bij_betw_imageI)
    show "inj_on (\<lambda>i. fst (the (hop_used h i))) ?U"
    proof (rule inj_onI)
      fix i j assume a: "i \<in> ?U" "j \<in> ?U" "fst (the (hop_used h i)) = fst (the (hop_used h j))"
      then obtain k v w where "hop_used h i = Some (k, v)" "hop_used h j = Some (k, w)" by auto
      then show "i = j" using content_key [OF c] a by blast
    qed
    show "(\<lambda>i. fst (the (hop_used h i))) ` ?U = dom (hop_abs h)"
      using abs_iff [OF assms] by (force simp: dom_def image_iff)
  qed
  then show ?thesis unfolding used_count_def by (rule bij_betw_same_card)
qed

lemma hop_size_correct: "hop_inv hf h \<Longrightarrow> hop_size dbg h = Inr (card (dom (hop_abs h)))"
  using used_count_keys [of hf h] unfolding hop_inv_iff by (simp add: hop_size_def vu_is_stable_def vu_value_not_stable_def)

section \<open>Placing an element\<close>

lemma place_correct:
  assumes inv: "hop_inv hf h" and fresh: "hop_abs h k = None"
  shows "\<exists>r g. place dbg shl (bucket_ix h (hf k)) (k, v) h = (r, g) \<and> hop_inv hf g \<and> same_table h g \<and>
    (r = Inl Range_error \<and> hop_abs g = hop_abs h \<or>
     (\<exists>d < bucket_count h. r = Inr d \<and> hop_used g d = Some (k, v) \<and> hop_abs g = (hop_abs h)(k \<mapsto> v)))"
proof -
  let ?B = "bucket_count h" and ?o = "hf k mod bucket_count h"
  note h = hop_invD [OF inv]
  have B: "128 \<le> ?B" using hop_shape_size(2) [OF h(1)] .
  then have o: "?o < ?B" by simp
  have ix: "bucket_ix h (hf k) = ?o" by (rule bucket_ix_mod [OF h(1)])
  from inv o show ?thesis
  proof (cases rule: nearest_free_bucket_spec [case_names free full])
    case (free b)
    have "hop_dist ?B ?o b < ?B" using hop_dist_less B by simp
    from make_space_correct [OF inv o free(2,3) this, of dbg shl]
    obtain r g where ms: "make_space_for_insert ?B dbg shl ?o b h = (r, g)" "hop_inv hf g" "hop_abs g = hop_abs h" "same_table h g"
      "r = Inl Range_error \<or> (\<exists>d < ?B. r = Inr d \<and> hop_used g d = None \<and> hop_dist ?B ?o d < 64)" by blast
    note same = same_table_counts [OF ms(4)]
    from ms(5) show ?thesis
    proof
      assume "r = Inl Range_error"
      then show ?thesis using ms free(1) by (simp add: place_def ix)
    next
      assume "\<exists>d < ?B. r = Inr d \<and> hop_used g d = None \<and> hop_dist ?B ?o d < 64"
      then obtain d where d: "d < ?B" "r = Inr d" "hop_used g d = None" "hop_dist ?B ?o d < 64" by blast
      note e = emplace_stores_correct [OF ms(2), unfolded same, OF d(1,3,4), unfolded ms(3), OF fresh, of shl v]
      have fr: "hop_is_free g d" using used_None_iff [OF hop_invD(2) [OF ms(2)], of d] d same by (simp add: hop_is_free_def bk_def)
      have "hop_used (run_stores (emplace_stores shl ?o d ?B (k, v)) g) d = Some (k, v)"
        using emplace_effect(3) [of g ?B ?o d shl "(k, v)"] hop_invD(5) [OF ms(2)] same o d(1) by simp
      then show ?thesis using ms(1) d free(1) fr e same_table_trans [OF ms(4) e(3)] by (simp add: place_def ix ms(3))
    qed
  next
    case full
    then show ?thesis using inv by (simp add: place_def ix)
  qed
qed

end
