(* ===== verification/Hop_Resize.thy ===== *)
theory Hop_Resize
  imports Hop_Operations
begin

text \<open>
  Growing the hash table. The new segment is as large as all live ones; an element moves to the
  bucket of the same offset in the new segment, or stays, so that its distance from its owner in the
  larger table is what it was. The second pass changes the persistent state in small steps: the
  relation \<open>resizing\<close> holds of every state it can leave behind, and running the pass again from any
  of them completes the resize.
\<close>

section \<open>Where elements go\<close>

definition resize_moves :: "('k \<Rightarrow> nat) \<Rightarrow> nat \<Rightarrow> (nat \<Rightarrow> ('k \<times> 'v) option) \<Rightarrow> nat \<Rightarrow> bool" where
  "resize_moves hf B u ix \<longleftrightarrow> (\<exists>k v. u ix = Some (k, v) \<and> must_move B ix (hf k mod (2 * B)))"

definition resize_reowned :: "('k \<Rightarrow> nat) \<Rightarrow> nat \<Rightarrow> (nat \<Rightarrow> ('k \<times> 'v) option) \<Rightarrow> nat \<Rightarrow> nat \<Rightarrow> bool" where
  "resize_reowned hf B u i p \<longleftrightarrow> (\<exists>k v. u ((i + p) mod B) = Some (k, v) \<and> hf k mod B = i \<and> hf k mod (2 * B) \<noteq> i)"

lemma mod_double: "0 < (B::nat) \<Longrightarrow> x mod (2 * B) = x mod B \<or> x mod (2 * B) = x mod B + B"
proof -
  assume B: "0 < B"
  have "x mod (2 * B) mod B = x mod B" by (simp add: mod_mod_cancel)
  moreover have "x mod (2 * B) < 2 * B" using B by simp
  ultimately show ?thesis by (cases "x mod (2 * B) < B") (auto simp: le_mod_geq not_less)
qed

text \<open>
  The test of the first pass is exact: an element moves if it stays with its owner and wrapped
  around, or changes its owner and did not.
\<close>

lemma must_move_exact:
  assumes B: "128 \<le> B" and ix: "ix < B" "o' < B" and near: "hop_dist B o' ix < 64" and x: "x = o' \<or> x = o' + B"
  shows "must_move B ix x \<longleftrightarrow> (x = o' \<longleftrightarrow> ix < o')"
    "hop_dist (2 * B) x (if must_move B ix x then ix + B else ix) = hop_dist B o' ix"
proof -
  have d: "hop_dist B o' ix = (if ix < o' then ix + B - o' else ix - o')"
  proof (cases "ix < o'")
    case True
    then have "ix + B - o' < B" using ix by linarith
    then show ?thesis using True by (simp add: hop_dist_def)
  next
    case False
    then have e: "ix + B - o' = ix - o' + B" "ix - o' < B" using ix by linarith+
    have "(ix - o' + B) mod B = ix - o'" using e(2) by simp
    then show ?thesis using False unfolding hop_dist_def e(1) by simp
  qed
  show m: "must_move B ix x \<longleftrightarrow> (x = o' \<longleftrightarrow> ix < o')"
    using x near ix B unfolding d must_move_def by (auto split: if_splits)
  have wrap: "hop_dist (2 * B) a b = b - a" if "a \<le> b" "b < 2 * B" for a b
  proof -
    have "b + 2 * B - a = b - a + 2 * B" "b - a < 2 * B" using that by simp_all
    then show ?thesis unfolding hop_dist_def by (metis mod_add_self2 mod_less)
  qed
  show "hop_dist (2 * B) x (if must_move B ix x then ix + B else ix) = hop_dist B o' ix"
  proof (cases "x = o' + B \<and> ix < o'")
    case True
    then have "\<not> must_move B ix x" using m B by simp
    moreover have "ix + 2 * B - (o' + B) = ix + B - o'" "ix + B - o' < 2 * B" using True ix by linarith+
    ultimately show ?thesis using True d unfolding hop_dist_def [of "2 * B"] by simp
  next
    case False
    then show ?thesis using x ix B d wrap [of x "if must_move B ix x then ix + B else ix"] unfolding m by (auto split: if_splits)
  qed
qed

section \<open>The first pass\<close>

lemma pass1_spec:
  assumes val: "\<forall>i < B. bk_state (bk h i) = IN_USE \<longrightarrow> bk_value (bk h i) \<noteq> None"
    and shape: "hop_shape h" and B: "B = bucket_count h" and ixs: "set ixs \<subseteq> {..<B}" "distinct ixs" and len: "length jun = B"
  shows "\<exists>jun'. resize_pass1 hf h ixs jun = Inr jun' \<and> length jun' = B \<and>
    (\<forall>i < B. jun' ! i = (if i \<in> set ixs \<and> resize_moves hf B (hop_used h) i
       then (jun ! i)\<lparr>bk_state := IN_USE, bk_value := hop_used h i\<rparr> else jun ! i))"
  using ixs len
proof (induction ixs arbitrary: jun)
  case (Cons ix ixs)
  have ix: "ix < B" using Cons.prems by simp
  show ?case
  proof (cases "bk_state (bk h ix) = IN_USE")
    case True
    then obtain k v where kv: "bk_value (bk h ix) = Some (k, v)" using val ix by auto
    then have u: "hop_used h ix = Some (k, v)" using True by (simp add: hop_used_def bk_used_def)
    define jn where "jn = (if must_move B ix (hf k mod (2 * B)) then jun[ix := state_set IN_USE (content_share (bk h ix) (jun ! ix))] else jun)"
    have mv: "resize_moves hf B (hop_used h) ix \<longleftrightarrow> must_move B ix (hf k mod (2 * B))" using u by (simp add: resize_moves_def)
    have jn: "length jn = B" "\<And>i. i < B \<Longrightarrow> jn ! i = (if i = ix \<and> resize_moves hf B (hop_used h) ix then (jun ! i)\<lparr>bk_state := IN_USE, bk_value := hop_used h i\<rparr> else jun ! i)"
      using Cons.prems(3) mv u kv by (auto simp: jn_def state_set_def content_share_def nth_list_update)
    obtain jun' where j: "resize_pass1 hf h ixs jn = Inr jun'" "length jun' = B"
      "\<forall>i < B. jun' ! i = (if i \<in> set ixs \<and> resize_moves hf B (hop_used h) i
         then (jn ! i)\<lparr>bk_state := IN_USE, bk_value := hop_used h i\<rparr> else jn ! i)"
      using Cons.IH [OF _ _ jn(1)] Cons.prems by auto
    have "resize_pass1 hf h (ix # ixs) jun = Inr jun'"
      using j(1) True kv B bucket_expanded_ix_mod [OF shape] by (simp add: hop_is_free_def bk_def jn_def split: if_splits)
    moreover have "jun' ! i = (if i \<in> set (ix # ixs) \<and> resize_moves hf B (hop_used h) i
         then (jun ! i)\<lparr>bk_state := IN_USE, bk_value := hop_used h i\<rparr> else jun ! i)" if "i < B" for i
      using j(3) jn(2) [OF that] that Cons.prems by auto
    ultimately show ?thesis using j(2) by blast
  next
    case False
    then have free: "hop_is_free h ix" by (cases "bk_state (bk h ix)") (auto simp: hop_is_free_def bk_def)
    have "\<not> resize_moves hf B (hop_used h) ix" using False by (simp add: resize_moves_def hop_used_def bk_used_def)
    then show ?thesis using Cons.IH [of jun] Cons.prems free by auto
  qed
qed simp

section \<open>The second pass\<close>

text \<open>
  With respect to the table \<open>h\<close> at the start: the contents of the new segment are fixed, an element
  that moves may already be gone from its old bucket, and only the bits of elements that change their
  owner may differ.
\<close>

definition junior_ok :: "('k \<Rightarrow> nat) \<Rightarrow> ('k, 'v) hop \<Rightarrow> ('k, 'v) bucket \<Rightarrow> nat \<Rightarrow> bool" where
  "junior_ok hf h b ix \<longleftrightarrow>
     (if resize_moves hf (bucket_count h) (hop_used h) ix then bk_state b = IN_USE \<and> bk_value b = hop_used h ix
      else bk_state b = FREE \<and> bk_value b = None)"

definition senior_ok :: "('k \<Rightarrow> nat) \<Rightarrow> ('k, 'v) hop \<Rightarrow> ('k, 'v) bucket \<Rightarrow> nat \<Rightarrow> bool" where
  "senior_ok hf h b ix \<longleftrightarrow>
     (if resize_moves hf (bucket_count h) (hop_used h) ix
      then bk_state b = IN_USE \<and> bk_value b = hop_used h ix \<or> bk_state b = FREE \<and> bk_value b = None
      else bk_state b = bk_state (bk h ix) \<and> bk_value b = bk_value (bk h ix))"

definition owners_ok :: "('k \<Rightarrow> nat) \<Rightarrow> ('k, 'v) hop \<Rightarrow> owner \<Rightarrow> owner \<Rightarrow> nat \<Rightarrow> nat \<Rightarrow> bool" where
  "owners_ok hf h so jo i p \<longleftrightarrow> (\<not> resize_reowned hf (bucket_count h) (hop_used h) i p \<longrightarrow>
     (bit so p \<longleftrightarrow> bit (hop_own h i) p) \<and> \<not> bit jo p)"

definition resizing :: "('k \<Rightarrow> nat) \<Rightarrow> ('k, 'v) hop \<Rightarrow> ('k, 'v) hop \<Rightarrow> bool" where
  "resizing hf h f \<longleftrightarrow>
     hp_count f = Suc (hp_count h) \<and> length (hp_buckets f) = bucket_count h \<and> length (hp_junior f) = bucket_count h \<and>
     hp_size f = hp_size h \<and>
     (\<forall>ix < bucket_count h. junior_ok hf h (hp_junior f ! ix) ix \<and> senior_ok hf h (bk f ix) ix) \<and>
     (\<forall>i < bucket_count h. \<forall>p < 64. owners_ok hf h (bk_owner (bk f i)) (bk_owner (hp_junior f ! i)) i p)"

text \<open>What the iteration of an index achieves.\<close>

definition emptied :: "('k \<Rightarrow> nat) \<Rightarrow> ('k, 'v) hop \<Rightarrow> ('k, 'v) bucket \<Rightarrow> nat \<Rightarrow> bool" where
  "emptied hf h b ix \<longleftrightarrow> (resize_moves hf (bucket_count h) (hop_used h) ix \<longrightarrow> bk_state b = FREE \<and> bk_value b = None)"

definition reowned_bit :: "('k \<Rightarrow> nat) \<Rightarrow> ('k, 'v) hop \<Rightarrow> owner \<Rightarrow> owner \<Rightarrow> nat \<Rightarrow> nat \<Rightarrow> bool" where
  "reowned_bit hf h so jo i p \<longleftrightarrow> (resize_reowned hf (bucket_count h) (hop_used h) i p \<longrightarrow> \<not> bit so p \<and> bit jo p)"

definition resize_done :: "('k \<Rightarrow> nat) \<Rightarrow> ('k, 'v) hop \<Rightarrow> ('k, 'v) hop \<Rightarrow> nat \<Rightarrow> bool" where
  "resize_done hf h f ix \<longleftrightarrow> emptied hf h (bk f ix) ix \<and>
     (\<forall>i < bucket_count h. \<forall>p < 64. (i + p) mod bucket_count h = ix \<longrightarrow>
        reowned_bit hf h (bk_owner (bk f i)) (bk_owner (hp_junior f ! i)) i p)"

text \<open>A predicate that holds before, between and after the stores of a list.\<close>

fun stores_keep :: "('s \<Rightarrow> bool) \<Rightarrow> ('s \<Rightarrow> 's) list \<Rightarrow> 's \<Rightarrow> bool" where
  "stores_keep P [] h \<longleftrightarrow> P h"
| "stores_keep P (st # sts) h \<longleftrightarrow> P h \<and> stores_keep P sts (st h)"

lemma stores_keep_take: "stores_keep P sts h \<Longrightarrow> P (run_stores (take n sts) h)"
proof (induction sts arbitrary: h n)
  case (Cons st sts)
  then show ?case by (cases n) auto
qed simp

lemma stores_keep_append: "stores_keep P (xs @ ys) h \<longleftrightarrow> stores_keep P xs h \<and> stores_keep P ys (run_stores xs h)"
proof (induction xs arbitrary: h)
  case Nil
  then show ?case by (cases ys) auto
qed auto

definition resize_keeps :: "('k \<Rightarrow> nat) \<Rightarrow> ('k, 'v) hop \<Rightarrow> ('k, 'v) hop \<Rightarrow> ('k, 'v) hop \<Rightarrow> bool" where
  "resize_keeps hf h f g \<longleftrightarrow> resizing hf h g \<and> hp_auto_resize g = hp_auto_resize f \<and> (\<forall>ix. resize_done hf h f ix \<longrightarrow> resize_done hf h g ix)"

lemma junior_update_fields [simp]:
  "bk (junior_update i f h) = bk h" "hp_buckets (junior_update i f h) = hp_buckets h" "hp_count (junior_update i f h) = hp_count h"
  "hp_size (junior_update i f h) = hp_size h" "length (hp_junior (junior_update i f h)) = length (hp_junior h)"
  "hp_auto_resize (junior_update i f h) = hp_auto_resize h"
  by (simp_all add: junior_update_def bk_def fun_eq_iff)

lemma junior_update_nth [simp]:
  "hp_junior (junior_update i f h) ! j = (if j = i \<and> i < length (hp_junior h) then f (hp_junior h ! i) else hp_junior h ! j)"
  by (cases "i < length (hp_junior h)") (auto simp: junior_update_def list_update_beyond)

text \<open>A state whose every bucket is as good as in another one.\<close>

lemma keepsI:
  assumes k: "resize_keeps hf h f g"
    and fields: "hp_count g' = hp_count g" "length (hp_buckets g') = length (hp_buckets g)" "length (hp_junior g') = length (hp_junior g)" "hp_size g' = hp_size g"
      "hp_auto_resize g' = hp_auto_resize g"
    and jun: "\<And>ix. junior_ok hf h (hp_junior g ! ix) ix \<Longrightarrow> junior_ok hf h (hp_junior g' ! ix) ix"
    and sen: "\<And>ix. ix < bucket_count h \<Longrightarrow> senior_ok hf h (bk g ix) ix \<Longrightarrow> senior_ok hf h (bk g' ix) ix"
    and own: "\<And>i p. p < 64 \<Longrightarrow> owners_ok hf h (bk_owner (bk g i)) (bk_owner (hp_junior g ! i)) i p \<Longrightarrow>
      owners_ok hf h (bk_owner (bk g' i)) (bk_owner (hp_junior g' ! i)) i p"
    and emp: "\<And>ix. emptied hf h (bk g ix) ix \<Longrightarrow> emptied hf h (bk g' ix) ix"
    and reo: "\<And>i p. p < 64 \<Longrightarrow> reowned_bit hf h (bk_owner (bk g i)) (bk_owner (hp_junior g ! i)) i p \<Longrightarrow>
      reowned_bit hf h (bk_owner (bk g' i)) (bk_owner (hp_junior g' ! i)) i p"
  shows "resize_keeps hf h f g'"
proof -
  have "resizing hf h g" using k by (simp add: resize_keeps_def)
  then have "resizing hf h g'" unfolding resizing_def using fields jun sen own by simp
  moreover have "resize_done hf h g ix \<Longrightarrow> resize_done hf h g' ix" for ix unfolding resize_done_def using emp reo by blast
  ultimately show ?thesis using k fields(5) unfolding resize_keeps_def by simp
qed

lemma resizing_lengths: "resize_keeps hf h f g \<Longrightarrow> length (hp_buckets g) = bucket_count h \<and> length (hp_junior g) = bucket_count h"
  by (simp add: resize_keeps_def resizing_def)

lemma keeps_junior_insert:
  assumes k: "resize_keeps hf h f g" and r: "resize_reowned hf (bucket_count h) (hop_used h) ow p" and b: "ow < bucket_count h" "p < 64"
  shows "resize_keeps hf h f (junior_update ow (\<lambda>b. b\<lparr>bk_owner := owner_insert shl p (bk_owner b)\<rparr>) g)"
proof (rule keepsI [OF k], simp_all)
  fix i q assume q: "q < (64::nat)" "owners_ok hf h (bk_owner (bk g i)) (bk_owner (hp_junior g ! i)) i q"
  then show "i = ow \<and> ow < length (hp_junior g) \<longrightarrow> owners_ok hf h (bk_owner (bk g ow)) (owner_insert shl p (bk_owner (hp_junior g ! ow))) ow q"
    using r b(2) by (auto simp: owners_ok_def bit_owner_insert)
next
  fix i q assume "q < (64::nat)" "reowned_bit hf h (bk_owner (bk g i)) (bk_owner (hp_junior g ! i)) i q"
  then show "i = ow \<and> ow < length (hp_junior g) \<longrightarrow> reowned_bit hf h (bk_owner (bk g ow)) (owner_insert shl p (bk_owner (hp_junior g ! ow))) ow q"
    using b(2) by (auto simp: reowned_bit_def bit_owner_insert)
qed (auto simp: junior_ok_def split: if_splits)

lemma keeps_owner_erase:
  assumes k: "resize_keeps hf h f g" and r: "resize_reowned hf (bucket_count h) (hop_used h) ow p" and b: "ow < bucket_count h" "p < 64"
  shows "resize_keeps hf h f (owner_update ow (owner_erase shl p) g)"
proof (rule keepsI [OF k], simp_all add: owner_update_def)
  fix i q assume q: "q < (64::nat)" "owners_ok hf h (bk_owner (bk g i)) (bk_owner (hp_junior g ! i)) i q"
  then show "i = ow \<and> ow < length (hp_buckets g) \<longrightarrow> owners_ok hf h (owner_erase shl p (bk_owner (bk g ow))) (bk_owner (hp_junior g ! ow)) ow q"
    using r b(2) by (auto simp: owners_ok_def bit_owner_erase)
next
  fix i q assume "q < (64::nat)" "reowned_bit hf h (bk_owner (bk g i)) (bk_owner (hp_junior g ! i)) i q"
  then show "i = ow \<and> ow < length (hp_buckets g) \<longrightarrow> reowned_bit hf h (owner_erase shl p (bk_owner (bk g ow))) (bk_owner (hp_junior g ! ow)) ow q"
    using b(2) by (auto simp: reowned_bit_def bit_owner_erase)
qed (auto simp: senior_ok_def emptied_def)

lemma keeps_content_erase:
  assumes k: "resize_keeps hf h f g" and r: "resize_moves hf (bucket_count h) (hop_used h) ix" and b: "ix < bucket_count h"
  shows "resize_keeps hf h f (bucket_update ix content_erase g)"
    "bk_state (bk (bucket_update ix content_erase g) ix) = FREE" "bk_value (bk (bucket_update ix content_erase g) ix) = None"
proof -
  have sen: "senior_ok hf h (bk g ix) ix" "length (hp_buckets g) = bucket_count h"
    using k b unfolding resize_keeps_def resizing_def by blast+
  show "resize_keeps hf h f (bucket_update ix content_erase g)"
    by (rule keepsI [OF k]) (use r in \<open>auto simp: senior_ok_def content_erase_def emptied_def\<close>)
  show "bk_state (bk (bucket_update ix content_erase g) ix) = FREE" "bk_value (bk (bucket_update ix content_erase g) ix) = None"
    using sen r b by (auto simp: senior_ok_def content_erase_def)
qed

lemma keeps_set_free:
  assumes k: "resize_keeps hf h f g" and r: "bk_state (bk g ix) = FREE"
  shows "resize_keeps hf h f (bucket_update ix (state_set FREE) g)"
proof -
  have "state_set FREE (bk g ix) = bk g ix" using r by (simp add: state_set_def)
  then have "bucket_update ix (state_set FREE) g = g" by (simp add: bucket_update_def bk_def)
  then show ?thesis using k by simp
qed

subsection \<open>One iteration\<close>

lemma expanded_of:
  assumes "hop_inv hf h" "resizing hf h f"
  shows "bucket_count f = bucket_count h" "segment_count f = segment_count h" "hop_shape f"
    "bucket_ix f x = x mod bucket_count h" "bucket_expanded_ix f x = x mod (2 * bucket_count h)"
proof -
  have "hp_count f = Suc (2 * segment_count h)" using assms unfolding hop_inv_def resizing_def by simp
  then show s: "segment_count f = segment_count h" by (simp add: segment_count_def [of f] vu_value_not_stable_def)
  then show b: "bucket_count f = bucket_count h" by (simp add: bucket_count_def)
  show sh: "hop_shape f" using s b assms unfolding hop_inv_def resizing_def hop_shape_def by simp
  show "bucket_ix f x = x mod bucket_count h" "bucket_expanded_ix f x = x mod (2 * bucket_count h)"
    using bucket_ix_mod [OF sh] bucket_expanded_ix_mod [OF sh] b by simp_all
qed

text \<open>The stores for an element at \<open>ix\<close> with key \<open>k\<close>.\<close>

lemma adjust_owner_keeps:
  assumes inv: "hop_inv hf h" and f: "resizing hf h f" and ix: "ix < bucket_count h" "hop_used h ix = Some (k, v)"
  obtains sts where "resize_pass2_adjust_owner hf dbg shl ix k f = Inr sts"
    "stores_keep (resize_keeps hf h f) sts f"
    "\<And>i p. i < bucket_count h \<Longrightarrow> p < 64 \<Longrightarrow> (i + p) mod bucket_count h = ix \<Longrightarrow>
      reowned_bit hf h (bk_owner (bk (run_stores sts f) i)) (bk_owner (hp_junior (run_stores sts f) ! i)) i p"
proof -
  let ?B = "bucket_count h" and ?o = "hf k mod bucket_count h"
  let ?p = "hop_dist (bucket_count h) (hf k mod bucket_count h) ix"
  note h = hop_invD [OF inv] and e = expanded_of [OF inv f]
  have B: "?B \<le> 2 ^ 32" "128 \<le> ?B" using hop_shape_size(2,3) [OF h(1)] by simp_all
  have o: "?o < ?B" using B by simp
  have p: "?p < 64" by (rule core_near(1) [OF content_core [OF h(3)] ix])
  have w: "hop_distance_wrapped ?B ?o ix = ?p" by (rule distance_wrapped_dist [OF o ix(1) B(1)])
  have pos: "(?o + ?p) mod ?B = ix" by (rule add_hop_dist [OF o ix(1)])
  have at: "i = ?o \<and> q = ?p" if "i < ?B" "q < 64" "(i + q) mod ?B = ix" "resize_reowned hf ?B (hop_used h) i q" for i q
  proof -
    have "i = ?o" using that(3,4) ix(2) by (auto simp: resize_reowned_def)
    then show ?thesis using that add_eq_iff_dist [OF that(1) ix(1), of q] B by simp
  qed
  have refl: "resize_keeps hf h f f" using f by (simp add: resize_keeps_def)
  show thesis
  proof (cases "?o = hf k mod (2 * ?B)")
    case True
    have nr: "\<not> resize_reowned hf ?B (hop_used h) ?o ?p" unfolding resize_reowned_def pos using ix(2) True by auto
    show thesis
    proof (rule that [of "[]"])
      show "resize_pass2_adjust_owner hf dbg shl ix k f = Inr []"
        using p w True e by (simp add: resize_pass2_adjust_owner_def assert_res_holds Let_def)
      show "reowned_bit hf h (bk_owner (bk (run_stores [] f) i)) (bk_owner (hp_junior (run_stores [] f) ! i)) i q"
        if "i < ?B" "q < 64" "(i + q) mod ?B = ix" for i q
        using at [OF that] nr unfolding reowned_bit_def by blast
    qed (use refl in simp)
  next
    case False
    let ?j = "junior_update ?o (\<lambda>b. b\<lparr>bk_owner := owner_insert shl ?p (bk_owner b)\<rparr>)" and ?s = "owner_update ?o (owner_erase shl ?p)"
    have r: "resize_reowned hf ?B (hop_used h) ?o ?p" unfolding resize_reowned_def pos using ix(2) False by auto
    have k1: "resize_keeps hf h f (?j f)" by (rule keeps_junior_insert [OF refl r o p])
    have k2: "resize_keeps hf h f (?s (?j f))" by (rule keeps_owner_erase [OF k1 r o p])
    show thesis
    proof (rule that [of "[?j, ?s]"])
      show "resize_pass2_adjust_owner hf dbg shl ix k f = Inr [?j, ?s]"
        using p w False e by (simp add: resize_pass2_adjust_owner_def assert_res_holds Let_def)
      show "stores_keep (resize_keeps hf h f) [?j, ?s] f" using refl k1 k2 by simp
      show "reowned_bit hf h (bk_owner (bk (run_stores [?j, ?s] f) i)) (bk_owner (hp_junior (run_stores [?j, ?s] f) ! i)) i q"
        if "i < ?B" "q < 64" "(i + q) mod ?B = ix" for i q
        using at [OF that] o p resizing_lengths [OF refl] unfolding reowned_bit_def
        by (auto simp: owner_update_def bit_owner_insert bit_owner_erase)
    qed
  qed
qed

lemma pass2_stores_keep:
  assumes inv: "hop_inv hf h" and f: "resizing hf h f" and ix: "ix < bucket_count h"
  obtains sts where "pass2_stores hf dbg shl ix f = Inr sts" "stores_keep (resize_keeps hf h f) sts f"
    "resize_done hf h (run_stores sts f) ix"
proof -
  let ?B = "bucket_count h"
  note h = hop_invD [OF inv]
  have refl: "resize_keeps hf h f f" using f by (simp add: resize_keeps_def)
  have ok: "junior_ok hf h (hp_junior f ! ix) ix" "senior_ok hf h (bk f ix) ix" using f ix by (auto simp: resizing_def)
  show thesis
  proof (cases "hop_used h ix")
    case None
    then have "bk_state (hp_junior f ! ix) = FREE" "bk_state (bk f ix) = FREE"
      using ok used_None_iff [OF h(2) ix] by (auto simp: junior_ok_def senior_ok_def resize_moves_def)
    then have "pass2_stores hf dbg shl ix f = Inr []" by (simp add: pass2_stores_def bk_def)
    moreover have "resize_done hf h f ix" using None
      by (auto simp: resize_done_def emptied_def reowned_bit_def resize_moves_def resize_reowned_def)
    ultimately show thesis using that [of "[]"] refl by simp
  next
    case (Some kv)
    obtain k v where kv: "hop_used h ix = Some (k, v)" using Some by (cases kv) auto
    note kv' = used_SomeD [OF kv]
    obtain sts where sts: "resize_pass2_adjust_owner hf dbg shl ix k f = Inr sts" "stores_keep (resize_keeps hf h f) sts f"
      "\<And>i p. i < bucket_count h \<Longrightarrow> p < 64 \<Longrightarrow> (i + p) mod bucket_count h = ix \<Longrightarrow>
        reowned_bit hf h (bk_owner (bk (run_stores sts f) i)) (bk_owner (hp_junior (run_stores sts f) ! i)) i p"
      using adjust_owner_keeps [OF inv f ix kv] by metis
    show thesis
    proof (cases "resize_moves hf ?B (hop_used h) ix")
      case True
      let ?g = "run_stores sts f"
      have k: "resize_keeps hf h f ?g" using stores_keep_take [OF sts(2), of "length sts"] by simp
      note c = keeps_content_erase [OF k True ix]
      have "pass2_stores hf dbg shl ix f = Inr (sts @ [bucket_update ix content_erase, bucket_update ix (state_set FREE)])"
        using ok(1) True kv sts(1) by (simp add: pass2_stores_def junior_ok_def)
      moreover have "stores_keep (resize_keeps hf h f) (sts @ [bucket_update ix content_erase, bucket_update ix (state_set FREE)]) f"
        using sts(2) k c(1) keeps_set_free [OF c(1,2)] unfolding stores_keep_append by simp
      moreover have "resize_done hf h (run_stores (sts @ [bucket_update ix content_erase, bucket_update ix (state_set FREE)]) f) ix"
        using sts(3) c(2,3) resizing_lengths [OF k] ix unfolding resize_done_def run_stores_append
        by (auto simp: emptied_def state_set_def content_erase_def)
      ultimately show thesis using that by blast
    next
      case False
      then have "pass2_stores hf dbg shl ix f = Inr sts"
        using ok kv' sts(1) by (simp add: pass2_stores_def junior_ok_def senior_ok_def bk_def)
      moreover have "resize_done hf h (run_stores sts f) ix" using False sts(3) by (simp add: resize_done_def emptied_def)
      ultimately show thesis using that sts(2) by blast
    qed
  qed
qed

lemma resize_pass2_completes:
  assumes inv: "hop_inv hf h" and f: "resizing hf h f" and ixs: "set ixs \<subseteq> {..<bucket_count h}"
  shows "\<exists>g. resize_pass2 hf dbg shl ixs f = (Inr (), g) \<and> resize_keeps hf h f g \<and> (\<forall>ix \<in> set ixs. resize_done hf h g ix)"
  using f ixs
proof (induction ixs arbitrary: f)
  case Nil
  then show ?case by (simp add: resize_keeps_def)
next
  case (Cons ix ixs)
  obtain sts where sts: "pass2_stores hf dbg shl ix f = Inr sts" "stores_keep (resize_keeps hf h f) sts f"
    "resize_done hf h (run_stores sts f) ix"
    using pass2_stores_keep [OF inv Cons.prems(1), of ix dbg shl] Cons.prems(2) by auto
  have k: "resize_keeps hf h f (run_stores sts f)" using stores_keep_take [OF sts(2), of "length sts"] by simp
  obtain g where g: "resize_pass2 hf dbg shl ixs (run_stores sts f) = (Inr (), g)" "resize_keeps hf h (run_stores sts f) g"
    "\<forall>ix \<in> set ixs. resize_done hf h g ix"
    using Cons.IH [of "run_stores sts f"] k Cons.prems(2) by (auto simp: resize_keeps_def)
  then have "resize_keeps hf h f g" "resize_done hf h g ix" using k sts(3) unfolding resize_keeps_def by auto
  then show ?case using g sts(1) by simp
qed

section \<open>The larger table\<close>

definition resized :: "('k \<Rightarrow> nat) \<Rightarrow> ('k, 'v) hop \<Rightarrow> ('k, 'v) hop \<Rightarrow> bool" where
  "resized hf h f \<longleftrightarrow> resizing hf h f \<and> (\<forall>ix < bucket_count h. resize_done hf h f ix)"

lemma resized_senior:
  assumes "resized hf h f" "ix < bucket_count h"
  shows "bk_state (bk f ix) = (if resize_moves hf (bucket_count h) (hop_used h) ix then FREE else bk_state (bk h ix))"
    "bk_value (bk f ix) = (if resize_moves hf (bucket_count h) (hop_used h) ix then None else bk_value (bk h ix))"
    "hop_used f ix = (if resize_moves hf (bucket_count h) (hop_used h) ix then None else hop_used h ix)"
proof -
  have "senior_ok hf h (bk f ix) ix" "emptied hf h (bk f ix) ix"
    using assms unfolding resized_def resizing_def resize_done_def by blast+
  then show "bk_state (bk f ix) = (if resize_moves hf (bucket_count h) (hop_used h) ix then FREE else bk_state (bk h ix))"
    "bk_value (bk f ix) = (if resize_moves hf (bucket_count h) (hop_used h) ix then None else bk_value (bk h ix))"
    by (auto simp: senior_ok_def emptied_def)
  then show "hop_used f ix = (if resize_moves hf (bucket_count h) (hop_used h) ix then None else hop_used h ix)"
    by (simp add: hop_used_def bk_used_def)
qed

lemma resized_junior:
  assumes "resized hf h f" "ix < bucket_count h"
  shows "bk_state (hp_junior f ! ix) = (if resize_moves hf (bucket_count h) (hop_used h) ix then IN_USE else FREE)"
    "bk_value (hp_junior f ! ix) = (if resize_moves hf (bucket_count h) (hop_used h) ix then hop_used h ix else None)"
proof -
  have "junior_ok hf h (hp_junior f ! ix) ix" using assms unfolding resized_def resizing_def by blast
  then show "bk_state (hp_junior f ! ix) = (if resize_moves hf (bucket_count h) (hop_used h) ix then IN_USE else FREE)"
    "bk_value (hp_junior f ! ix) = (if resize_moves hf (bucket_count h) (hop_used h) ix then hop_used h ix else None)"
    by (auto simp: junior_ok_def)
qed

lemma resized_owners:
  assumes inv: "hop_inv hf h" and r: "resized hf h f" and i: "i < bucket_count h" "p < 64"
  shows "bit (bk_owner (bk f i)) p \<longleftrightarrow> (\<exists>k v. hop_used h ((i + p) mod bucket_count h) = Some (k, v) \<and> hf k mod (2 * bucket_count h) = i)"
    "bit (bk_owner (hp_junior f ! i)) p \<longleftrightarrow> (\<exists>k v. hop_used h ((i + p) mod bucket_count h) = Some (k, v) \<and> hf k mod (2 * bucket_count h) = i + bucket_count h)"
proof -
  let ?B = "bucket_count h"
  note h = hop_invD [OF inv]
  have B: "128 \<le> ?B" using hop_shape_size(2) [OF h(1)] .
  have "(i + p) mod ?B < ?B" using B by simp
  then have b: "owners_ok hf h (bk_owner (bk f i)) (bk_owner (hp_junior f ! i)) i p" "reowned_bit hf h (bk_owner (bk f i)) (bk_owner (hp_junior f ! i)) i p"
    using r i unfolding resized_def resizing_def resize_done_def by blast+
  have o: "bit (hop_own h i) p \<longleftrightarrow> owned_as hf ?B i (hop_used h ((i + p) mod ?B))" by (rule core_bit [OF content_core [OF h(3)] i])
  show "bit (bk_owner (bk f i)) p \<longleftrightarrow> (\<exists>k v. hop_used h ((i + p) mod ?B) = Some (k, v) \<and> hf k mod (2 * ?B) = i)"
    "bit (bk_owner (hp_junior f ! i)) p \<longleftrightarrow> (\<exists>k v. hop_used h ((i + p) mod ?B) = Some (k, v) \<and> hf k mod (2 * ?B) = i + ?B)"
  proof -
    show "bit (bk_owner (bk f i)) p \<longleftrightarrow> (\<exists>k v. hop_used h ((i + p) mod ?B) = Some (k, v) \<and> hf k mod (2 * ?B) = i)"
    proof (cases "hop_used h ((i + p) mod ?B)")
      case None
      then show ?thesis using b o by (simp add: owners_ok_def resize_reowned_def)
    next
      case (Some kv)
      obtain k v where kv: "hop_used h ((i + p) mod ?B) = Some (k, v)" using Some by (cases kv) auto
      have "hf k mod (2 * ?B) = hf k mod ?B \<or> hf k mod (2 * ?B) = hf k mod ?B + ?B" using mod_double B by simp
      then show ?thesis using b o kv i(1) by (auto simp: owners_ok_def reowned_bit_def resize_reowned_def)
    qed
    show "bit (bk_owner (hp_junior f ! i)) p \<longleftrightarrow> (\<exists>k v. hop_used h ((i + p) mod ?B) = Some (k, v) \<and> hf k mod (2 * ?B) = i + ?B)"
    proof (cases "hop_used h ((i + p) mod ?B)")
      case None
      then show ?thesis using b o by (simp add: owners_ok_def resize_reowned_def)
    next
      case (Some kv)
      obtain k v where kv: "hop_used h ((i + p) mod ?B) = Some (k, v)" using Some by (cases kv) auto
      have "hf k mod (2 * ?B) = hf k mod ?B \<or> hf k mod (2 * ?B) = hf k mod ?B + ?B" "hf k mod ?B \<noteq> i + ?B"
        using mod_double [of ?B "hf k"] mod_less_divisor [of ?B "hf k"] B by linarith+
      then show ?thesis using b o kv i(1) B by (auto simp: owners_ok_def reowned_bit_def resize_reowned_def)
    qed
  qed
qed

text \<open>Whatever state the pass started from, it arrives at the same tables.\<close>

lemma resized_unique:
  assumes inv: "hop_inv hf h" and f: "resized hf h f" and g: "resized hf h g"
  shows "hp_buckets f = hp_buckets g" "hp_junior f = hp_junior g" "hp_count f = hp_count g" "hp_size f = hp_size g"
proof -
  have word: "a = b" if "\<And>p. p < 64 \<Longrightarrow> bit a p = bit b p" for a b :: owner
    using that by (intro bit_word_eqI) simp
  have len: "length (hp_buckets f) = bucket_count h" "length (hp_buckets g) = bucket_count h" "length (hp_junior f) = bucket_count h" "length (hp_junior g) = bucket_count h"
    using f g by (simp_all add: resized_def resizing_def)
  have "bk f i = bk g i" if i: "i < bucket_count h" for i
    using resized_senior [OF f i] resized_senior [OF g i] word [of "bk_owner (bk f i)" "bk_owner (bk g i)"]
      resized_owners(1) [OF inv f i] resized_owners(1) [OF inv g i] by (intro bucket.equality) simp_all
  then show "hp_buckets f = hp_buckets g" using len by (intro nth_equalityI) (simp_all add: bk_def)
  have "hp_junior f ! i = hp_junior g ! i" if i: "i < bucket_count h" for i
    using resized_junior [OF f i] resized_junior [OF g i] word [of "bk_owner (hp_junior f ! i)" "bk_owner (hp_junior g ! i)"]
      resized_owners(2) [OF inv f i] resized_owners(2) [OF inv g i] by (intro bucket.equality) simp_all
  then show "hp_junior f = hp_junior g" using len by (intro nth_equalityI) simp_all
  show "hp_count f = hp_count g" "hp_size f = hp_size g" using f g by (simp_all add: resized_def resizing_def)
qed

lemma resize_epilog_fields:
  assumes inv: "hop_inv hf h" and r: "resized hf h f" and small: "bucket_count h < 2 ^ 32"
  defines "g \<equiv> resize_epilog f"
  shows "segment_count g = Suc (segment_count h)" "bucket_count g = 2 * bucket_count h" "hop_shape g"
    "hp_count g = 2 * segment_count g" "hp_size g = hp_size h" "hp_junior g = []"
    "\<And>i. i < bucket_count h \<Longrightarrow> bk g i = bk f i" "\<And>i. i < bucket_count h \<Longrightarrow> bk g (i + bucket_count h) = hp_junior f ! i"
proof -
  have f: "resizing hf h f" using r by (simp add: resized_def)
  note e = expanded_of [OF inv f] and h = hop_invD [OF inv]
  have sh: "1 \<le> segment_count h" "segment_count h \<le> 26" using h(1) by (simp_all add: hop_shape_def)
  have len: "length (hp_buckets f) = bucket_count h" "length (hp_junior f) = bucket_count h" "hp_size f = hp_size h" using f by (simp_all add: resizing_def)
  have "segment_count h \<noteq> 26" using small by (auto simp: bucket_count_def hs_bucket_count_def)
  then have lt: "segment_count h \<le> 25" using sh by simp
  have cf: "vu_value_not_stable 1 (hp_count f) = segment_count h" using e(2) by (simp add: segment_count_def)
  show c: "hp_count g = 2 * segment_count g" "segment_count g = Suc (segment_count h)"
    using cf lt by (simp_all add: g_def resize_epilog_def segment_count_def [of "resize_epilog f"] segment_count_def [of "f\<lparr>hp_buckets := x, hp_junior := y, hp_count := z\<rparr>" for x y z] vu_set_stable_def vu_value_not_stable_def)
  obtain n where n: "segment_count h = Suc n" using sh by (cases "segment_count h") auto
  show b: "bucket_count g = 2 * bucket_count h" unfolding bucket_count_def c(2) n by (simp add: hs_bucket_count_def)
  have lg: "length (hp_buckets g) = 2 * bucket_count h" using len by (simp add: g_def resize_epilog_def)
  show "hop_shape g" unfolding hop_shape_def using c lt b lg by simp
  show "hp_size g = hp_size h" "hp_junior g = []" using len by (simp_all add: g_def resize_epilog_def)
  show "bk g i = bk f i" "bk g (i + bucket_count h) = hp_junior f ! i" if "i < bucket_count h" for i
    using that len by (simp_all add: g_def resize_epilog_def bk_def nth_append)
qed

lemma resize_epilog_used:
  assumes inv: "hop_inv hf h" and r: "resized hf h f" and small: "bucket_count h < 2 ^ 32" and J: "J < 2 * bucket_count h"
  shows "hop_used (resize_epilog f) J =
    (if resize_moves hf (bucket_count h) (hop_used h) (J mod bucket_count h) = (bucket_count h \<le> J) then hop_used h (J mod bucket_count h) else None)"
proof -
  let ?B = "bucket_count h"
  note e = resize_epilog_fields [OF inv r small]
  show ?thesis
  proof (cases "J < ?B")
    case True
    then show ?thesis using resized_senior(3) [OF r True] e(7) [OF True] by (simp add: hop_used_def [of "resize_epilog f"] hop_used_def [of f])
  next
    case False
    then obtain i where i: "J = i + ?B" "i < ?B" using J by (metis add.commute le_Suc_ex less_diff_conv2 linorder_not_less mult_2 nat_add_left_cancel_less)
    then show ?thesis using resized_junior [OF r i(2)] e(8) [OF i(2)] by (simp add: hop_used_def [of "resize_epilog f"] bk_used_def)
  qed
qed

lemma resize_position:
  assumes inv: "hop_inv hf h" and ix: "ix < bucket_count h" "hop_used h ix = Some (k, v)"
  defines "J \<equiv> if resize_moves hf (bucket_count h) (hop_used h) ix then ix + bucket_count h else ix"
  shows "hop_dist (2 * bucket_count h) (hf k mod (2 * bucket_count h)) J = hop_dist (bucket_count h) (hf k mod bucket_count h) ix"
proof -
  note h = hop_invD [OF inv]
  have B: "128 \<le> bucket_count h" using hop_shape_size(2) [OF h(1)] .
  have "resize_moves hf (bucket_count h) (hop_used h) ix = must_move (bucket_count h) ix (hf k mod (2 * bucket_count h))"
    using ix(2) by (simp add: resize_moves_def)
  moreover have "hf k mod bucket_count h < bucket_count h" using B by simp
  moreover have "hf k mod (2 * bucket_count h) = hf k mod bucket_count h \<or> hf k mod (2 * bucket_count h) = hf k mod bucket_count h + bucket_count h"
    using mod_double B by simp
  ultimately show ?thesis unfolding J_def
    using must_move_exact(2) [OF B ix(1) _ core_near(1) [OF content_core [OF h(3)] ix]] by simp
qed

text \<open>The relation between the contents of the two tables, and the map.\<close>

lemma resize_used_iff:
  assumes inv: "hop_inv hf h" and r: "resized hf h f" and small: "bucket_count h < 2 ^ 32"
  shows "J < 2 * bucket_count h \<and> hop_used (resize_epilog f) J = Some x \<longleftrightarrow>
    (\<exists>ix < bucket_count h. hop_used h ix = Some x \<and> J = (if resize_moves hf (bucket_count h) (hop_used h) ix then ix + bucket_count h else ix))"
proof
  let ?B = "bucket_count h"
  have B: "0 < ?B" using hop_shape_size(2) [OF hop_invD(1) [OF inv]] by simp
  assume a: "J < 2 * ?B \<and> hop_used (resize_epilog f) J = Some x"
  then have u: "resize_moves hf ?B (hop_used h) (J mod ?B) = (?B \<le> J)" "hop_used h (J mod ?B) = Some x"
    using resize_epilog_used [OF inv r small, of J] by (simp_all split: if_splits)
  have "J = (if ?B \<le> J then J mod ?B + ?B else J mod ?B)" using a by (auto simp: le_mod_geq)
  then show "\<exists>ix < ?B. hop_used h ix = Some x \<and> J = (if resize_moves hf ?B (hop_used h) ix then ix + ?B else ix)"
    using u B by (metis mod_less_divisor)
next
  assume "\<exists>ix < bucket_count h. hop_used h ix = Some x \<and> J = (if resize_moves hf (bucket_count h) (hop_used h) ix then ix + bucket_count h else ix)"
  then show "J < 2 * bucket_count h \<and> hop_used (resize_epilog f) J = Some x"
    using resize_epilog_used [OF inv r small, of J] by (auto split: if_splits)
qed

lemma resize_core:
  assumes inv: "hop_inv hf h" and r: "resized hf h f" and small: "bucket_count h < 2 ^ 32"
  shows "hop_core hf (2 * bucket_count h) (hop_own (resize_epilog f)) (hop_used (resize_epilog f))"
proof -
  let ?B = "bucket_count h" and ?g = "resize_epilog f"
  note h = hop_invD [OF inv] and e = resize_epilog_fields [OF inv r small] and used = resize_used_iff [OF inv r small]
  have B: "128 \<le> ?B" using hop_shape_size(2) [OF h(1)] .
  have near: "hop_dist (2 * ?B) (hf k mod (2 * ?B)) J < 64" if u: "J < 2 * ?B" "hop_used ?g J = Some (k, v)" for J k v
  proof -
    obtain ix where ix: "ix < ?B" "hop_used h ix = Some (k, v)" "J = (if resize_moves hf ?B (hop_used h) ix then ix + ?B else ix)"
      using used [of J "(k, v)"] u by blast
    show ?thesis using resize_position [OF inv ix(1,2)] core_near(1) [OF content_core [OF h(3)] ix(1,2)] ix(3) by simp
  qed
  have content: "owned_as hf (2 * ?B) I (hop_used ?g ((I + p) mod (2 * ?B))) \<longleftrightarrow>
      (\<exists>k v. hop_used h ((I mod ?B + p) mod ?B) = Some (k, v) \<and> hf k mod (2 * ?B) = I)" if I: "I < 2 * ?B" and p: "p < 64" for I p
  proof
    let ?J = "(I + p) mod (2 * ?B)"
    have J: "?J < 2 * ?B" "?J mod ?B = (I mod ?B + p) mod ?B" using B by (simp_all add: mod_mod_cancel mod_add_left_eq)
    assume "owned_as hf (2 * ?B) I (hop_used ?g ?J)"
    then obtain k v where kv: "hop_used ?g ?J = Some (k, v)" "hf k mod (2 * ?B) = I" by (auto simp: owned_as_def)
    then show "\<exists>k v. hop_used h ((I mod ?B + p) mod ?B) = Some (k, v) \<and> hf k mod (2 * ?B) = I"
      using resize_epilog_used [OF inv r small J(1)] J(2) by (auto split: if_splits)
  next
    assume "\<exists>k v. hop_used h ((I mod ?B + p) mod ?B) = Some (k, v) \<and> hf k mod (2 * ?B) = I"
    then obtain k v where kv: "hop_used h ((I mod ?B + p) mod ?B) = Some (k, v)" "hf k mod (2 * ?B) = I" by blast
    let ?ix = "(I mod ?B + p) mod ?B"
    let ?J = "if resize_moves hf ?B (hop_used h) ?ix then ?ix + ?B else ?ix"
    have ix: "?ix < ?B" and i: "I mod ?B < ?B" using B by simp_all
    have o: "hf k mod ?B = I mod ?B" using kv(2) by (metis dvd_triv_right mod_mod_cancel)
    have "hop_dist (2 * ?B) I ?J = hop_dist ?B (I mod ?B) ?ix" using resize_position [OF inv ix kv(1)] kv(2) o by simp
    also have "\<dots> = p" using hop_dist_add [OF i, of p] p B by simp
    finally have "(I + p) mod (2 * ?B) = ?J" using add_hop_dist [OF I, of ?J] ix by (auto split: if_splits)
    then have "hop_used ?g ((I + p) mod (2 * ?B)) = Some (k, v)" using used [of ?J "(k, v)"] ix kv(1) by auto
    then show "owned_as hf (2 * ?B) I (hop_used ?g ((I + p) mod (2 * ?B)))" using kv(2) by simp
  qed
  have "bit (hop_own ?g I) p \<longleftrightarrow> (\<exists>k v. hop_used h ((I mod ?B + p) mod ?B) = Some (k, v) \<and> hf k mod (2 * ?B) = I)"
    if I: "I < 2 * ?B" and p: "p < 64" for I p
  proof (cases "I < ?B")
    case True
    then show ?thesis using resized_owners(1) [OF inv r True p] e(7) [OF True] by (simp add: hop_own_def)
  next
    case False
    then obtain i where i: "I = i + ?B" "i < ?B" using I by (metis add.commute le_Suc_ex linorder_not_less mult_2 nat_add_left_cancel_less)
    then show ?thesis using resized_owners(2) [OF inv r i(2) p] e(8) [OF i(2)] by (simp add: hop_own_def)
  qed
  then show ?thesis using content near B unfolding hop_core_def by simp
qed

theorem resize_epilog_correct:
  assumes inv: "hop_inv hf h" and r: "resized hf h f" and small: "bucket_count h < 2 ^ 32"
  shows "hop_inv hf (resize_epilog f)" "hop_abs (resize_epilog f) = hop_abs h"
proof -
  let ?B = "bucket_count h" and ?g = "resize_epilog f"
  note h = hop_invD [OF inv] and e = resize_epilog_fields [OF inv r small] and used = resize_used_iff [OF inv r small]
  have inj: "i = j" if ij: "i < 2 * ?B" "j < 2 * ?B" "hop_used ?g i = Some (k, v)" "hop_used ?g j = Some (k, w)" for i j k v w
  proof -
    obtain a b where ab: "a < ?B" "b < ?B" "hop_used h a = Some (k, v)" "hop_used h b = Some (k, w)"
      "i = (if resize_moves hf ?B (hop_used h) a then a + ?B else a)" "j = (if resize_moves hf ?B (hop_used h) b then b + ?B else b)"
      using used [of i "(k, v)"] used [of j "(k, w)"] ij by blast
    then show ?thesis using content_key [OF h(3) ab(1-4)] by simp
  qed
  have val: "bk_value (bk ?g J) \<noteq> None" if J: "J < 2 * ?B" "bk_state (bk ?g J) = IN_USE" for J
  proof (cases "J < ?B")
    case True
    then show ?thesis using resized_senior [OF r True] e(7) [OF True] J h(2) unfolding hop_data_def by (auto split: if_splits)
  next
    case False
    then obtain i where i: "J = i + ?B" "i < ?B" using J by (metis add.commute le_Suc_ex linorder_not_less mult_2 nat_add_left_cancel_less)
    then show ?thesis using resized_junior [OF r i(2)] e(8) [OF i(2)] J by (auto simp: resize_moves_def split: if_splits)
  qed
  have d: "hop_data hf ?g" using resize_core [OF inv r small] inj val unfolding hop_data_def e(2) by blast
  show abs: "hop_abs ?g = hop_abs h"
  proof (rule abs_eqI [OF d e(3)])
    fix k v show "hop_abs h k = Some v \<longleftrightarrow> (\<exists>j < bucket_count ?g. hop_used ?g j = Some (k, v))"
      using abs_iff [OF h(2,1), of k v] used [of _ "(k, v)"] unfolding e(2) by blast
  qed
  have "used_count (bucket_count ?g) (hop_used ?g) = used_count ?B (hop_used h)"
    using used_count_keys [OF d e(3)] used_count_keys [OF h(2,1)] abs by simp
  then show "hop_inv hf ?g" using d e h(4) unfolding hop_inv_iff by simp
qed

section \<open>The whole resize\<close>

text \<open>The state from which the second pass starts.\<close>

lemma resize_start:
  assumes inv: "hop_inv hf h"
  obtains jun where "resize_pass1 hf h [0..<bucket_count h] (replicate (bucket_count h) empty_bucket) = Inr jun"
    "resizing hf h (h\<lparr>hp_junior := jun, hp_count := vu_destabilize (hp_count h)\<rparr>)"
proof -
  let ?B = "bucket_count h"
  note h = hop_invD [OF inv]
  have val: "\<forall>i < ?B. bk_state (bk h i) = IN_USE \<longrightarrow> bk_value (bk h i) \<noteq> None" using h(2) by (simp add: hop_data_def)
  have sub: "set [0..<?B] \<subseteq> {..<?B}" by auto
  obtain jun where j: "resize_pass1 hf h [0..<?B] (replicate ?B empty_bucket) = Inr jun" "length jun = ?B"
    "\<forall>i < ?B. jun ! i = (if i \<in> set [0..<?B] \<and> resize_moves hf ?B (hop_used h) i
       then (replicate ?B empty_bucket ! i)\<lparr>bk_state := IN_USE, bk_value := hop_used h i\<rparr> else replicate ?B empty_bucket ! i)"
    using pass1_spec [OF val h(1) refl sub, of "replicate ?B empty_bucket" hf] by auto
  let ?f = "h\<lparr>hp_junior := jun, hp_count := vu_destabilize (hp_count h)\<rparr>"
  have b: "bk ?f i = bk h i" for i by (simp add: bk_def)
  have "hp_count h < W64 - 1" using inv by (simp add: hop_inv_def hop_shape_def)
  then have c: "vu_destabilize (hp_count h) = Suc (hp_count h)" by (simp add: vu_destabilize_def add64_nowrap)
  have "senior_ok hf h (bk h i) i" if "i < ?B" for i
  proof (cases "resize_moves hf ?B (hop_used h) i")
    case True
    then obtain k v where "hop_used h i = Some (k, v)" unfolding resize_moves_def by blast
    then show ?thesis using used_SomeD [of h i "(k, v)"] by (simp add: senior_ok_def)
  qed (simp add: senior_ok_def)
  moreover have "junior_ok hf h (jun ! i) i" "\<not> bit (bk_owner (jun ! i)) p" if "i < ?B" for i p
    using j(3) that by (auto simp: junior_ok_def empty_bucket_def)
  ultimately have "resizing hf h ?f"
    unfolding resizing_def b using j(2) c h(5) by (simp add: owners_ok_def hop_own_def)
  then show thesis using that j(1) by blast
qed

lemma resize_finish_correct:
  assumes inv: "hop_inv hf h" and f: "resizing hf h f"
  obtains g where "resize_finish hf dbg shl f = (Inr (), resize_epilog g)" "resized hf h g" "hp_auto_resize g = hp_auto_resize f"
proof -
  have sub: "set [0..<bucket_count h] \<subseteq> {..<bucket_count h}" by auto
  obtain g where g: "resize_pass2 hf dbg shl [0..<bucket_count h] f = (Inr (), g)" "resize_keeps hf h f g"
    "\<forall>ix \<in> set [0..<bucket_count h]. resize_done hf h g ix"
    using resize_pass2_completes [OF inv f sub, of dbg shl] by auto
  have "resize_finish hf dbg shl f = (Inr (), resize_epilog g)"
    using g(1) expanded_of(1) [OF inv f] by (simp add: resize_finish_def)
  moreover have "resized hf h g" using g by (simp add: resized_def resize_keeps_def)
  moreover have "hp_auto_resize g = hp_auto_resize f" using g(2) by (simp add: resize_keeps_def)
  ultimately show thesis using that by blast
qed

lemma hop_resize_correct:
  assumes inv: "hop_inv hf h" and room: "room (bucket_count h)" and small: "bucket_count h < 2 ^ 32"
  obtains g where "hop_resize hf dbg shl room h = (Inr (), g)" "hop_inv hf g" "hop_abs g = hop_abs h"
    "segment_count g = Suc (segment_count h)" "hp_auto_resize g = hp_auto_resize h"
proof -
  obtain jun where j: "resize_pass1 hf h [0..<bucket_count h] (replicate (bucket_count h) empty_bucket) = Inr jun"
    "resizing hf h (h\<lparr>hp_junior := jun, hp_count := vu_destabilize (hp_count h)\<rparr>)"
    using resize_start [OF inv] by blast
  obtain g where g: "resize_finish hf dbg shl (h\<lparr>hp_junior := jun, hp_count := vu_destabilize (hp_count h)\<rparr>) = (Inr (), resize_epilog g)"
    "resized hf h g" "hp_auto_resize g = hp_auto_resize (h\<lparr>hp_junior := jun, hp_count := vu_destabilize (hp_count h)\<rparr>)"
    by (rule resize_finish_correct [OF inv j(2)])
  have "hop_resize hf dbg shl room h = (Inr (), resize_epilog g)" using room j(1) g(1) by (simp add: hop_resize_def)
  then show thesis using that resize_epilog_correct [OF inv g(2) small] resize_epilog_fields(1) [OF inv g(2) small] g(3)
    by (simp add: resize_epilog_def)
qed

end
