(* ===== verification/Hop_Recovery.thy ===== *)
theory Hop_Recovery
  imports Hop_Resize
begin

text \<open>
  Opening a hash table that was left by a crash. The element counter says whether a change was in
  progress; if so, the states of the buckets are recomputed from the owner words. Every transaction
  is atomic: opened after any number of its stores, the table stands for the map before or after it.
\<close>

section \<open>Bucket states from the owners\<close>

text \<open>Bit \<open>q\<close> of the mask at \<open>i\<close>: bucket \<open>i + q\<close> belongs to one of the owners up to \<open>i\<close>.\<close>

definition mask_at :: "nat \<Rightarrow> (nat \<Rightarrow> owner) \<Rightarrow> nat \<Rightarrow> owner \<Rightarrow> bool" where
  "mask_at B own i m \<longleftrightarrow> (\<forall>q. bit m q \<longleftrightarrow> (\<exists>e < 64. bit (own ((i + B - e) mod B)) (q + e)))"

lemma mask_at_step:
  assumes m: "mask_at B own i m" and i: "Suc i < B"
  shows "mask_at B own (Suc i) (drop_bit 1 m OR own (Suc i))"
  unfolding mask_at_def
proof
  fix q
  have "bit (drop_bit 1 m OR own (Suc i)) q \<longleftrightarrow> bit m (Suc q) \<or> bit (own (Suc i)) q" by (simp add: bit_or_iff bit_drop_bit_eq)
  also have "bit m (Suc q) \<longleftrightarrow> (\<exists>e < 64. bit (own ((i + B - e) mod B)) (Suc q + e))" using m by (simp add: mask_at_def)
  also have "\<dots> \<longleftrightarrow> (\<exists>e < 64. e \<noteq> 0 \<and> bit (own ((Suc i + B - e) mod B)) (q + e))"
  proof
    assume "\<exists>e < 64. bit (own ((i + B - e) mod B)) (Suc q + e)"
    then obtain e where e: "bit (own ((i + B - e) mod B)) (Suc q + e)" by blast
    have "Suc e < 64" using owner_bit_less [OF e] by simp
    then show "\<exists>e < 64. e \<noteq> 0 \<and> bit (own ((Suc i + B - e) mod B)) (q + e)" using e by (intro exI [of _ "Suc e"]) simp
  next
    assume "\<exists>e < 64. e \<noteq> 0 \<and> bit (own ((Suc i + B - e) mod B)) (q + e)"
    then obtain e where e: "e < 64" "e \<noteq> 0" "bit (own ((Suc i + B - e) mod B)) (q + e)" by blast
    then obtain d where "e = Suc d" by (cases e) auto
    then show "\<exists>e < 64. bit (own ((i + B - e) mod B)) (Suc q + e)" using e by (intro exI [of _ d]) simp
  qed
  also have "(\<exists>e < 64. e \<noteq> 0 \<and> bit (own ((Suc i + B - e) mod B)) (q + e)) \<or> bit (own (Suc i)) q \<longleftrightarrow>
      (\<exists>e < 64. bit (own ((Suc i + B - e) mod B)) (q + e))"
  proof -
    have "(Suc i + B - 0) mod B = Suc i" unfolding diff_zero mod_add_self2 using i by (rule mod_less)
    then show ?thesis by (metis add.right_neutral zero_less_numeral)
  qed
  finally show "bit (drop_bit 1 m OR own (Suc i)) q \<longleftrightarrow> (\<exists>e < 64. bit (own ((Suc i + B - e) mod B)) (q + e))" .
qed

lemma mask_at_bit0:
  assumes core: "hop_core hf B own u" and i: "i < B" and m: "mask_at B own i m"
  shows "bit m 0 \<longleftrightarrow> u i \<noteq> None"
proof -
  have B: "64 \<le> B" using core by (simp add: hop_core_def)
  have at: "((i + B - e) mod B + e) mod B = i" if "e < 64" for e
  proof -
    have "((i + B - e) mod B + e) mod B = (i + B - e + e) mod B" by (simp add: mod_add_left_eq)
    also have "i + B - e + e = i + B" using that B by simp
    finally show ?thesis using i by simp
  qed
  have lt: "(i + B - e) mod B < B" for e using B by simp
  have "bit m 0 \<longleftrightarrow> (\<exists>e < 64. owned_as hf B ((i + B - e) mod B) (u i))"
    using m core_bit [OF core lt] at by (simp add: mask_at_def) metis
  also have "\<dots> \<longleftrightarrow> u i \<noteq> None"
  proof
    assume "u i \<noteq> None"
    then obtain k v where kv: "u i = Some (k, v)" by auto
    let ?e = "hop_dist B (hf k mod B) i"
    have e: "?e < 64" by (rule core_near(1) [OF core i kv])
    have o: "hf k mod B < B" using B by simp
    have "((hf k mod B) + ?e) mod B = i" by (rule add_hop_dist [OF o i])
    then have "((i + B - ?e) mod B + ?e) mod B = (hf k mod B + ?e) mod B" using at [OF e] by simp
    then have "(i + B - ?e) mod B mod B = hf k mod B mod B" using nat_mod_add_cancel by blast
    then show "\<exists>e < 64. owned_as hf B ((i + B - e) mod B) (u i)" using e kv by auto
  qed (auto simp: owned_as_def)
  finally show ?thesis .
qed

text \<open>The mask at the start. Its assertion, that no two owners claim a bucket, holds.\<close>

lemma owned_mask_loop_spec:
  assumes core: "hop_core hf B (hop_own h) u" and a: "a < B" and n: "n \<le> 64"
    and c: "\<And>q. bit c q \<longleftrightarrow> (\<exists>e < 64. n \<le> e \<and> bit (hop_own h ((a + B - e) mod B)) (q + e - n))"
  shows "\<exists>m. owned_mask_loop dbg h (map (\<lambda>d. (a + B - d) mod B) (rev [0..<n])) c = Inr m \<and> mask_at B (hop_own h) a m"
  using n c
proof (induction n arbitrary: c)
  case 0
  then show ?case by (simp add: mask_at_def)
next
  case (Suc n)
  let ?v = "hop_own h ((a + B - n) mod B)"
  let ?c = "drop_bit 1 c OR ?v"
  have B: "64 \<le> B" using core by (simp add: hop_core_def)
  have d1: "bit (drop_bit 1 c) q \<longleftrightarrow> (\<exists>e < 64. Suc n \<le> e \<and> bit (hop_own h ((a + B - e) mod B)) (q + e - n))" for q
    using Suc.prems(2) [of "Suc q"] by (simp add: bit_drop_bit_eq)
  have "bit ?c q \<longleftrightarrow> (\<exists>e < 64. n \<le> e \<and> bit (hop_own h ((a + B - e) mod B)) (q + e - n))" for q
  proof -
    have "n < 64" using Suc.prems(1) by simp
    then show ?thesis unfolding bit_or_iff d1 by (metis Suc_leD Suc_leI add_diff_cancel_right' le_neq_implies_less order_refl)
  qed
  then obtain m where m: "owned_mask_loop dbg h (map (\<lambda>d. (a + B - d) mod B) (rev [0..<n])) ?c = Inr m" "mask_at B (hop_own h) a m"
    using Suc.IH [of ?c] Suc.prems(1) by auto
  have "drop_bit 1 c AND ?v = 0"
  proof (rule bit_eqI)
    fix q
    have "\<not> (bit (drop_bit 1 c) q \<and> bit ?v q)"
    proof
      assume "bit (drop_bit 1 c) q \<and> bit ?v q"
      then obtain e where e: "e < 64" "n < e" "bit (hop_own h ((a + B - e) mod B)) (q + e - n)" "bit ?v q" using d1 by auto
      have lt: "(a + B - x) mod B < B" for x using B by simp
      have p: "q + e - n < 64" "q < 64" using owner_bit_less e(3,4) by blast+
      have "((a + B - e) mod B + (q + e - n)) mod B = (a + B - e + (q + e - n)) mod B"
        "((a + B - n) mod B + q) mod B = (a + B - n + q) mod B" by (simp_all add: mod_add_left_eq)
      moreover have "a + B - e + (q + e - n) = a + B - n + q" using e B by simp
      ultimately have "owned_as hf B ((a + B - e) mod B) (u ((a + B - n + q) mod B))" "owned_as hf B ((a + B - n) mod B) (u ((a + B - n + q) mod B))"
        using core_bit [OF core lt p(1)] core_bit [OF core lt p(2)] e(3,4) by metis+
      then have "(a + B - e) mod B = (a + B - n) mod B" by (auto simp: owned_as_def)
      moreover have "hop_dist B ((a + B - e) mod B) ((a + B - n) mod B) = e - n"
      proof -
        have "((a + B - e) mod B + (e - n)) mod B = (a + B - e + (e - n)) mod B" by (simp add: mod_add_left_eq)
        moreover have "a + B - e + (e - n) = a + B - n" using e B by simp
        ultimately show ?thesis using hop_dist_add [OF lt, of "e - n" e] e B by simp
      qed
      ultimately show False using e(2) B lt by (simp add: hop_dist_def)
    qed
    then show "bit (drop_bit 1 c AND ?v) q \<longleftrightarrow> bit 0 q" by (simp add: bit_and_iff)
  qed
  moreover have "bk_owner (hp_buckets h ! ((a + B - n) mod B)) = ?v" by (simp add: hop_own_def bk_def)
  ultimately show ?case using m by (simp add: Let_def)
qed

lemma owned_by_owner_mask_spec:
  assumes "hop_core hf (bucket_count h) (hop_own h) u" "0 < bucket_count h"
  obtains m where "owned_by_owner_mask dbg 0 h = Inr m" "mask_at (bucket_count h) (hop_own h) 0 m"
  using owned_mask_loop_spec [OF assms, of 64 0 dbg] by (auto simp: owned_by_owner_mask_def)

lemma mask_at_start:
  assumes "mask_at B own 0 m" "0 < B"
  shows "mask_at B own 0 (drop_bit 1 (push_bit 1 m) OR own 0)"
proof -
  have "bit (drop_bit 1 (push_bit 1 m) OR own 0) q \<longleftrightarrow> bit m q" for q
  proof -
    have o: "bit (own 0) q \<Longrightarrow> bit m q" using assms by (auto simp: mask_at_def intro!: exI [of _ 0])
    have "bit m 63 \<Longrightarrow> bit (own 0) 63"
    proof -
      assume "bit m 63"
      then obtain e where e: "bit (own ((0 + B - e) mod B)) (63 + e)" using assms(1) unfolding mask_at_def by blast
      then have "e = 0" using owner_bit_less [OF e] by simp
      then show ?thesis using e by simp
    qed
    moreover have "bit m q \<Longrightarrow> q < 64" by (rule owner_bit_less)
    moreover have "bit (drop_bit 1 (push_bit 1 m)) q \<longleftrightarrow> q < 63 \<and> bit m q"
      unfolding bit_drop_bit_eq bit_push_bit_iff o_def by (auto simp: possible_bit_word)
    moreover have "q < 64 \<Longrightarrow> q = 63 \<or> q < 63" by linarith
    ultimately show ?thesis using o unfolding bit_or_iff by blast
  qed
  then show ?thesis using assms(1) by (simp add: mask_at_def)
qed

lemma recover_states_spec:
  assumes core: "hop_core hf B (hop_own h) u" and len: "length (hp_buckets h) = B" and i: "i < B"
    and m: "mask_at B (hop_own h) i (drop_bit 1 m OR hop_own h i)"
  shows "\<exists>g. recover_states [i..<B] m s h = (s + card {j. i \<le> j \<and> j < B \<and> u j \<noteq> None}, g) \<and> same_table h g \<and> hop_own g = hop_own h \<and>
    hp_size g = hp_size h \<and> (\<forall>j. bk_value (bk g j) = bk_value (bk h j)) \<and>
    (\<forall>j. bk_state (bk g j) = (if i \<le> j \<and> j < B then if u j \<noteq> None then IN_USE else FREE else bk_state (bk h j)))"
  using assms
proof (induction "B - i" arbitrary: i m s h)
  case (Suc n)
  let ?st = "if u i \<noteq> None then IN_USE else FREE"
  define x where "x = (if bk_state (bk h i) \<noteq> ?st then bucket_update i (state_set ?st) h else h)"
  have x: "same_table h x" "hop_own x = hop_own h" "hp_size x = hp_size h" "\<And>j. bk_value (bk x j) = bk_value (bk h j)"
    "\<And>j. bk_state (bk x j) = (if j = i then ?st else bk_state (bk h j))" "length (hp_buckets x) = B"
    using Suc.prems(2,3) by (auto simp: x_def same_table_def hop_own_def state_set_def fun_eq_iff)
  let ?m = "drop_bit 1 m OR hop_own h i"
  have b0: "bit ?m 0 \<longleftrightarrow> u i \<noteq> None" by (rule mask_at_bit0 [OF Suc.prems(1,3,4)])
  have v: "hp_buckets h ! i = bk h i" "bk_owner (bk h i) = hop_own h i" by (simp_all add: hop_own_def bk_def)
  have step: "recover_states [i..<B] m s h = recover_states [Suc i..<B] ?m (s + (if u i \<noteq> None then 1 else 0)) x"
    using Suc.prems(3) b0 unfolding x_def by (cases "u i = None") (simp_all add: upt_conv_Cons Let_def v)
  have card: "card {j. i \<le> j \<and> j < B \<and> u j \<noteq> None} = (if u i \<noteq> None then 1 else 0) + card {j. Suc i \<le> j \<and> j < B \<and> u j \<noteq> None}"
  proof -
    have "{j. i \<le> j \<and> j < B \<and> u j \<noteq> None} = (if u i \<noteq> None then {i} else {}) \<union> {j. Suc i \<le> j \<and> j < B \<and> u j \<noteq> None}"
      using Suc.prems(3) by (auto simp: Suc_le_eq order_le_less)
    then show ?thesis by (simp add: card_insert_if)
  qed
  show ?case
  proof (cases "Suc i < B")
    case True
    have n: "n = B - Suc i" using Suc.hyps(2) by simp
    have core': "hop_core hf B (hop_own x) u" unfolding x(2) by (rule Suc.prems(1))
    have mk: "mask_at B (hop_own x) (Suc i) (drop_bit 1 ?m OR hop_own x (Suc i))" unfolding x(2) by (rule mask_at_step [OF Suc.prems(4) True])
    obtain g where g: "recover_states [Suc i..<B] ?m (s + (if u i \<noteq> None then 1 else 0)) x =
        (s + (if u i \<noteq> None then 1 else 0) + card {j. Suc i \<le> j \<and> j < B \<and> u j \<noteq> None}, g)"
      "same_table x g" "hop_own g = hop_own x" "hp_size g = hp_size x" "\<forall>j. bk_value (bk g j) = bk_value (bk x j)"
      "\<forall>j. bk_state (bk g j) = (if Suc i \<le> j \<and> j < B then if u j \<noteq> None then IN_USE else FREE else bk_state (bk x j))"
      using Suc.hyps(1) [OF n core' x(6) True mk] by blast
    show ?thesis using g step card x same_table_trans [OF x(1) g(2)] Suc.prems(3) by (auto simp: Suc_le_eq order_le_less)
  next
    case False
    then have "B = Suc i" using Suc.prems(3) by simp
    then have "{j. Suc i \<le> j \<and> j < B \<and> u j \<noteq> None} = {}" by auto
    then show ?thesis using step card x \<open>B = Suc i\<close> by auto
  qed
qed simp

lemma recover_size_correct:
  assumes shape: "hop_shape h" and core: "hop_core hf (bucket_count h) (hop_own h) u"
    and val: "\<And>j kv. j < bucket_count h \<Longrightarrow> u j = Some kv \<Longrightarrow> bk_value (bk h j) = Some kv"
    and unstable: "\<not> vu_is_stable 8 (hp_size h)"
  obtains g where "recover_size dbg h = (Inr (), g)" "same_table h g" "hop_own g = hop_own h"
    "\<And>j. j < bucket_count h \<Longrightarrow> hop_used g j = u j" "hp_size g = 256 * used_count (bucket_count h) u"
    "\<And>j. j < bucket_count h \<Longrightarrow> bk_state (bk g j) = IN_USE \<Longrightarrow> bk_value (bk g j) \<noteq> None"
proof -
  let ?B = "bucket_count h"
  have B: "0 < ?B" "?B \<le> 2 ^ 32" using hop_shape_size(2,3) [OF shape] by simp_all
  obtain m where m: "owned_by_owner_mask dbg 0 h = Inr m" "mask_at ?B (hop_own h) 0 m" using owned_by_owner_mask_spec [OF core B(1)] by blast
  have len: "length (hp_buckets h) = ?B" using shape by (simp add: hop_shape_def)
  obtain x where x: "recover_states [0..<?B] (push_bit 1 m) 0 h = (card {j. 0 \<le> j \<and> j < ?B \<and> u j \<noteq> None}, x)" "same_table h x" "hop_own x = hop_own h"
    "\<forall>j. bk_value (bk x j) = bk_value (bk h j)"
    "\<forall>j. bk_state (bk x j) = (if 0 \<le> j \<and> j < ?B then if u j \<noteq> None then IN_USE else FREE else bk_state (bk h j))"
    using recover_states_spec [OF core len B(1) mask_at_start [OF m(2) B(1)], of 0] by auto
  define g where "g = x\<lparr>hp_size := vu_set_stable 8 (used_count ?B u)\<rparr>"
  have bg: "bk g = bk x" by (simp add: g_def bk_def fun_eq_iff)
  have "used_count ?B u \<le> 2 ^ 32" using used_count_le [of ?B u] B(2) by linarith
  then have "hp_size g = 256 * used_count ?B u" by (simp add: g_def vu_set_stable_def)
  moreover have "recover_size dbg h = (Inr (), g)" using unstable m(1) x(1) by (simp add: recover_size_def g_def used_count_def)
  moreover have "same_table h g" "hop_own g = hop_own h" using x(2,3) by (simp_all add: g_def same_table_def hop_own_def bk_def fun_eq_iff)
  moreover have "hop_used g j = u j" if "j < ?B" for j
    using x(4,5) val [OF that] that by (cases "u j") (simp_all add: hop_used_def bk_used_def bg)
  moreover have "bk_value (bk g j) \<noteq> None" if "j < ?B" "bk_state (bk g j) = IN_USE" for j
    using x(4,5) val [OF that(1)] that by (cases "u j") (simp_all add: bg)
  ultimately show thesis using that by blast
qed

section \<open>Crash states\<close>

text \<open>
  A state from which opening recovers the table \<open>y\<close>: it is \<open>y\<close> up to the contents of free buckets,
  or the element counter is unstable and the owners are those of \<open>y\<close>.
\<close>

definition recovers_to :: "('k, 'v) hop \<Rightarrow> ('k, 'v) hop \<Rightarrow> bool" where
  "recovers_to y x \<longleftrightarrow> same_table y x \<and> (\<forall>i < bucket_count y. hop_own x i = hop_own y i) \<and>
     (hp_size x = hp_size y \<and>
        (\<forall>i < bucket_count y. bk_state (bk x i) = bk_state (bk y i) \<and> (bk_state (bk y i) = IN_USE \<longrightarrow> bk_value (bk x i) = bk_value (bk y i))) \<or>
      \<not> vu_is_stable 8 (hp_size x) \<and> (\<forall>i < bucket_count y. \<forall>kv. hop_used y i = Some kv \<longrightarrow> bk_value (bk x i) = Some kv))"

lemma hop_reopen_stable:
  assumes "vu_is_stable 1 (hp_count x)"
  shows "hop_reopen hf dbg shl x = recover_size dbg (x\<lparr>hp_auto_resize := True\<rparr>)"
  using assms by (simp add: hop_reopen_def)

lemma auto_fields [simp]:
  "bk (h\<lparr>hp_auto_resize := b\<rparr>) = bk h" "hop_own (h\<lparr>hp_auto_resize := b\<rparr>) = hop_own h" "hop_used (h\<lparr>hp_auto_resize := b\<rparr>) = hop_used h"
  "segment_count (h\<lparr>hp_auto_resize := b\<rparr>) = segment_count h" "bucket_count (h\<lparr>hp_auto_resize := b\<rparr>) = bucket_count h"
  "hop_shape (h\<lparr>hp_auto_resize := b\<rparr>) \<longleftrightarrow> hop_shape h"
  by (simp_all add: bk_def hop_own_def hop_used_def fun_eq_iff bucket_count_def segment_count_def hop_shape_def)

lemma hop_inv_auto: "hop_inv hf (h\<lparr>hp_auto_resize := b\<rparr>) \<longleftrightarrow> hop_inv hf h" "hop_abs (h\<lparr>hp_auto_resize := b\<rparr>) = hop_abs h"
  by (simp_all add: hop_inv_def hop_data_def hop_in_use_def hop_abs_def)

lemma recovers_reopen:
  assumes inv: "hop_inv hf y" and rec: "recovers_to y x"
  shows "\<exists>g. hop_reopen hf dbg shl x = (Inr (), g) \<and> hop_inv hf g \<and> hop_abs g = hop_abs y"
proof -
  let ?B = "bucket_count y" and ?x = "x\<lparr>hp_auto_resize := True\<rparr>" and ?y = "y\<lparr>hp_auto_resize := True\<rparr>"
  note y = hop_invD [OF inv]
  have same: "same_table ?y ?x" using rec by (simp add: recovers_to_def same_table_def)
  have cy: "bucket_count ?y = ?B" "bucket_count ?x = ?B" "hop_shape ?x"
    using same_table_counts [OF same] y(1) by (simp_all add: bucket_count_def segment_count_def hop_shape_def)
  have bk: "bk ?x = bk x" "hop_own ?x = hop_own x" "hop_used ?x = hop_used x" "hop_own ?y = hop_own y" "hop_used ?y = hop_used y"
    by (simp_all add: bk_def hop_own_def hop_used_def fun_eq_iff)
  have own: "\<And>i. i < ?B \<Longrightarrow> hop_own x i = hop_own y i" using rec by (simp add: recovers_to_def)
  have stable: "vu_is_stable 1 (hp_count x)" using rec inv by (simp add: recovers_to_def same_table_def hop_inv_def vu_is_stable_def)
  have invy: "hop_inv hf ?y" "hop_abs ?y = hop_abs y" using inv hop_inv_auto by blast+
  note dy = hop_invD [OF invy(1)]
  have finish: ?thesis if g: "recover_size dbg ?x = (Inr (), g)" and st: "same_table ?y g" and own_g: "\<And>i. i < ?B \<Longrightarrow> hop_own g i = hop_own y i"
    and used_g: "\<And>i. i < ?B \<Longrightarrow> hop_used g i = hop_used y i" and size: "hp_size g = 256 * used_count ?B (hop_used y)"
    and val: "\<And>i. i < ?B \<Longrightarrow> bk_state (bk g i) = IN_USE \<Longrightarrow> bk_value (bk g i) \<noteq> None" for g
  proof -
    have d: "hop_data hf g" using data_step [OF st, of hf "hop_own y" "hop_used y"] own_g used_g val y(3) unfolding cy(1) by blast
    have "used_count ?B (hop_used g) = used_count ?B (hop_used y)" by (rule used_count_cong) (rule used_g)
    then have i: "hop_inv hf g" using inv_step [OF invy(1) st d] size unfolding cy(1) by simp
    have "hop_abs g = hop_abs ?y"
    proof (rule abs_eqI [OF d])
      show "hop_shape g" using i by (simp add: hop_inv_def)
      fix k v show "hop_abs ?y k = Some v \<longleftrightarrow> (\<exists>j < bucket_count g. hop_used g j = Some (k, v))"
        using abs_iff [OF dy(2,1), of k v] used_g same_table_counts(1) [OF st] unfolding cy(1) bk by auto
    qed
    then show ?thesis using i invy(2) g hop_reopen_stable [OF stable, of hf dbg shl] by simp
  qed
  show ?thesis
  proof (cases "vu_is_stable 8 (hp_size x)")
    case True
    then have eq: "hp_size x = hp_size y" "\<forall>i < ?B. bk_state (bk x i) = bk_state (bk y i) \<and> (bk_state (bk y i) = IN_USE \<longrightarrow> bk_value (bk x i) = bk_value (bk y i))"
      using rec by (auto simp: recovers_to_def)
    have "recover_size dbg ?x = (Inr (), ?x)" using True by (simp add: recover_size_def)
    moreover have "hop_used ?x i = hop_used y i" if "i < ?B" for i using eq(2) that unfolding bk by (simp add: hop_used_def bk_used_def)
    moreover have "bk_value (bk ?x i) \<noteq> None" if "i < ?B" "bk_state (bk ?x i) = IN_USE" for i
      using eq(2) that y(2) unfolding bk hop_data_def by simp
    ultimately show ?thesis using finish [of ?x] same own eq(1) y(4) unfolding bk by simp
  next
    case False
    then have v: "\<And>i kv. i < ?B \<Longrightarrow> hop_used y i = Some kv \<Longrightarrow> bk_value (bk x i) = Some kv" using rec y(4) by (auto simp: recovers_to_def vu_is_stable_def)
    have core: "hop_core hf (bucket_count ?x) (hop_own ?x) (hop_used y)"
      unfolding cy(2) bk by (rule core_cong [OF content_core [OF y(3)]]) (simp_all add: own)
    have us: "\<not> vu_is_stable 8 (hp_size ?x)" using False by simp
    have v': "\<And>j kv. j < bucket_count ?x \<Longrightarrow> hop_used y j = Some kv \<Longrightarrow> bk_value (bk ?x j) = Some kv" unfolding cy(2) bk by (rule v)
    show ?thesis
    proof (rule recover_size_correct [OF cy(3) core v' us, where dbg = dbg, unfolded cy(2)])
      fix g assume g: "recover_size dbg ?x = (Inr (), g)" "same_table ?x g" "hop_own g = hop_own ?x"
        "\<And>j. j < ?B \<Longrightarrow> hop_used g j = hop_used y j" "hp_size g = 256 * used_count ?B (hop_used y)"
        "\<And>j. j < ?B \<Longrightarrow> bk_state (bk g j) = IN_USE \<Longrightarrow> bk_value (bk g j) \<noteq> None"
      show ?thesis by (rule finish [OF g(1) same_table_trans [OF same g(2)] _ g(4-6)]) (simp_all add: g(3) own)
    qed
  qed
qed

section \<open>Transactions are atomic\<close>

text \<open>Every state between the stores of a transaction recovers to the table before or after it.\<close>

definition crash_ok :: "('k, 'v) hop \<Rightarrow> ('k, 'v) hop \<Rightarrow> ('k, 'v) hop \<Rightarrow> bool" where
  "crash_ok h g x \<longleftrightarrow> recovers_to h x \<or> recovers_to g x"

lemma size_unstable:
  assumes "hp_size h = c * 2 ^ 8" "c \<le> 2 ^ 32"
  shows "\<not> vu_is_stable 8 (vu_destabilize (hp_size h))" "\<not> vu_is_stable 8 (vu_incr 8 (vu_destabilize (hp_size h)))"
    "0 < c \<Longrightarrow> \<not> vu_is_stable 8 (vu_decr 8 (vu_destabilize (hp_size h)))"
proof -
  have d: "vu_destabilize (hp_size h) = c * 256 + 1" using assms by (simp add: vu_destabilize_def add64_nowrap)
  have m: "(n * 256 + 1) mod 2 ^ 8 = (1::nat)" for n using mod_mult_self3 [of n 256 1] by simp
  show "\<not> vu_is_stable 8 (vu_destabilize (hp_size h))" unfolding d vu_is_stable_def m by simp
  have "vu_incr 8 (c * 256 + 1) = Suc c * 256 + 1" using assms(2) by (simp add: vu_incr_def add64_nowrap)
  then show "\<not> vu_is_stable 8 (vu_incr 8 (vu_destabilize (hp_size h)))" unfolding d vu_is_stable_def using m [of "Suc c"] by simp
  assume "0 < c"
  then obtain n where n: "c = Suc n" using gr0_implies_Suc by blast
  then have "vu_decr 8 (c * 256 + 1) = n * 256 + 1" using assms(2) by (simp add: vu_decr_def sub64_nowrap)
  then show "\<not> vu_is_stable 8 (vu_decr 8 (vu_destabilize (hp_size h)))" unfolding d vu_is_stable_def using m [of n] by simp
qed

lemma recovers_refl: "recovers_to y y"
  by (simp add: recovers_to_def)

lemma emplace_crash:
  fixes shl and k :: 'k and v :: 'v
  assumes inv: "hop_inv hf h" and free: "dst < bucket_count h" "hop_used h dst = None"
  defines "sts \<equiv> emplace_stores shl (hf k mod bucket_count h) dst (bucket_count h) (k, v)"
  shows "stores_keep (crash_ok h (run_stores sts h)) sts h"
proof -
  let ?B = "bucket_count h" and ?o = "hf k mod bucket_count h" and ?g = "run_stores sts h"
  note h = hop_invD [OF inv]
  have o: "?o < ?B" using free(1) by (simp add: order_le_less_trans [of 0 dst])
  note e = emplace_effect [OF h(5) o free(1), of shl "(k, v)", folded sts_def]
  note cg = same_table_counts [OF e(1)]
  have "used_count ?B (hop_used h) \<le> 2 ^ 32" using used_count_le [of ?B "hop_used h"] hop_shape_size(3) [OF h(1)] by linarith
  note u = size_unstable [OF h(4) this]
  have st: "bk_state (bk h dst) = FREE" using used_None_iff [OF h(2) free(1)] free(2) by simp
  have old: "recovers_to h x" if x: "same_table h x" "\<forall>i < ?B. hop_own x i = hop_own h i"
    "hp_size x = hp_size h \<and> (\<forall>i < ?B. bk_state (bk x i) = bk_state (bk h i)) \<or> \<not> vu_is_stable 8 (hp_size x)"
    "\<forall>i < ?B. i \<noteq> dst \<longrightarrow> bk_value (bk x i) = bk_value (bk h i)" for x
    using x st free(2) unfolding recovers_to_def by (auto simp: hop_used_def bk_used_def)
  have new: "recovers_to ?g x" if x: "same_table ?g x" "hop_own x = hop_own ?g" "\<not> vu_is_stable 8 (hp_size x)"
    "\<forall>i < ?B. i \<noteq> dst \<longrightarrow> bk_value (bk x i) = bk_value (bk h i)" "bk_value (bk x dst) = Some (k, v)" for x
    using x e(3) unfolding recovers_to_def cg by (auto simp: hop_used_def [of h] bk_used_def split: if_splits)
  define s1 where "s1 = bucket_update dst (content_construct (k, v)) h"
  define s2 where "s2 = size_update vu_destabilize s1"
  define s3 where "s3 = bucket_update dst (state_set IN_USE) s2"
  define s4 where "s4 = owner_update ?o (owner_insert shl (hop_distance_wrapped ?B ?o dst)) s3"
  define s5 where "s5 = size_update (vu_incr 8) s4"
  note s_defs = s1_def s2_def s3_def s4_def s5_def
  have "recovers_to h s1" "recovers_to h s2" "recovers_to h s3"
    by (rule old; use u(1) in \<open>auto simp: s_defs same_table_def hop_own_def store_defs\<close>)+
  moreover have "recovers_to ?g s4" "recovers_to ?g s5"
    by (rule new; use u(1,2) e(1,2) h(5) free(1) in \<open>auto simp: s_defs same_table_def hop_own_def store_defs fun_eq_iff\<close>)+
  moreover have "run_stores sts h = size_update vu_stabilize s5" by (simp add: sts_def emplace_stores_def s_defs)
  ultimately show ?thesis using recovers_refl
    unfolding sts_def emplace_stores_def stores_keep.simps crash_ok_def s_defs by metis
qed

lemma move_crash:
  fixes shl
  assumes inv: "hop_inv hf h" and src: "src < bucket_count h" "hop_used h src = Some (k, v)"
    and dst: "dst < bucket_count h" "hop_used h dst = None"
  defines "sts \<equiv> move_stores shl (hf k mod bucket_count h) src dst
    (hop_dist (bucket_count h) (hf k mod bucket_count h) dst) (hop_dist (bucket_count h) (hf k mod bucket_count h) src)"
  shows "stores_keep (crash_ok h (run_stores sts h)) sts h"
proof -
  let ?B = "bucket_count h" and ?o = "hf k mod bucket_count h" and ?g = "run_stores sts h"
  note h = hop_invD [OF inv]
  have o: "?o < ?B" using src(1) by (simp add: order_le_less_trans [of 0 src])
  have st: "bk_state (bk h src) = IN_USE" "bk_state (bk h dst) = FREE" "bk_value (bk h src) = Some (k, v)"
    using used_SomeD [OF src(2)] used_None_iff [OF h(2) dst(1)] dst(2) by auto
  have ne: "src \<noteq> dst" using st by auto
  note e = move_effect [OF h(5) o src(1) dst(1) st(1,2), of shl "hop_dist ?B ?o dst" "hop_dist ?B ?o src", folded sts_def]
  note cg = same_table_counts [OF e(1)]
  have "used_count ?B (hop_used h) \<le> 2 ^ 32" using used_count_le [of ?B "hop_used h"] hop_shape_size(3) [OF h(1)] by linarith
  note u = size_unstable [OF h(4) this]
  have old: "recovers_to h x" if x: "same_table h x" "\<forall>i < ?B. hop_own x i = hop_own h i"
    "hp_size x = hp_size h \<and> (\<forall>i < ?B. bk_state (bk x i) = bk_state (bk h i)) \<or> \<not> vu_is_stable 8 (hp_size x)"
    "\<forall>i < ?B. i \<noteq> dst \<longrightarrow> bk_value (bk x i) = bk_value (bk h i)" for x
    using x st(2) dst(2) unfolding recovers_to_def by (auto simp: hop_used_def bk_used_def)
  have new: "recovers_to ?g x" if x: "same_table ?g x" "hop_own x = hop_own ?g" "\<not> vu_is_stable 8 (hp_size x)"
    "\<forall>i < ?B. i \<noteq> dst \<longrightarrow> bk_value (bk x i) = bk_value (bk h i)" "bk_value (bk x dst) = Some (k, v)" for x
    using x e(3) src(2) unfolding recovers_to_def cg by (auto simp: hop_used_def [of h] bk_used_def split: if_splits)
  define s1 where "s1 = bucket_update dst (content_share (hp_buckets h ! src)) h"
  define s2 where "s2 = size_update vu_destabilize s1"
  define s3 where "s3 = bucket_update src (state_set FREE) s2"
  define s4 where "s4 = bucket_update dst (state_set IN_USE) s3"
  define s5 where "s5 = owner_update ?o (owner_move shl (hop_dist ?B ?o dst) (hop_dist ?B ?o src)) s4"
  define s6 where "s6 = bucket_update src content_erase s5"
  note s_defs = s1_def s2_def s3_def s4_def s5_def s6_def
  have "recovers_to h s1" "recovers_to h s2" "recovers_to h s3" "recovers_to h s4"
    by (rule old; use u(1) in \<open>auto simp: s_defs same_table_def hop_own_def store_defs\<close>)+
  moreover have "recovers_to ?g s5" "recovers_to ?g s6"
    by (rule new; use u(1) e(1,2) h(5) dst(1) ne st(3) in \<open>auto simp: s_defs same_table_def hop_own_def store_defs fun_eq_iff bk_def [symmetric]\<close>)+
  moreover have "run_stores sts h = size_update vu_stabilize s6" by (simp add: sts_def move_stores_def s_defs)
  ultimately show ?thesis using recovers_refl
    unfolding sts_def move_stores_def stores_keep.simps crash_ok_def s_defs by metis
qed

lemma erase_crash:
  fixes shl
  assumes inv: "hop_inv hf h" and src: "src < bucket_count h" "hop_used h src = Some (k, v)"
  defines "sts \<equiv> erase_stores shl (hf k mod bucket_count h) src"
  shows "stores_keep (crash_ok h (run_stores sts h)) sts h"
proof -
  let ?B = "bucket_count h" and ?o = "hf k mod bucket_count h" and ?g = "run_stores sts h"
  note h = hop_invD [OF inv]
  have o: "?o < ?B" using src(1) by (simp add: order_le_less_trans [of 0 src])
  note e = erase_effect [OF h(5) o src(1) conjunct1 [OF used_SomeD [OF src(2)]], of shl, folded sts_def]
  note cg = same_table_counts [OF e(1)]
  have "used_count ?B (hop_used h) \<le> 2 ^ 32" using used_count_le [of ?B "hop_used h"] hop_shape_size(3) [OF h(1)] by linarith
  note u = size_unstable [OF h(4) this]
  have pos: "0 < used_count ?B (hop_used h)" using used_count_None [of src ?B "hop_used h"] src by simp
  have new: "recovers_to ?g x" if x: "same_table ?g x" "hop_own x = hop_own ?g" "\<not> vu_is_stable 8 (hp_size x)"
    "\<forall>i < ?B. i \<noteq> src \<longrightarrow> bk_value (bk x i) = bk_value (bk h i)" for x
    using x e(3) unfolding recovers_to_def cg by (auto simp: hop_used_def [of h] bk_used_def split: if_splits)
  define s1 where "s1 = size_update vu_destabilize h"
  define s2 where "s2 = owner_update ?o (owner_erase shl (sub64 src ?o mod 2 ^ 32)) s1"
  define s3 where "s3 = bucket_update src content_erase s2"
  define s4 where "s4 = size_update (vu_decr 8) s3"
  note s_defs = s1_def s2_def s3_def s4_def
  have "recovers_to h s1" using u(1) unfolding recovers_to_def
    by (auto simp: s_defs same_table_def hop_own_def hop_used_def bk_used_def split: if_splits)
  moreover have "recovers_to ?g s2" "recovers_to ?g s3" "recovers_to ?g s4"
    by (rule new; use u(1,3) pos e(1,2) h(5) src(1) in \<open>auto simp: s_defs same_table_def hop_own_def store_defs fun_eq_iff\<close>)+
  moreover have "run_stores sts h = size_update vu_stabilize s4" by (simp add: sts_def erase_stores_def s_defs)
  ultimately show ?thesis using recovers_refl
    unfolding sts_def erase_stores_def stores_keep.simps crash_ok_def s_defs by metis
qed

lemma crash_ok_reopen:
  assumes "hop_inv hf h" "hop_inv hf (run_stores sts h)" "stores_keep (crash_ok h (run_stores sts h)) sts h"
  shows "\<exists>g. hop_reopen hf dbg shl (run_stores (take n sts) h) = (Inr (), g) \<and> hop_inv hf g \<and>
    (hop_abs g = hop_abs h \<or> hop_abs g = hop_abs (run_stores sts h))"
  using stores_keep_take [OF assms(3), of n] recovers_reopen [OF assms(1), of "run_stores (take n sts) h" dbg shl]
    recovers_reopen [OF assms(2), of "run_stores (take n sts) h" dbg shl] unfolding crash_ok_def by blast

end
