(* ===== verification/Hop_Properties.thy ===== *)
theory Hop_Properties
  imports Hop_Recovery
begin

text \<open>
  What the hash table promises: it refines a finite map under every history of operations, its
  transactions and its resize survive a crash. The interface of a map that can refuse an insertion
  is a locale, interpreted on the table.
\<close>

section \<open>A map that may refuse an insertion\<close>

datatype ('k, 'v) table_op = Emplace 'k 'v | Erase 'k | At 'k

datatype 'v table_out = Inserted bool | Erased nat | Value 'v | Failed exn

text \<open>The map after an operation with the given outcome, if a map allows that outcome.\<close>

fun map_step :: "('k \<rightharpoonup> 'v) \<Rightarrow> ('k, 'v) table_op \<Rightarrow> 'v table_out \<Rightarrow> ('k \<rightharpoonup> 'v) option" where
  "map_step m (Emplace k v) (Inserted b) = (if b = (m k = None) then Some (if b then m(k \<mapsto> v) else m) else None)"
| "map_step m (Emplace k v) (Failed e) = (if m k = None \<and> (e = Range_error \<or> e = Bad_alloc) then Some m else None)"
| "map_step m (Erase k) (Erased n) = (if n = (if m k = None then 0 else 1) then Some (m(k := None)) else None)"
| "map_step m (At k) (Value v) = (if m k = Some v then Some m else None)"
| "map_step m (At k) (Failed e) = (if m k = None \<and> e = Out_of_range then Some m else None)"
| "map_step m _ _ = None"

fun map_run :: "('k \<rightharpoonup> 'v) \<Rightarrow> ('k, 'v) table_op list \<Rightarrow> 'v table_out list \<Rightarrow> ('k \<rightharpoonup> 'v) option" where
  "map_run m [] [] = Some m"
| "map_run m (p # ps) (r # rs) = (case map_step m p r of None \<Rightarrow> None | Some m' \<Rightarrow> map_run m' ps rs)"
| "map_run m _ _ = None"

fun run_ops :: "(('k, 'v) table_op \<Rightarrow> 's \<Rightarrow> 'v table_out \<times> 's) \<Rightarrow> ('k, 'v) table_op list \<Rightarrow> 's \<Rightarrow> 'v table_out list \<times> 's" where
  "run_ops step [] s = ([], s)"
| "run_ops step (p # ps) s = (let (r, s') = step p s; (rs, t) = run_ops step ps s' in (r # rs, t))"

locale refusing_map =
  fixes inv :: "'s \<Rightarrow> bool" and abs :: "'s \<Rightarrow> 'k \<rightharpoonup> 'v" and step :: "('k, 'v) table_op \<Rightarrow> 's \<Rightarrow> 'v table_out \<times> 's"
  assumes step_inv: "inv s \<Longrightarrow> inv (snd (step p s))"
    and step_abs: "inv s \<Longrightarrow> map_step (abs s) p (fst (step p s)) = Some (abs (snd (step p s)))"
begin

lemma run_refines:
  "inv s \<Longrightarrow> inv (snd (run_ops step ps s)) \<and> map_run (abs s) ps (fst (run_ops step ps s)) = Some (abs (snd (run_ops step ps s)))"
proof (induction ps arbitrary: s)
  case (Cons p ps)
  obtain r t where rt: "step p s = (r, t)" by fastforce
  obtain rs u where u: "run_ops step ps t = (rs, u)" by fastforce
  have t: "inv t" "map_step (abs s) p r = Some (abs t)" using step_inv [OF Cons.prems, of p] step_abs [OF Cons.prems, of p] rt by simp_all
  then show ?case using Cons.IH [OF t(1)] rt u by simp
qed simp

end

section \<open>The operations together\<close>

definition hop_step :: "('k \<Rightarrow> nat) \<Rightarrow> bool \<Rightarrow> (nat \<Rightarrow> owner) \<Rightarrow> (nat \<Rightarrow> bool) \<Rightarrow> ('k, 'v) table_op \<Rightarrow> ('k, 'v) hop \<Rightarrow> 'v table_out \<times> ('k, 'v) hop" where
  "hop_step hf dbg shl room p h =
     (case p of
        Emplace k v \<Rightarrow> (case hop_emplace hf dbg shl room k v h of (Inr (j, b), g) \<Rightarrow> (Inserted b, g) | (Inl e, g) \<Rightarrow> (Failed e, g))
      | Erase k \<Rightarrow> (case hop_erase hf shl k h of (Inr n, g) \<Rightarrow> (Erased n, g) | (Inl e, g) \<Rightarrow> (Failed e, g))
      | At k \<Rightarrow> (case hop_at hf k h of Inr v \<Rightarrow> (Value v, h) | Inl e \<Rightarrow> (Failed e, h)))"

text \<open>
  A shift by more than 64 takes its amount modulo 64, as the x86 instruction does (the shift by 64
  is only evaluated at compile time, by \<open>mask_all_ones\<close>, and may have any result), and the allocator
  has no room for a segment of \<open>2 ^ 32\<close> buckets.
\<close>

definition wide_shift :: "(nat \<Rightarrow> owner) \<Rightarrow> bool" where
  "wide_shift shl \<longleftrightarrow> (\<forall>p. 64 < p \<longrightarrow> shl p = push_bit (p mod 64) 1)"

definition bounded_room :: "(nat \<Rightarrow> bool) \<Rightarrow> bool" where
  "bounded_room room \<longleftrightarrow> (\<forall>n. room n \<longrightarrow> n < 2 ^ 32)"

lemma hop_resize_no_room: "\<not> room (bucket_count h) \<Longrightarrow> hop_resize hf dbg shl room h = (Inl Bad_alloc, h)"
  by (simp add: hop_resize_def)

lemma hop_emplace_retry_correct:
  assumes room: "bounded_room room"
  shows "hop_inv hf h \<Longrightarrow> 27 \<le> segment_count h + fuel \<Longrightarrow>
    \<exists>r g. hop_emplace_retry fuel hf dbg shl room k v h = (r, g) \<and> hop_inv hf g \<and>
      ((\<exists>j w. r = Inr (j, False) \<and> j < bucket_count g \<and> hop_used g j = Some (k, w) \<and> hop_abs h k = Some w \<and> hop_abs g = hop_abs h) \<or>
       (\<exists>j. r = Inr (j, True) \<and> j < bucket_count g \<and> hop_used g j = Some (k, v) \<and> hop_abs h k = None \<and> hop_abs g = (hop_abs h)(k \<mapsto> v)) \<or>
       (r = Inl Range_error \<or> r = Inl Bad_alloc) \<and> hop_abs h k = None \<and> hop_abs g = hop_abs h)"
proof (induction fuel arbitrary: h)
  case 0
  then show ?case by (auto simp: hop_inv_def hop_shape_def)
next
  case (Suc fuel)
  note h = hop_invD [OF Suc.prems(1)]
  from h(2,1) show ?case
  proof (cases rule: locate_key_spec [where k = k, case_names found absent])
    case (found j w)
    then show ?thesis using Suc.prems(1) by (auto simp: Let_def)
  next
    case absent
    obtain r g where p: "place dbg shl (bucket_ix h (hf k)) (k, v) h = (r, g)" "hop_inv hf g" "same_table h g"
      "r = Inl Range_error \<and> hop_abs g = hop_abs h \<or>
        (\<exists>d < bucket_count h. r = Inr d \<and> hop_used g d = Some (k, v) \<and> hop_abs g = (hop_abs h)(k \<mapsto> v))"
      using place_correct [OF Suc.prems(1) absent(2), of dbg shl v] by blast
    note same = same_table_counts [OF p(3)]
    from p(4) show ?thesis
    proof (elim disjE exE conjE)
      fix d assume d: "d < bucket_count h" "r = Inr d" "hop_used g d = Some (k, v)" "hop_abs g = (hop_abs h)(k \<mapsto> v)"
      have "hop_emplace_retry (Suc fuel) hf dbg shl room k v h = (Inr (d, True), g)"
        using absent(1) p(1) d(2) by (simp add: Let_def catch_range_def)
      then show ?thesis using d p(2) absent(2) same(1) by auto
    next
      assume r: "r = Inl Range_error" "hop_abs g = hop_abs h"
      show ?thesis
      proof (cases "hp_auto_resize g \<and> segment_count g < 32")
        case False
        then have "hop_emplace_retry (Suc fuel) hf dbg shl room k v h = (Inl Range_error, g)"
          using absent(1) p(1) r(1) by (auto simp: Let_def catch_range_def)
        then show ?thesis using r p(2) absent(2) by auto
      next
        case grow: True
        show ?thesis
        proof (cases "room (bucket_count g)")
          case False
          then have "hop_emplace_retry (Suc fuel) hf dbg shl room k v h = (Inl Bad_alloc, g)"
            using absent(1) p(1) r(1) grow by (simp add: Let_def catch_range_def hop_resize_no_room)
          then show ?thesis using r p(2) absent(2) by auto
        next
          case True
          then have small: "bucket_count g < 2 ^ 32" using room by (simp add: bounded_room_def)
          obtain f where f: "hop_resize hf dbg shl room g = (Inr (), f)" "hop_inv hf f" "hop_abs f = hop_abs g" "segment_count f = Suc (segment_count g)"
            using hop_resize_correct [OF p(2) _ small, of room dbg shl] True by blast
          have "hop_emplace_retry (Suc fuel) hf dbg shl room k v h = hop_emplace_retry fuel hf dbg shl room k v f"
            using absent(1) p(1) r(1) grow f(1) by (simp add: Let_def catch_range_def)
          moreover have "27 \<le> segment_count f + fuel" using Suc.prems(2) f(4) same by simp
          ultimately show ?thesis using Suc.IH [OF f(2)] f(3) r(2) by simp
        qed
      qed
    qed
  qed
qed

lemma hop_step_correct:
  assumes inv: "hop_inv hf h" and w: "wide_shift shl" "bounded_room room"
  shows "hop_inv hf (snd (hop_step hf dbg shl room p h))"
    "map_step (hop_abs h) p (fst (hop_step hf dbg shl room p h)) = Some (hop_abs (snd (hop_step hf dbg shl room p h)))"
proof -
  have "hop_inv hf (snd (hop_step hf dbg shl room p h)) \<and>
    map_step (hop_abs h) p (fst (hop_step hf dbg shl room p h)) = Some (hop_abs (snd (hop_step hf dbg shl room p h)))"
  proof (cases p)
    case (Emplace k v)
    show ?thesis using hop_emplace_retry_correct [OF w(2) inv, of "Suc 32" dbg shl k v]
      unfolding hop_step_def Emplace hop_emplace_def by (auto simp del: hop_emplace_retry.simps)
  next
    case (Erase k)
    show ?thesis using hop_erase_correct [OF _ inv, of shl k] w(1) unfolding hop_step_def Erase wide_shift_def by auto
  next
    case (At k)
    show ?thesis using inv hop_at_correct [OF inv, of k] unfolding hop_step_def At by (auto split: option.splits)
  qed
  then show "hop_inv hf (snd (hop_step hf dbg shl room p h))"
    "map_step (hop_abs h) p (fst (hop_step hf dbg shl room p h)) = Some (hop_abs (snd (hop_step hf dbg shl room p h)))" by blast+
qed

interpretation hop_map: refusing_map "\<lambda>h. hop_inv hf h \<and> wide_shift shl \<and> bounded_room room" hop_abs "hop_step hf dbg shl room"
  by unfold_locales (use hop_step_correct in blast)+

section \<open>A new table\<close>

lemma empty_table_inv:
  assumes "hp_buckets h = replicate (bucket_count h) empty_bucket" "hp_count h = 2 * n" "1 \<le> n" "n \<le> 26" "hp_size h = 0" "hp_junior h = []"
  shows "hop_inv hf h" "hop_abs h = Map.empty"
proof -
  have n: "segment_count h = n" using assms(2) by (simp add: segment_count_def vu_value_not_stable_def)
  have shape: "hop_shape h" using n assms(1,3,4) by (metis hop_shape_def length_replicate)
  have b: "bk h i = empty_bucket" if "i < bucket_count h" for i using that assms(1) by (metis bk_def nth_replicate)
  have u: "hop_used h i = None" "hop_own h i = 0" "bk_state (bk h i) = FREE" if "i < bucket_count h" for i
    using b [OF that] by (simp_all add: hop_used_def hop_own_def bk_used_def empty_bucket_def)
  have B: "64 \<le> bucket_count h" using hop_shape_size(2) [OF shape] by simp
  then have "(i + p) mod bucket_count h < bucket_count h" for i p by simp
  then have "hop_core hf (bucket_count h) (hop_own h) (hop_used h)" using u B unfolding hop_core_def by simp
  then have d: "hop_data hf h" using u unfolding hop_data_def by simp
  have "used_count (bucket_count h) (hop_used h) = 0" using u(1) by (simp add: used_count_def)
  then show "hop_inv hf h" using shape d n assms(2,5,6) unfolding hop_inv_iff by simp
  show "hop_abs h = Map.empty" by (rule abs_eqI [OF d shape]) (use u(1) in simp)
qed

lemma hop_new_correct:
  assumes room: "bounded_room room" and new: "hop_new dbg room n = Inr h"
  shows "hop_inv hf h" "hop_abs h = Map.empty" "hp_auto_resize h"
proof -
  obtain s where s: "\<forall>i < s. room (hs_segment_size i)" "1 \<le> s"
    "h = \<lparr>hp_buckets = replicate (hs_bucket_count s) empty_bucket, hp_count = vu_set_stable 1 s, hp_size = 0, hp_junior = [], hp_auto_resize = True\<rparr>"
  proof -
    let ?s = "if mul64 n 3 div 128 = 0 then 1 else layout_log2 (mul64 3 n div 128)"
    have "1 \<le> ?s"
    proof (cases "mul64 n 3 div 128 = 0")
      case False
      have "mul64 3 n = mul64 n 3" by (simp add: mul64_def mult.commute)
      moreover have "mul64 n 3 div 128 < W64" using mul64_less [of n 3] by linarith
      ultimately show ?thesis using False layout_log2_eq [of "mul64 n 3 div 128"] bit_length_upper [of "mul64 n 3 div 128"] by (cases "bit_length (mul64 n 3 div 128)") auto
    qed simp
    then show thesis using that [of ?s] new unfolding hop_new_def Let_def by (auto simp: throw_if_def bind_res_Inr_iff split: if_splits)
  qed
  have s26: "s \<le> 26"
  proof (rule ccontr)
    assume "\<not> s \<le> 26"
    then have "room (hs_segment_size 26)" using s(1) by simp
    then have "hs_segment_size 26 < 2 ^ 32" using room unfolding bounded_room_def by blast
    then show False by (simp add: hs_segment_size_def)
  qed
  then have c: "hp_count h = 2 * s" using s(3) by (simp add: vu_set_stable_def)
  then have "segment_count h = s" by (simp add: segment_count_def vu_value_not_stable_def)
  then have "hp_buckets h = replicate (bucket_count h) empty_bucket" using s(3) by (simp add: bucket_count_def)
  then show "hop_inv hf h" "hop_abs h = Map.empty" "hp_auto_resize h"
    using empty_table_inv [OF _ c s(2) s26] s(3) by simp_all
qed

section \<open>Transactions\<close>

text \<open>The transactions that insertion, relocation and removal perform on a table.\<close>

inductive hop_txn :: "('k \<Rightarrow> nat) \<Rightarrow> (nat \<Rightarrow> owner) \<Rightarrow> ('k, 'v) hop \<Rightarrow> ('k, 'v) hop_store list \<Rightarrow> bool" for hf shl h where
  emplace: "dst < bucket_count h \<Longrightarrow> hop_used h dst = None \<Longrightarrow> hop_dist (bucket_count h) (hf k mod bucket_count h) dst < 64 \<Longrightarrow>
    hop_abs h k = None \<Longrightarrow> hop_txn hf shl h (emplace_stores shl (hf k mod bucket_count h) dst (bucket_count h) (k, v))"
| move: "src < bucket_count h \<Longrightarrow> hop_used h src = Some (k, v) \<Longrightarrow> dst < bucket_count h \<Longrightarrow> hop_used h dst = None \<Longrightarrow>
    hop_dist (bucket_count h) (hf k mod bucket_count h) dst < 64 \<Longrightarrow>
    hop_txn hf shl h (move_stores shl (hf k mod bucket_count h) src dst (hop_dist (bucket_count h) (hf k mod bucket_count h) dst)
      (hop_dist (bucket_count h) (hf k mod bucket_count h) src))"
| erase: "src < bucket_count h \<Longrightarrow> hop_used h src = Some (k, v) \<Longrightarrow> hop_txn hf shl h (erase_stores shl (hf k mod bucket_count h) src)"

text \<open>A table after transactions, each complete.\<close>

inductive hop_commits :: "('k \<Rightarrow> nat) \<Rightarrow> (nat \<Rightarrow> owner) \<Rightarrow> ('k, 'v) hop \<Rightarrow> ('k, 'v) hop \<Rightarrow> bool" for hf shl where
  none: "hop_commits hf shl h h"
| more: "hop_txn hf shl h sts \<Longrightarrow> hop_commits hf shl (run_stores sts h) g \<Longrightarrow> hop_commits hf shl h g"

lemma hop_commits_trans: "hop_commits hf shl h g \<Longrightarrow> hop_commits hf shl g f \<Longrightarrow> hop_commits hf shl h f"
  by (induction rule: hop_commits.induct) (auto intro: hop_commits.intros)

lemma hop_txn_inv:
  assumes "wide_shift shl" "hop_inv hf h" "hop_txn hf shl h sts"
  shows "hop_inv hf (run_stores sts h)" "stores_keep (crash_ok h (run_stores sts h)) sts h" "same_table h (run_stores sts h)"
  using assms(3)
proof -
  have w: "\<And>p. 64 < p \<Longrightarrow> shl p = push_bit (p mod 64) 1" using assms(1) by (simp add: wide_shift_def)
  from assms(3) have "hop_inv hf (run_stores sts h) \<and> stores_keep (crash_ok h (run_stores sts h)) sts h \<and> same_table h (run_stores sts h)"
  proof (cases rule: hop_txn.cases)
    case (emplace dst k v)
    then show ?thesis using emplace_stores_correct [OF assms(2) emplace(2-5)] emplace_crash [OF assms(2) emplace(2,3)] by simp
  next
    case (move src k v dst)
    then show ?thesis using move_stores_correct [OF assms(2) move(2-6)] move_crash [OF assms(2) move(2-5)] by simp
  next
    case (erase src k v)
    then show ?thesis using erase_stores_correct [OF w assms(2) erase(2,3)] erase_crash [OF assms(2) erase(2,3)] by simp
  qed
  then show "hop_inv hf (run_stores sts h)" "stores_keep (crash_ok h (run_stores sts h)) sts h" "same_table h (run_stores sts h)" by blast+
qed

lemma make_space_commits:
  assumes "hop_inv hf h" "bi < bucket_count h" "dst < bucket_count h" "hop_used h dst = None"
  shows "hop_commits hf shl h (snd (make_space_for_insert fuel dbg shl bi dst h))"
  using assms
proof (induction fuel arbitrary: h dst)
  case 0
  show ?case by (simp add: hop_commits.none)
next
  case (Suc fuel)
  let ?B = "bucket_count h"
  show ?case
  proof (cases "hop_dist ?B bi dst < 64 \<or> find_mover shl dst h = None")
    case True
    then show ?thesis using make_space_near [OF Suc.prems(1-3) True, of fuel dbg] by (simp add: hop_commits.none)
  next
    case False
    then obtain ow c where far: "\<not> hop_dist ?B bi dst < 64" "find_mover shl dst h = Some (ow, c)" by auto
    obtain k v src where m: "src < ?B" "hop_used h src = Some (k, v)" "hop_dist ?B (hf k mod ?B) dst < 64" "hop_dist ?B bi src < hop_dist ?B bi dst"
      "make_space_for_insert (Suc fuel) dbg shl bi dst h = make_space_for_insert fuel dbg shl bi src
        (run_stores (move_stores shl (hf k mod ?B) src dst (hop_dist ?B (hf k mod ?B) dst) (hop_dist ?B (hf k mod ?B) src)) h)"
      using make_space_move [OF Suc.prems far] by metis
    note txn = hop_txn.move [where shl = shl and hf = hf, OF m(1,2) Suc.prems(3,4) m(3)]
    note mv = move_stores_correct [OF Suc.prems(1) m(1,2) Suc.prems(3,4) m(3), of shl]
    show ?thesis unfolding m(5) using hop_commits.more [OF txn] Suc.IH [OF mv(1)] mv(4) Suc.prems(2) m(1) same_table_counts(1) [OF mv(3)] by simp
  qed
qed

lemma place_commits:
  assumes inv: "hop_inv hf h" and fresh: "hop_abs h k = None"
  shows "hop_commits hf shl h (snd (place dbg shl (bucket_ix h (hf k)) (k, v) h))"
proof -
  let ?B = "bucket_count h" and ?o = "hf k mod bucket_count h"
  note h = hop_invD [OF inv]
  have B: "128 \<le> ?B" using hop_shape_size(2) [OF h(1)] .
  then have o: "?o < ?B" by simp
  have ix: "bucket_ix h (hf k) = ?o" by (rule bucket_ix_mod [OF h(1)])
  from inv o show ?thesis
  proof (cases rule: nearest_free_bucket_spec [case_names free full])
    case (free b)
    have "hop_dist ?B ?o b < ?B" using hop_dist_less B by simp
    from make_space_correct [OF inv o free(2,3) this, of dbg shl]
    obtain r g where ms: "make_space_for_insert ?B dbg shl ?o b h = (r, g)" "hop_inv hf g" "hop_abs g = hop_abs h" "same_table h g"
      "r = Inl Range_error \<or> (\<exists>d < ?B. r = Inr d \<and> hop_used g d = None \<and> hop_dist ?B ?o d < 64)" by blast
    note same = same_table_counts [OF ms(4)]
    have c: "hop_commits hf shl h g" using make_space_commits [OF inv o free(2,3), of shl ?B dbg] ms(1) by simp
    from ms(5) show ?thesis
    proof
      assume "r = Inl Range_error"
      then show ?thesis using ms free(1) c by (simp add: place_def ix)
    next
      assume "\<exists>d < ?B. r = Inr d \<and> hop_used g d = None \<and> hop_dist ?B ?o d < 64"
      then obtain d where d: "d < ?B" "r = Inr d" "hop_used g d = None" "hop_dist ?B ?o d < 64" by blast
      have fr: "hop_is_free g d" using used_None_iff [OF hop_invD(2) [OF ms(2)], of d] d same by (simp add: hop_is_free_def bk_def)
      have "hop_txn hf shl g (emplace_stores shl ?o d ?B (k, v))"
        using hop_txn.emplace [where h = g and hf = hf and shl = shl and k = k and v = v and dst = d] d fresh ms(3) same by simp
      then have "hop_commits hf shl h (run_stores (emplace_stores shl ?o d ?B (k, v)) g)"
        using hop_commits_trans [OF c] hop_commits.more [OF _ hop_commits.none] by blast
      then show ?thesis using ms(1) d free(1) fr by (simp add: place_def ix)
    qed
  next
    case full
    then show ?thesis by (simp add: place_def ix hop_commits.none)
  qed
qed

text \<open>
  The persistent state when a resize stops in the iteration of index \<open>m\<close> of its second pass, after
  \<open>n\<close> of the stores of that iteration.
\<close>

definition resize_crash :: "('k \<Rightarrow> nat) \<Rightarrow> bool \<Rightarrow> (nat \<Rightarrow> owner) \<Rightarrow> nat \<Rightarrow> nat \<Rightarrow> ('k, 'v) hop \<Rightarrow> ('k, 'v) hop" where
  "resize_crash hf dbg shl m n h =
     (case resize_pass1 hf h [0..<bucket_count h] (replicate (bucket_count h) empty_bucket) of
        Inl e \<Rightarrow> h
      | Inr jun \<Rightarrow>
          let f = snd (resize_pass2 hf dbg shl [0..<m] (h\<lparr>hp_junior := jun, hp_count := vu_destabilize (hp_count h)\<rparr>)) in
          case pass2_stores hf dbg shl m f of Inl e \<Rightarrow> f | Inr sts \<Rightarrow> run_stores (take n sts) f)"

lemma resize_crash_resizing:
  assumes inv: "hop_inv hf h" and m: "m < bucket_count h"
  shows "resizing hf h (resize_crash hf dbg shl m n h)"
proof -
  obtain jun where j: "resize_pass1 hf h [0..<bucket_count h] (replicate (bucket_count h) empty_bucket) = Inr jun"
    "resizing hf h (h\<lparr>hp_junior := jun, hp_count := vu_destabilize (hp_count h)\<rparr>)"
    using resize_start [OF inv] by blast
  have sub: "set [0..<m] \<subseteq> {..<bucket_count h}" using m by auto
  obtain f where f: "resize_pass2 hf dbg shl [0..<m] (h\<lparr>hp_junior := jun, hp_count := vu_destabilize (hp_count h)\<rparr>) = (Inr (), f)" "resizing hf h f"
    using resize_pass2_completes [OF inv j(2) sub, of dbg shl] by (auto simp: resize_keeps_def)
  obtain sts where sts: "pass2_stores hf dbg shl m f = Inr sts" "stores_keep (resize_keeps hf h f) sts f"
    using pass2_stores_keep [OF inv f(2) m] by metis
  have "resizing hf h (run_stores (take n sts) f)" using stores_keep_take [OF sts(2), of n] by (simp add: resize_keeps_def)
  then show ?thesis using j(1) f(1) sts(1) by (simp add: resize_crash_def)
qed

lemma resizing_reopen:
  assumes inv: "hop_inv hf h" and f: "resizing hf h f" and small: "bucket_count h < 2 ^ 32"
  obtains g where "hop_reopen hf dbg shl f = (Inr (), resize_epilog g)" "resized hf h g" "hp_auto_resize g"
proof -
  let ?f = "f\<lparr>hp_auto_resize := True\<rparr>"
  have f': "resizing hf h ?f" using f by (simp add: resizing_def)
  obtain g where g: "resize_finish hf dbg shl ?f = (Inr (), resize_epilog g)" "resized hf h g" "hp_auto_resize g = hp_auto_resize ?f"
    by (rule resize_finish_correct [OF inv f'])
  have "vu_is_stable 8 (hp_size (resize_epilog g))"
    using resize_epilog_fields(5) [OF inv g(2) small] hop_invD(4) [OF inv] by (simp add: vu_is_stable_def)
  moreover have "\<not> vu_is_stable 1 (hp_count ?f)"
  proof -
    have "hp_count ?f = Suc (2 * segment_count h)" using f inv by (simp add: resizing_def hop_inv_def)
    then show ?thesis by (simp add: vu_is_stable_def)
  qed
  ultimately have "hop_reopen hf dbg shl f = (Inr (), resize_epilog g)" using g(1) by (simp add: hop_reopen_def recover_size_def)
  then show thesis using that g by simp
qed

section \<open>A removal whose shift is too wide\<close>

lemma locate_loop_undefined:
  assumes "\<And>p k' v. p \<in> set ps \<Longrightarrow> bit (hop_own h i) p \<Longrightarrow> bk_value (bk h ((i + p) mod bucket_count h)) = Some (k', v) \<Longrightarrow> k' \<noteq> k"
    and "q \<in> set ps" "bit (hop_own h i) q" "bk_value (bk h ((i + q) mod bucket_count h)) = None"
  shows "locate_loop k h i ps = Inl Undefined_behaviour"
  using assms
proof (induction ps)
  case (Cons p ps)
  show ?case
  proof (cases "q = p")
    case True
    then show ?thesis using Cons.prems by (simp add: Let_def hop_own_def bk_def)
  next
    case False
    have ih: "locate_loop k h i ps = Inl Undefined_behaviour" by (rule Cons.IH) (use Cons.prems False in auto)
    have "k' \<noteq> k" if "bit (hop_own h i) p" "bk_value (bk h ((i + p) mod bucket_count h)) = Some (k', v)" for k' v
      using Cons.prems(1) [of p k' v] that by simp
    then show ?thesis using ih by (auto simp: Let_def hop_own_def bk_def split: option.splits)
  qed
qed simp

section \<open>Properties\<close>


definition sample_room :: "nat \<Rightarrow> bool" where
  "sample_room n \<longleftrightarrow> n \<le> 1024"

definition sample_shl :: "nat \<Rightarrow> owner" where
  "sample_shl p = (if p = 64 then 0 else push_bit (p mod 64) 1)"

lemma sample_ok: "wide_shift sample_shl" "bounded_room sample_room"
  by (simp_all add: wide_shift_def sample_shl_def bounded_room_def sample_room_def)

lemma sample_new: "hop_new True sample_room 10 = Inr \<lparr>hp_buckets = replicate 128 empty_bucket, hp_count = 2, hp_size = 0, hp_junior = [], hp_auto_resize = True\<rparr>"
  by (simp add: hop_new_def mul64_def throw_if_def sample_room_def hs_segment_size_def hs_bucket_count_def vu_set_stable_def)



definition sample_table :: "(nat, string) hop" where
  "sample_table = \<lparr>hp_buckets = replicate 128 empty_bucket, hp_count = 2, hp_size = 0, hp_junior = [], hp_auto_resize = True\<rparr>"

lemma sample_table_facts: "hop_inv hf sample_table" "hop_abs sample_table = Map.empty" "bucket_count sample_table = 128"
  "i < 128 \<Longrightarrow> hop_used sample_table i = None"
proof -
  show "hop_inv hf sample_table" "hop_abs sample_table = Map.empty"
    using hop_new_correct [OF sample_ok(2) sample_new] unfolding sample_table_def by blast+
  show "bucket_count sample_table = 128" by (simp add: sample_table_def bucket_count_def segment_count_def vu_value_not_stable_def hs_bucket_count_def)
  show "i < 128 \<Longrightarrow> hop_used sample_table i = None" by (simp add: sample_table_def hop_used_def bk_used_def bk_def empty_bucket_def)
qed


text \<open>
  C6: Growing keeps every element, and a resize that a crash interrupts anywhere in its second pass is
  completed when the table is opened: the result is the table the uninterrupted resize produces.
\<close>

theorem hop_resize_restartable:
  assumes "hop_inv hf h" "bounded_room room" "room (bucket_count h)"
  shows "\<exists>g. hop_resize hf dbg shl room h = (Inr (), g) \<and> hop_inv hf g \<and> hop_abs g = hop_abs h \<and> bucket_count g = 2 * bucket_count h \<and>
    (\<forall>m < bucket_count h. \<forall>n. hop_reopen hf dbg shl (resize_crash hf dbg shl m n h) = (Inr (), g\<lparr>hp_auto_resize := True\<rparr>))"
proof -
  have small: "bucket_count h < 2 ^ 32" using assms(2,3) by (simp add: bounded_room_def)
  obtain jun where j: "resize_pass1 hf h [0..<bucket_count h] (replicate (bucket_count h) empty_bucket) = Inr jun"
    "resizing hf h (h\<lparr>hp_junior := jun, hp_count := vu_destabilize (hp_count h)\<rparr>)"
    using resize_start [OF assms(1)] by blast
  obtain g where g: "resize_finish hf dbg shl (h\<lparr>hp_junior := jun, hp_count := vu_destabilize (hp_count h)\<rparr>) = (Inr (), resize_epilog g)"
    "resized hf h g" "hp_auto_resize g = hp_auto_resize (h\<lparr>hp_junior := jun, hp_count := vu_destabilize (hp_count h)\<rparr>)"
    by (rule resize_finish_correct [OF assms(1) j(2)])
  have run: "hop_resize hf dbg shl room h = (Inr (), resize_epilog g)" using assms(3) j(1) g(1) by (simp add: hop_resize_def)
  have "hop_reopen hf dbg shl (resize_crash hf dbg shl m n h) = (Inr (), (resize_epilog g)\<lparr>hp_auto_resize := True\<rparr>)" if m: "m < bucket_count h" for m n
  proof -
    obtain f where f: "hop_reopen hf dbg shl (resize_crash hf dbg shl m n h) = (Inr (), resize_epilog f)" "resized hf h f" "hp_auto_resize f"
      by (rule resizing_reopen [OF assms(1) resize_crash_resizing [OF assms(1) m] small])
    note eq = resized_unique [OF assms(1) f(2) g(2)]
    have "resize_epilog f = (resize_epilog g)\<lparr>hp_auto_resize := True\<rparr>" using eq f(3) by (simp add: resize_epilog_def)
    then show ?thesis using f(1) by simp
  qed
  then show ?thesis
    using run resize_epilog_correct [OF assms(1) g(2) small] resize_epilog_fields(2) [OF assms(1) g(2) small] by blast
qed

theorem hop_resize_restartable_witness:
  "\<exists>g. hop_resize (\<lambda>k. k) True sample_shl sample_room sample_table = (Inr (), g) \<and> bucket_count g = 256 \<and>
    hop_reopen (\<lambda>k. k) True sample_shl (resize_crash (\<lambda>k. k) True sample_shl 7 1 sample_table) = (Inr (), g\<lparr>hp_auto_resize := True\<rparr>)"
proof -
  have "sample_room (bucket_count sample_table)" using sample_table_facts(3) by (simp add: sample_room_def)
  from hop_resize_restartable [OF sample_table_facts(1) sample_ok(2) this, of "\<lambda>k. k" True sample_shl] show ?thesis
    unfolding sample_table_facts(3) by auto
qed

text \<open>
  C28: Removal computes the position of an element in its owner's word as a plain difference of
  indexes. When the neighbourhood wraps around the end of the table the shift amount is out of range,
  and where such a shift yields zero the owner keeps its bit: the next lookup of the removed key reads
  a destroyed element.
\<close>

theorem hop_erase_wrapped_undefined:
  assumes inv: "hop_inv hf h" and j: "j < bucket_count h" "hop_used h j = Some (k, v)" and wraps: "j < hf k mod bucket_count h"
    and small: "bucket_count h < 2 ^ 32"
  shows "hop_at hf k (snd (hop_erase hf (\<lambda>_. 0) k h)) = Inl Undefined_behaviour"
proof -
  let ?B = "bucket_count h" and ?o = "hf k mod bucket_count h"
  let ?g = "run_stores (erase_stores (\<lambda>_. 0) ?o j) h"
  note h = hop_invD [OF inv]
  have B: "128 \<le> ?B" using hop_shape_size(2) [OF h(1)] .
  then have o: "?o < ?B" by simp
  have ix: "bucket_ix h (hf k) = ?o" by (rule bucket_ix_mod [OF h(1)])
  have st: "bk_state (bk h j) = IN_USE" using used_SomeD [OF j(2)] by simp
  note e = erase_effect [OF h(5) o j(1) st, of "\<lambda>_. 0"]
  note cg = same_table_counts [OF e(1)]
  obtain m where m: "?B = 2 ^ m" using hop_shape_size(1) [OF h(1)] by blast
  have "m < 32" using small m by (metis nat_power_less_imp_less zero_less_numeral)
  then have B31: "?B \<le> 2 ^ 31" unfolding m by (intro power_increasing) auto
  have sub: "sub64 j ?o = W64 - (?o - j)"
  proof -
    have lt: "?o < W64" using o small by simp
    then have "j + (W64 - ?o) = W64 - (?o - j)" "W64 - (?o - j) < W64" using wraps by simp_all
    then show ?thesis unfolding sub64_def mod_less [OF lt] by simp
  qed
  have md: "(W64 - x) mod 2 ^ 32 = 2 ^ 32 - x" if "0 < x" "x < 2 ^ 32" for x
  proof -
    have "W64 - x = (2 ^ 32 - x) + (2 ^ 32 - 1) * 2 ^ 32" using that by simp
    then show ?thesis using that by (simp only: mod_mult_self1) simp
  qed
  have "sub64 j ?o mod 2 ^ 32 = 2 ^ 32 - (?o - j)" unfolding sub by (rule md) (use wraps o small in linarith)+
  then have "64 \<le> sub64 j ?o mod 2 ^ 32" using wraps o B31 by simp
  then have own: "hop_own ?g = hop_own h" unfolding e(2) by (simp add: owner_erase_def mask_from_pos_def)
  have val: "bk_value (bk ?g i) = (if i = j then None else bk_value (bk h i))" for i
    using h(5) j(1) st by (simp add: erase_stores_def store_defs)
  have run: "hop_erase hf (\<lambda>_. 0) k h = (Inr 1, ?g)"
  proof -
    from h(2,1) show ?thesis
    proof (cases rule: locate_key_spec [where k = k, case_names found absent])
      case (found i w)
      then have "i = j" using content_key [OF h(3) found(2) j(1) found(3) j(2)] by simp
      then show ?thesis using found(1) ix by (simp add: hop_erase_def)
    next
      case absent
      then show ?thesis using abs_iff [OF h(2,1), of k v] j by auto
    qed
  qed
  let ?q = "hop_dist ?B ?o j"
  have q: "?q < 64" "bit (hop_own h ?o) ?q" "(?o + ?q) mod ?B = j"
    using core_near [OF content_core [OF h(3)] j] add_hop_dist [OF o j(1)] by simp_all
  have "locate_loop k ?g ?o [0..<64] = Inl Undefined_behaviour"
  proof (rule locate_loop_undefined [where q = ?q])
    fix p k' w assume p: "p \<in> set [0..<64]" "bit (hop_own ?g ?o) p" "bk_value (bk ?g ((?o + p) mod bucket_count ?g)) = Some (k', w)"
    let ?i = "(?o + p) mod ?B"
    have i: "?i < ?B" "?i \<noteq> j" "bk_value (bk h ?i) = Some (k', w)" using p(3) B unfolding cg val by (auto split: if_splits)
    have "owned_as hf ?B ?o (hop_used h ?i)" using core_bit [OF content_core [OF h(3)] o, of p] p(1,2) own by simp
    then obtain a b where ab: "hop_used h ?i = Some (a, b)" unfolding owned_as_def by blast
    then have "hop_used h ?i = Some (k', w)" using i(3) used_SomeD [OF ab] by simp
    then show "k' \<noteq> k" using content_key [OF h(3) i(1) j(1) _ j(2)] i(2) by blast
  qed (use q own val cg in simp_all)
  moreover have "bucket_ix ?g (hf k) = ?o" using bucket_ix_mod [of ?g "hf k"] cg h(1) by simp
  ultimately show ?thesis using run by (simp add: hop_at_def locate_key_def)
qed

text \<open>Two keys with the same hash at the end of the table: the second one is in the first bucket.\<close>

theorem hop_erase_wrapped_undefined_witness:
  "\<exists>h :: (nat, string) hop. hop_inv (\<lambda>k. k) h \<and> hop_abs h = [127 \<mapsto> ''a'', 255 \<mapsto> ''b''] \<and>
    hop_at (\<lambda>k. k) 255 (snd (hop_erase (\<lambda>k. k) (\<lambda>_. 0) 255 h)) = Inl Undefined_behaviour"
proof -
  define h1 where "h1 = run_stores (emplace_stores sample_shl 127 127 128 (127, ''a'')) sample_table"
  define h2 where "h2 = run_stores (emplace_stores sample_shl 127 0 128 (255, ''b'')) h1"
  note t = sample_table_facts
  have h1: "hop_inv (\<lambda>k. k) h1" "hop_abs h1 = [127 \<mapsto> ''a'']" "same_table sample_table h1"
    using emplace_stores_correct [OF t(1) [where hf = "\<lambda>k. k"], where dst = 127 and k = 127 and v = "''a''" and shl = sample_shl] t(2-4)
    by (simp_all add: h1_def hop_dist_def)
  have len: "length (hp_buckets sample_table) = 128" using hop_invD(5) [OF t(1)] t(3) by simp
  have c1: "bucket_count h1 = 128" using same_table_counts [OF h1(3)] t(3) by simp
  have "hop_used h1 0 = None" using emplace_effect(3) [OF len, of 127 127 sample_shl "(127, ''a'')"] t(4) by (simp add: h1_def)
  then have h2: "hop_inv (\<lambda>k. k) h2" "hop_abs h2 = [127 \<mapsto> ''a'', 255 \<mapsto> ''b'']" "same_table h1 h2"
    using emplace_stores_correct [OF h1(1), where dst = 0 and k = 255 and v = "''b''" and shl = sample_shl] h1(2) c1
    by (simp_all add: h2_def hop_dist_def)
  have c2: "bucket_count h2 = 128" using same_table_counts [OF h2(3)] c1 by simp
  have len1: "length (hp_buckets h1) = 128" using hop_invD(5) [OF h1(1)] c1 by simp
  have "hop_used h2 0 = Some (255, ''b'')" using emplace_effect(3) [OF len1, of 127 0 sample_shl "(255, ''b'')"] by (simp add: h2_def)
  then have "hop_at (\<lambda>k. k) 255 (snd (hop_erase (\<lambda>k. k) (\<lambda>_. 0) 255 h2)) = Inl Undefined_behaviour"
    using hop_erase_wrapped_undefined [OF h2(1), of 0 255 "''b''"] c2 by simp
  then show ?thesis using h2 by blast
qed

end
