(* ===== verification/Fixed_String.thy ===== *)
theory Fixed_String
  imports Prelude
begin

text \<open>
  The reference-counted strings of hstore (\<open>persist_fixed_string.h\<close>): up to 23 bytes are held in
  place, longer strings in a block with a counter that all copies share. The union of the two
  representations is a discriminant and a payload. The allocator is an argument: it picks the address
  of a new block or fails.
\<close>

section \<open>Representation\<close>

abbreviation (input) small_size :: nat where "small_size \<equiv> 23"

abbreviation (input) large_kind :: nat where "large_kind \<equiv> 24"

record fixed_string =
  fs_ref_count :: nat
  fs_data :: "nat list"

type_synonym blocks = "nat \<rightharpoonup> fixed_string"

type_synonym block_alloc = "blocks \<Rightarrow> nat \<Rightarrow> nat option"

text \<open>\<open>Ptr None\<close> is the null pointer that a move leaves behind.\<close>

datatype payload = Chars "nat list" | Ptr "nat option"

record rep =
  rp_size :: nat
  rp_payload :: payload

definition inc_ref :: "nat \<Rightarrow> (blocks, unit) prog" where
  "inc_ref a =
     bind_p (get_p (\<lambda>h. h a)) (\<lambda>b.
     case b of
       None \<Rightarrow> throw_p Undefined_behaviour
     | Some f \<Rightarrow> update_p (\<lambda>h. h(a \<mapsto> f\<lparr>fs_ref_count := (fs_ref_count f + 1) mod 2 ^ 32\<rparr>)))"

definition dec_ref :: "nat \<Rightarrow> (blocks, nat) prog" where
  "dec_ref a =
     bind_p (get_p (\<lambda>h. h a)) (\<lambda>b.
     case b of
       None \<Rightarrow> throw_p Undefined_behaviour
     | Some f \<Rightarrow>
         let n = (fs_ref_count f + (2 ^ 32 - 1)) mod 2 ^ 32 in
         bind_p (update_p (\<lambda>h. h(a \<mapsto> f\<lparr>fs_ref_count := n\<rparr>))) (\<lambda>_. ret_p n))"

definition ref_count :: "nat \<Rightarrow> (blocks, nat) prog" where
  "ref_count a =
     bind_p (get_p (\<lambda>h. h a)) (\<lambda>b. case b of None \<Rightarrow> throw_p Undefined_behaviour | Some f \<Rightarrow> ret_p (fs_ref_count f))"

definition deallocate_block :: "nat \<Rightarrow> (blocks, unit) prog" where
  "deallocate_block a = update_p (\<lambda>h. h(a := None))"

definition is_small :: "rep \<Rightarrow> bool" where
  "is_small r \<longleftrightarrow> rp_size r < large_kind"

text \<open>The pointer of a large representation.\<close>

definition large_ptr :: "rep \<Rightarrow> nat option result" where
  "large_ptr r = (case rp_payload r of Ptr p \<Rightarrow> Inr p | Chars cs \<Rightarrow> Inl Undefined_behaviour)"

definition small_rep :: "nat list \<Rightarrow> rep" where
  "small_rep cs = \<lparr>rp_size = length cs, rp_payload = Chars cs\<rparr>"

definition large_rep :: "nat option \<Rightarrow> rep" where
  "large_rep p = \<lparr>rp_size = large_kind, rp_payload = Ptr p\<rparr>"

section \<open>Operations\<close>

definition rep_new :: "block_alloc \<Rightarrow> nat list \<Rightarrow> (blocks, rep) prog" where
  "rep_new al cs =
     (if length cs \<le> small_size then ret_p (small_rep cs)
      else
        bind_p (get_p (\<lambda>h. al h (length cs))) (\<lambda>p.
        case p of
          None \<Rightarrow> throw_p Bad_alloc
        | Some a \<Rightarrow>
            bind_p (update_p (\<lambda>h. h(a \<mapsto> \<lparr>fs_ref_count = 1, fs_data = cs\<rparr>))) (\<lambda>_.
            ret_p (large_rep (Some a)))))"

definition rep_copy :: "rep \<Rightarrow> (blocks, rep) prog" where
  "rep_copy r =
     (if is_small r then ret_p r
      else
        bind_p (lift_p (large_ptr r)) (\<lambda>p.
        case p of
          None \<Rightarrow> ret_p (large_rep None)
        | Some a \<Rightarrow> bind_p (inc_ref a) (\<lambda>_. ret_p (large_rep (Some a)))))"

text \<open>The release of a large string's block at the start of an assignment.\<close>

definition assign_release :: "rep \<Rightarrow> (blocks, unit) prog" where
  "assign_release x =
     bind_p (lift_p (large_ptr x)) (\<lambda>p.
     case p of
       None \<Rightarrow> ret_p ()
     | Some a \<Rightarrow>
         bind_p (ref_count a) (\<lambda>c.
         if c \<noteq> 0 then bind_p (dec_ref a) (\<lambda>n. if n = 0 then deallocate_block a else ret_p ()) else ret_p ()))"

definition rep_assign :: "rep \<Rightarrow> rep \<Rightarrow> (blocks, rep) prog" where
  "rep_assign x y =
     bind_p (if is_small x then ret_p () else assign_release x) (\<lambda>_.
     if is_small y then ret_p y
     else
       bind_p (lift_p (large_ptr y)) (\<lambda>p.
       case p of
         None \<Rightarrow> throw_p Null_deref
       | Some a \<Rightarrow> bind_p (inc_ref a) (\<lambda>_. ret_p (large_rep (Some a)))))"

definition rep_move_assign :: "rep \<Rightarrow> rep \<Rightarrow> (blocks, rep \<times> rep) prog" where
  "rep_move_assign x y =
     bind_p (if is_small x then ret_p () else assign_release x) (\<lambda>_.
     if is_small y then ret_p (y, y)
     else
       bind_p (lift_p (large_ptr y)) (\<lambda>p.
       ret_p (large_rep p, large_rep None)))"

definition rep_destroy :: "rep \<Rightarrow> (blocks, unit) prog" where
  "rep_destroy r =
     (if is_small r then ret_p ()
      else
        bind_p (lift_p (large_ptr r)) (\<lambda>p.
        case p of
          None \<Rightarrow> ret_p ()
        | Some a \<Rightarrow> bind_p (dec_ref a) (\<lambda>n. if n = 0 then deallocate_block a else ret_p ())))"

definition rep_data :: "rep \<Rightarrow> blocks \<Rightarrow> nat list result" where
  "rep_data r h =
     (case rp_payload r of
        Chars cs \<Rightarrow> if is_small r then Inr cs else Inl Undefined_behaviour
      | Ptr p \<Rightarrow>
          if is_small r then Inl Undefined_behaviour
          else (case p of
              None \<Rightarrow> Inl Null_deref
            | Some a \<Rightarrow> (case h a of None \<Rightarrow> Inl Undefined_behaviour | Some f \<Rightarrow> Inr (fs_data f))))"

definition string_equal :: "rep \<Rightarrow> rep \<Rightarrow> blocks \<Rightarrow> bool result" where
  "string_equal a b h = bind_res (rep_data a h) (\<lambda>x. bind_res (rep_data b h) (\<lambda>y. Inr (length x = length y \<and> x = y)))"

text \<open>
  After a restart the counters are rebuilt: the first reference to a block sets its counter to one and
  every further one adds one. \<open>seen\<close> are the blocks the allocator has been told of.
\<close>

definition rep_reconstitute :: "rep \<Rightarrow> (blocks \<times> nat set, unit) prog" where
  "rep_reconstitute r =
     (if is_small r then ret_p ()
      else
        bind_p (lift_p (large_ptr r)) (\<lambda>p.
        case p of
          None \<Rightarrow> throw_p Null_deref
        | Some a \<Rightarrow>
            bind_p (get_p (\<lambda>(h, seen). (h a, a \<in> seen))) (\<lambda>(b, known).
            case b of
              None \<Rightarrow> throw_p Undefined_behaviour
            | Some f \<Rightarrow>
                if known then update_p (\<lambda>(h, seen). (h(a \<mapsto> f\<lparr>fs_ref_count := (fs_ref_count f + 1) mod 2 ^ 32\<rparr>), seen))
                else update_p (\<lambda>(h, seen). (h(a \<mapsto> f\<lparr>fs_ref_count := 1\<rparr>), insert a seen)))))"

section \<open>Programs over named strings\<close>

datatype string_op = New nat "nat list" | Copy nat nat | Assign nat nat | Move_assign nat nat | Destroy nat

record strings =
  st_blocks :: blocks
  st_vars :: "nat \<rightharpoonup> rep"

definition on_blocks :: "(blocks, 'a) prog \<Rightarrow> (strings, 'a) prog" where
  "on_blocks m s = (case m (st_blocks s) of (r, h) \<Rightarrow> (r, s\<lparr>st_blocks := h\<rparr>))"

definition set_var :: "nat \<Rightarrow> rep \<Rightarrow> (strings, unit) prog" where
  "set_var x r = update_p (\<lambda>s. s\<lparr>st_vars := (st_vars s)(x \<mapsto> r)\<rparr>)"

definition get_var :: "nat \<Rightarrow> (strings, rep) prog" where
  "get_var x = bind_p (get_p (\<lambda>s. st_vars s x)) (\<lambda>v. case v of None \<Rightarrow> throw_p Undefined_behaviour | Some r \<Rightarrow> ret_p r)"

fun string_step :: "block_alloc \<Rightarrow> string_op \<Rightarrow> (strings, unit) prog" where
  "string_step al (New x cs) = bind_p (on_blocks (rep_new al cs)) (set_var x)"
| "string_step al (Copy x y) = bind_p (get_var y) (\<lambda>r. bind_p (on_blocks (rep_copy r)) (set_var x))"
| "string_step al (Assign x y) =
     bind_p (get_var x) (\<lambda>a. bind_p (get_var y) (\<lambda>b. bind_p (on_blocks (rep_assign a b)) (set_var x)))"
| "string_step al (Move_assign x y) =
     bind_p (get_var x) (\<lambda>a. bind_p (get_var y) (\<lambda>b. bind_p (on_blocks (rep_move_assign a b)) (\<lambda>(a', b').
     bind_p (set_var x a') (\<lambda>_. set_var y b'))))"
| "string_step al (Destroy x) =
     bind_p (get_var x) (\<lambda>r. bind_p (on_blocks (rep_destroy r)) (\<lambda>_. update_p (\<lambda>s. s\<lparr>st_vars := (st_vars s)(x := None)\<rparr>)))"

section \<open>Counters are exact\<close>

text \<open>Every block is counted as often as \<open>n\<close> says, and a block that nothing counts does not exist.\<close>

definition exact :: "blocks \<Rightarrow> (nat \<Rightarrow> nat) \<Rightarrow> bool" where
  "exact h n \<longleftrightarrow> (\<forall>a. case h a of None \<Rightarrow> n a = 0 | Some f \<Rightarrow> fs_ref_count f = n a \<and> 0 < n a)"

definition same_data :: "blocks \<Rightarrow> blocks \<Rightarrow> bool" where
  "same_data h h' \<longleftrightarrow> (\<forall>a f f'. h a = Some f \<and> h' a = Some f' \<longrightarrow> fs_data f' = fs_data f)"

definition fresh_alloc :: "block_alloc \<Rightarrow> bool" where
  "fresh_alloc al \<longleftrightarrow> (\<forall>h n a. al h n = Some a \<longrightarrow> h a = None)"

lemma same_data_refl [simp]: "same_data h h"
  by (auto simp: same_data_def)

lemma same_data_trans: "same_data h h' \<Longrightarrow> same_data h' h'' \<Longrightarrow> dom h'' \<subseteq> dom h' \<Longrightarrow> same_data h h''"
  unfolding same_data_def dom_def by fastforce

lemma exactD: "exact h n \<Longrightarrow> 0 < n a \<Longrightarrow> \<exists>f. h a = Some f \<and> fs_ref_count f = n a"
  unfolding exact_def by (drule spec [of _ a]) (auto split: option.splits)

lemma exact_upd: "exact h n \<Longrightarrow> 0 < c \<Longrightarrow> exact (h(a \<mapsto> f\<lparr>fs_ref_count := c\<rparr>)) (n(a := c))"
  unfolding exact_def fun_upd_apply by (auto split: option.splits)

lemma exact_del: "exact h n \<Longrightarrow> exact (h(a := None)) (n(a := 0))"
  unfolding exact_def fun_upd_apply by (auto split: option.splits)

lemma inc_ref_exact:
  assumes "exact h n" "0 < n a" "n a + 1 < 2 ^ 32"
  obtains h' where "inc_ref a h = (Inr (), h')" "exact h' (n(a := n a + 1))" "same_data h h'" "dom h' = dom h"
proof -
  obtain f where f: "h a = Some f" "fs_ref_count f = n a" using exactD [OF assms(1,2)] by blast
  let ?h = "h(a \<mapsto> f\<lparr>fs_ref_count := n a + 1\<rparr>)"
  have "inc_ref a h = (Inr (), ?h)" using f assms(3) by (simp add: inc_ref_def)
  moreover have "same_data h ?h" "dom ?h = dom h" using f by (auto simp: same_data_def)
  ultimately show thesis using that exact_upd [OF assms(1), of "n a + 1" a f] by simp
qed

lemma release_exact:
  assumes "exact h n" "0 < n a" "n a < 2 ^ 32"
  obtains h' where "bind_p (dec_ref a) (\<lambda>c. if c = 0 then deallocate_block a else ret_p ()) h = (Inr (), h')"
    "exact h' (n(a := n a - 1))" "same_data h h'"
proof -
  obtain f where f: "h a = Some f" "fs_ref_count f = n a" using exactD [OF assms(1,2)] by blast
  obtain m where m: "n a = Suc m" using assms(2) gr0_implies_Suc by blast
  have "(n a + (2 ^ 32 - 1)) mod 2 ^ 32 = m" using m assms(3) by simp
  then have d: "dec_ref a h = (Inr m, h(a \<mapsto> f\<lparr>fs_ref_count := m\<rparr>))" using f by (simp add: dec_ref_def Let_def)
  show thesis
  proof (cases "m = 0")
    case True
    let ?h = "h(a := None)"
    have "bind_p (dec_ref a) (\<lambda>c. if c = 0 then deallocate_block a else ret_p ()) h = (Inr (), ?h)"
      using d True by (simp add: deallocate_block_def)
    moreover have "same_data h ?h" by (auto simp: same_data_def)
    ultimately show thesis using that exact_del [OF assms(1), of a] m True by simp
  next
    case False
    let ?h = "h(a \<mapsto> f\<lparr>fs_ref_count := m\<rparr>)"
    have "bind_p (dec_ref a) (\<lambda>c. if c = 0 then deallocate_block a else ret_p ()) h = (Inr (), ?h)"
      using d False by simp
    moreover have "same_data h ?h" using f by (auto simp: same_data_def)
    ultimately show thesis using that exact_upd [OF assms(1), of m a f] m False by simp
  qed
qed

section \<open>The invariant of a program's strings\<close>

definition refs :: "(nat \<rightharpoonup> rep) \<Rightarrow> nat \<Rightarrow> nat" where
  "refs vs a = card {x. vs x = Some (large_rep (Some a))}"

definition rep_ok :: "rep \<Rightarrow> bool" where
  "rep_ok r \<longleftrightarrow> (\<exists>cs. r = small_rep cs \<and> length cs \<le> small_size) \<or> (\<exists>p. r = large_rep p)"

definition strings_ok :: "strings \<Rightarrow> bool" where
  "strings_ok s \<longleftrightarrow> finite (dom (st_vars s)) \<and> card (dom (st_vars s)) < 2 ^ 32 \<and> (\<forall>x r. st_vars s x = Some r \<longrightarrow> rep_ok r) \<and>
     exact (st_blocks s) (refs (st_vars s)) \<and> (\<forall>a f. st_blocks s a = Some f \<longrightarrow> small_size < length (fs_data f))"

text \<open>The string a variable holds; a moved-from large string holds none.\<close>

definition value_of :: "blocks \<Rightarrow> rep \<Rightarrow> nat list option" where
  "value_of h r = (case rep_data r h of Inr cs \<Rightarrow> Some cs | Inl e \<Rightarrow> None)"

definition strings_abs :: "strings \<Rightarrow> nat \<rightharpoonup> nat list option" where
  "strings_abs s x = map_option (value_of (st_blocks s)) (st_vars s x)"

fun string_spec :: "string_op \<Rightarrow> (nat \<rightharpoonup> nat list option) \<Rightarrow> nat \<rightharpoonup> nat list option" where
  "string_spec (New x cs) m = m(x \<mapsto> Some cs)"
| "string_spec (Copy x y) m = m(x := m y)"
| "string_spec (Assign x y) m = m(x := m y)"
| "string_spec (Move_assign x y) m =
     m(x := m y, y := (case m y of Some (Some cs) \<Rightarrow> if length cs \<le> small_size then m y else Some None | v \<Rightarrow> v))"
| "string_spec (Destroy x) m = m(x := None)"

text \<open>What the language requires of a program: a variable is constructed once, used while it lives.\<close>

fun string_wf :: "string_op \<Rightarrow> (nat \<rightharpoonup> nat list option) \<Rightarrow> bool" where
  "string_wf (New x cs) m \<longleftrightarrow> m x = None"
| "string_wf (Copy x y) m \<longleftrightarrow> m x = None \<and> m y \<noteq> None"
| "string_wf (Assign x y) m \<longleftrightarrow> x \<noteq> y \<and> m x \<noteq> None \<and> (\<exists>cs. m y = Some (Some cs))"
| "string_wf (Move_assign x y) m \<longleftrightarrow> x \<noteq> y \<and> m x \<noteq> None \<and> m y \<noteq> None"
| "string_wf (Destroy x) m \<longleftrightarrow> m x \<noteq> None"

lemma rep_simps [simp]:
  "length cs \<le> 23 \<Longrightarrow> is_small (small_rep cs)" "\<not> is_small (large_rep p)" "large_ptr (large_rep p) = Inr p"
  "small_rep cs \<noteq> large_rep p" "large_rep p \<noteq> small_rep cs" "large_rep p = large_rep q \<longleftrightarrow> p = q"
  by (auto simp: is_small_def small_rep_def large_rep_def large_ptr_def)

lemma rep_cases:
  assumes "rep_ok r"
  obtains cs where "r = small_rep cs" "length cs \<le> 23" | "r = large_rep None" | a where "r = large_rep (Some a)"
  using assms unfolding rep_ok_def by (metis not_None_eq)

lemma value_of_simps [simp]:
  "length cs \<le> 23 \<Longrightarrow> value_of h (small_rep cs) = Some cs" "value_of h (large_rep None) = None"
  "value_of h (large_rep (Some a)) = map_option fs_data (h a)"
  by (auto simp: value_of_def rep_data_def is_small_def small_rep_def large_rep_def split: option.splits)

lemma refs_upd:
  assumes "finite (dom vs)"
  shows "refs (vs(x := v)) a + (if vs x = Some (large_rep (Some a)) then 1 else 0) =
    refs vs a + (if v = Some (large_rep (Some a)) then 1 else 0)"
proof -
  let ?S = "{y. vs y = Some (large_rep (Some a))}"
  have fin: "finite ?S" using assms by (rule finite_subset [rotated]) auto
  have S: "{y. (vs(x := v)) y = Some (large_rep (Some a))} = (if v = Some (large_rep (Some a)) then insert x ?S else ?S - {x})" by auto
  show ?thesis
  proof (cases "x \<in> ?S")
    case True
    then have "card ?S = Suc (card (?S - {x}))" using fin by (metis card_Suc_Diff1)
    then show ?thesis using True unfolding refs_def S by (auto simp: insert_absorb)
  next
    case False
    then show ?thesis using fin unfolding refs_def S by simp
  qed
qed

lemma refs_le: "finite (dom vs) \<Longrightarrow> refs vs a \<le> card (dom vs)"
  unfolding refs_def by (rule card_mono) auto

lemma refs_pos: "finite (dom vs) \<Longrightarrow> vs x = Some (large_rep (Some a)) \<Longrightarrow> 0 < refs vs a"
proof -
  assume "finite (dom vs)" "vs x = Some (large_rep (Some a))"
  moreover have "{y. vs y = Some (large_rep (Some a))} \<subseteq> dom vs" by auto
  ultimately have "finite {y. vs y = Some (large_rep (Some a))}" "x \<in> {y. vs y = Some (large_rep (Some a))}" using finite_subset by auto
  then show ?thesis unfolding refs_def by (metis card_gt_0_iff empty_iff)
qed

lemma refs_drop:
  assumes "finite (dom vs)" "vs x = Some (large_rep (Some a))" "\<And>b. v \<noteq> Some (large_rep (Some b))"
  shows "refs (vs(x := v)) = (refs vs)(a := refs vs a - 1)"
proof
  fix b show "refs (vs(x := v)) b = ((refs vs)(a := refs vs a - 1)) b"
    using refs_upd [OF assms(1), of x v b] assms(2,3) by (cases "b = a") auto
qed

lemma refs_add:
  assumes "finite (dom vs)" "\<And>b. vs x \<noteq> Some (large_rep (Some b))"
  shows "refs (vs(x \<mapsto> large_rep (Some a))) = (refs vs)(a := refs vs a + 1)"
proof
  fix b show "refs (vs(x \<mapsto> large_rep (Some a))) b = ((refs vs)(a := refs vs a + 1)) b"
    using refs_upd [OF assms(1), of x "Some (large_rep (Some a))" b] assms(2) by (cases "b = a") auto
qed

lemma refs_keep:
  assumes "finite (dom vs)" "\<And>b. vs x \<noteq> Some (large_rep (Some b))" "\<And>b. v \<noteq> Some (large_rep (Some b))"
  shows "refs (vs(x := v)) = refs vs"
proof
  fix b show "refs (vs(x := v)) b = refs vs b" using refs_upd [OF assms(1), of x v b] assms(2,3) by simp
qed

lemma value_kept:
  assumes "exact h (refs vs)" "exact h' (refs vs')" "same_data h h'" "finite (dom vs)" "finite (dom vs')"
    and "vs z = Some r" "vs' z' = Some r" "rep_ok r"
  shows "value_of h' r = value_of h r"
  using assms(8)
proof (cases rule: rep_cases)
  case (3 a)
  obtain f where f: "h a = Some f" using exactD [OF assms(1) refs_pos [OF assms(4)]] assms(6) 3 by blast
  obtain f' where f': "h' a = Some f'" using exactD [OF assms(2) refs_pos [OF assms(5)]] assms(7) 3 by blast
  show ?thesis using 3 f f' assms(3) by (auto simp: same_data_def)
qed simp_all

section \<open>Steps\<close>

text \<open>The release of what a variable holds, by destruction or at the start of an assignment.\<close>

lemma release_var:
  assumes ok: "strings_ok s" and x: "st_vars s x = Some r"
  obtains h where "(if is_small r then ret_p () else assign_release r) (st_blocks s) = (Inr (), h)"
    "rep_destroy r (st_blocks s) = (Inr (), h)" "exact h (refs ((st_vars s)(x := None)))" "same_data (st_blocks s) h" "dom h \<subseteq> dom (st_blocks s)"
proof -
  have fin: "finite (dom (st_vars s))" and ex: "exact (st_blocks s) (refs (st_vars s))" and r: "rep_ok r"
    and card: "card (dom (st_vars s)) < 2 ^ 32" using ok x by (auto simp: strings_ok_def)
  from r show thesis
  proof (cases rule: rep_cases)
    case (3 a)
    have pos: "0 < refs (st_vars s) a" using refs_pos [OF fin] x 3 by blast
    have lt: "refs (st_vars s) a < 2 ^ 32" using refs_le [OF fin, of a] card by linarith
    obtain f where f: "st_blocks s a = Some f" "fs_ref_count f = refs (st_vars s) a" using exactD [OF ex pos] by blast
    obtain h where h: "bind_p (dec_ref a) (\<lambda>c. if c = 0 then deallocate_block a else ret_p ()) (st_blocks s) = (Inr (), h)"
      "exact h ((refs (st_vars s))(a := refs (st_vars s) a - 1))" "same_data (st_blocks s) h" by (rule release_exact [OF ex pos lt])
    have "exact h (refs ((st_vars s)(x := None)))" using h(2) refs_drop [OF fin, of x a None] x 3 by simp
    moreover have "dom h \<subseteq> dom (st_blocks s)"
    proof
      fix b assume "b \<in> dom h"
      then have "0 < ((refs (st_vars s))(a := refs (st_vars s) a - 1)) b" using h(2) unfolding exact_def by (drule_tac x = b in spec) auto
      then have "0 < refs (st_vars s) b" by (auto split: if_splits)
      then show "b \<in> dom (st_blocks s)" using exactD [OF ex] by blast
    qed
    ultimately show thesis using that [of h] h(1,3) 3 f pos by (simp add: assign_release_def rep_destroy_def ref_count_def)
  next
    case (1 cs)
    then have "refs ((st_vars s)(x := None)) = refs (st_vars s)" using x by (intro refs_keep [OF fin]) auto
    then show thesis using that [of "st_blocks s"] 1 ex by (simp add: rep_destroy_def)
  next
    case 2
    then have "refs ((st_vars s)(x := None)) = refs (st_vars s)" using x by (intro refs_keep [OF fin]) auto
    then show thesis using that [of "st_blocks s"] 2 ex by (simp add: assign_release_def rep_destroy_def)
  qed
qed

text \<open>Taking a further reference to what a representation refers to.\<close>

lemma acquire_var:
  assumes ex: "exact h (refs vs)" and fin: "finite (dom vs)" and card: "card (dom vs) + 1 < 2 ^ 32"
    and y: "vs y = Some r" "rep_ok r" and x: "vs x = None" and r: "r \<noteq> large_rep None"
  obtains h' where "(if is_small r then ret_p r
      else bind_p (lift_p (large_ptr r)) (\<lambda>p. case p of None \<Rightarrow> throw_p Null_deref | Some a \<Rightarrow> bind_p (inc_ref a) (\<lambda>_. ret_p (large_rep (Some a))))) h = (Inr r, h')"
    "rep_copy r h = (Inr r, h')" "exact h' (refs (vs(x \<mapsto> r)))" "same_data h h'" "dom h' = dom h"
  using y(2)
proof (cases rule: rep_cases)
  case (3 a)
  have pos: "0 < refs vs a" using refs_pos [OF fin] y 3 by blast
  have "refs vs a + 1 < 2 ^ 32" using refs_le [OF fin, of a] card by linarith
  from inc_ref_exact [OF ex pos this] obtain h' where h': "inc_ref a h = (Inr (), h')" "exact h' ((refs vs)(a := refs vs a + 1))" "same_data h h'" "dom h' = dom h"
    by blast
  have "refs (vs(x \<mapsto> r)) = (refs vs)(a := refs vs a + 1)" using refs_add [OF fin, of x a] x 3 by simp
  then show thesis using that [of h'] h' 3 by (simp add: rep_copy_def)
next
  case (1 cs)
  then have "refs (vs(x \<mapsto> r)) = refs vs" using x by (intro refs_keep [OF fin]) auto
  then show thesis using that [of h] 1 ex by (simp add: rep_copy_def)
qed (use r in simp)

lemma strings_absI:
  assumes s: "strings_ok s" and ex: "exact h (refs vs)" and data: "same_data (st_blocks s) h" and fin: "finite (dom vs)"
    and z: "st_vars s z = Some r" "vs z' = Some r"
  shows "value_of h r = value_of (st_blocks s) r"
proof -
  have e: "exact (st_blocks s) (refs (st_vars s))" "finite (dom (st_vars s))" "rep_ok r" using s z by (auto simp: strings_ok_def)
  show ?thesis by (rule value_kept [OF e(1) ex data e(2) fin z e(3)])
qed

text \<open>Every step does what value semantics says, and keeps the counters exact.\<close>

definition step_ok :: "block_alloc \<Rightarrow> string_op \<Rightarrow> strings \<Rightarrow> bool" where
  "step_ok al p s \<longleftrightarrow> (\<exists>t. string_step al p s = (Inr (), t) \<and> strings_ok t \<and> strings_abs t = string_spec p (strings_abs s) \<and>
     card (dom (st_vars t)) \<le> card (dom (st_vars s)) + 1)"

lemma step_okI:
  assumes run: "string_step al p s = (Inr (), s\<lparr>st_blocks := h, st_vars := vs\<rparr>)" and h: "exact h (refs vs)"
    and hl: "\<And>a f. h a = Some f \<Longrightarrow> 23 < length (fs_data f)" and fin: "finite (dom vs)"
    and card: "card (dom vs) \<le> card (dom (st_vars s)) + 1" "card (dom (st_vars s)) + 1 < 2 ^ 32" and reps: "\<And>x r. vs x = Some r \<Longrightarrow> rep_ok r"
    and ab: "\<And>x. map_option (value_of h) (vs x) = string_spec p (strings_abs s) x"
  shows "step_ok al p s"
proof -
  let ?t = "s\<lparr>st_blocks := h, st_vars := vs\<rparr>"
  have "strings_ok ?t" using h hl fin card reps by (auto simp: strings_ok_def)
  moreover have "strings_abs ?t = string_spec p (strings_abs s)" using ab by (simp add: strings_abs_def fun_eq_iff)
  ultimately show ?thesis using run card unfolding step_ok_def by auto
qed

lemma strings_okD:
  assumes "strings_ok s"
  shows "finite (dom (st_vars s))" "exact (st_blocks s) (refs (st_vars s))" "\<And>x r. st_vars s x = Some r \<Longrightarrow> rep_ok r"
    "\<And>a f. st_blocks s a = Some f \<Longrightarrow> 23 < length (fs_data f)" "\<And>x r. card (dom ((st_vars s)(x \<mapsto> r))) \<le> card (dom (st_vars s)) + 1"
  using assms by (auto simp: strings_ok_def card_insert_if)

lemma data_len:
  assumes "strings_ok s" "same_data (st_blocks s) h" "dom h \<subseteq> dom (st_blocks s)" "h a = Some f"
  shows "23 < length (fs_data f)"
proof -
  obtain g where g: "st_blocks s a = Some g" using assms(3,4) by blast
  then have "fs_data f = fs_data g" using assms(2,4) unfolding same_data_def by blast
  then show ?thesis using strings_okD(4) [OF assms(1) g] by simp
qed

lemma abs_None: "strings_abs s x = None \<longleftrightarrow> st_vars s x = None"
  by (simp add: strings_abs_def)

lemma step_new:
  assumes al: "fresh_alloc al" and ok: "strings_ok s" and x: "st_vars s x = None" and card: "card (dom (st_vars s)) + 1 < 2 ^ 32"
  shows "step_ok al (New x cs) s \<or> string_step al (New x cs) s = (Inl Bad_alloc, s)"
proof (cases "length cs \<le> 23")
  case True
  note k = strings_okD [OF ok]
  have r: "refs ((st_vars s)(x \<mapsto> small_rep cs)) = refs (st_vars s)" by (rule refs_keep [OF k(1)]) (use x in auto)
  have "step_ok al (New x cs) s"
    by (rule step_okI [where h = "st_blocks s" and vs = "(st_vars s)(x \<mapsto> small_rep cs)"])
      (use True k r card in \<open>auto simp: rep_new_def on_blocks_def set_var_def rep_ok_def strings_abs_def split: if_splits\<close>)
  then show ?thesis by blast
next
  case False
  note k = strings_okD [OF ok]
  show ?thesis
  proof (cases "al (st_blocks s) (length cs)")
    case None
    then show ?thesis using False by (simp add: rep_new_def on_blocks_def)
  next
    case (Some a)
    let ?h = "(st_blocks s)(a \<mapsto> \<lparr>fs_ref_count = 1, fs_data = cs\<rparr>)" and ?vs = "(st_vars s)(x \<mapsto> large_rep (Some a))"
    have a: "st_blocks s a = None" using al Some by (simp add: fresh_alloc_def)
    have za: "refs (st_vars s) a = 0" using k(2) a unfolding exact_def by (drule_tac x = a in spec) simp
    have r: "refs ?vs = (refs (st_vars s))(a := 1)" using refs_add [OF k(1), of x a] x za by simp
    have h: "exact ?h (refs ?vs)" unfolding r using k(2) unfolding exact_def fun_upd_apply by (auto split: option.splits)
    have data: "same_data (st_blocks s) ?h" using a by (auto simp: same_data_def)
    have fin: "finite (dom ?vs)" using k(1) by simp
    have "step_ok al (New x cs) s"
    proof (rule step_okI [OF _ h _ _ _ card])
      show "string_step al (New x cs) s = (Inr (), s\<lparr>st_blocks := ?h, st_vars := ?vs\<rparr>)"
        using False Some by (simp add: rep_new_def on_blocks_def set_var_def)
      have keep: "value_of ?h q = value_of (st_blocks s) q" if "st_vars s z = Some q" "z \<noteq> x" for z q
        by (rule strings_absI [OF ok h data fin that(1), of z]) (use that in simp)
      show "map_option (value_of ?h) (?vs z) = string_spec (New x cs) (strings_abs s) z" for z
        using keep [of z] by (cases "z = x"; cases "st_vars s z") (simp_all add: strings_abs_def)
      show "23 < length (fs_data f)" if "?h b = Some f" for b f using that k(4) [of b f] False by (auto split: if_splits)
      show "rep_ok r" if "?vs z = Some r" for z r using that k(3) [of z r] by (auto simp: rep_ok_def split: if_splits)
      show "card (dom ?vs) \<le> card (dom (st_vars s)) + 1" by (rule k(5))
    qed (rule fin)
    then show ?thesis by blast
  qed
qed

lemma step_copy:
  assumes ok: "strings_ok s" and x: "st_vars s x = None" and y: "st_vars s y = Some r" and card: "card (dom (st_vars s)) + 1 < 2 ^ 32"
  shows "step_ok al (Copy x y) s"
proof (cases "r = large_rep None")
  case True
  note k = strings_okD [OF ok]
  have rf: "refs ((st_vars s)(x \<mapsto> r)) = refs (st_vars s)" by (rule refs_keep [OF k(1)]) (use x True in auto)
  show ?thesis
    by (rule step_okI [where h = "st_blocks s" and vs = "(st_vars s)(x \<mapsto> r)"])
      (use True k rf card y in \<open>auto simp: rep_copy_def on_blocks_def set_var_def get_var_def rep_ok_def strings_abs_def split: if_splits\<close>)
next
  case False
  note k = strings_okD [OF ok]
  let ?vs = "(st_vars s)(x \<mapsto> r)"
  obtain h where h: "rep_copy r (st_blocks s) = (Inr r, h)" "exact h (refs ?vs)" "same_data (st_blocks s) h" "dom h = dom (st_blocks s)"
    by (rule acquire_var [OF k(2,1) card y k(3) [OF y] x False])
  have fin: "finite (dom ?vs)" using k(1) by simp
  show ?thesis
  proof (rule step_okI [OF _ h(2) _ fin k(5) card])
    show "string_step al (Copy x y) s = (Inr (), s\<lparr>st_blocks := h, st_vars := ?vs\<rparr>)" using h(1) y by (simp add: get_var_def on_blocks_def set_var_def)
    have keep: "value_of h q = value_of (st_blocks s) q" if "st_vars s z = Some q" "z \<noteq> x" for z q
      by (rule strings_absI [OF ok h(2,3) fin that(1), of z]) (use that in simp)
    have new: "value_of h r = value_of (st_blocks s) r" by (rule strings_absI [OF ok h(2,3) fin y, of x]) simp
    show "map_option (value_of h) (?vs z) = string_spec (Copy x y) (strings_abs s) z" for z
      using keep [of z] new y by (cases "z = x"; cases "st_vars s z") (simp_all add: strings_abs_def)
    show "rep_ok q" if "?vs z = Some q" for z q using that k(3) [of z q] k(3) [OF y] by (auto split: if_splits)
  qed (rule data_len [OF ok h(3)]; use h(4) in simp)
qed

lemma step_destroy:
  assumes ok: "strings_ok s" and x: "st_vars s x = Some r" and card: "card (dom (st_vars s)) + 1 < 2 ^ 32"
  shows "step_ok al (Destroy x) s"
proof -
  note k = strings_okD [OF ok]
  let ?vs = "(st_vars s)(x := None)"
  obtain h where h: "rep_destroy r (st_blocks s) = (Inr (), h)" "exact h (refs ?vs)" "same_data (st_blocks s) h" "dom h \<subseteq> dom (st_blocks s)"
    by (rule release_var [OF ok x])
  have fin: "finite (dom ?vs)" using k(1) by simp
  show ?thesis
  proof (rule step_okI [OF _ h(2) _ fin _ card])
    show "string_step al (Destroy x) s = (Inr (), s\<lparr>st_blocks := h, st_vars := ?vs\<rparr>)" using h(1) x by (simp add: get_var_def on_blocks_def)
    have keep: "value_of h q = value_of (st_blocks s) q" if "st_vars s z = Some q" "z \<noteq> x" for z q
      by (rule strings_absI [OF ok h(2,3) fin that(1), of z]) (use that in simp)
    show "map_option (value_of h) (?vs z) = string_spec (Destroy x) (strings_abs s) z" for z
      using keep [of z] by (cases "z = x"; cases "st_vars s z") (simp_all add: strings_abs_def)
    show "rep_ok q" if "?vs z = Some q" for z q using that k(3) [of z q] by (auto split: if_splits)
    show "card (dom ?vs) \<le> card (dom (st_vars s)) + 1" using card_Diff1_le [of "dom (st_vars s)" x] by simp
  qed (rule data_len [OF ok h(3,4)])
qed

lemma step_assign:
  assumes ok: "strings_ok s" and x: "st_vars s x = Some q" and y: "st_vars s y = Some r" "r \<noteq> large_rep None" and ne: "x \<noteq> y"
    and card: "card (dom (st_vars s)) + 1 < 2 ^ 32"
  shows "step_ok al (Assign x y) s"
proof -
  note k = strings_okD [OF ok]
  let ?vd = "(st_vars s)(x := None)" and ?vs = "(st_vars s)(x \<mapsto> r)"
  obtain h1 where h1: "(if is_small q then ret_p () else assign_release q) (st_blocks s) = (Inr (), h1)" "exact h1 (refs ?vd)"
    "same_data (st_blocks s) h1" "dom h1 \<subseteq> dom (st_blocks s)" by (rule release_var [OF ok x])
  have fd: "finite (dom ?vd)" "card (dom ?vd) + 1 < 2 ^ 32" "?vd y = Some r" "?vd x = None"
    using k(1) card y ne card_Diff1_le [of "dom (st_vars s)" x] by simp_all
  obtain h where h: "(if is_small r then ret_p r
      else bind_p (lift_p (large_ptr r)) (\<lambda>p. case p of None \<Rightarrow> throw_p Null_deref | Some a \<Rightarrow> bind_p (inc_ref a) (\<lambda>_. ret_p (large_rep (Some a))))) h1 = (Inr r, h)"
    "exact h (refs (?vd(x \<mapsto> r)))" "same_data h1 h" "dom h = dom h1"
    by (rule acquire_var [OF h1(2) fd(1-3) k(3) [OF y(1)] fd(4) y(2)])
  have ex: "exact h (refs ?vs)" using h(2) by simp
  have data: "same_data (st_blocks s) h" "dom h \<subseteq> dom (st_blocks s)" using same_data_trans [OF h1(3) h(3)] h(4) h1(4) by auto
  have fin: "finite (dom ?vs)" using k(1) by simp
  show ?thesis
  proof (rule step_okI [OF _ ex _ fin k(5) card])
    have "rep_assign q r (st_blocks s) = (Inr r, h)" using h1(1) h(1) by (simp add: rep_assign_def)
    then show "string_step al (Assign x y) s = (Inr (), s\<lparr>st_blocks := h, st_vars := ?vs\<rparr>)" using x y by (simp add: get_var_def on_blocks_def set_var_def)
    have keep: "value_of h q = value_of (st_blocks s) q" if "st_vars s z = Some q" "z \<noteq> x" for z q
      by (rule strings_absI [OF ok ex data(1) fin that(1), of z]) (use that in simp)
    have new: "value_of h r = value_of (st_blocks s) r" by (rule strings_absI [OF ok ex data(1) fin y(1), of x]) simp
    show "map_option (value_of h) (?vs z) = string_spec (Assign x y) (strings_abs s) z" for z
      using keep [of z] new y by (cases "z = x"; cases "st_vars s z") (simp_all add: strings_abs_def)
    show "rep_ok q" if "?vs z = Some q" for z q using that k(3) [of z q] k(3) [OF y(1)] by (auto split: if_splits)
  qed (rule data_len [OF ok data])
qed

lemma step_move_assign:
  assumes ok: "strings_ok s" and x: "st_vars s x = Some q" and y: "st_vars s y = Some r" and ne: "x \<noteq> y"
    and card: "card (dom (st_vars s)) + 1 < 2 ^ 32"
  shows "step_ok al (Move_assign x y) s"
proof -
  note k = strings_okD [OF ok]
  let ?vd = "(st_vars s)(x := None)" and ?r = "if is_small r then r else large_rep None"
  let ?vs = "(st_vars s)(x \<mapsto> r, y \<mapsto> ?r)"
  obtain h where h: "(if is_small q then ret_p () else assign_release q) (st_blocks s) = (Inr (), h)" "exact h (refs ?vd)"
    "same_data (st_blocks s) h" "dom h \<subseteq> dom (st_blocks s)" by (rule release_var [OF ok x])
  have fd: "finite (dom ?vd)" "?vd y = Some r" "?vd x = None" using k(1) y ne by simp_all
  have rr: "refs ?vs = refs ?vd"
  proof
    fix b
    have f1: "finite (dom (?vd(x \<mapsto> r)))" using fd(1) by simp
    have "?vs = (?vd(x \<mapsto> r))(y \<mapsto> ?r)" by simp
    then show "refs ?vs b = refs ?vd b"
      using refs_upd [OF fd(1), of x "Some r" b] refs_upd [OF f1, of y "Some ?r" b] fd(2,3) ne k(3) [OF y] by (auto split: if_splits)
  qed
  then have ex: "exact h (refs ?vs)" using h(2) by simp
  have fin: "finite (dom ?vs)" using k(1) by simp
  have vy: "value_of h r = value_of (st_blocks s) r" by (rule strings_absI [OF ok ex h(3) fin y, of x]) (use ne in simp)
  show ?thesis
  proof (rule step_okI [OF _ ex _ fin _ card])
    have "rep_move_assign q r (st_blocks s) = (Inr (r, ?r), h)"
    proof -
      have "rep_move_assign q r (st_blocks s) = (if is_small r then ret_p (r, r) else bind_p (lift_p (large_ptr r)) (\<lambda>p. ret_p (large_rep p, large_rep None))) h"
        using h(1) by (simp add: rep_move_assign_def)
      also have "\<dots> = (Inr (r, ?r), h)" using k(3) [OF y] by (cases rule: rep_cases) simp_all
      finally show ?thesis .
    qed
    then show "string_step al (Move_assign x y) s = (Inr (), s\<lparr>st_blocks := h, st_vars := ?vs\<rparr>)" using x y by (simp add: get_var_def on_blocks_def set_var_def)
    show "map_option (value_of h) (?vs z) = string_spec (Move_assign x y) (strings_abs s) z" for z
    proof -
      have keep: "value_of h q = value_of (st_blocks s) q" if "st_vars s z = Some q" "z \<noteq> x" "z \<noteq> y" for z q
        by (rule strings_absI [OF ok ex h(3) fin that(1), of z]) (use that in simp)
      consider "z = x" | "z = y" | "z \<noteq> x" "z \<noteq> y" by blast
      then show ?thesis
      proof cases
        case 1
        then show ?thesis using vy y ne by (simp add: strings_abs_def)
      next
        case 2
        have "value_of (st_blocks s) r = Some cs \<Longrightarrow> is_small r \<longleftrightarrow> length cs \<le> 23" for cs
          using k(3) [OF y] k(4) by (cases rule: rep_cases) (auto, fastforce)
        moreover have "value_of (st_blocks s) r = None \<Longrightarrow> \<not> is_small r" using k(3) [OF y] by (cases rule: rep_cases) auto
        ultimately show ?thesis using 2 vy y ne by (auto simp: strings_abs_def split: option.splits)
      next
        case 3
        then show ?thesis using keep [of z] by (cases "st_vars s z") (simp_all add: strings_abs_def)
      qed
    qed
    show "rep_ok q" if "?vs z = Some q" for z q using that k(3) [of z q] k(3) [OF y] by (auto simp: rep_ok_def split: if_splits)
    show "card (dom ?vs) \<le> card (dom (st_vars s)) + 1" using k(1) x y by (simp add: insert_absorb domI)
  qed (rule data_len [OF ok h(3,4)])
qed

lemma string_step_correct:
  assumes "fresh_alloc al" "strings_ok s" "string_wf p (strings_abs s)" "card (dom (st_vars s)) + 1 < 2 ^ 32"
  shows "step_ok al p s \<or> string_step al p s = (Inl Bad_alloc, s)"
proof (cases p)
  case (New x cs)
  then show ?thesis using step_new [OF assms(1,2) _ assms(4), of x cs] assms(3) by (simp add: abs_None)
next
  case (Copy x y)
  then obtain r where "st_vars s x = None" "st_vars s y = Some r" using assms(3) by (auto simp: abs_None)
  then show ?thesis using step_copy [OF assms(2) _ _ assms(4)] Copy by blast
next
  case (Assign x y)
  then obtain q r cs where r: "st_vars s x = Some q" "st_vars s y = Some r" "value_of (st_blocks s) r = Some cs" "x \<noteq> y"
    using assms(3) by (auto simp: strings_abs_def)
  then have "r \<noteq> large_rep None" by auto
  then show ?thesis using step_assign [OF assms(2) r(1,2) _ r(4) assms(4)] Assign by blast
next
  case (Move_assign x y)
  then obtain q r where "st_vars s x = Some q" "st_vars s y = Some r" "x \<noteq> y" using assms(3) by (auto simp: abs_None)
  then show ?thesis using step_move_assign [OF assms(2) _ _ _ assms(4)] Move_assign by blast
next
  case (Destroy x)
  then obtain r where "st_vars s x = Some r" using assms(3) by (auto simp: abs_None)
  then show ?thesis using step_destroy [OF assms(2) _ assms(4)] Destroy by blast
qed

section \<open>Restart\<close>

text \<open>The counters after a restart, from counters of any value, over all strings in any order.\<close>

fun reconstitute_all :: "rep list \<Rightarrow> (blocks \<times> nat set, unit) prog" where
  "reconstitute_all [] = ret_p ()"
| "reconstitute_all (r # rs) = bind_p (rep_reconstitute r) (\<lambda>_. reconstitute_all rs)"

definition count_refs :: "rep list \<Rightarrow> nat \<Rightarrow> nat" where
  "count_refs rs a = length (filter (\<lambda>r. r = large_rep (Some a)) rs)"

lemma reconstitute_all_counts:
  assumes "\<forall>r \<in> set rs. rep_ok r \<and> r \<noteq> large_rep None \<and> (\<forall>a. r = large_rep (Some a) \<longrightarrow> h a \<noteq> None)"
    and "\<forall>a \<in> seen. \<exists>f. h a = Some f \<and> fs_ref_count f + length rs < 2 ^ 32"
    and "length rs < 2 ^ 32"
  shows "\<exists>h' seen'. reconstitute_all rs (h, seen) = (Inr (), (h', seen')) \<and> dom h' = dom h \<and> same_data h h' \<and>
    (\<forall>a f. h' a = Some f \<longrightarrow>
      (if a \<in> seen then \<exists>g. h a = Some g \<and> fs_ref_count f = fs_ref_count g + count_refs rs a
       else count_refs rs a \<noteq> 0 \<longrightarrow> fs_ref_count f = count_refs rs a))"
  using assms
proof (induction rs arbitrary: h seen)
  case Nil
  then show ?case by (auto simp: count_refs_def)
next
  case (Cons r rs)
  have "rep_ok r" using Cons.prems(1) by simp
  then show ?case
  proof (cases rule: rep_cases)
    case (1 cs)
    have run: "reconstitute_all (r # rs) (h, seen) = reconstitute_all rs (h, seen)" using 1 by (simp add: rep_reconstitute_def)
    have cnt: "count_refs (r # rs) a = count_refs rs a" for a using 1 by (simp add: count_refs_def)
    have p: "\<forall>r \<in> set rs. rep_ok r \<and> r \<noteq> large_rep None \<and> (\<forall>a. r = large_rep (Some a) \<longrightarrow> h a \<noteq> None)"
      "\<forall>a \<in> seen. \<exists>f. h a = Some f \<and> fs_ref_count f + length rs < 2 ^ 32" "length rs < 2 ^ 32" using Cons.prems by (simp, force, simp)
    show ?thesis unfolding run cnt by (rule Cons.IH [OF p])
  next
    case 2
    then show ?thesis using Cons.prems(1) by simp
  next
    case (3 a)
    obtain f where f: "h a = Some f" using Cons.prems(1) 3 by auto
    have cr: "count_refs (r # rs) b = (if b = a then Suc (count_refs rs a) else count_refs rs b)" for b using 3 by (simp add: count_refs_def)
    define c where "c = (if a \<in> seen then fs_ref_count f + 1 else 1)"
    define g where "g = h(a \<mapsto> f\<lparr>fs_ref_count := c\<rparr>)"
    have lt: "a \<in> seen \<Longrightarrow> fs_ref_count f + 1 + length rs < 2 ^ 32" using Cons.prems(2) f by force
    have run: "reconstitute_all (r # rs) (h, seen) = reconstitute_all rs (g, insert a seen)"
      using 3 f lt by (auto simp: rep_reconstitute_def g_def c_def insert_absorb)
    have p1: "\<forall>r \<in> set rs. rep_ok r \<and> r \<noteq> large_rep None \<and> (\<forall>b. r = large_rep (Some b) \<longrightarrow> g b \<noteq> None)" using Cons.prems(1) by (simp add: g_def)
    have p2: "\<forall>b \<in> insert a seen. \<exists>f. g b = Some f \<and> fs_ref_count f + length rs < 2 ^ 32"
      using Cons.prems(2,3) lt by (auto simp: g_def c_def)
    obtain h' seen' where h': "reconstitute_all rs (g, insert a seen) = (Inr (), (h', seen'))" "dom h' = dom g" "same_data g h'"
      "\<forall>b f. h' b = Some f \<longrightarrow>
        (if b \<in> insert a seen then \<exists>x. g b = Some x \<and> fs_ref_count f = fs_ref_count x + count_refs rs b
         else count_refs rs b \<noteq> 0 \<longrightarrow> fs_ref_count f = count_refs rs b)"
      using Cons.IH [OF p1 p2] Cons.prems(3) by auto
    have "same_data h g" using f by (auto simp: same_data_def g_def)
    then have "same_data h h'" using h'(2,3) same_data_trans by blast
    moreover have "dom h' = dom h" using h'(2) f by (auto simp: g_def)
    moreover have "if b \<in> seen then \<exists>x. h b = Some x \<and> fs_ref_count f' = fs_ref_count x + count_refs (r # rs) b
        else count_refs (r # rs) b \<noteq> 0 \<longrightarrow> fs_ref_count f' = count_refs (r # rs) b" if "h' b = Some f'" for b f'
      using h'(4) [rule_format, OF that] f unfolding cr g_def c_def by (auto split: if_splits)
    ultimately show ?thesis using run h'(1) by auto
  qed
qed

section \<open>Properties\<close>

inductive strings_reach :: "block_alloc \<Rightarrow> nat \<Rightarrow> strings \<Rightarrow> bool" for al where
  start: "strings_reach al 0 \<lparr>st_blocks = Map.empty, st_vars = Map.empty\<rparr>"
| step: "strings_reach al n s \<Longrightarrow> string_wf p (strings_abs s) \<Longrightarrow> strings_reach al (Suc n) (snd (string_step al p s))"

lemma strings_reach_ok:
  assumes "fresh_alloc al" "strings_reach al n s" "n < 2 ^ 32"
  shows "strings_ok s \<and> card (dom (st_vars s)) \<le> n"
  using assms(2,3)
proof (induction rule: strings_reach.induct)
  case start
  show ?case by (simp add: strings_ok_def exact_def refs_def)
next
  case (step n s p)
  then have s: "strings_ok s" "card (dom (st_vars s)) \<le> n" by simp_all
  moreover have "card (dom (st_vars s)) + 1 < 2 ^ 32" using s(2) step.prems by linarith
  ultimately show ?case using string_step_correct [OF assms(1) s(1) step.hyps(2)] unfolding step_ok_def by fastforce
qed

text \<open>
  C9: The strings of hstore behave as values although copies share their bytes. In every program that
  constructs, copies, assigns, moves and destroys string variables (no variable being assigned to
  itself), every step ends normally with the values that value semantics gives, or fails for want of
  memory without an effect; the counter of a block is the number of variables that refer to it, and a
  block exists exactly as long as one does. After a restart, reconstituting all variables sets every
  counter to the number of references again, whatever it was.
\<close>

theorem fixed_string_values:
  assumes "fresh_alloc al" "strings_reach al n s" "n + 1 < 2 ^ 32"
  shows "(\<forall>p. string_wf p (strings_abs s) \<longrightarrow>
      (\<exists>t. string_step al p s = (Inr (), t) \<and> strings_abs t = string_spec p (strings_abs s)) \<or> string_step al p s = (Inl Bad_alloc, s)) \<and>
    (\<forall>a. st_blocks s a = None \<longleftrightarrow> refs (st_vars s) a = 0) \<and>
    (\<forall>a f. st_blocks s a = Some f \<longrightarrow> fs_ref_count f = refs (st_vars s) a) \<and>
    (\<forall>rs h. (\<forall>r \<in> set rs. rep_ok r \<and> r \<noteq> large_rep None \<and> (\<forall>a. r = large_rep (Some a) \<longrightarrow> h a \<noteq> None)) \<and> length rs < 2 ^ 32 \<longrightarrow>
      (\<exists>h' seen. reconstitute_all rs (h, {}) = (Inr (), (h', seen)) \<and> dom h' = dom h \<and> same_data h h' \<and>
        (\<forall>a f. h' a = Some f \<and> count_refs rs a \<noteq> 0 \<longrightarrow> fs_ref_count f = count_refs rs a)))"
proof (intro conjI allI impI)
  have s: "strings_ok s" "card (dom (st_vars s)) \<le> n" using strings_reach_ok [OF assms(1,2)] assms(3) by simp_all
  fix p assume "string_wf p (strings_abs s)"
  moreover have "card (dom (st_vars s)) + 1 < 2 ^ 32" using s(2) assms(3) by linarith
  ultimately show "(\<exists>t. string_step al p s = (Inr (), t) \<and> strings_abs t = string_spec p (strings_abs s)) \<or> string_step al p s = (Inl Bad_alloc, s)"
    using string_step_correct [OF assms(1) s(1)] unfolding step_ok_def by blast
next
  have ex: "exact (st_blocks s) (refs (st_vars s))" using strings_reach_ok [OF assms(1,2)] assms(3) by (simp add: strings_ok_def)
  fix a
  show "st_blocks s a = None \<longleftrightarrow> refs (st_vars s) a = 0" using ex unfolding exact_def by (drule_tac x = a in spec) (auto split: option.splits)
  fix f assume "st_blocks s a = Some f"
  then show "fs_ref_count f = refs (st_vars s) a" using ex unfolding exact_def by (drule_tac x = a in spec) simp
next
  fix rs :: "rep list" and h :: blocks
  assume a: "(\<forall>r \<in> set rs. rep_ok r \<and> r \<noteq> large_rep None \<and> (\<forall>a. r = large_rep (Some a) \<longrightarrow> h a \<noteq> None)) \<and> length rs < 2 ^ 32"
  from reconstitute_all_counts [of rs h "{}"] this
  obtain h' seen' where r: "reconstitute_all rs (h, {}) = (Inr (), (h', seen'))" "dom h' = dom h" "same_data h h'"
    "\<forall>a f. h' a = Some f \<longrightarrow> count_refs rs a \<noteq> 0 \<longrightarrow> fs_ref_count f = count_refs rs a" by auto
  then show "\<exists>h' seen. reconstitute_all rs (h, {}) = (Inr (), (h', seen)) \<and> dom h' = dom h \<and> same_data h h' \<and>
      (\<forall>a f. h' a = Some f \<and> count_refs rs a \<noteq> 0 \<longrightarrow> fs_ref_count f = count_refs rs a)" by blast
qed

definition two_blocks :: block_alloc where
  "two_blocks h n = (if h 0 = None then Some 0 else if h 1 = None then Some 1 else None)"

definition one_string :: strings where
  "one_string = snd (string_step two_blocks (New 0 (replicate 30 65)) \<lparr>st_blocks = Map.empty, st_vars = Map.empty\<rparr>)"

theorem fixed_string_values_witness:
  "st_blocks one_string = [0 \<mapsto> \<lparr>fs_ref_count = 1, fs_data = replicate 30 65\<rparr>] \<and> refs (st_vars one_string) 0 = 1 \<and>
    ((\<exists>t. string_step two_blocks (Copy 1 0) one_string = (Inr (), t) \<and> strings_abs t = (strings_abs one_string)(1 := strings_abs one_string 0)) \<or>
     string_step two_blocks (Copy 1 0) one_string = (Inl Bad_alloc, one_string))"
proof -
  have al: "fresh_alloc two_blocks" by (auto simp: fresh_alloc_def two_blocks_def split: if_splits)
  have r: "strings_reach two_blocks (Suc 0) one_string"
    unfolding one_string_def by (intro strings_reach.intros) (simp add: strings_abs_def)
  have b: "st_blocks one_string = [0 \<mapsto> \<lparr>fs_ref_count = 1, fs_data = replicate 30 65\<rparr>]" "st_vars one_string = [0 \<mapsto> large_rep (Some 0)]"
    by (simp_all add: one_string_def rep_new_def two_blocks_def on_blocks_def set_var_def)
  have wf: "string_wf (Copy 1 0) (strings_abs one_string)" using b by (simp add: strings_abs_def)
  have lt: "Suc 0 + 1 < 2 ^ 32" by simp
  note t = fixed_string_values [OF al r lt]
  have "fs_ref_count \<lparr>fs_ref_count = 1, fs_data = replicate 30 65\<rparr> = refs (st_vars one_string) 0"
    using t b(1) by (metis fun_upd_same)
  moreover have "(\<exists>t. string_step two_blocks (Copy 1 0) one_string = (Inr (), t) \<and> strings_abs t = string_spec (Copy 1 0) (strings_abs one_string)) \<or>
     string_step two_blocks (Copy 1 0) one_string = (Inl Bad_alloc, one_string)" using t wf by blast
  ultimately show ?thesis using b(1) unfolding string_spec.simps by simp
qed

text \<open>Assigning the only reference of a long string to itself frees the bytes it then counts again.\<close>

lemma self_assignment_undefined:
  "fst (string_step two_blocks (Assign 0 0) one_string) = Inl Undefined_behaviour"
proof -
  have "st_blocks one_string = [0 \<mapsto> \<lparr>fs_ref_count = 1, fs_data = replicate 30 65\<rparr>]" "st_vars one_string = [0 \<mapsto> large_rep (Some 0)]"
    by (simp_all add: one_string_def rep_new_def two_blocks_def on_blocks_def set_var_def)
  then show ?thesis
    by (simp add: get_var_def on_blocks_def rep_assign_def assign_release_def ref_count_def dec_ref_def deallocate_block_def inc_ref_def)
qed

end
