(* ===== verification/Hstore_Session.thy ===== *)
theory Hstore_Session
  imports Hop_Properties Map_Store
begin

text \<open>
  The key-value interface of hstore: sessions (\<open>hstore_session.h\<close>), the atomic change of a value
  through an operation log in persistent memory (\<open>atomic_controller.tcc\<close>, \<open>persist_atomic.h\<close>) and
  the entry points of the component (\<open>hstore.cpp\<close>). Keys and values are byte strings with value
  semantics, as \<open>Fixed_String\<close> shows. Whether the heap of the pool has room for a string is an
  argument (\<open>mem\<close>). Client locks on keys are not modelled: no client holds one.
\<close>

section \<open>Interface codes\<close>

abbreviation (input) E_BAD_PARAM :: status_t where "E_BAD_PARAM \<equiv> - 13"
abbreviation (input) E_NOT_SUPPORTED :: status_t where "E_NOT_SUPPORTED \<equiv> - 15"
abbreviation (input) E_ALREADY :: status_t where "E_ALREADY \<equiv> - 28"
abbreviation (input) E_TOO_LARGE :: status_t where "E_TOO_LARGE \<equiv> - 55"

abbreviation (input) AUTO_HASHTABLE_EXPANSION :: nat where "AUTO_HASHTABLE_EXPANSION \<equiv> 4"

section \<open>The persistent state of a pool\<close>

record mod_control =
  mc_offset_src :: nat
  mc_offset_dst :: nat
  mc_size :: nat

record persist_data =
  pd_map :: "(string, bytes) hop"
  mod_key :: string
  mod_mapped :: bytes
  mod_ctl :: "mod_control list"
  mod_size :: int

type_synonym pd_store = "persist_data \<Rightarrow> persist_data"

definition on_map :: "((string, bytes) hop, 'a) prog \<Rightarrow> (persist_data, 'a) prog" where
  "on_map m s = (case m (pd_map s) of (r, h) \<Rightarrow> (r, s\<lparr>pd_map := h\<rparr>))"

text \<open>A store into the value in bucket \<open>j\<close>.\<close>

definition value_store :: "nat \<Rightarrow> (bytes \<Rightarrow> bytes) \<Rightarrow> pd_store" where
  "value_store j f s = s\<lparr>pd_map := bucket_update j (\<lambda>b. b\<lparr>bk_value := map_option (\<lambda>(k, v). (k, f v)) (bk_value b)\<rparr>) (pd_map s)\<rparr>"

section \<open>Atomic changes\<close>

text \<open>The operations a client may ask for; only \<open>Write\<close> is known to the store.\<close>

datatype operation = Write nat bytes | Other_op

text \<open>The stores of one entry of the log: byte by byte, in order.\<close>

definition copy_stores :: "nat \<Rightarrow> bytes \<Rightarrow> mod_control \<Rightarrow> pd_store list" where
  "copy_stores j src c =
     map (\<lambda>i. value_store j (\<lambda>v. v[mc_offset_dst c + i := src ! (mc_offset_src c + i)])) [0..<mc_size c]"

definition mod_in_range :: "bytes \<Rightarrow> bytes \<Rightarrow> mod_control \<Rightarrow> bool" where
  "mod_in_range src dst c \<longleftrightarrow> mc_size c = 0 \<or> mc_offset_src c + mc_size c \<le> length src \<and> mc_offset_dst c + mc_size c \<le> length dst"

definition finish_stores :: "pd_store list" where
  "finish_stores = [\<lambda>s. s\<lparr>mod_size := 0\<rparr>]"

text \<open>The replay of the log. Writing outside of the source or the destination is undefined.\<close>

definition redo_update_stores :: "(string \<Rightarrow> nat) \<Rightarrow> persist_data \<Rightarrow> pd_store list result" where
  "redo_update_stores hf s =
     bind_res (locate_key (bucket_ix (pd_map s) (hf (mod_key s))) (mod_key s) (pd_map s)) (\<lambda>found.
     bind_res (case found of
         None \<Rightarrow> Inr []
       | Some j \<Rightarrow> (case bk_value (hp_buckets (pd_map s) ! j) of
             None \<Rightarrow> Inl Undefined_behaviour
           | Some (k, v) \<Rightarrow>
               let mods = take (nat (mod_size s)) (mod_ctl s) in
               if list_all (mod_in_range (mod_mapped s) v) mods then Inr (concat (map (copy_stores j (mod_mapped s)) mods))
               else Inl Undefined_behaviour)) (\<lambda>copies.
     Inr (copies @ finish_stores @ [\<lambda>s. s\<lparr>mod_ctl := []\<rparr>])))"

definition redo_replace_stores :: "(string \<Rightarrow> nat) \<Rightarrow> persist_data \<Rightarrow> pd_store list result" where
  "redo_replace_stores hf s =
     bind_res (locate_key (bucket_ix (pd_map s) (hf (mod_key s))) (mod_key s) (pd_map s)) (\<lambda>found.
     case found of
       None \<Rightarrow> Inl Out_of_range
     | Some j \<Rightarrow> Inr ([value_store j (\<lambda>_. mod_mapped s)] @ finish_stores))"

definition redo_stores :: "(string \<Rightarrow> nat) \<Rightarrow> persist_data \<Rightarrow> pd_store list result" where
  "redo_stores hf s =
     (if mod_size s \<noteq> 0 then if 0 < mod_size s then redo_update_stores hf s else redo_replace_stores hf s else Inr [])"

definition redo :: "(string \<Rightarrow> nat) \<Rightarrow> (persist_data, unit) prog" where
  "redo hf =
     bind_p (get_p (redo_stores hf)) (\<lambda>r.
     bind_p (lift_p r) (\<lambda>sts.
     update_p (run_stores sts)))"

text \<open>The log of a list of operations: the bytes to write, one after the other, and where they go.\<close>

fun build_mods :: "operation list \<Rightarrow> bytes \<Rightarrow> mod_control list \<Rightarrow> (bytes \<times> mod_control list) result" where
  "build_mods [] src mods = Inr (src, mods)"
| "build_mods (Write off bs # ops) src mods =
     build_mods ops (src @ bs) (mods @ [\<lparr>mc_offset_src = length src, mc_offset_dst = off, mc_size = length bs\<rparr>])"
| "build_mods (Other_op # ops) src mods = Inl Invalid_argument"

definition log_stores :: "string \<Rightarrow> bytes \<Rightarrow> mod_control list \<Rightarrow> pd_store list" where
  "log_stores key src mods =
     [\<lambda>s. s\<lparr>mod_key := key\<rparr>, \<lambda>s. s\<lparr>mod_mapped := src\<rparr>, \<lambda>s. s\<lparr>mod_ctl := mods\<rparr>, \<lambda>s. s\<lparr>mod_size := int (length mods)\<rparr>]"

definition replace_log_stores :: "string \<Rightarrow> bytes \<Rightarrow> pd_store list" where
  "replace_log_stores key data = [\<lambda>s. s\<lparr>mod_key := key\<rparr>, \<lambda>s. s\<lparr>mod_mapped := data\<rparr>, \<lambda>s. s\<lparr>mod_size := - 1\<rparr>]"

definition enter_update :: "(string \<Rightarrow> nat) \<Rightarrow> (nat \<Rightarrow> bool) \<Rightarrow> string \<Rightarrow> operation list \<Rightarrow> (persist_data, unit) prog" where
  "enter_update hf mem key ops =
     bind_p (lift_p (build_mods ops [] [])) (\<lambda>(src, mods).
     if \<not> mem (length src) then bind_p (update_p (run_stores (take 1 (log_stores key src mods)))) (\<lambda>_. throw_p Bad_alloc)
     else if \<not> mem (24 * length mods) then bind_p (update_p (run_stores (take 2 (log_stores key src mods)))) (\<lambda>_. throw_p Bad_alloc)
     else bind_p (update_p (run_stores (log_stores key src mods))) (\<lambda>_. redo hf))"

definition enter_replace :: "(string \<Rightarrow> nat) \<Rightarrow> (nat \<Rightarrow> bool) \<Rightarrow> string \<Rightarrow> bytes \<Rightarrow> (persist_data, unit) prog" where
  "enter_replace hf mem key data =
     (if \<not> mem (length data) then bind_p (update_p (run_stores (take 1 (replace_log_stores key data)))) (\<lambda>_. throw_p Bad_alloc)
      else bind_p (update_p (run_stores (replace_log_stores key data))) (\<lambda>_. redo hf))"

text \<open>Opening a pool: the hash table recovers first, then the log is replayed.\<close>

definition session_open :: "(string \<Rightarrow> nat) \<Rightarrow> bool \<Rightarrow> (nat \<Rightarrow> owner) \<Rightarrow> (persist_data, unit) prog" where
  "session_open hf dbg shl = bind_p (on_map (hop_reopen hf dbg shl)) (\<lambda>_. redo hf)"

section \<open>Sessions\<close>

definition session_insert ::
  "(string \<Rightarrow> nat) \<Rightarrow> bool \<Rightarrow> (nat \<Rightarrow> owner) \<Rightarrow> (nat \<Rightarrow> bool) \<Rightarrow> (nat \<Rightarrow> bool) \<Rightarrow> string \<Rightarrow> bytes \<Rightarrow> (persist_data, nat \<times> bool) prog" where
  "session_insert hf dbg shl room mem key val =
     (if \<not> (mem (length key) \<and> mem (length val)) then throw_p Bad_alloc
      else on_map (hop_emplace hf dbg shl room key val))"

definition atomic_update :: "(string \<Rightarrow> nat) \<Rightarrow> (nat \<Rightarrow> bool) \<Rightarrow> string \<Rightarrow> operation list \<Rightarrow> (persist_data, unit) prog" where
  "atomic_update hf mem key ops = (if \<not> mem (length key) then throw_p Bad_alloc else enter_update hf mem key ops)"

text \<open>With the unique lock on the key, which a key that does not exist does not have.\<close>

definition lock_and_atomic_update :: "(string \<Rightarrow> nat) \<Rightarrow> (nat \<Rightarrow> bool) \<Rightarrow> string \<Rightarrow> operation list \<Rightarrow> (persist_data, unit) prog" where
  "lock_and_atomic_update hf mem key ops =
     (if \<not> mem (length key) then throw_p Bad_alloc
      else
        bind_p (get_p (\<lambda>s. locate_key (bucket_ix (pd_map s) (hf key)) key (pd_map s))) (\<lambda>r.
        bind_p (lift_p r) (\<lambda>found.
        if found = None then throw_p Range_error else enter_update hf mem key ops)))"

definition update_by_issue_41 :: "(string \<Rightarrow> nat) \<Rightarrow> (nat \<Rightarrow> bool) \<Rightarrow> string \<Rightarrow> bytes \<Rightarrow> nat \<Rightarrow> (persist_data, unit) prog" where
  "update_by_issue_41 hf mem key val old_len =
     (if length val \<noteq> old_len
      then if \<not> mem (length key) then throw_p Bad_alloc else enter_replace hf mem key val
      else atomic_update hf mem key [Write 0 val])"

definition session_get :: "(string \<Rightarrow> nat) \<Rightarrow> string \<Rightarrow> nat \<Rightarrow> (persist_data, nat \<times> bytes option) prog" where
  "session_get hf key buffer_size =
     bind_p (get_p (\<lambda>s. hop_at hf key (pd_map s))) (\<lambda>r. bind_p (lift_p r) (\<lambda>v.
     ret_p (length v, if length v \<le> buffer_size then Some v else None)))"

definition session_get_alloc :: "(string \<Rightarrow> nat) \<Rightarrow> (nat \<Rightarrow> bool) \<Rightarrow> string \<Rightarrow> (persist_data, bytes) prog" where
  "session_get_alloc hf dram key =
     bind_p (get_p (\<lambda>s. hop_at hf key (pd_map s))) (\<lambda>r. bind_p (lift_p r) (\<lambda>v.
     if dram (length v) then ret_p v else throw_p Bad_alloc))"

definition session_get_value_len :: "(string \<Rightarrow> nat) \<Rightarrow> string \<Rightarrow> (persist_data, nat) prog" where
  "session_get_value_len hf key =
     bind_p (get_p (\<lambda>s. hop_at hf key (pd_map s))) (\<lambda>r. bind_p (lift_p r) (\<lambda>v. ret_p (length v)))"

definition session_erase :: "(string \<Rightarrow> nat) \<Rightarrow> (nat \<Rightarrow> owner) \<Rightarrow> (nat \<Rightarrow> bool) \<Rightarrow> string \<Rightarrow> (persist_data, nat) prog" where
  "session_erase hf shl mem key = (if \<not> mem (length key) then throw_p Bad_alloc else on_map (hop_erase hf shl key))"

definition session_count :: "bool \<Rightarrow> (persist_data, nat) prog" where
  "session_count dbg = bind_p (get_p (\<lambda>s. hop_size dbg (pd_map s))) lift_p"

text \<open>The elements in the order of the buckets, as the iterator visits them.\<close>

definition session_map :: "persist_data \<Rightarrow> (string \<times> bytes) list" where
  "session_map s = List.map_filter (\<lambda>b. if bk_state b = IN_USE then bk_value b else None) (hp_buckets (pd_map s))"

section \<open>The component\<close>

text \<open>An exception that an entry point turns into a status.\<close>

definition catch_status :: "(exn \<Rightarrow> status_t option) \<Rightarrow> ('s, 'a) prog \<Rightarrow> ('a \<Rightarrow> ('s, 'b) prog) \<Rightarrow> (status_t \<Rightarrow> 'b) \<Rightarrow> ('s, 'b) prog" where
  "catch_status code m f g s =
     (case m s of
        (Inr x, s') \<Rightarrow> f x s'
      | (Inl e, s') \<Rightarrow> (case code e of Some c \<Rightarrow> (Inr (g c), s') | None \<Rightarrow> (Inl e, s')))"

fun put_code :: "exn \<Rightarrow> status_t option" where
  "put_code Bad_alloc = Some E_TOO_LARGE"
| "put_code Invalid_argument = Some E_NOT_SUPPORTED"
| "put_code Range_error = Some E_ALREADY"
| "put_code _ = None"

fun get_code :: "exn \<Rightarrow> status_t option" where
  "get_code Out_of_range = Some E_KEY_NOT_FOUND"
| "get_code _ = None"

fun get_alloc_code :: "exn \<Rightarrow> status_t option" where
  "get_alloc_code Out_of_range = Some E_KEY_NOT_FOUND"
| "get_alloc_code Bad_alloc = Some E_TOO_LARGE"
| "get_alloc_code _ = None"

text \<open>The body of \<open>put\<close> on a session.\<close>

definition put_session ::
  "(string \<Rightarrow> nat) \<Rightarrow> bool \<Rightarrow> (nat \<Rightarrow> owner) \<Rightarrow> (nat \<Rightarrow> bool) \<Rightarrow> (nat \<Rightarrow> bool) \<Rightarrow> string \<Rightarrow> bytes \<Rightarrow> nat \<Rightarrow> (persist_data, status_t) prog" where
  "put_session hf dbg shl room mem key val flags =
     bind_p (session_insert hf dbg shl room mem key val) (\<lambda>(j, inserted).
     if inserted then ret_p S_OK
     else if flag_set flags FLAGS_DONT_STOMP then ret_p E_KEY_EXISTS
     else
       bind_p (get_p (\<lambda>s. bk_value (hp_buckets (pd_map s) ! j))) (\<lambda>old.
       case old of
         None \<Rightarrow> throw_p Undefined_behaviour
       | Some (k, v) \<Rightarrow> bind_p (update_by_issue_41 hf mem key val (length v)) (\<lambda>_. ret_p S_OK)))"

definition hstore_put ::
  "(string \<Rightarrow> nat) \<Rightarrow> bool \<Rightarrow> (nat \<Rightarrow> owner) \<Rightarrow> (nat \<Rightarrow> bool) \<Rightarrow> (nat \<Rightarrow> bool) \<Rightarrow> string \<Rightarrow> bytes option \<Rightarrow> nat \<Rightarrow> (persist_data, status_t) prog" where
  "hstore_put hf dbg shl room mem key val flags =
     (if flags \<noteq> 0 \<and> flags \<noteq> FLAGS_DONT_STOMP then ret_p E_BAD_PARAM
      else case val of
          None \<Rightarrow> ret_p E_BAD_PARAM
        | Some v \<Rightarrow> catch_status put_code (put_session hf dbg shl room mem key v flags) ret_p (\<lambda>c. c))"

text \<open>\<open>get\<close> with a buffer of the given size, or with none: then memory is allocated.\<close>

definition hstore_get :: "(string \<Rightarrow> nat) \<Rightarrow> (nat \<Rightarrow> bool) \<Rightarrow> string \<Rightarrow> nat option \<Rightarrow> (persist_data, status_t \<times> nat \<times> bytes option) prog" where
  "hstore_get hf dram key buffer =
     (case buffer of
        Some buffer_size \<Rightarrow>
          catch_status get_code (session_get hf key buffer_size)
            (\<lambda>(len, v). ret_p (if buffer_size < len then E_INSUFFICIENT_BUFFER else S_OK, len, v)) (\<lambda>c. (c, buffer_size, None))
      | None \<Rightarrow>
          catch_status get_alloc_code (session_get_alloc hf dram key)
            (\<lambda>v. ret_p (S_OK, length v, Some v)) (\<lambda>c. (c, 0, None)))"

definition hstore_get_direct :: "(string \<Rightarrow> nat) \<Rightarrow> string \<Rightarrow> nat \<Rightarrow> (persist_data, status_t \<times> nat \<times> bytes option) prog" where
  "hstore_get_direct hf key buffer_size =
     catch_status get_code (session_get hf key buffer_size)
       (\<lambda>(len, v). ret_p (if buffer_size < len then E_INSUFFICIENT_BUFFER else S_OK, len, v)) (\<lambda>c. (c, buffer_size, None))"

definition hstore_get_attribute :: "(string \<Rightarrow> nat) \<Rightarrow> nat \<Rightarrow> string option \<Rightarrow> (persist_data, status_t \<times> nat list) prog" where
  "hstore_get_attribute hf attr key =
     (if attr = VALUE_LEN
      then case key of
          None \<Rightarrow> ret_p (E_BAD_PARAM, [])
        | Some k \<Rightarrow> catch_status get_alloc_code (session_get_value_len hf k) (\<lambda>n. ret_p (S_OK, [n])) (\<lambda>c. (c, []))
      else if attr = AUTO_HASHTABLE_EXPANSION
      then bind_p (get_p (\<lambda>s. hp_auto_resize (pd_map s))) (\<lambda>b. ret_p (S_OK, [if b then 1 else 0]))
      else ret_p (E_NOT_SUPPORTED, []))"

definition hstore_set_attribute :: "nat \<Rightarrow> nat list \<Rightarrow> (persist_data, status_t) prog" where
  "hstore_set_attribute attr val =
     (if attr = AUTO_HASHTABLE_EXPANSION
      then if length val < 1 then ret_p E_BAD_PARAM
        else bind_p (update_p (\<lambda>s. s\<lparr>pd_map := (pd_map s)\<lparr>hp_auto_resize := (val ! 0 \<noteq> 0)\<rparr>\<rparr>)) (\<lambda>_. ret_p S_OK)
      else ret_p E_NOT_SUPPORTED)"

definition hstore_erase :: "(string \<Rightarrow> nat) \<Rightarrow> (nat \<Rightarrow> owner) \<Rightarrow> (nat \<Rightarrow> bool) \<Rightarrow> string \<Rightarrow> (persist_data, status_t) prog" where
  "hstore_erase hf shl mem key =
     bind_p (session_erase hf shl mem key) (\<lambda>n. ret_p (if n = 0 then E_KEY_NOT_FOUND else S_OK))"

definition hstore_atomic_update :: "(string \<Rightarrow> nat) \<Rightarrow> (nat \<Rightarrow> bool) \<Rightarrow> string \<Rightarrow> operation list \<Rightarrow> bool \<Rightarrow> (persist_data, status_t) prog" where
  "hstore_atomic_update hf mem key ops take_lock =
     catch_status put_code (if take_lock then lock_and_atomic_update hf mem key ops else atomic_update hf mem key ops)
       (\<lambda>_. ret_p S_OK) (\<lambda>c. c)"

section \<open>Open pools\<close>

text \<open>
  The sessions by address and the sessions each thread has seen. A thread that finds a session in its
  own set does not look at the table of open pools.
\<close>

record open_pools =
  op_pools :: "nat \<rightharpoonup> persist_data"
  op_tls :: "thread \<Rightarrow> nat set"

definition locate_session :: "thread \<Rightarrow> nat \<Rightarrow> (open_pools, nat option) prog" where
  "locate_session t pid =
     bind_p (get_p (\<lambda>s. (pid \<in> op_tls s t, op_pools s pid))) (\<lambda>(cached, p).
     if cached then ret_p (Some pid)
     else case p of
         None \<Rightarrow> ret_p None
       | Some _ \<Rightarrow> bind_p (update_p (\<lambda>s. s\<lparr>op_tls := (op_tls s)(t := insert pid (op_tls s t))\<rparr>)) (\<lambda>_. ret_p (Some pid)))"

definition move_pool :: "thread \<Rightarrow> nat \<Rightarrow> (open_pools, unit) prog" where
  "move_pool t pid =
     bind_p (get_p (\<lambda>s. op_pools s pid)) (\<lambda>p.
     case p of
       None \<Rightarrow> throw_p API_exception
     | Some _ \<Rightarrow> update_p (\<lambda>s. s\<lparr>op_tls := (op_tls s)(t := op_tls s t - {pid}), op_pools := (op_pools s)(pid := None)\<rparr>))"

fun api_code :: "exn \<Rightarrow> status_t option" where
  "api_code API_exception = Some E_FAIL"
| "api_code _ = None"

definition hstore_close_pool :: "thread \<Rightarrow> nat \<Rightarrow> (open_pools, status_t) prog" where
  "hstore_close_pool t pid = catch_status api_code (move_pool t pid) (\<lambda>_. ret_p S_OK) (\<lambda>c. c)"

text \<open>An entry point on a pool; using a session that has been closed is undefined.\<close>

definition with_pool :: "thread \<Rightarrow> nat \<Rightarrow> 'a \<Rightarrow> (persist_data, 'a) prog \<Rightarrow> (open_pools, 'a) prog" where
  "with_pool t pid none m =
     bind_p (locate_session t pid) (\<lambda>r.
     case r of
       None \<Rightarrow> ret_p none
     | Some a \<Rightarrow>
         bind_p (get_p (\<lambda>s. op_pools s a)) (\<lambda>p.
         case p of
           None \<Rightarrow> throw_p Undefined_behaviour
         | Some d \<Rightarrow> (case m d of (r, d') \<Rightarrow> bind_p (update_p (\<lambda>s. s\<lparr>op_pools := (op_pools s)(a \<mapsto> d')\<rparr>)) (\<lambda>_. lift_p r))))"

end
