(* ===== verification/Hstore_Log.thy ===== *)
theory Hstore_Log
  imports Hstore_Session
begin

text \<open>
  The operation log of hstore: what a log writes, that a replay can be cut off anywhere and started
  again (the locale \<open>redo_log\<close>, interpreted on the log of an in-place update and on the log of a
  replacement), and that a change is atomic with respect to crashes.
\<close>

section \<open>Changing a value in place\<close>

lemma value_store_map: "pd_map (value_store j f s) = bucket_update j (\<lambda>b. b\<lparr>bk_value := map_option (\<lambda>(k, v). (k, f v)) (bk_value b)\<rparr>) (pd_map s)"
  "mod_key (value_store j f s) = mod_key s" "mod_mapped (value_store j f s) = mod_mapped s" "mod_ctl (value_store j f s) = mod_ctl s"
  "mod_size (value_store j f s) = mod_size s"
  by (simp_all add: value_store_def)

lemma value_store_effect:
  assumes inv: "hop_inv hf (pd_map s)" and j: "j < bucket_count (pd_map s)" "hop_used (pd_map s) j = Some (k, v)"
  shows "hop_inv hf (pd_map (value_store j f s))" "hop_abs (pd_map (value_store j f s)) = (hop_abs (pd_map s))(k \<mapsto> f v)"
    "same_table (pd_map s) (pd_map (value_store j f s))" "hop_used (pd_map (value_store j f s)) = (hop_used (pd_map s))(j := Some (k, f v))"
proof -
  let ?h = "pd_map s" and ?g = "pd_map (value_store j f s)"
  note h = hop_invD [OF inv] and kv = used_SomeD [OF j(2)]
  show same: "same_table ?h ?g" by (simp add: value_store_map same_table_def)
  note c = same_table_counts [OF same]
  show used: "hop_used ?g = (hop_used ?h)(j := Some (k, f v))"
    using h(5) j(1) kv by (auto simp: value_store_map hop_used_def bk_used_def fun_eq_iff)
  have own: "hop_own ?g = hop_own ?h" by (auto simp: value_store_map hop_own_def fun_eq_iff)
  have core: "hop_core hf (bucket_count ?h) (hop_own ?h) ((hop_used ?h)(j := Some (k, f v)))"
    by (rule core_update [OF content_core [OF h(3)] j(1)]) (use core_near(1) [OF content_core [OF h(3)] j] core_bit [OF content_core [OF h(3)]] j(2) in auto)
  have old: "\<exists>w. hop_used ?h i = Some (k', w)" if "((hop_used ?h)(j := Some (k, f v))) i = Some (k', x)" for i k' x
    using that j(2) by (cases "i = j") auto
  have "hop_content hf (bucket_count ?h) (hop_own ?g) (hop_used ?g)"
    unfolding hop_content_def used own
  proof (intro conjI core allI impI)
    fix i i' k' x y assume i: "i < bucket_count ?h" "i' < bucket_count ?h"
      and "((hop_used ?h)(j := Some (k, f v))) i = Some (k', x) \<and> ((hop_used ?h)(j := Some (k, f v))) i' = Some (k', y)"
    then obtain a b where ab: "hop_used ?h i = Some (k', a)" "hop_used ?h i' = Some (k', b)" using old by blast
    show "i = i'" by (rule content_key [OF h(3) i ab])
  qed
  moreover have "bk_value (bk ?g i) \<noteq> None" if "i < bucket_count ?h" "bk_state (bk ?g i) = IN_USE" for i
    using h(2) that unfolding hop_data_def by (auto simp: value_store_map split: if_splits)
  ultimately have d: "hop_data hf ?g" using data_step [OF same, of hf "hop_own ?g" "hop_used ?g"] by blast
  have "used_count (bucket_count ?h) (hop_used ?g) = used_count (bucket_count ?h) (hop_used ?h)"
    unfolding used_count_def used by (rule arg_cong [where f = card]) (use j in auto)
  then show "hop_inv hf ?g" using inv_step [OF inv same d] h(4) by (simp add: value_store_map)
  show "hop_abs ?g = (hop_abs ?h)(k \<mapsto> f v)"
  proof (rule abs_eqI [OF d])
    show "hop_shape ?g" using c h(1) by simp
    fix k' v'
    have ex: "(\<exists>i < bucket_count ?h. hop_used ?g i = x) \<longleftrightarrow> Some (k, f v) = x \<or> (\<exists>i < bucket_count ?h. i \<noteq> j \<and> hop_used ?h i = x)" for x
      by (rule ex_bucket_upd) (use used j in simp_all)
    have "\<not> (\<exists>i < bucket_count ?h. i \<noteq> j \<and> hop_used ?h i = Some (k, w))" for w using content_key [OF h(3) _ j(1) _ j(2)] by blast
    moreover have "k' \<noteq> k \<Longrightarrow> (\<exists>i < bucket_count ?h. i \<noteq> j \<and> hop_used ?h i = Some (k', v')) \<longleftrightarrow> hop_abs ?h k' = Some v'"
      using abs_iff [OF h(2,1), of k' v'] j(2) by auto
    ultimately show "((hop_abs ?h)(k \<mapsto> f v)) k' = Some v' \<longleftrightarrow> (\<exists>i < bucket_count ?g. hop_used ?g i = Some (k', v'))"
      unfolding c(1) ex by (cases "k' = k") auto
  qed
qed

text \<open>Stores into one bucket's value: only the last state of the value counts.\<close>

lemma value_store_comp:
  assumes "j < length (hp_buckets (pd_map s))"
  shows "value_store j f (value_store j g s) = value_store j (\<lambda>v. f (g v)) s"
  using assms by (cases "bk_value (hp_buckets (pd_map s) ! j)") (auto simp: value_store_def bucket_update_def)

lemma value_store_id: "value_store j (\<lambda>v. v) s = s"
  by (simp add: value_store_def bucket_update_def option.map_id)

lemma value_store_cong:
  assumes "bk_value (hp_buckets (pd_map s) ! j) = Some (k, v)" "f v = g v"
  shows "value_store j f s = value_store j g s"
  using assms by (simp add: value_store_def bucket_update_def)

section \<open>The log\<close>

text \<open>The single bytes that a log writes, in order.\<close>

definition mod_writes :: "bytes \<Rightarrow> mod_control \<Rightarrow> (nat \<times> nat) list" where
  "mod_writes src c = map (\<lambda>i. (mc_offset_dst c + i, src ! (mc_offset_src c + i))) [0..<mc_size c]"

definition log_writes :: "bytes \<Rightarrow> mod_control list \<Rightarrow> (nat \<times> nat) list" where
  "log_writes src mods = concat (map (mod_writes src) mods)"

definition write_all :: "(nat \<times> nat) list \<Rightarrow> bytes \<Rightarrow> bytes" where
  "write_all ws v = fold (\<lambda>(p, b) v. v[p := b]) ws v"

lemma write_all_simps [simp]: "write_all [] v = v" "write_all ((p, b) # ws) v = write_all ws (v[p := b])" "length (write_all ws v) = length v"
  "write_all (xs @ ys) v = write_all ys (write_all xs v)"
  by (simp_all add: write_all_def) (induction ws arbitrary: v, auto)

text \<open>Writing everything again after a part of it has been written changes nothing.\<close>

lemma write_all_cong:
  assumes "length v = length w" "\<And>i. i < length v \<Longrightarrow> i \<notin> fst ` set ws \<Longrightarrow> v ! i = w ! i"
  shows "write_all ws v = write_all ws w"
  using assms
proof (induction ws arbitrary: v w)
  case Nil
  then show ?case by (simp add: nth_equalityI)
next
  case (Cons x ws)
  obtain p b where x: "x = (p, b)" by (cases x)
  have "write_all ws (v[p := b]) = write_all ws (w[p := b])"
  proof (rule Cons.IH)
    fix i assume "i < length (v[p := b])" "i \<notin> fst ` set ws"
    then show "v[p := b] ! i = w[p := b] ! i" using Cons.prems x by (cases "i = p") auto
  qed (use Cons.prems in simp)
  then show ?case using x by simp
qed

lemma write_all_other: "i \<notin> fst ` set ws \<Longrightarrow> write_all ws v ! i = v ! i"
  by (induction ws arbitrary: v) auto

lemma write_all_again: "write_all ws (write_all (take n ws) v) = write_all ws v"
proof (rule write_all_cong)
  fix i assume "i \<notin> fst ` set ws"
  moreover have "fst ` set (take n ws) \<subseteq> fst ` set ws" using set_take_subset by (intro image_mono)
  ultimately show "write_all (take n ws) v ! i = v ! i" by (intro write_all_other) blast
qed simp

lemma write_block:
  assumes "off + length bs \<le> length v"
  shows "write_all (map (\<lambda>i. (off + i, bs ! i)) [0..<length bs]) v = take off v @ bs @ drop (off + length bs) v"
  using assms
proof (induction bs rule: rev_induct)
  case (snoc b bs)
  have m: "map (\<lambda>i. (off + i, (bs @ [b]) ! i)) [0..<length bs] = map (\<lambda>i. (off + i, bs ! i)) [0..<length bs]" by (simp add: nth_append)
  have d: "drop (off + length bs) v = v ! (off + length bs) # drop (Suc (off + length bs)) v" using snoc.prems by (intro Cons_nth_drop_Suc [symmetric]) simp
  have "write_all (map (\<lambda>i. (off + i, (bs @ [b]) ! i)) [0..<length (bs @ [b])]) v =
      (write_all (map (\<lambda>i. (off + i, bs ! i)) [0..<length bs]) v)[off + length bs := b]"
    using m by (simp del: map_eq_conv)
  also have "\<dots> = (take off v @ bs @ drop (off + length bs) v)[off + length bs := b]" using snoc by simp
  also have "\<dots> = take off v @ (bs @ [b]) @ drop (off + length (bs @ [b])) v"
    using snoc.prems unfolding d by (simp add: list_update_append min_def)
  finally show ?case .
qed simp

fun apply_op :: "operation \<Rightarrow> bytes \<Rightarrow> bytes" where
  "apply_op (Write off bs) v = take off v @ bs @ drop (off + length bs) v"
| "apply_op Other_op v = v"

definition apply_ops :: "operation list \<Rightarrow> bytes \<Rightarrow> bytes" where
  "apply_ops = fold apply_op"

fun op_fits :: "nat \<Rightarrow> operation \<Rightarrow> bool" where
  "op_fits n (Write off bs) \<longleftrightarrow> off + length bs \<le> n"
| "op_fits n Other_op \<longleftrightarrow> False"

text \<open>The log of operations that fit writes what the operations ask for.\<close>

lemma build_mods_correct:
  assumes "\<forall>p \<in> set ops. op_fits (length v) p" "\<forall>c \<in> set mods. mc_offset_src c + mc_size c \<le> length src \<and> mc_offset_dst c + mc_size c \<le> length v"
  shows "\<exists>src' mods'. build_mods ops src mods = Inr (src', mods') \<and> length mods' = length mods + length ops \<and>
    (\<forall>c \<in> set mods'. mc_offset_src c + mc_size c \<le> length src' \<and> mc_offset_dst c + mc_size c \<le> length v) \<and>
    write_all (log_writes src' mods') v = apply_ops ops (write_all (log_writes src mods) v)"
  using assms
proof (induction ops arbitrary: src mods)
  case Nil
  then show ?case by (simp add: apply_ops_def)
next
  case (Cons p ops)
  obtain off bs where p: "p = Write off bs" using Cons.prems(1) by (cases p) auto
  have fits: "off + length bs \<le> length v" using Cons.prems(1) p by simp
  let ?c = "\<lparr>mc_offset_src = length src, mc_offset_dst = off, mc_size = length bs\<rparr>"
  have old: "log_writes (src @ bs) mods = log_writes src mods"
  proof -
    have "mod_writes (src @ bs) c = mod_writes src c" if "c \<in> set mods" for c
      using Cons.prems(2) that by (auto simp: mod_writes_def nth_append)
    then show ?thesis by (simp add: log_writes_def cong: map_cong)
  qed
  have "mod_writes (src @ bs) ?c = map (\<lambda>i. (off + i, bs ! i)) [0..<length bs]" by (simp add: mod_writes_def)
  then have new: "write_all (log_writes (src @ bs) (mods @ [?c])) v = apply_op p (write_all (log_writes src mods) v)"
    using old write_block [of off bs "write_all (log_writes src mods) v"] fits p by (simp add: log_writes_def)
  have "\<forall>c \<in> set (mods @ [?c]). mc_offset_src c + mc_size c \<le> length (src @ bs) \<and> mc_offset_dst c + mc_size c \<le> length v"
    using Cons.prems(2) fits by auto
  then obtain src' mods' where "build_mods ops (src @ bs) (mods @ [?c]) = Inr (src', mods')" "length mods' = length (mods @ [?c]) + length ops"
    "\<forall>c \<in> set mods'. mc_offset_src c + mc_size c \<le> length src' \<and> mc_offset_dst c + mc_size c \<le> length v"
    "write_all (log_writes src' mods') v = apply_ops ops (write_all (log_writes (src @ bs) (mods @ [?c])) v)"
    using Cons.IH [of "mods @ [?c]" "src @ bs"] Cons.prems(1) by auto
  then show ?case using new p by (simp add: apply_ops_def)
qed

section \<open>A log that can be replayed\<close>

text \<open>A pool at rest: the table is well formed and no change is outstanding.\<close>

definition pool_inv :: "(string \<Rightarrow> nat) \<Rightarrow> persist_data \<Rightarrow> bool" where
  "pool_inv hf s \<longleftrightarrow> hop_inv hf (pd_map s) \<and> mod_size s = 0"

definition pool_abs :: "persist_data \<Rightarrow> string \<rightharpoonup> bytes" where
  "pool_abs s = hop_abs (pd_map s)"

text \<open>A pool in which the value of a key is about to change, is changing or has changed.\<close>

definition changing ::
  "(string \<Rightarrow> nat) \<Rightarrow> (string \<rightharpoonup> bytes) \<Rightarrow> string \<Rightarrow> bytes \<Rightarrow> bytes \<Rightarrow> (persist_data \<Rightarrow> bytes \<Rightarrow> bool) \<Rightarrow> persist_data \<Rightarrow> bool" where
  "changing hf m key old new logged s \<longleftrightarrow>
     hop_inv hf (pd_map s) \<and> (\<exists>w. hop_abs (pd_map s) = m(key \<mapsto> w) \<and> (mod_size s = 0 \<and> (w = old \<or> w = new) \<or> logged s w))"

text \<open>An opening of the pool that is cut off after \<open>n\<close> stores of the replay.\<close>

definition interrupted_open :: "(string \<Rightarrow> nat) \<Rightarrow> bool \<Rightarrow> (nat \<Rightarrow> owner) \<Rightarrow> nat \<Rightarrow> persist_data \<Rightarrow> persist_data" where
  "interrupted_open hf dbg shl n s =
     (let s' = snd (on_map (hop_reopen hf dbg shl) s) in
      case redo_stores hf s' of Inl e \<Rightarrow> s' | Inr sts \<Rightarrow> run_stores (take n sts) s')"

lemma hop_reopen_inv:
  assumes "hop_inv hf h"
  shows "hop_reopen hf dbg shl h = (Inr (), h\<lparr>hp_auto_resize := True\<rparr>)"
proof -
  have "vu_is_stable 1 (hp_count h)" "vu_is_stable 8 (hp_size h)" using assms by (simp_all add: hop_inv_iff vu_is_stable_def)
  then show ?thesis by (simp add: hop_reopen_stable recover_size_def)
qed

lemma reopen_pool:
  assumes "hop_inv hf (pd_map s)"
  shows "on_map (hop_reopen hf dbg shl) s = (Inr (), s\<lparr>pd_map := (pd_map s)\<lparr>hp_auto_resize := True\<rparr>\<rparr>)"
  using hop_reopen_inv [OF assms] by (simp add: on_map_def)

lemma stores_keep_mono: "stores_keep P sts s \<Longrightarrow> (\<And>t. P t \<Longrightarrow> Q t) \<Longrightarrow> stores_keep Q sts s"
  by (induction sts arbitrary: s) simp_all

text \<open>The contract of a log: it can be replayed from every state in which it is in place, and the replay can stop anywhere.\<close>

locale redo_log =
  fixes hf :: "string \<Rightarrow> nat" and key :: string and new :: bytes and logged :: "persist_data \<Rightarrow> bytes \<Rightarrow> bool"
  assumes logged_map: "logged (s\<lparr>pd_map := h\<rparr>) w \<longleftrightarrow> logged s w"
    and replay: "hop_inv hf (pd_map s) \<Longrightarrow> hop_abs (pd_map s) key = Some w \<Longrightarrow> logged s w \<Longrightarrow>
      \<exists>sts. redo_stores hf s = Inr sts \<and> stores_keep (changing hf (hop_abs (pd_map s)) key new new logged) sts s \<and> mod_size (run_stores sts s) = 0"
    and not_idle: "logged s w \<Longrightarrow> mod_size s \<noteq> 0"
begin

lemma changing_more: "changing hf m key new new logged s \<Longrightarrow> changing hf m key old new logged s"
  unfolding changing_def by blast

lemma changing_replay:
  assumes "changing hf m key old new logged s"
  shows "\<exists>sts. redo_stores hf s = Inr sts \<and> stores_keep (changing hf m key old new logged) sts s \<and> mod_size (run_stores sts s) = 0"
proof -
  obtain w where w: "hop_inv hf (pd_map s)" "hop_abs (pd_map s) = m(key \<mapsto> w)" "mod_size s = 0 \<and> (w = old \<or> w = new) \<or> logged s w"
    using assms unfolding changing_def by blast
  show ?thesis
  proof (cases "mod_size s = 0")
    case True
    then show ?thesis using assms by (simp add: redo_stores_def)
  next
    case False
    then obtain sts where sts: "redo_stores hf s = Inr sts" "stores_keep (changing hf (hop_abs (pd_map s)) key new new logged) sts s" "mod_size (run_stores sts s) = 0"
      using replay [OF w(1) _ , of w] w(2,3) by auto
    have "changing hf m key old new logged t" if "changing hf (hop_abs (pd_map s)) key new new logged t" for t
      using that unfolding changing_def w(2) fun_upd_upd by blast
    then have "stores_keep (changing hf m key old new logged) sts s" by (rule stores_keep_mono [OF sts(2)])
    then show ?thesis using sts(1,3) by blast
  qed
qed

lemma changing_reopen:
  assumes "changing hf m key old new logged s"
  shows "changing hf m key old new logged (s\<lparr>pd_map := (pd_map s)\<lparr>hp_auto_resize := True\<rparr>\<rparr>)"
  using assms unfolding changing_def by (simp add: hop_inv_auto logged_map)

lemma changing_interrupted:
  assumes c: "changing hf m key old new logged s"
  shows "changing hf m key old new logged (interrupted_open hf dbg shl n s)"
proof -
  let ?s = "s\<lparr>pd_map := (pd_map s)\<lparr>hp_auto_resize := True\<rparr>\<rparr>"
  have s: "on_map (hop_reopen hf dbg shl) s = (Inr (), ?s)" using c reopen_pool by (simp add: changing_def)
  obtain sts where "redo_stores hf ?s = Inr sts" "stores_keep (changing hf m key old new logged) sts ?s"
    using changing_replay [OF changing_reopen [OF c]] by blast
  then show ?thesis using s stores_keep_take [where P = "changing hf m key old new logged"] by (simp add: interrupted_open_def)
qed

lemma changing_many: "changing hf m key old new logged s \<Longrightarrow> changing hf m key old new logged (fold (interrupted_open hf dbg shl) ns s)"
  by (induction ns arbitrary: s) (simp_all add: changing_interrupted)

lemma changing_open:
  assumes c: "changing hf m key old new logged s"
  shows "\<exists>t. session_open hf dbg shl s = (Inr (), t) \<and> pool_inv hf t \<and> (pool_abs t = m(key \<mapsto> old) \<or> pool_abs t = m(key \<mapsto> new))"
proof -
  let ?s = "s\<lparr>pd_map := (pd_map s)\<lparr>hp_auto_resize := True\<rparr>\<rparr>"
  have s: "on_map (hop_reopen hf dbg shl) s = (Inr (), ?s)" using c reopen_pool by (simp add: changing_def)
  obtain sts where sts: "redo_stores hf ?s = Inr sts" "stores_keep (changing hf m key old new logged) sts ?s" "mod_size (run_stores sts ?s) = 0"
    using changing_replay [OF changing_reopen [OF c]] by blast
  have "changing hf m key old new logged (run_stores sts ?s)" using stores_keep_take [OF sts(2), of "length sts"] by simp
  then have "pool_inv hf (run_stores sts ?s) \<and> (pool_abs (run_stores sts ?s) = m(key \<mapsto> old) \<or> pool_abs (run_stores sts ?s) = m(key \<mapsto> new))"
    using sts(3) not_idle unfolding changing_def pool_inv_def pool_abs_def by blast
  then show ?thesis using s sts(1) by (simp add: session_open_def redo_def)
qed

text \<open>From the first store of the log to the last store of the replay, with crashes.\<close>

lemma logged_change:
  fixes lg s defines "m \<equiv> hop_abs (pd_map s)" and "t \<equiv> run_stores lg s"
  assumes inv: "hop_inv hf (pd_map s)" and old: "m key = Some old" and pd: "pd_map t = pd_map s" "logged t old"
    and keep: "stores_keep (changing hf m key old new logged) lg s"
  shows "\<exists>rest. redo_stores hf t = Inr rest \<and> pool_inv hf (run_stores (lg @ rest) s) \<and> pool_abs (run_stores (lg @ rest) s) = m(key \<mapsto> new) \<and>
    (\<forall>n ns. \<exists>u. session_open hf dbg shl (fold (interrupted_open hf dbg shl) ns (run_stores (take n (lg @ rest)) s)) = (Inr (), u) \<and> pool_inv hf u \<and>
      (pool_abs u = m \<or> pool_abs u = m(key \<mapsto> new)))"
proof -
  let ?P = "changing hf m key old new logged" and ?Q = "changing hf m key new new logged"
  have upd: "m(key \<mapsto> old) = m" using old by (simp add: fun_upd_idem)
  obtain rest where rest: "redo_stores hf t = Inr rest" "stores_keep ?Q rest t" "mod_size (run_stores rest t) = 0"
    using replay [of t old] inv old pd by (auto simp: m_def)
  have P: "stores_keep ?P (lg @ rest) s"
    using keep stores_keep_mono [OF rest(2), where Q = ?P, OF changing_more] by (simp add: stores_keep_append t_def)
  have "?Q (run_stores rest t)" using stores_keep_take [OF rest(2), of "length rest"] by simp
  then have "pool_inv hf (run_stores (lg @ rest) s)" "pool_abs (run_stores (lg @ rest) s) = m(key \<mapsto> new)"
    using rest(3) not_idle unfolding changing_def pool_inv_def pool_abs_def run_stores_append t_def by blast+
  moreover have "\<exists>u. session_open hf dbg shl (fold (interrupted_open hf dbg shl) ns (run_stores (take n (lg @ rest)) s)) = (Inr (), u) \<and> pool_inv hf u \<and>
      (pool_abs u = m \<or> pool_abs u = m(key \<mapsto> new))" for n ns
    using changing_open [OF changing_many [OF stores_keep_take [OF P]]] unfolding upd .
  ultimately show ?thesis using rest(1) by blast
qed

end

section \<open>The log of an update\<close>

definition byte_store :: "nat \<Rightarrow> nat \<times> nat \<Rightarrow> pd_store" where
  "byte_store j w = value_store j (\<lambda>v. v[fst w := snd w])"

lemma copy_stores_bytes: "concat (map (copy_stores j src) mods) = map (byte_store j) (log_writes src mods)"
  by (simp add: log_writes_def map_concat comp_def copy_stores_def [abs_def] mod_writes_def byte_store_def)

lemma run_bytes:
  "j < length (hp_buckets (pd_map s)) \<Longrightarrow> run_stores (map (byte_store j) ws) s = value_store j (write_all ws) s"
proof (induction ws arbitrary: s)
  case Nil
  then show ?case by (simp add: value_store_id)
next
  case (Cons x ws)
  obtain p b where x: "x = (p, b)" by (cases x)
  have "j < length (hp_buckets (pd_map (byte_store j x s)))" using Cons.prems by (simp add: byte_store_def value_store_map)
  then have "run_stores (map (byte_store j) (x # ws)) s = value_store j (write_all ws) (byte_store j x s)" using Cons.IH by simp
  also have "\<dots> = value_store j (write_all (x # ws)) s" using Cons.prems x by (simp add: byte_store_def value_store_comp write_all_def [abs_def] comp_def)
  finally show ?case .
qed

definition fitting :: "bytes \<Rightarrow> bytes \<Rightarrow> mod_control \<Rightarrow> bool" where
  "fitting src old c \<longleftrightarrow> mc_offset_src c + mc_size c \<le> length src \<and> mc_offset_dst c + mc_size c \<le> length old"

text \<open>The log is in place, and the value differs from the old one at most where the log writes.\<close>

definition update_logged :: "string \<Rightarrow> bytes \<Rightarrow> bytes \<Rightarrow> mod_control list \<Rightarrow> persist_data \<Rightarrow> bytes \<Rightarrow> bool" where
  "update_logged key old src mods s w \<longleftrightarrow>
     mod_key s = key \<and> mod_mapped s = src \<and> mod_ctl s = mods \<and> mod_size s = int (length mods) \<and> mods \<noteq> [] \<and> (\<forall>c \<in> set mods. fitting src old c) \<and>
     length w = length old \<and> (\<forall>i < length old. i \<notin> fst ` set (log_writes src mods) \<longrightarrow> w ! i = old ! i)"

lemma stores_keepI: "(\<And>n. n \<le> length sts \<Longrightarrow> P (run_stores (take n sts) s)) \<Longrightarrow> stores_keep P sts s"
proof (induction sts arbitrary: s)
  case (Cons st sts)
  have "P (run_stores (take n sts) (st s))" if "n \<le> length sts" for n using Cons.prems [of "Suc n"] that by simp
  then show ?case using Cons.IH Cons.prems [of 0] by simp
qed force

lemma update_replay:
  assumes inv: "hop_inv hf (pd_map s)" and w: "hop_abs (pd_map s) key = Some w" and l: "update_logged key old src mods s w"
  defines "new \<equiv> write_all (log_writes src mods) old"
  shows "\<exists>sts. redo_stores hf s = Inr sts \<and> stores_keep (changing hf (hop_abs (pd_map s)) key new new (update_logged key old src mods)) sts s \<and>
    mod_size (run_stores sts s) = 0"
proof -
  let ?ws = "log_writes src mods"
  let ?P = "changing hf (hop_abs (pd_map s)) key new new (update_logged key old src mods)"
  note h = hop_invD [OF inv]
  obtain j where j: "locate_key (bucket_ix (pd_map s) (hf key)) key (pd_map s) = Inr (Some j)" "j < bucket_count (pd_map s)"
    "hop_used (pd_map s) j = Some (key, w)"
    using w by (rule_tac locate_key_spec [OF h(2,1), where k = key]) auto
  note kv = used_SomeD [OF j(3)]
  have len: "j < length (hp_buckets (pd_map s))" using h(5) j(2) by simp
  let ?sts = "map (byte_store j) ?ws @ finish_stores @ [\<lambda>s. s\<lparr>mod_ctl := []\<rparr>]"
  have "list_all (mod_in_range src w) mods" using l by (auto simp: list_all_iff update_logged_def fitting_def mod_in_range_def)
  then have sts: "redo_stores hf s = Inr ?sts"
    using l j(1) kv by (simp add: redo_stores_def redo_update_stores_def update_logged_def copy_stores_bytes bk_def)
  have eff: "hop_inv hf (pd_map (value_store j f s))" "hop_abs (pd_map (value_store j f s)) = (hop_abs (pd_map s))(key \<mapsto> f w)" for f
    using value_store_effect [OF inv j(2,3), of f] by simp_all
  have new: "write_all ?ws w = new" unfolding new_def by (rule write_all_cong) (use l in \<open>auto simp: update_logged_def\<close>)
  have part: "?P (value_store j (write_all (take n ?ws)) s)" for n
  proof -
    have "write_all (take n ?ws) w ! i = old ! i" if "i < length old" "i \<notin> fst ` set ?ws" for i
    proof -
      have "fst ` set (take n ?ws) \<subseteq> fst ` set ?ws" using set_take_subset by (intro image_mono)
      then show ?thesis using l that write_all_other [of i "take n ?ws" w] by (auto simp: update_logged_def)
    qed
    then have "update_logged key old src mods (value_store j (write_all (take n ?ws)) s) (write_all (take n ?ws) w)"
      using l by (simp add: update_logged_def value_store_map)
    then show ?thesis using eff [of "write_all (take n ?ws)"] unfolding changing_def by blast
  qed
  let ?t = "value_store j (write_all ?ws) s"
  have fin: "?P (?t\<lparr>mod_size := 0\<rparr>)" "?P (?t\<lparr>mod_size := 0, mod_ctl := []\<rparr>)"
    using eff [of "write_all ?ws"] new unfolding changing_def by auto
  have "stores_keep ?P (map (byte_store j) ?ws) s"
    by (rule stores_keepI) (use part run_bytes [OF len] in \<open>simp add: take_map\<close>)
  then have "stores_keep ?P ?sts s"
    using fin part [of "length ?ws"] run_bytes [OF len] by (simp add: stores_keep_append finish_stores_def)
  moreover have "mod_size (run_stores ?sts s) = 0" by (simp add: run_stores_append finish_stores_def)
  ultimately show ?thesis using sts by blast
qed

interpretation update_log: redo_log hf key "write_all (log_writes src mods) old" "update_logged key old src mods"
  by unfold_locales (use update_replay in \<open>auto simp: update_logged_def\<close>)

section \<open>The log of a replacement\<close>

definition replace_logged :: "string \<Rightarrow> bytes \<Rightarrow> persist_data \<Rightarrow> bytes \<Rightarrow> bool" where
  "replace_logged key data s w \<longleftrightarrow> mod_key s = key \<and> mod_mapped s = data \<and> mod_size s = - 1"

lemma replace_replay:
  assumes inv: "hop_inv hf (pd_map s)" and w: "hop_abs (pd_map s) key = Some w" and l: "replace_logged key data s w"
  shows "\<exists>sts. redo_stores hf s = Inr sts \<and> stores_keep (changing hf (hop_abs (pd_map s)) key data data (replace_logged key data)) sts s \<and>
    mod_size (run_stores sts s) = 0"
proof -
  note h = hop_invD [OF inv]
  obtain j where j: "locate_key (bucket_ix (pd_map s) (hf key)) key (pd_map s) = Inr (Some j)" "j < bucket_count (pd_map s)"
    "hop_used (pd_map s) j = Some (key, w)"
    using w by (rule_tac locate_key_spec [OF h(2,1), where k = key]) auto
  let ?sts = "[value_store j (\<lambda>_. data)] @ finish_stores"
  have sts: "redo_stores hf s = Inr ?sts" using l j(1) by (simp add: redo_stores_def redo_replace_stores_def replace_logged_def)
  note eff = value_store_effect [OF inv j(2,3), of "\<lambda>_. data"]
  have same: "(hop_abs (pd_map s))(key \<mapsto> w) = hop_abs (pd_map s)" using w by (simp add: fun_upd_idem)
  have "changing hf (hop_abs (pd_map s)) key data data (replace_logged key data) s" using inv l same unfolding changing_def by metis
  moreover have "changing hf (hop_abs (pd_map s)) key data data (replace_logged key data) (value_store j (\<lambda>_. data) s)"
    using eff l unfolding changing_def by (auto simp: replace_logged_def value_store_map(2-))
  moreover have "changing hf (hop_abs (pd_map s)) key data data (replace_logged key data) ((value_store j (\<lambda>_. data) s)\<lparr>mod_size := 0\<rparr>)"
    using eff unfolding changing_def by auto
  ultimately show ?thesis using sts by (simp add: finish_stores_def)
qed

interpretation replace_log: redo_log hf key data "replace_logged key data"
  by unfold_locales (use replace_replay in \<open>auto simp: replace_logged_def\<close>)

section \<open>Changes of a value, with crashes\<close>

datatype change = Update "operation list" | Replace bytes

definition enter_change :: "(string \<Rightarrow> nat) \<Rightarrow> (nat \<Rightarrow> bool) \<Rightarrow> string \<Rightarrow> change \<Rightarrow> (persist_data, unit) prog" where
  "enter_change hf mem key c = (case c of Update ops \<Rightarrow> enter_update hf mem key ops | Replace data \<Rightarrow> enter_replace hf mem key data)"

text \<open>All the stores of a change: those of the log, then those of its replay.\<close>

definition change_stores :: "(string \<Rightarrow> nat) \<Rightarrow> string \<Rightarrow> change \<Rightarrow> persist_data \<Rightarrow> pd_store list result" where
  "change_stores hf key c s =
     bind_res (case c of
         Update ops \<Rightarrow> bind_res (build_mods ops [] []) (\<lambda>(src, mods). Inr (log_stores key src mods))
       | Replace data \<Rightarrow> Inr (replace_log_stores key data)) (\<lambda>log.
     bind_res (redo_stores hf (run_stores log s)) (\<lambda>rest. Inr (log @ rest)))"

fun change_fits :: "bytes \<Rightarrow> change \<Rightarrow> bool" where
  "change_fits v (Update ops) \<longleftrightarrow> list_all (op_fits (length v)) ops"
| "change_fits v (Replace data) \<longleftrightarrow> True"

fun changed :: "bytes \<Rightarrow> change \<Rightarrow> bytes" where
  "changed v (Update ops) = apply_ops ops v"
| "changed v (Replace data) = data"

lemma enter_change_stores:
  assumes "change_stores hf key c s = Inr sts"
  shows "enter_change hf mem key c s = (Inr (), run_stores sts s) \<or>
    (\<exists>t n. \<not> mem n \<and> enter_change hf mem key c s = (Inl Bad_alloc, t) \<and> pd_map t = pd_map s \<and> mod_size t = mod_size s)"
proof (cases c)
  case (Replace data)
  then show ?thesis using assms
    by (auto simp: enter_change_def change_stores_def enter_replace_def redo_def bind_res_Inr_iff run_stores_append replace_log_stores_def)
next
  case (Update ops)
  obtain src mods where b: "build_mods ops [] [] = Inr (src, mods)" using assms by (auto simp: Update change_stores_def bind_res_Inr_iff)
  consider "\<not> mem (length src)" | "mem (length src)" "\<not> mem (24 * length mods)" | "mem (length src)" "mem (24 * length mods)" by blast
  then show ?thesis using assms b
    by cases (auto simp: Update enter_change_def change_stores_def enter_update_def redo_def bind_res_Inr_iff run_stores_append log_stores_def)
qed

lemma idle_open:
  assumes "pool_inv hf s"
  shows "\<exists>t. session_open hf dbg shl (fold (interrupted_open hf dbg shl) ns s) = (Inr (), t) \<and> pool_inv hf t \<and> pool_abs t = pool_abs s"
  using assms
proof (induction ns arbitrary: s)
  case Nil
  then have "hop_inv hf (pd_map s)" "mod_size s = 0" by (simp_all add: pool_inv_def)
  then show ?case by (simp add: session_open_def reopen_pool redo_def redo_stores_def pool_inv_def pool_abs_def hop_inv_auto)
next
  case (Cons n ns)
  then have s: "hop_inv hf (pd_map s)" "mod_size s = 0" by (simp_all add: pool_inv_def)
  then have "pool_inv hf (interrupted_open hf dbg shl n s)" "pool_abs (interrupted_open hf dbg shl n s) = pool_abs s"
    by (simp_all add: interrupted_open_def reopen_pool redo_stores_def pool_inv_def pool_abs_def hop_inv_auto)
  then show ?case using Cons.IH by fastforce
qed

lemma change_keeps:
  assumes inv: "pool_inv hf s" and v: "pool_abs s key = Some v" and fits: "change_fits v c"
  shows "\<exists>sts. change_stores hf key c s = Inr sts \<and> pool_inv hf (run_stores sts s) \<and> pool_abs (run_stores sts s) = (pool_abs s)(key \<mapsto> changed v c) \<and>
    (\<forall>n ns. \<exists>t. session_open hf dbg shl (fold (interrupted_open hf dbg shl) ns (run_stores (take n sts) s)) = (Inr (), t) \<and> pool_inv hf t \<and>
      (pool_abs t = pool_abs s \<or> pool_abs t = (pool_abs s)(key \<mapsto> changed v c)))"
proof (cases c)
  case (Replace data)
  let ?lg = "replace_log_stores key data"
  have s: "hop_inv hf (pd_map s)" "hop_abs (pd_map s) key = Some v" "mod_size s = 0" using inv v by (simp_all add: pool_inv_def pool_abs_def)
  have l: "pd_map (run_stores ?lg s) = pd_map s" "replace_logged key data (run_stores ?lg s) v" by (simp_all add: replace_log_stores_def replace_logged_def)
  have "changing hf (hop_abs (pd_map s)) key v data (replace_logged key data) t"
    if "pd_map t = pd_map s" "mod_size t = 0 \<or> replace_logged key data t v" for t
    using that s unfolding changing_def by (metis fun_upd_triv)
  then have "stores_keep (changing hf (hop_abs (pd_map s)) key v data (replace_logged key data)) ?lg s"
    using s(3) by (simp add: replace_log_stores_def replace_logged_def)
  from replace_log.logged_change [OF s(1,2) l this, of dbg shl]
  show ?thesis unfolding Replace change_stores_def pool_abs_def by (auto simp: bind_res_Inr_iff)
next
  case (Update ops)
  obtain src mods where b: "build_mods ops [] [] = Inr (src, mods)" "length mods = length ops" "\<forall>c \<in> set mods. fitting src v c"
    "write_all (log_writes src mods) v = apply_ops ops v"
    using build_mods_correct [of ops v "[]" "[]"] fits Update unfolding fitting_def by (auto simp: list_all_iff log_writes_def)
  let ?lg = "log_stores key src mods"
  have s: "hop_inv hf (pd_map s)" "hop_abs (pd_map s) key = Some v" "mod_size s = 0" using inv v by (simp_all add: pool_inv_def pool_abs_def)
  show ?thesis
  proof (cases "mods = []")
    case True
    have "pool_inv hf (run_stores (take n ?lg) s) \<and> pool_abs (run_stores (take n ?lg) s) = pool_abs s" for n
    proof -
      have "stores_keep (\<lambda>t. pool_inv hf t \<and> pool_abs t = pool_abs s) ?lg s" using inv True by (simp add: log_stores_def pool_inv_def pool_abs_def)
      from stores_keep_take [OF this] show ?thesis .
    qed
    note idle = this
    have "change_stores hf key c s = Inr ?lg" using b(1) True unfolding Update change_stores_def by (simp add: log_stores_def redo_stores_def)
    moreover have "changed v c = v" using b(2) True by (simp add: Update apply_ops_def)
    moreover have "(pool_abs s)(key \<mapsto> v) = pool_abs s" using v by (simp add: fun_upd_idem)
    ultimately show ?thesis using idle_open [of hf "run_stores (take _ ?lg) s"] idle idle [of "length ?lg"] by simp
  next
    case False
    have l: "pd_map (run_stores ?lg s) = pd_map s" "update_logged key v src mods (run_stores ?lg s) v"
      using b(3) False by (simp_all add: log_stores_def update_logged_def)
    have "changing hf (hop_abs (pd_map s)) key v (write_all (log_writes src mods) v) (update_logged key v src mods) t"
      if "pd_map t = pd_map s" "mod_size t = 0 \<or> update_logged key v src mods t v" for t
      using that s unfolding changing_def by (metis fun_upd_triv)
    then have "stores_keep (changing hf (hop_abs (pd_map s)) key v (write_all (log_writes src mods) v) (update_logged key v src mods)) ?lg s"
      using s(3) l(2) by (simp add: log_stores_def)
    from update_log.logged_change [OF s(1,2) l this, of dbg shl]
    show ?thesis unfolding Update change_stores_def pool_abs_def using b by (auto simp: bind_res_Inr_iff)
  qed
qed

end
