(* ===== verification/Hstore_Properties.thy ===== *)
theory Hstore_Properties
  imports Hstore_Log
begin

text \<open>
  What the hstore component promises: its calls refine a map from keys to byte strings, changes of a
  value survive crashes, and what is undefined.
\<close>

section \<open>The component as a map\<close>

text \<open>A call of the component on a pool and its outcome.\<close>

datatype kv_op =
    Op_put string "bytes option" nat
  | Op_get string "nat option"
  | Op_get_direct string nat
  | Op_value_len string
  | Op_erase string
  | Op_count
  | Op_update string "operation list" bool

datatype kv_out = Status status_t | Read status_t nat "bytes option" | Attribute status_t "nat list" | Number nat | Thrown exn

definition outcome :: "('a \<Rightarrow> kv_out) \<Rightarrow> exn + 'a \<Rightarrow> kv_out" where
  "outcome f r = (case r of Inl e \<Rightarrow> Thrown e | Inr x \<Rightarrow> f x)"

fun hstore_call ::
  "(string \<Rightarrow> nat) \<Rightarrow> bool \<Rightarrow> (nat \<Rightarrow> owner) \<Rightarrow> (nat \<Rightarrow> bool) \<Rightarrow> (nat \<Rightarrow> bool) \<Rightarrow> (nat \<Rightarrow> bool) \<Rightarrow> kv_op \<Rightarrow> persist_data \<Rightarrow> kv_out \<times> persist_data" where
  "hstore_call hf dbg shl room mem dram (Op_put k v flags) s = apfst (outcome Status) (hstore_put hf dbg shl room mem k v flags s)"
| "hstore_call hf dbg shl room mem dram (Op_get k buffer) s = apfst (outcome (\<lambda>(c, n, v). Read c n v)) (hstore_get hf dram k buffer s)"
| "hstore_call hf dbg shl room mem dram (Op_get_direct k n) s = apfst (outcome (\<lambda>(c, n, v). Read c n v)) (hstore_get_direct hf k n s)"
| "hstore_call hf dbg shl room mem dram (Op_value_len k) s = apfst (outcome (\<lambda>(c, ns). Attribute c ns)) (hstore_get_attribute hf VALUE_LEN (Some k) s)"
| "hstore_call hf dbg shl room mem dram (Op_erase k) s = apfst (outcome Status) (hstore_erase hf shl mem k s)"
| "hstore_call hf dbg shl room mem dram Op_count s = apfst (outcome Number) (session_count dbg s)"
| "hstore_call hf dbg shl room mem dram (Op_update k ops lock) s = apfst (outcome Status) (hstore_atomic_update hf mem k ops lock s)"

definition put_allowed :: "(string \<rightharpoonup> bytes) \<Rightarrow> string \<Rightarrow> bytes \<Rightarrow> nat \<Rightarrow> status_t \<Rightarrow> (string \<rightharpoonup> bytes) \<Rightarrow> bool" where
  "put_allowed m k v flags c m' \<longleftrightarrow>
     c = S_OK \<and> (m k = None \<or> flags = 0) \<and> m' = m(k \<mapsto> v) \<or>
     c = E_KEY_EXISTS \<and> m k \<noteq> None \<and> flags \<noteq> 0 \<and> m' = m \<or>
     c = E_TOO_LARGE \<and> m' = m \<or>
     c = E_ALREADY \<and> m k = None \<and> m' = m"

definition read_allowed :: "bytes option \<Rightarrow> nat \<Rightarrow> kv_out \<Rightarrow> bool" where
  "read_allowed x n r \<longleftrightarrow>
     r = (case x of
            None \<Rightarrow> Read E_KEY_NOT_FOUND n None
          | Some v \<Rightarrow> if length v \<le> n then Read S_OK (length v) (Some v) else Read E_INSUFFICIENT_BUFFER (length v) None)"

definition update_allowed :: "(string \<rightharpoonup> bytes) \<Rightarrow> string \<Rightarrow> operation list \<Rightarrow> bool \<Rightarrow> status_t \<Rightarrow> (string \<rightharpoonup> bytes) \<Rightarrow> bool" where
  "update_allowed m k ops lock c m' \<longleftrightarrow>
     c = E_TOO_LARGE \<and> m' = m \<or>
     (if lock \<and> m k = None then c = E_ALREADY \<and> m' = m
      else if Other_op \<in> set ops then c = E_NOT_SUPPORTED \<and> m' = m
      else c = S_OK \<and> m' = (case m k of None \<Rightarrow> m | Some v \<Rightarrow> m(k \<mapsto> apply_ops ops v)))"

text \<open>What a map allows: the outcome of a call and the map after it.\<close>

fun kv_allowed :: "(string \<rightharpoonup> bytes) \<Rightarrow> kv_op \<Rightarrow> kv_out \<Rightarrow> (string \<rightharpoonup> bytes) \<Rightarrow> bool" where
  "kv_allowed m (Op_put k v flags) r m' \<longleftrightarrow>
     (if v = None \<or> flags \<noteq> 0 \<and> flags \<noteq> FLAGS_DONT_STOMP then r = Status E_BAD_PARAM \<and> m' = m
      else \<exists>c. r = Status c \<and> put_allowed m k (the v) flags c m')"
| "kv_allowed m (Op_get k (Some n)) r m' \<longleftrightarrow> read_allowed (m k) n r \<and> m' = m"
| "kv_allowed m (Op_get k None) r m' \<longleftrightarrow>
     (case m k of None \<Rightarrow> r = Read E_KEY_NOT_FOUND 0 None | Some v \<Rightarrow> r = Read S_OK (length v) (Some v) \<or> r = Read E_TOO_LARGE 0 None) \<and> m' = m"
| "kv_allowed m (Op_get_direct k n) r m' \<longleftrightarrow> read_allowed (m k) n r \<and> m' = m"
| "kv_allowed m (Op_value_len k) r m' \<longleftrightarrow> r = (case m k of None \<Rightarrow> Attribute E_KEY_NOT_FOUND [] | Some v \<Rightarrow> Attribute S_OK [length v]) \<and> m' = m"
| "kv_allowed m (Op_erase k) r m' \<longleftrightarrow>
     r = Thrown Bad_alloc \<and> m' = m \<or> r = Status (if m k = None then E_KEY_NOT_FOUND else S_OK) \<and> m' = m(k := None)"
| "kv_allowed m Op_count r m' \<longleftrightarrow> r = Number (card (dom m)) \<and> m' = m"
| "kv_allowed m (Op_update k ops lock) r m' \<longleftrightarrow> (\<exists>c. r = Status c \<and> update_allowed m k ops lock c m')"

text \<open>The writes of an update lie inside of the value.\<close>

fun kv_pre :: "(string \<rightharpoonup> bytes) \<Rightarrow> kv_op \<Rightarrow> bool" where
  "kv_pre m (Op_update k ops lock) \<longleftrightarrow> (case m k of None \<Rightarrow> True | Some v \<Rightarrow> list_all (op_fits (length v)) ops \<or> Other_op \<in> set ops)"
| "kv_pre m _ \<longleftrightarrow> True"

lemma get_correct:
  assumes "pool_inv hf s"
  shows "hstore_call hf dbg shl room mem dram (Op_get_direct k n) s = (r, t) \<Longrightarrow> t = s \<and> read_allowed (pool_abs s k) n r"
    "hstore_call hf dbg shl room mem dram (Op_get k buffer) s = (r, t) \<Longrightarrow> t = s \<and> kv_allowed (pool_abs s) (Op_get k buffer) r (pool_abs s)"
    "hstore_call hf dbg shl room mem dram (Op_value_len k) s = (r, t) \<Longrightarrow> t = s \<and> kv_allowed (pool_abs s) (Op_value_len k) r (pool_abs s)"
proof -
  have at: "hop_at hf k (pd_map s) = (case pool_abs s k of Some v \<Rightarrow> Inr v | None \<Rightarrow> Inl Out_of_range)"
    using assms hop_at_correct [of hf "pd_map s" k] by (simp add: pool_inv_def pool_abs_def)
  note defs = hstore_get_direct_def hstore_get_def hstore_get_attribute_def session_get_def session_get_alloc_def session_get_value_len_def
    catch_status_def outcome_def read_allowed_def at
  show "hstore_call hf dbg shl room mem dram (Op_get_direct k n) s = (r, t) \<Longrightarrow> t = s \<and> read_allowed (pool_abs s k) n r"
    by (auto simp: defs split: option.splits if_splits)
  show "hstore_call hf dbg shl room mem dram (Op_get k buffer) s = (r, t) \<Longrightarrow> t = s \<and> kv_allowed (pool_abs s) (Op_get k buffer) r (pool_abs s)"
    by (cases buffer; cases "pool_abs s k") (auto simp: defs split: if_splits)
  show "hstore_call hf dbg shl room mem dram (Op_value_len k) s = (r, t) \<Longrightarrow> t = s \<and> kv_allowed (pool_abs s) (Op_value_len k) r (pool_abs s)"
    by (cases "pool_abs s k") (auto simp: defs)
qed

lemma enter_change_correct:
  assumes inv: "pool_inv hf s" and v: "pool_abs s key = Some v" and fits: "change_fits v c"
  shows "\<exists>r t. enter_change hf mem key c s = (r, t) \<and> pool_inv hf t \<and>
    (r = Inr () \<and> pool_abs t = (pool_abs s)(key \<mapsto> changed v c) \<or> r = Inl Bad_alloc \<and> pool_abs t = pool_abs s)"
proof -
  obtain sts where sts: "change_stores hf key c s = Inr sts" "pool_inv hf (run_stores sts s)" "pool_abs (run_stores sts s) = (pool_abs s)(key \<mapsto> changed v c)"
    using change_keeps [OF assms] by blast
  from enter_change_stores [OF sts(1), of mem] sts(2,3) inv show ?thesis unfolding pool_inv_def pool_abs_def by fastforce
qed

lemma build_mods_other: "build_mods ops src mods = Inl Invalid_argument \<longleftrightarrow> Other_op \<in> set ops" "build_mods ops src mods = Inl e \<Longrightarrow> e = Invalid_argument"
  by (induction ops src mods rule: build_mods.induct) auto

lemma enter_update_missing:
  assumes inv: "pool_inv hf s" and none: "pool_abs s key = None"
  shows "\<exists>r t. enter_update hf mem key ops s = (r, t) \<and> pool_inv hf t \<and> pool_abs t = pool_abs s \<and>
    (r = Inl Bad_alloc \<or> r = (if Other_op \<in> set ops then Inl Invalid_argument else Inr ()))"
proof (cases "build_mods ops [] []")
  case (Inl e)
  then have "e = Invalid_argument" "Other_op \<in> set ops" using build_mods_other by blast+
  then show ?thesis using Inl inv by (simp add: enter_update_def)
next
  case (Inr x)
  obtain src mods where x: "x = (src, mods)" by (cases x)
  have no: "Other_op \<notin> set ops" using Inr build_mods_other(1) [of ops "[]" "[]"] by auto
  have h: "hop_inv hf (pd_map s)" "mod_size s = 0" "hop_abs (pd_map s) key = None" using inv none by (simp_all add: pool_inv_def pool_abs_def)
  have loc: "locate_key (bucket_ix (pd_map s) (hf key)) key (pd_map s) = Inr None"
    using h(3) by (rule_tac locate_key_spec [OF hop_invD(2,1) [OF h(1)], where k = key]) auto
  let ?s = "run_stores (log_stores key src mods) s"
  have s: "pd_map ?s = pd_map s" "mod_key ?s = key" "mod_size ?s = int (length mods)" by (simp_all add: log_stores_def)
  have "redo_stores hf ?s = Inr (if mods = [] then [] else finish_stores @ [\<lambda>s. s\<lparr>mod_ctl := []\<rparr>])"
    using s loc by (simp add: redo_stores_def redo_update_stores_def)
  then have "redo hf ?s = (Inr (), if mods = [] then ?s else ?s\<lparr>mod_size := 0, mod_ctl := []\<rparr>)" by (simp add: redo_def finish_stores_def)
  then have "redo hf ?s = (Inr (), if mods = [] then ?s else ?s\<lparr>mod_size := 0, mod_ctl := []\<rparr>)" .
  then show ?thesis using Inr x no h s unfolding enter_update_def pool_inv_def pool_abs_def by (auto simp: log_stores_def)
qed

lemma update_correct:
  assumes inv: "pool_inv hf s" and pre: "kv_pre (pool_abs s) (Op_update key ops lock)"
  shows "\<exists>c t. hstore_atomic_update hf mem key ops lock s = (Inr c, t) \<and> pool_inv hf t \<and> update_allowed (pool_abs s) key ops lock c (pool_abs t)"
proof -
  have h: "hop_inv hf (pd_map s)" using inv by (simp add: pool_inv_def)
  have loc: "\<exists>f. locate_key (bucket_ix (pd_map s) (hf key)) key (pd_map s) = Inr f \<and> (f = None \<longleftrightarrow> pool_abs s key = None)"
    by (rule locate_key_spec [OF hop_invD(2,1) [OF h], where k = key]) (auto simp: pool_abs_def)
  then obtain f where "locate_key (bucket_ix (pd_map s) (hf key)) key (pd_map s) = Inr f \<and> (f = None \<longleftrightarrow> pool_abs s key = None)" ..
  note f = conjunct1 [OF this] conjunct2 [OF this]
  show ?thesis
  proof (cases "mem (length key) \<and> \<not> (lock \<and> f = None)")
    case False
    then show ?thesis using inv f
      by (auto simp: hstore_atomic_update_def lock_and_atomic_update_def atomic_update_def catch_status_def update_allowed_def)
  next
    case True
    have eq: "hstore_atomic_update hf mem key ops lock s = catch_status put_code (enter_update hf mem key ops) (\<lambda>_. ret_p S_OK) (\<lambda>c. c) s"
      using True f(1) by (auto simp: hstore_atomic_update_def lock_and_atomic_update_def atomic_update_def catch_status_def)
    show ?thesis
    proof (cases "pool_abs s key")
      case None
      then show ?thesis using enter_update_missing [OF inv None, of mem ops] True f(2) unfolding eq
        by (auto simp: catch_status_def update_allowed_def split: if_splits)
    next
      case (Some v)
      show ?thesis
      proof (cases "Other_op \<in> set ops")
        case other: True
        then have "build_mods ops [] [] = Inl Invalid_argument" by (simp add: build_mods_other)
        then show ?thesis using inv Some other unfolding eq by (auto simp: enter_update_def catch_status_def update_allowed_def)
      next
        case no: False
        have "change_fits v (Update ops)" using pre Some no by simp
        from enter_change_correct [OF inv Some this, of mem] show ?thesis using Some no unfolding eq
          by (auto simp: enter_change_def catch_status_def update_allowed_def)
      qed
    qed
  qed
qed

lemma issue_41_correct:
  assumes inv: "pool_inv hf s" and v: "pool_abs s key = Some v"
  shows "\<exists>r t. update_by_issue_41 hf mem key val (length v) s = (r, t) \<and> pool_inv hf t \<and>
    (r = Inr () \<and> pool_abs t = (pool_abs s)(key \<mapsto> val) \<or> r = Inl Bad_alloc \<and> pool_abs t = pool_abs s)"
proof (cases "mem (length key)")
  case False
  then show ?thesis using inv by (auto simp: update_by_issue_41_def atomic_update_def)
next
  case True
  show ?thesis
  proof (cases "length val = length v")
    case same: True
    then have "change_fits v (Update [Write 0 val])" "changed v (Update [Write 0 val]) = val" by (simp_all add: apply_ops_def)
    then show ?thesis using enter_change_correct [OF inv v, of "Update [Write 0 val]" mem] same True
      by (auto simp: update_by_issue_41_def atomic_update_def enter_change_def)
  next
    case False
    then show ?thesis using enter_change_correct [OF inv v, of "Replace val" mem] True
      by (auto simp: update_by_issue_41_def enter_change_def)
  qed
qed

lemma put_correct:
  assumes inv: "pool_inv hf s" and w: "bounded_room room" and fl: "flags = 0 \<or> flags = FLAGS_DONT_STOMP"
  shows "\<exists>c t. hstore_put hf dbg shl room mem key (Some val) flags s = (Inr c, t) \<and> pool_inv hf t \<and> put_allowed (pool_abs s) key val flags c (pool_abs t)"
proof (cases "mem (length key) \<and> mem (length val)")
  case False
  then show ?thesis using inv fl by (auto simp: hstore_put_def put_session_def session_insert_def catch_status_def put_allowed_def)
next
  case True
  have h: "hop_inv hf (pd_map s)" "mod_size s = 0" using inv by (simp_all add: pool_inv_def)
  obtain r g where e: "hop_emplace hf dbg shl room key val (pd_map s) = (r, g)" "hop_inv hf g" and
    cs: "(\<exists>j w. r = Inr (j, False) \<and> j < bucket_count g \<and> hop_used g j = Some (key, w) \<and> hop_abs (pd_map s) key = Some w \<and> hop_abs g = hop_abs (pd_map s)) \<or>
       (\<exists>j. r = Inr (j, True) \<and> j < bucket_count g \<and> hop_used g j = Some (key, val) \<and> hop_abs (pd_map s) key = None \<and> hop_abs g = (hop_abs (pd_map s))(key \<mapsto> val)) \<or>
       (r = Inl Range_error \<or> r = Inl Bad_alloc) \<and> hop_abs (pd_map s) key = None \<and> hop_abs g = hop_abs (pd_map s)"
    using hop_emplace_retry_correct [OF w h(1), of "Suc 32" dbg shl key val] unfolding hop_emplace_def by (auto simp del: hop_emplace_retry.simps)
  let ?s = "s\<lparr>pd_map := g\<rparr>"
  have ins: "session_insert hf dbg shl room mem key val s = (r, ?s)" using True e(1) by (simp add: session_insert_def on_map_def)
  have i: "pool_inv hf ?s" "pool_abs ?s = hop_abs g" using e(2) h(2) by (simp_all add: pool_inv_def pool_abs_def)
  have put: "hstore_put hf dbg shl room mem key (Some val) flags s = catch_status put_code (put_session hf dbg shl room mem key val flags) ret_p (\<lambda>c. c) s"
    using fl by (auto simp: hstore_put_def)
  from cs show ?thesis
  proof (elim disjE exE conjE)
    fix j w assume j: "r = Inr (j, False)" "hop_used g j = Some (key, w)" "hop_abs (pd_map s) key = Some w" "hop_abs g = hop_abs (pd_map s)"
    note kv = used_SomeD [OF j(2)]
    show ?thesis
    proof (cases "flags = 0")
      case False
      then show ?thesis using fl j ins i unfolding put
        by (simp add: put_session_def catch_status_def put_allowed_def flag_set_def pool_abs_def)
    next
      case zero: True
      have "pool_abs ?s key = Some w" using i(2) j by simp
      from issue_41_correct [OF i(1) this, of mem val] show ?thesis using zero j ins i kv unfolding put
        by (auto simp: put_session_def catch_status_def put_allowed_def flag_set_def pool_abs_def bk_def)
    qed
  qed (use ins i fl in \<open>auto simp: put put_session_def catch_status_def put_allowed_def pool_abs_def\<close>)
qed


lemma build_mods_entries:
  "build_mods ops src mods = Inr (src', mods') \<Longrightarrow> set mods \<subseteq> set mods' \<and>
    (\<forall>off bs. Write off bs \<in> set ops \<longrightarrow> (\<exists>c \<in> set mods'. mc_offset_dst c = off \<and> mc_size c = length bs))"
proof (induction ops src mods rule: build_mods.induct)
  case (2 off bs ops src mods)
  let ?c = "\<lparr>mc_offset_src = length src, mc_offset_dst = off, mc_size = length bs\<rparr>"
  note ih = "2.IH" [OF "2.prems" [unfolded build_mods.simps]]
  then have "?c \<in> set mods'" by simp
  then have "\<exists>c \<in> set mods'. mc_offset_dst c = off \<and> mc_size c = length bs" by force
  then show ?case using ih by auto
qed auto

section \<open>A pool with one element\<close>

definition sample_hash :: "string \<Rightarrow> nat" where
  "sample_hash k = 5"

definition sample_pool :: persist_data where
  "sample_pool = \<lparr>pd_map = run_stores (emplace_stores sample_shl 5 5 128 (''k'', [1, 2, 3]))
     \<lparr>hp_buckets = replicate 128 empty_bucket, hp_count = 2, hp_size = 0, hp_junior = [], hp_auto_resize = True\<rparr>,
     mod_key = [], mod_mapped = [], mod_ctl = [], mod_size = 0\<rparr>"

lemma sample_pool_facts: "pool_inv sample_hash sample_pool" "pool_abs sample_pool = [''k'' \<mapsto> [1, 2, 3]]"
proof -
  let ?h = "\<lparr>hp_buckets = replicate 128 empty_bucket, hp_count = 2, hp_size = 0, hp_junior = [], hp_auto_resize = True\<rparr> :: (string, bytes) hop"
  have h: "hop_inv sample_hash ?h" "hop_abs ?h = Map.empty" by (rule hop_new_correct [OF sample_ok(2) sample_new])+
  have c: "bucket_count ?h = 128" by (simp add: bucket_count_def segment_count_def vu_value_not_stable_def hs_bucket_count_def)
  have u: "hop_used ?h 5 = None" by (simp add: hop_used_def bk_used_def bk_def empty_bucket_def)
  note e = emplace_stores_correct [OF h(1), where dst = 5 and k = "''k''" and v = "[1, 2, 3]" and shl = sample_shl]
  show "pool_inv sample_hash sample_pool" "pool_abs sample_pool = [''k'' \<mapsto> [1, 2, 3]]"
    using e(1,2) h c u by (simp_all add: sample_pool_def pool_inv_def pool_abs_def sample_hash_def hop_dist_def)
qed




text \<open>
  C29: The range of an update is not checked: when a write of an update ends after the end of the value,
  the replay writes outside of the value.
\<close>

theorem hstore_update_past_end:
  assumes inv: "pool_inv hf s" and v: "pool_abs s key = Some v" and mem: "\<And>n. mem n" and ops: "Other_op \<notin> set ops"
    and wr: "Write off bs \<in> set ops" "bs \<noteq> []" "length v < off + length bs"
  shows "\<exists>t. hstore_atomic_update hf mem key ops lock s = (Inl Undefined_behaviour, t)"
proof -
  obtain src mods where b: "build_mods ops [] [] = Inr (src, mods)" using build_mods_other [of ops "[]" "[]"] ops by (cases "build_mods ops [] []") auto
  obtain c where c: "c \<in> set mods" "mc_offset_dst c = off" "mc_size c = length bs" using build_mods_entries [OF b] wr(1) by blast
  have h: "hop_inv hf (pd_map s)" "hop_abs (pd_map s) key = Some v" using inv v by (simp_all add: pool_inv_def pool_abs_def)
  obtain j where j: "locate_key (bucket_ix (pd_map s) (hf key)) key (pd_map s) = Inr (Some j)" "hop_used (pd_map s) j = Some (key, v)"
    using h(2) by (rule_tac locate_key_spec [OF hop_invD(2,1) [OF h(1)], where k = key]) auto
  note kv = used_SomeD [OF j(2)]
  let ?s = "run_stores (log_stores key src mods) s"
  have s: "pd_map ?s = pd_map s" "mod_key ?s = key" "mod_mapped ?s = src" "mod_ctl ?s = mods" "mod_size ?s = int (length mods)" by (simp_all add: log_stores_def)
  have "\<not> mod_in_range src v c" using c(2,3) wr(2,3) by (simp add: mod_in_range_def)
  then have "\<not> list_all (mod_in_range src v) mods" using c(1) by (auto simp: list_all_iff)
  moreover have "mods \<noteq> []" using c by auto
  ultimately have "redo_stores hf ?s = Inl Undefined_behaviour"
    using s j(1) kv by (simp add: redo_stores_def redo_update_stores_def bk_def)
  then have "enter_update hf mem key ops s = (Inl Undefined_behaviour, ?s)" using b mem by (simp add: enter_update_def redo_def)
  then show ?thesis using mem j(1) by (simp add: hstore_atomic_update_def lock_and_atomic_update_def atomic_update_def catch_status_def)
qed

theorem hstore_update_past_end_witness:
  "\<exists>t. hstore_atomic_update sample_hash (\<lambda>n. True) ''k'' [Write 2 [7, 7]] True sample_pool = (Inl Undefined_behaviour, t)"
  using hstore_update_past_end [OF sample_pool_facts(1), of "''k''" "[1, 2, 3]" "\<lambda>n. True" "[Write 2 [7, 7]]" 2 "[7, 7]" True] sample_pool_facts(2) by simp

section \<open>Further facts\<close>

lemma session_new:
  assumes "bounded_room room" "hop_new dbg room n = Inr h"
  shows "pool_inv hf \<lparr>pd_map = h, mod_key = k, mod_mapped = b, mod_ctl = c, mod_size = 0\<rparr>"
    "pool_abs \<lparr>pd_map = h, mod_key = k, mod_mapped = b, mod_ctl = c, mod_size = 0\<rparr> = Map.empty"
  using hop_new_correct [OF assms] by (simp_all add: pool_inv_def pool_abs_def)

text \<open>A thread that has used a pool keeps using its session after another thread has closed the pool.\<close>

lemma closed_session_used:
  assumes "pid \<in> op_tls s t" "op_pools s pid = Some d" "t \<noteq> u"
  shows "\<exists>s'. hstore_close_pool u pid s = (Inr S_OK, s') \<and> fst (with_pool t pid none m s') = Inl Undefined_behaviour"
  using assms by (simp add: hstore_close_pool_def move_pool_def catch_status_def with_pool_def locate_session_def)

end
