(* ===== verification/Spec2Isabelle.thy ===== *)
theory Spec2Isabelle
  imports Utils Avl_Tree Avl_Alloc_Contract Interval_Tree Page_Bitmap Lf_Bitmap Slab Nupm_Region Block_Alloc_Ikv Block_Alloc_Aep
    Mpmc_Sequential Spsc_Queue Queue_Waiting Block_Segment Block_Allocator Dax_Region Devdax_Manager Hop_Segments Hop_Bucket Hop_Table Hop_Invariant Hop_Contents Hop_Operations Hop_Resize Hop_Recovery Hop_Properties Fixed_String Hstore_Session Hstore_Log Hstore_Properties
begin

text \<open>
  A verification library for the core of the Comanche storage framework (C and C++ under
  \<open>src/src\<close>). Comanche builds user-level storage services from components: generic containers
  and allocators (\<open>lib/core\<close>, \<open>lib/common\<close>, \<open>lib/nupm\<close>) and components that implement
  interfaces such as block allocators, block devices and key-value stores on top of them.

  \<^bold>\<open>Conventions.\<close> 64-bit unsigned integers are natural numbers with their wrap-around written
  out (\<open>add64\<close>, \<open>sub64\<close>, \<open>mul64\<close> in \<open>Prelude\<close>). A thrown exception, a failed assertion, a
  null dereference or a division by zero is a value of the type \<open>exn\<close>; a method that updates
  its object is a function from the state to a result and the state it leaves behind, also
  when it throws. The argument \<open>dbg\<close> of a definition selects the build with assertions.

  \<^bold>\<open>Theories.\<close>
  \<^item> \<open>Prelude\<close>: 64-bit arithmetic, results, stateful code, bit lengths.
  \<^item> \<open>Utils\<close>: the arithmetic of \<open>common/utils.h\<close>.
  \<^item> \<open>Avl_Tree\<close>: \<open>core/avl_tree.h\<close> with its invariant and the locale \<open>node_set\<close>.
  \<^item> \<open>Avl_Alloc\<close>, \<open>Avl_Alloc_Inv\<close>, \<open>Avl_Alloc_Props\<close>, \<open>Avl_Alloc_Contract\<close>:
    \<open>core/avl_malloc.h\<close>; the contract is the locale \<open>range_heap\<close> of \<open>Heap_Interface\<close>.
\<close>

end
